(* ===== verification/Py_Prelude.thy ===== *)
theory Py_Prelude
  imports Main "HOL-Library.AList" "HOL-Library.Multiset" "HOL-Library.Sublist"
begin

text \<open>
  What every component of the model shares.

  \<^item> \<open>py_exn\<close> are the Python exceptions that some branch of the modelled code raises, and
    \<open>outcome\<close> is the result of a call that may return a value, raise, or run for ever.
    Both \<open>Return\<close> and \<open>Raise\<close> carry the state: an exception in Python does not undo what
    was already mutated.
  \<^item> Loops whose termination depends on the shape of the object graph are
    \<^theory_text>\<open>partial_function (option)\<close>s; \<open>run_loop\<close> turns their result into an \<open>outcome\<close>
    (\<open>None\<close>, the loop that never stops, becomes \<open>Diverge\<close>).
  \<^item> Python dictionaries whose iteration order or emptiness the code looks at are association
    lists, with \<open>map_of\<close> for lookup, \<open>AList.update\<close> for assignment (in place when the key is
    there, at the end when it is new, as Python does) and \<open>AList.delete\<close> for \<open>pop\<close>.
  \<^item> The generic lemmas on lists, sums and association lists that several components use.
\<close>

section \<open>Exceptions and results\<close>

datatype py_exn =
    AssertionError
  | AttributeError
  | IndexError
  | KeyError
  | MemoryError
  | NotImplementedError
  | TypeError
  | ValueError

datatype ('a, 's) outcome =
    Return 'a 's
  | Raise py_exn 's
  | Diverge

definition run_loop :: "('a, 's) outcome option \<Rightarrow> ('a, 's) outcome" where
  "run_loop r = (case r of None \<Rightarrow> Diverge | Some x \<Rightarrow> x)"

lemma run_loop_simps [simp]:
  "run_loop None = Diverge" "run_loop (Some x) = x"
  by (simp_all add: run_loop_def)

fun bind_outcome :: "('a, 's) outcome \<Rightarrow> ('a \<Rightarrow> 's \<Rightarrow> ('b, 's) outcome) \<Rightarrow> ('b, 's) outcome" where
  "bind_outcome (Return x s) f = f x s"
| "bind_outcome (Raise e s) f = Raise e s"
| "bind_outcome Diverge f = Diverge"

lemma bind_outcome_ReturnE:
  assumes "bind_outcome m f = Return y t"
  obtains x s where "m = Return x s" "f x s = Return y t"
  using assms by (cases m) auto

named_theorems inv_defs "the conjuncts of the component invariants"

section \<open>Lists\<close>

lemma take_append_le: "n \<le> length xs \<Longrightarrow> take n (xs @ ys) = take n xs"
  by simp

lemma prefix_take_iff: "prefix xs ys \<longleftrightarrow> take (length xs) ys = xs \<and> length xs \<le> length ys"
proof
  assume "prefix xs ys"
  then show "take (length xs) ys = xs \<and> length xs \<le> length ys"
    by (auto simp: prefix_def)
next
  assume "take (length xs) ys = xs \<and> length xs \<le> length ys"
  then show "prefix xs ys"
    by (metis take_is_prefix)
qed

lemma prefix_length_split:
  "prefix xs ys \<Longrightarrow> \<exists>zs. ys = xs @ zs"
  by (auto simp: prefix_def)

lemma hd_drop_nth: "n < length xs \<Longrightarrow> hd (drop n xs) = xs ! n"
  by (rule hd_drop_conv_nth)

section \<open>Sums over finite sets, changed at one point\<close>

lemma sum_update_point:
  fixes f g :: "'a \<Rightarrow> int"
  assumes "finite A" "a \<in> A" "\<And>x. x \<in> A \<Longrightarrow> x \<noteq> a \<Longrightarrow> g x = f x"
  shows "sum g A = sum f A - f a + g a"
proof -
  have "sum g (A - {a}) = sum f (A - {a})"
    using assms(3) by (intro sum.cong) auto
  with assms(1,2) show ?thesis
    by (simp add: sum.remove [of A a f] sum.remove [of A a g])
qed

lemma sum_insert_point:
  fixes f g :: "'a \<Rightarrow> int"
  assumes "finite A" "a \<notin> A" "\<And>x. x \<in> A \<Longrightarrow> g x = f x"
  shows "sum g (insert a A) = sum f A + g a"
proof -
  have "sum g A = sum f A"
    using assms(3) by (intro sum.cong) auto
  with assms(1,2) show ?thesis by simp
qed

lemma sum_remove_point:
  fixes f g :: "'a \<Rightarrow> int"
  assumes "finite A" "a \<in> A" "\<And>x. x \<in> A \<Longrightarrow> x \<noteq> a \<Longrightarrow> g x = f x"
  shows "sum g (A - {a}) = sum f A - f a"
proof -
  have "sum g (A - {a}) = sum f (A - {a})"
    using assms(3) by (intro sum.cong) auto
  with assms(1,2) show ?thesis
    by (simp add: sum.remove [of A a f])
qed

section \<open>Association lists as Python dictionaries\<close>

lemma alist_update_keys:
  "map fst (AList.update k v al) = (if k \<in> set (map fst al) then map fst al else map fst al @ [k])"
  by (induction al) auto

lemma distinct_alist_update:
  "distinct (map fst al) \<Longrightarrow> distinct (map fst (AList.update k v al))"
  by (simp add: alist_update_keys)

lemma set_alist_update:
  assumes "distinct (map fst al)"
  shows "set (AList.update k v al) = insert (k, v) {p \<in> set al. fst p \<noteq> k}"
  using assms by (induction al) (auto simp: image_iff)

lemma set_alist_delete: "set (AList.delete k al) = {p \<in> set al. fst p \<noteq> k}"
  by (auto simp: AList.delete_eq)

lemma distinct_alist_delete:
  "distinct (map fst al) \<Longrightarrow> distinct (map fst (AList.delete k al))"
  by (induction al) (auto simp: AList.delete_eq)

lemma sum_list_alist_update_new:
  fixes f :: "'v \<Rightarrow> int"
  assumes "k \<notin> set (map fst al)"
  shows "(\<Sum>p\<leftarrow>AList.update k v al. f (snd p)) = (\<Sum>p\<leftarrow>al. f (snd p)) + f v"
  using assms by (induction al) auto

lemma sum_list_alist_update_old:
  fixes f :: "'v \<Rightarrow> int"
  assumes "distinct (map fst al)" "map_of al k = Some w"
  shows "(\<Sum>p\<leftarrow>AList.update k v al. f (snd p)) = (\<Sum>p\<leftarrow>al. f (snd p)) - f w + f v"
  using assms
proof (induction al)
  case Nil
  then show ?case by simp
next
  case (Cons p al)
  show ?case
  proof (cases "fst p = k")
    case True
    with Cons.prems show ?thesis by auto
  next
    case False
    with Cons show ?thesis by auto
  qed
qed

lemma sum_list_alist_delete:
  fixes f :: "'v \<Rightarrow> int"
  assumes "distinct (map fst al)" "map_of al k = Some w"
  shows "(\<Sum>p\<leftarrow>AList.delete k al. f (snd p)) = (\<Sum>p\<leftarrow>al. f (snd p)) - f w"
  using assms
proof (induction al)
  case Nil
  then show ?case by simp
next
  case (Cons p al)
  show ?case
  proof (cases "fst p = k")
    case True
    with Cons.prems have "k \<notin> fst ` set al"
      by auto
    then have "AList.delete k al = al"
      by simp
    with True Cons.prems show ?thesis by (cases p) auto
  next
    case False
    with Cons show ?thesis by auto
  qed
qed

lemma sum_list_point:
  fixes f g :: "'v \<Rightarrow> int"
  assumes "distinct (map snd al)" "w \<in> set (map snd al)"
    and "\<And>x. x \<in> set (map snd al) \<Longrightarrow> x \<noteq> w \<Longrightarrow> g x = f x"
  shows "(\<Sum>p\<leftarrow>al. g (snd p)) = (\<Sum>p\<leftarrow>al. f (snd p)) - f w + g w"
  using assms
proof (induction al)
  case Nil
  then show ?case by simp
next
  case (Cons p al)
  show ?case
  proof (cases "snd p = w")
    case True
    from Cons.prems(1) True have "w \<notin> snd ` set al"
      by auto
    then have "g (snd q) = f (snd q)" if "q \<in> set al" for q
      using that by (intro Cons.prems(3)) force+
    then have "map (\<lambda>p. g (snd p)) al = map (\<lambda>p. f (snd p)) al"
      by simp
    then have "(\<Sum>p\<leftarrow>al. g (snd p)) = (\<Sum>p\<leftarrow>al. f (snd p))"
      by metis
    with True show ?thesis by simp
  next
    case False
    with Cons have "(\<Sum>p\<leftarrow>al. g (snd p)) = (\<Sum>p\<leftarrow>al. f (snd p)) - f w + g w"
      by auto
    moreover have "g (snd p) = f (snd p)"
      using False by (intro Cons.prems(3)) auto
    ultimately show ?thesis by simp
  qed
qed

end
