(* ===== verification/Cache_Types.thy ===== *)
theory Cache_Types
  imports Py_Prelude
begin

text \<open>
  The parameter and result types of \<open>base_prefix_cache.py\<close> and \<open>cache_init_params.py\<close>, and
  the non-abstract methods of \<open>BasePrefixCache\<close>. Tokens and pool slots are Python integers
  (\<open>int\<close>), a tree node is known by its identity (\<open>nat\<close>, see Tree_Node), and an optional
  argument is an \<open>option\<close>.
\<close>

section \<open>Identities, tokens, slots\<close>

type_synonym token = int
type_synonym slot = int
type_synonym node_id = nat

section \<open>base_prefix_cache.py\<close>

record match_result =
  mr_device_indices :: "slot list"
  mr_last_node :: node_id

record insert_params =
  ip_key :: "token list"
  ip_value :: "slot list option"
  ip_priority :: "int option"

definition InsertParams :: "token list \<Rightarrow> slot list option \<Rightarrow> insert_params" where
  "InsertParams key value = \<lparr>ip_key = key, ip_value = value, ip_priority = Some 0\<rparr>"

text \<open>A missing value stands for the key itself.\<close>

definition param_value :: "insert_params \<Rightarrow> slot list" where
  "param_value params = (case ip_value params of None \<Rightarrow> ip_key params | Some v \<Rightarrow> v)"

record insert_result =
  ir_prefix_len :: nat

record evict_params =
  ep_num_tokens :: int

record evict_result =
  er_num_tokens_evicted :: int

definition EvictResult_default :: evict_result where
  "EvictResult_default = \<lparr>er_num_tokens_evicted = 0\<rparr>"

definition base_evictable_size :: "'s \<Rightarrow> (int, 's) outcome" where
  "base_evictable_size s = Return 0 s"

definition base_protected_size :: "'s \<Rightarrow> (int, 's) outcome" where
  "base_protected_size s = Return 0 s"

definition base_total_size :: "'s \<Rightarrow> (int, 's) outcome" where
  "base_total_size s = Raise NotImplementedError s"

section \<open>cache_init_params.py\<close>

record cache_init_params =
  cp_disable :: bool
  cp_page_size :: int
  cp_eviction_policy :: string

definition CacheInitParams_default :: cache_init_params where
  "CacheInitParams_default =
     \<lparr>cp_disable = False, cp_page_size = 1, cp_eviction_policy = ''lru''\<rparr>"

text \<open>\<open>str.lower\<close> on ASCII strings.\<close>

definition py_lower_char :: "char \<Rightarrow> char" where
  "py_lower_char c =
     (let n = (of_char c :: nat) in if 65 \<le> n \<and> n \<le> 90 then char_of (n + 32) else c)"

definition py_lower :: "string \<Rightarrow> string" where
  "py_lower = map py_lower_char"

end
