(* ===== verification/Tree_Node.thy ===== *)
theory Tree_Node
  imports Cache_Types
begin

text \<open>
  \<open>TreeNode\<close> and \<open>_key_match\<close> of \<open>radix_cache.py\<close>.

  Tree nodes are Python objects that are shared: a node is in its parent's \<open>children\<close>, it is
  the \<open>parent\<close> of its own children, it may be in \<open>evictable_leaves\<close>, and a request keeps a
  reference to the node it locked. They therefore live in an explicit store, a function from
  identities to the fields, and every assignment to a field is an update of the store. The
  identity of a node is the value of \<open>TreeNode.counter\<close> when it was made (the code gives no
  other \<open>id\<close>, so identities are never reused); \<open>==\<close>, \<open>in\<close> and \<open>set\<close> on nodes
  compare identities, as the class defines no \<open>__eq__\<close>.

  \<open>time.monotonic()\<close> is an input: \<open>w_clock k\<close> is the \<open>k\<close>th reading of the clock and
  \<open>w_reads\<close> counts the readings so far. Readings are integers (ticks of the clock): the code
  only compares and negates them. \<open>list(s)\<close> of a set \<open>s\<close> of nodes has an order the language
  leaves open; it too is an input, \<open>w_set_order s\<close>.
\<close>

section \<open>TreeNode\<close>

record tree_node =
  tn_children :: "(token \<times> node_id) list"
  tn_parent :: "node_id option"
  tn_key :: "token list"
  tn_value :: "slot list option"
  tn_lock_ref :: int
  tn_last_access :: int
  tn_creation :: int
  tn_hit_count :: int
  tn_priority :: int

record py_world =
  w_heap :: "node_id \<Rightarrow> tree_node"
  w_counter :: nat
  w_clock :: "nat \<Rightarrow> int"
  w_reads :: nat
  w_set_order :: "node_id set \<Rightarrow> node_id list"

definition monotonic :: "'a py_world_scheme \<Rightarrow> int \<times> 'a py_world_scheme" where
  "monotonic w = (w_clock w (w_reads w), w\<lparr>w_reads := Suc (w_reads w)\<rparr>)"

definition upd_node ::
  "node_id \<Rightarrow> (tree_node \<Rightarrow> tree_node) \<Rightarrow> 'a py_world_scheme \<Rightarrow> 'a py_world_scheme" where
  "upd_node n f w = w\<lparr>w_heap := (w_heap w)(n := f (w_heap w n))\<rparr>"

text \<open>The constructor: two readings of the clock, the counter gives the identity.\<close>

definition new_node :: "int \<Rightarrow> 'a py_world_scheme \<Rightarrow> node_id \<times> 'a py_world_scheme" where
  "new_node prio w =
     (let (t1, w1) = monotonic w;
          (t2, w2) = monotonic w1;
          n = w_counter w2
      in (n, w2\<lparr>w_heap := (w_heap w2)(n :=
                 \<lparr>tn_children = [], tn_parent = None, tn_key = [], tn_value = None,
                  tn_lock_ref = 0, tn_last_access = t1, tn_creation = t2,
                  tn_hit_count = 0, tn_priority = prio\<rparr>),
               w_counter := Suc n\<rparr>))"

definition evicted :: "tree_node \<Rightarrow> bool" where
  "evicted nd = (tn_value nd = None)"

definition tree_node_lt :: "tree_node \<Rightarrow> tree_node \<Rightarrow> bool" where
  "tree_node_lt a b = (tn_last_access a < tn_last_access b)"

subsection \<open>What the constructor and the field updates change\<close>

lemma new_node_fst [simp]: "fst (new_node p w) = w_counter w"
  by (simp add: new_node_def monotonic_def Let_def)

lemma new_node_frame [simp]:
  "w_counter (snd (new_node p w)) = Suc (w_counter w)"
  "w_clock (snd (new_node p w)) = w_clock w"
  "w_set_order (snd (new_node p w)) = w_set_order w"
  "w_reads (snd (new_node p w)) = Suc (Suc (w_reads w))"
  "n \<noteq> w_counter w \<Longrightarrow> w_heap (snd (new_node p w)) n = w_heap w n"
  "py_world.more (snd (new_node p w)) = py_world.more w"
  by (simp_all add: new_node_def monotonic_def Let_def)

lemma new_node_heap:
  "w_heap (snd (new_node p w)) (w_counter w) =
     \<lparr>tn_children = [], tn_parent = None, tn_key = [], tn_value = None,
      tn_lock_ref = 0, tn_last_access = w_clock w (w_reads w),
      tn_creation = w_clock w (Suc (w_reads w)), tn_hit_count = 0, tn_priority = p\<rparr>"
  by (simp add: new_node_def monotonic_def Let_def)

lemma upd_node_frame [simp]:
  "w_counter (upd_node n f w) = w_counter w"
  "w_clock (upd_node n f w) = w_clock w"
  "w_set_order (upd_node n f w) = w_set_order w"
  "w_reads (upd_node n f w) = w_reads w"
  "py_world.more (upd_node n f w) = py_world.more w"
  "w_heap (upd_node n f w) = (w_heap w)(n := f (w_heap w n))"
  by (simp_all add: upd_node_def)

section \<open>_key_match\<close>

text \<open>The loop over \<open>zip(key0, key1)\<close>, with the counter \<open>i\<close>.\<close>

fun key_match_loop :: "nat \<Rightarrow> (token \<times> token) list \<Rightarrow> nat" where
  "key_match_loop i [] = i"
| "key_match_loop i ((k0, k1) # ps) = (if k0 \<noteq> k1 then i else key_match_loop (i + 1) ps)"

definition key_match :: "token list \<Rightarrow> token list \<Rightarrow> nat" where
  "key_match key0 key1 = key_match_loop 0 (zip key0 key1)"

lemma key_match_loop_shift: "key_match_loop (i + j) ps = i + key_match_loop j ps"
  by (induction j ps rule: key_match_loop.induct) auto

lemma key_match_Nil [simp]: "key_match [] ys = 0" "key_match xs [] = 0"
  by (simp_all add: key_match_def)

lemma key_match_Cons [simp]:
  "key_match (x # xs) (y # ys) = (if x = y then Suc (key_match xs ys) else 0)"
  using key_match_loop_shift [of 1 0] by (simp add: key_match_def)

lemma key_match_le: "key_match xs ys \<le> length xs" "key_match xs ys \<le> length ys"
  by (induction xs ys rule: list_induct2') auto

lemma key_match_prefix: "take (key_match xs ys) xs = take (key_match xs ys) ys"
  by (induction xs ys rule: list_induct2') auto

lemma key_match_differ:
  "key_match xs ys < length xs \<Longrightarrow> key_match xs ys < length ys \<Longrightarrow>
     xs ! key_match xs ys \<noteq> ys ! key_match xs ys"
  by (induction xs ys rule: list_induct2') (auto split: if_splits)

lemma key_match_greatest:
  "take n xs = take n ys \<Longrightarrow> n \<le> length xs \<Longrightarrow> n \<le> length ys \<Longrightarrow> n \<le> key_match xs ys"
proof (induction xs ys arbitrary: n rule: list_induct2')
  case (4 x xs y ys)
  then show ?case by (cases n) auto
qed auto

lemma key_match_pos: "xs \<noteq> [] \<Longrightarrow> ys \<noteq> [] \<Longrightarrow> hd xs = hd ys \<Longrightarrow> 0 < key_match xs ys"
  by (cases xs; cases ys) auto

lemma key_match_full:
  "key_match xs ys = length xs \<longleftrightarrow> prefix xs ys"
proof
  assume eq: "key_match xs ys = length xs"
  have "take (length xs) ys = xs"
    using key_match_prefix [of xs ys] unfolding eq by simp
  with eq show "prefix xs ys"
    using key_match_le(2) [of xs ys] by (simp add: prefix_take_iff)
next
  assume "prefix xs ys"
  then show "key_match xs ys = length xs"
    by (induction xs ys rule: list_induct2') auto
qed

lemma key_match_append_self [simp]: "key_match xs (xs @ ys) = length xs"
  by (simp add: key_match_full)

lemma key_match_self [simp]: "key_match xs xs = length xs"
  by (simp add: key_match_full)

lemma key_match_full_split: "key_match xs ys = length xs \<Longrightarrow> ys = xs @ drop (length xs) ys"
  by (metis append_take_drop_id key_match_prefix order_refl take_all)

end
