(* ===== verification/Evict_Policy.thy ===== *)
theory Evict_Policy
  imports Tree_Node
begin

text \<open>
  \<open>evict_policy.py\<close>: the six strategies and their \<open>get_priority\<close>, and the string
  dispatch of \<open>RadixCache.__init__\<close>. A priority is a float or a pair; Python compares floats
  by value and pairs lexicographically. The order on mixed priorities is never used (one cache
  has one strategy, lemma \<open>get_priority_shape\<close>); it is filled in so that priorities are a
  linear order of the library.
\<close>

section \<open>Strategies\<close>

datatype eviction_strategy =
    LRUStrategy
  | LFUStrategy
  | FIFOStrategy
  | MRUStrategy
  | FILOStrategy
  | PriorityStrategy

datatype prio =
    PFloat int
  | PTuple int int

fun get_priority :: "eviction_strategy \<Rightarrow> tree_node \<Rightarrow> prio" where
  "get_priority LRUStrategy node = PFloat (tn_last_access node)"
| "get_priority LFUStrategy node = PTuple (tn_hit_count node) (tn_last_access node)"
| "get_priority FIFOStrategy node = PFloat (tn_creation node)"
| "get_priority MRUStrategy node = PFloat (- tn_last_access node)"
| "get_priority FILOStrategy node = PFloat (- tn_creation node)"
| "get_priority PriorityStrategy node = PTuple (tn_priority node) (tn_last_access node)"

definition strategy_of_policy :: "string \<Rightarrow> eviction_strategy option" where
  "strategy_of_policy policy =
     (if policy = ''lru'' then Some LRUStrategy
      else if policy = ''lfu'' then Some LFUStrategy
      else if policy = ''fifo'' then Some FIFOStrategy
      else if policy = ''mru'' then Some MRUStrategy
      else if policy = ''filo'' then Some FILOStrategy
      else if policy = ''priority'' then Some PriorityStrategy
      else None)"

section \<open>The order on priorities\<close>

instantiation prio :: linorder
begin

fun less_eq_prio :: "prio \<Rightarrow> prio \<Rightarrow> bool" where
  "PFloat a \<le> PFloat b \<longleftrightarrow> a \<le> b"
| "PFloat a \<le> PTuple c d \<longleftrightarrow> True"
| "PTuple a b \<le> PFloat c \<longleftrightarrow> False"
| "PTuple a b \<le> PTuple c d \<longleftrightarrow> a < c \<or> a = c \<and> b \<le> d"

definition less_prio :: "prio \<Rightarrow> prio \<Rightarrow> bool" where
  "less_prio p q \<longleftrightarrow> p \<le> q \<and> \<not> q \<le> p"

instance
proof
  fix x y z :: prio
  show "x < y \<longleftrightarrow> x \<le> y \<and> \<not> y \<le> x"
    by (rule less_prio_def)
  show "x \<le> x"
    by (cases x) auto
  show "x \<le> y \<Longrightarrow> y \<le> z \<Longrightarrow> x \<le> z"
    by (cases x; cases y; cases z) auto
  show "x \<le> y \<Longrightarrow> y \<le> x \<Longrightarrow> x = y"
    by (cases x; cases y) auto
  show "x \<le> y \<or> y \<le> x"
    by (cases x; cases y) auto
qed

end

lemma less_prio_simps [simp]:
  "PFloat a < PFloat b \<longleftrightarrow> a < b"
  "PTuple a b < PTuple c d \<longleftrightarrow> a < c \<or> a = c \<and> b < d"
  by (auto simp: less_prio_def)

lemma get_priority_shape:
  "(\<forall>node. \<exists>x. get_priority st node = PFloat x) \<or>
   (\<forall>node. \<exists>x y. get_priority st node = PTuple x y)"
  by (cases st) auto

text \<open>
  Heap entries are pairs \<open>(priority, node)\<close>. Python compares tuples at the first position
  where they differ, and nodes by \<open>TreeNode.__lt__\<close>.
\<close>

definition entry_lt :: "(node_id \<Rightarrow> tree_node) \<Rightarrow> prio \<times> node_id \<Rightarrow> prio \<times> node_id \<Rightarrow> bool" where
  "entry_lt h e1 e2 =
     (if fst e1 = fst e2
      then (if snd e1 = snd e2 then False else tree_node_lt (h (snd e1)) (h (snd e2)))
      else fst e1 < fst e2)"

end
