(* ===== verification/Heapq.thy ===== *)
theory Heapq
  imports Evict_Policy
begin

text \<open>
  The part of Python's standard module \<open>heapq\<close> that \<open>RadixCache.evict\<close> calls:
  \<open>heapify\<close>, \<open>heappop\<close> and \<open>heappush\<close> on a list, in the reference algorithm of the
  module (the hole is sifted to a leaf, then the item is sifted back up), so that the choice
  among equal entries is Python's too. The comparison is a parameter \<open>lt\<close>; the laws it has to
  satisfy are the locale \<open>weak_order\<close>, what a user of the queue may rely on is the locale
  \<open>priority_queue\<close>, and the second is proved of the algorithm from the first.
\<close>

section \<open>The algorithm\<close>

function siftdown_loop ::
  "('a \<Rightarrow> 'a \<Rightarrow> bool) \<Rightarrow> 'a list \<Rightarrow> nat \<Rightarrow> nat \<Rightarrow> 'a \<Rightarrow> 'a list" where
  "siftdown_loop lt xs startpos pos newitem =
     (if startpos < pos
      then (let parentpos = (pos - 1) div 2; par = xs ! parentpos
            in if lt newitem par
               then siftdown_loop lt (xs[pos := par]) startpos parentpos newitem
               else xs[pos := newitem])
      else xs[pos := newitem])"
  by pat_completeness auto
termination
  by (relation "measure (\<lambda>(lt, xs, startpos, pos, newitem). pos)") auto

definition siftdown :: "('a \<Rightarrow> 'a \<Rightarrow> bool) \<Rightarrow> 'a list \<Rightarrow> nat \<Rightarrow> nat \<Rightarrow> 'a list" where
  "siftdown lt xs startpos pos = siftdown_loop lt xs startpos pos (xs ! pos)"

function siftup_loop :: "('a \<Rightarrow> 'a \<Rightarrow> bool) \<Rightarrow> 'a list \<Rightarrow> nat \<Rightarrow> 'a list \<times> nat" where
  "siftup_loop lt xs pos =
     (let childpos = 2 * pos + 1 in
      if childpos < length xs
      then (let rightpos = childpos + 1;
                c = (if rightpos < length xs \<and> \<not> lt (xs ! childpos) (xs ! rightpos)
                     then rightpos else childpos)
            in siftup_loop lt (xs[pos := xs ! c]) c)
      else (xs, pos))"
  by pat_completeness auto
termination
  by (relation "measure (\<lambda>(lt, xs, pos). length xs - pos)") (auto simp: Let_def)

definition siftup :: "('a \<Rightarrow> 'a \<Rightarrow> bool) \<Rightarrow> 'a list \<Rightarrow> nat \<Rightarrow> 'a list" where
  "siftup lt xs pos =
     (let newitem = xs ! pos; (ys, p) = siftup_loop lt xs pos
      in siftdown lt (ys[p := newitem]) pos p)"

definition heapify :: "('a \<Rightarrow> 'a \<Rightarrow> bool) \<Rightarrow> 'a list \<Rightarrow> 'a list" where
  "heapify lt xs = foldl (\<lambda>ys i. siftup lt ys i) xs (rev [0..<length xs div 2])"

definition heappush :: "('a \<Rightarrow> 'a \<Rightarrow> bool) \<Rightarrow> 'a list \<Rightarrow> 'a \<Rightarrow> 'a list" where
  "heappush lt xs item = siftdown lt (xs @ [item]) 0 (length xs)"

text \<open>\<open>heappop\<close> on a non-empty heap (on an empty one it raises \<open>IndexError\<close>; \<open>evict\<close> tests first).\<close>

definition heappop :: "('a \<Rightarrow> 'a \<Rightarrow> bool) \<Rightarrow> 'a list \<Rightarrow> 'a \<times> 'a list" where
  "heappop lt xs =
     (let lastelt = last xs; ys = butlast xs
      in if ys \<noteq> [] then (ys ! 0, siftup lt (ys[0 := lastelt]) 0) else (lastelt, ys))"

declare siftdown_loop.simps [simp del] siftup_loop.simps [simp del]

section \<open>Elements are only permuted\<close>

lemma mset_hole_move:
  assumes "i < length xs" "j < length xs" "i \<noteq> j"
  shows "mset ((xs[i := xs ! j])[j := v]) = mset (xs[i := v])"
proof -
  have "mset ((xs[i := v])[j := (xs[i := v]) ! i, i := (xs[i := v]) ! j]) = mset (xs[i := v])"
    using assms by (intro mset_swap) auto
  moreover have "(xs[i := v])[j := (xs[i := v]) ! i, i := (xs[i := v]) ! j]
      = (xs[i := xs ! j])[j := v]"
    using assms by (auto intro!: nth_equalityI simp: nth_list_update)
  ultimately show ?thesis by simp
qed

lemma length_siftdown_loop [simp]: "length (siftdown_loop lt xs s p v) = length xs"
  by (induction lt xs s p v rule: siftdown_loop.induct)
     (subst siftdown_loop.simps, auto simp: Let_def)

lemma mset_siftdown_loop:
  "p < length xs \<Longrightarrow> mset (siftdown_loop lt xs s p v) = mset (xs[p := v])"
proof (induction lt xs s p v rule: siftdown_loop.induct)
  case (1 lt xs s p v)
  show ?case
  proof (cases "s < p \<and> lt v (xs ! ((p - 1) div 2))")
    case True
    with 1 have "mset (siftdown_loop lt xs s p v)
        = mset ((xs[p := xs ! ((p - 1) div 2)])[(p - 1) div 2 := v])"
      by (subst siftdown_loop.simps) (simp add: Let_def)
    also have "\<dots> = mset (xs[p := v])"
      using True 1(2) by (intro mset_hole_move) auto
    finally show ?thesis .
  next
    case False
    then show ?thesis by (subst siftdown_loop.simps) (auto simp: Let_def)
  qed
qed

lemma mset_siftdown: "p < length xs \<Longrightarrow> mset (siftdown lt xs s p) = mset xs"
  by (simp add: siftdown_def mset_siftdown_loop)

lemma length_siftdown [simp]: "length (siftdown lt xs s p) = length xs"
  by (simp add: siftdown_def)

lemma siftup_loop_length [simp]: "length (fst (siftup_loop lt xs p)) = length xs"
  by (induction lt xs p rule: siftup_loop.induct)
     (subst siftup_loop.simps, auto simp: Let_def)

lemma siftup_loop_pos:
  "p < length xs \<Longrightarrow> snd (siftup_loop lt xs p) < length xs"
proof (induction lt xs p rule: siftup_loop.induct)
  case (1 lt xs p)
  then show ?case by (subst siftup_loop.simps) (auto simp: Let_def)
qed

lemma mset_siftup_loop:
  "p < length xs \<Longrightarrow>
   mset ((fst (siftup_loop lt xs p))[snd (siftup_loop lt xs p) := v]) = mset (xs[p := v])"
proof (induction lt xs p rule: siftup_loop.induct)
  case (1 lt xs p)
  let ?l = "2 * p + 1"
  let ?c = "if ?l + 1 < length xs \<and> \<not> lt (xs ! ?l) (xs ! (?l + 1)) then ?l + 1 else ?l"
  show ?case
  proof (cases "?l < length xs")
    case True
    have c: "?c < length xs" "p \<noteq> ?c" using True by auto
    have unf: "siftup_loop lt xs p = siftup_loop lt (xs[p := xs ! ?c]) ?c"
      using True by (subst siftup_loop.simps) (simp add: Let_def)
    have "mset ((fst (siftup_loop lt xs p))[snd (siftup_loop lt xs p) := v])
        = mset ((xs[p := xs ! ?c])[?c := v])"
      unfolding unf using 1(1) [OF refl True refl refl] c by simp
    also have "\<dots> = mset (xs[p := v])"
      using c 1(2) by (intro mset_hole_move) auto
    finally show ?thesis .
  next
    case False
    then show ?thesis by (subst (1 2) siftup_loop.simps) (simp add: Let_def)
  qed
qed

lemma length_siftup [simp]: "length (siftup lt xs p) = length xs"
  by (simp add: siftup_def Let_def split: prod.split)
     (metis fst_conv siftup_loop_length)

lemma mset_siftup:
  assumes "p < length xs"
  shows "mset (siftup lt xs p) = mset xs"
proof -
  obtain ys q where s: "siftup_loop lt xs p = (ys, q)" by fastforce
  have "q < length ys"
    using siftup_loop_pos [OF assms, of lt] siftup_loop_length [of lt xs p] s by simp
  then have "mset (siftup lt xs p) = mset (ys[q := xs ! p])"
    by (simp add: siftup_def s mset_siftdown)
  also have "\<dots> = mset (xs[p := xs ! p])"
    using mset_siftup_loop [OF assms, of lt "xs ! p"] s by simp
  finally show ?thesis by simp
qed

lemma foldl_siftup_mset:
  "(\<forall>i \<in> set is. i < length xs) \<Longrightarrow>
   mset (foldl (\<lambda>ys i. siftup lt ys i) xs is) = mset xs"
  by (induction "is" arbitrary: xs) (auto simp: mset_siftup)

lemma mset_heapify [simp]: "mset (heapify lt xs) = mset xs"
  unfolding heapify_def by (rule foldl_siftup_mset) auto

lemma mset_heappush [simp]: "mset (heappush lt xs v) = add_mset v (mset xs)"
  by (simp add: heappush_def mset_siftdown)

lemma mset_heappop:
  assumes "xs \<noteq> []"
  shows "add_mset (fst (heappop lt xs)) (mset (snd (heappop lt xs))) = mset xs"
proof (cases "butlast xs")
  case Nil
  then have "xs = [last xs]"
    using assms by (metis append_Nil append_butlast_last_id)
  with Nil show ?thesis
    by (simp add: heappop_def)
next
  case (Cons y ys)
  have "mset xs = mset (butlast xs @ [last xs])"
    using assms by simp
  with Cons show ?thesis
    by (simp add: heappop_def mset_siftup)
qed

section \<open>The heap order\<close>

text \<open>The laws of the comparison: Python asks that it is a strict weak order.\<close>

locale weak_order =
  fixes lt :: "'a \<Rightarrow> 'a \<Rightarrow> bool"
  assumes asym: "lt x y \<Longrightarrow> \<not> lt y x"
    and negtrans: "\<not> lt x y \<Longrightarrow> \<not> lt y z \<Longrightarrow> \<not> lt x z"

text \<open>\<open>heap_above lt s xs\<close>: the heap order holds at every node whose parent is at \<open>s\<close> or later.\<close>

definition heap_above :: "('a \<Rightarrow> 'a \<Rightarrow> bool) \<Rightarrow> nat \<Rightarrow> 'a list \<Rightarrow> bool" where
  "heap_above lt s xs \<longleftrightarrow>
     (\<forall>i < length xs. 0 < i \<longrightarrow> s \<le> (i - 1) div 2 \<longrightarrow> \<not> lt (xs ! i) (xs ! ((i - 1) div 2)))"

definition is_heap :: "('a \<Rightarrow> 'a \<Rightarrow> bool) \<Rightarrow> 'a list \<Rightarrow> bool" where
  "is_heap lt xs = heap_above lt 0 xs"

text \<open>
  The order around a hole at \<open>p\<close>: every edge that does not touch the hole is ordered, and the
  children of the hole are not below its parent.
\<close>

definition hole_ok :: "('a \<Rightarrow> 'a \<Rightarrow> bool) \<Rightarrow> nat \<Rightarrow> 'a list \<Rightarrow> nat \<Rightarrow> bool" where
  "hole_ok lt s xs p \<longleftrightarrow>
     (\<forall>i < length xs. 0 < i \<longrightarrow> s \<le> (i - 1) div 2 \<longrightarrow> i \<noteq> p \<longrightarrow> (i - 1) div 2 \<noteq> p \<longrightarrow>
        \<not> lt (xs ! i) (xs ! ((i - 1) div 2))) \<and>
     (\<forall>i < length xs. 0 < i \<longrightarrow> (i - 1) div 2 = p \<longrightarrow> s < p \<longrightarrow>
        \<not> lt (xs ! i) (xs ! ((p - 1) div 2)))"

lemma hole_okD1:
  "hole_ok lt s xs p \<Longrightarrow> i < length xs \<Longrightarrow> 0 < i \<Longrightarrow> s \<le> (i - 1) div 2 \<Longrightarrow> i \<noteq> p \<Longrightarrow>
     (i - 1) div 2 \<noteq> p \<Longrightarrow> \<not> lt (xs ! i) (xs ! ((i - 1) div 2))"
  by (simp add: hole_ok_def)

lemma hole_okD2:
  "hole_ok lt s xs p \<Longrightarrow> i < length xs \<Longrightarrow> 0 < i \<Longrightarrow> (i - 1) div 2 = p \<Longrightarrow> s < p \<Longrightarrow>
     \<not> lt (xs ! i) (xs ! ((p - 1) div 2))"
  by (simp add: hole_ok_def)

text \<open>
  The root of the sub-heap at \<open>s\<close> has an ancestor chain above \<open>s\<close> only when \<open>s\<close> itself is on
  it; \<open>on_path s p\<close> says that climbing from \<open>p\<close> meets \<open>s\<close>.
\<close>

function on_path :: "nat \<Rightarrow> nat \<Rightarrow> bool" where
  "on_path s p = (if p = s then True else if p < s then False else on_path s ((p - 1) div 2))"
  by pat_completeness auto
termination
  by (relation "measure (\<lambda>(s, p). p)") auto

declare on_path.simps [simp del]

lemma on_path_self [simp]: "on_path s s"
  by (simp add: on_path.simps)

lemma on_path_ge: "on_path s p \<Longrightarrow> s \<le> p"
  by (subst (asm) on_path.simps) (auto split: if_splits)

lemma on_path_parent: "on_path s p \<Longrightarrow> s < p \<Longrightarrow> on_path s ((p - 1) div 2)"
  by (subst (asm) on_path.simps) (auto split: if_splits)

lemma on_path_child: "on_path s p \<Longrightarrow> 0 < c \<Longrightarrow> (c - 1) div 2 = p \<Longrightarrow> on_path s c"
proof -
  assume a: "on_path s p" "0 < c" "(c - 1) div 2 = p"
  then have "s < c"
    using on_path_ge [OF a(1)] by auto
  with a show "on_path s c"
    by (subst on_path.simps) auto
qed

context weak_order
begin

text \<open>One step up: the parent's item drops into the hole.\<close>

lemma hole_ok_up:
  assumes h: "hole_ok lt s xs p" and p: "p < length xs" "s < p" "on_path s p"
  shows "hole_ok lt s (xs[p := xs ! ((p - 1) div 2)]) ((p - 1) div 2)"
proof -
  let ?q = "(p - 1) div 2"
  have q: "s \<le> ?q" "?q < p" "on_path s ?q"
    using on_path_parent [OF p(3,2)] on_path_ge p(2) by auto
  have par: "\<not> lt (xs ! ?q) (xs ! ((?q - 1) div 2))" if "s < ?q"
    using that q p on_path_ge [OF on_path_parent [OF q(3) that]]
    by (intro hole_okD1 [OF h]) auto
  have sib: "\<not> lt (xs ! i) (xs ! ?q)" if "i < length xs" "0 < i" "(i - 1) div 2 = ?q" "i \<noteq> p" for i
    using that q hole_okD1 [OF h, of i] by auto
  show ?thesis
    unfolding hole_ok_def
  proof (intro conjI allI impI)
    fix i
    assume i: "i < length (xs[p := xs ! ?q])" "0 < i" "s \<le> (i - 1) div 2" "i \<noteq> ?q" "(i - 1) div 2 \<noteq> ?q"
    then have "i \<noteq> p" by auto
    then show "\<not> lt (xs[p := xs ! ?q] ! i) (xs[p := xs ! ?q] ! ((i - 1) div 2))"
      using i p hole_okD1 [OF h, of i] hole_okD2 [OF h, of i]
      by (cases "(i - 1) div 2 = p") auto
  next
    fix i
    assume i: "i < length (xs[p := xs ! ?q])" "0 < i" "(i - 1) div 2 = ?q" "s < ?q"
    have "(?q - 1) div 2 \<noteq> p" using q by auto
    moreover have "\<not> lt (xs[p := xs ! ?q] ! i) (xs ! ((?q - 1) div 2))"
      using i p par sib [of i] negtrans [of "xs ! i" "xs ! ?q"] by (cases "i = p") auto
    ultimately show "\<not> lt (xs[p := xs ! ?q] ! i) (xs[p := xs ! ?q] ! ((?q - 1) div 2))"
      by simp
  qed
qed

lemma siftdown_loop_heap:
  assumes "hole_ok lt s xs p" "p < length xs" "on_path s p"
    and "\<And>i. i < length xs \<Longrightarrow> 0 < i \<Longrightarrow> (i - 1) div 2 = p \<Longrightarrow> \<not> lt (xs ! i) v"
  shows "heap_above lt s (siftdown_loop lt xs s p v)"
  using assms
proof (induction p arbitrary: xs rule: less_induct)
  case (less p)
  let ?q = "(p - 1) div 2"
  show ?case
  proof (cases "s < p \<and> lt v (xs ! ?q)")
    case True
    let ?ys = "xs[p := xs ! ?q]"
    have unf: "siftdown_loop lt xs s p v = siftdown_loop lt ?ys s ?q v"
      using True by (subst siftdown_loop.simps) (simp add: Let_def)
    have q: "?q < p" "s \<le> ?q"
      using True on_path_ge [OF on_path_parent [OF less.prems(3)]] by auto
    have "\<not> lt (xs ! ?q) v"
      using True asym by blast
    then have "\<not> lt (?ys ! i) v" if "i < length ?ys" "0 < i" "(i - 1) div 2 = ?q" for i
      using that q less.prems(2) hole_okD1 [OF less.prems(1), of i] negtrans [of "xs ! i" "xs ! ?q" v]
      by (cases "i = p") auto
    moreover have "hole_ok lt s ?ys ?q" "on_path s ?q"
      using True less.prems by (blast intro: hole_ok_up on_path_parent)+
    ultimately show ?thesis
      unfolding unf using less.prems(2) q by (intro less.IH) auto
  next
    case False
    then have res: "siftdown_loop lt xs s p v = xs[p := v]"
      by (subst siftdown_loop.simps) (auto simp: Let_def)
    show ?thesis
      unfolding res heap_above_def
    proof (intro allI impI)
      fix i
      assume i: "i < length (xs[p := v])" "0 < i" "s \<le> (i - 1) div 2"
      consider "i = p" | "i \<noteq> p" "(i - 1) div 2 = p" | "i \<noteq> p" "(i - 1) div 2 \<noteq> p" by blast
      then show "\<not> lt (xs[p := v] ! i) (xs[p := v] ! ((i - 1) div 2))"
      proof cases
        case 1
        then have "s < p" "?q \<noteq> p" using i by auto
        with 1 False less.prems(2) show ?thesis by auto
      qed (use i less.prems(2,4) hole_okD1 [OF less.prems(1), of i] in auto)
    qed
  qed
qed

text \<open>One step down: the smaller child's item rises into the hole.\<close>

lemma hole_ok_down:
  assumes h: "hole_ok lt s xs p" and c: "c < length xs" "0 < c" "(c - 1) div 2 = p" "s \<le> p"
    and sib: "\<And>i. i < length xs \<Longrightarrow> 0 < i \<Longrightarrow> (i - 1) div 2 = p \<Longrightarrow> \<not> lt (xs ! i) (xs ! c)"
  shows "hole_ok lt s (xs[p := xs ! c]) c"
  unfolding hole_ok_def
proof (intro conjI allI impI)
  have pc: "p < c" using c by auto
  fix i
  assume i: "i < length (xs[p := xs ! c])" "0 < i" "s \<le> (i - 1) div 2" "i \<noteq> c" "(i - 1) div 2 \<noteq> c"
  consider "i = p" | "i \<noteq> p" "(i - 1) div 2 = p" | "i \<noteq> p" "(i - 1) div 2 \<noteq> p" by blast
  then show "\<not> lt (xs[p := xs ! c] ! i) (xs[p := xs ! c] ! ((i - 1) div 2))"
  proof cases
    case 1
    then have "s < p" "(p - 1) div 2 \<noteq> p" using i by auto
    with 1 i c show ?thesis using hole_okD2 [OF h, of c] by auto
  next
    case 2
    with i c pc sib [of i] show ?thesis by auto
  next
    case 3
    with i show ?thesis using hole_okD1 [OF h, of i] by auto
  qed
next
  have pc: "p < c" using c by auto
  fix i
  assume i: "i < length (xs[p := xs ! c])" "0 < i" "(i - 1) div 2 = c" "s < c"
  have "i \<noteq> p" "i \<noteq> c" "c < i" using i pc by auto
  then have "\<not> lt (xs ! i) (xs ! c)"
    using i c pc hole_okD1 [OF h, of i] by auto
  with \<open>i \<noteq> p\<close> c pc show "\<not> lt (xs[p := xs ! c] ! i) (xs[p := xs ! c] ! ((c - 1) div 2))"
    by auto
qed

lemma siftup_loop_hole:
  assumes "hole_ok lt s xs p" "p < length xs" "on_path s p"
  shows "hole_ok lt s (fst (siftup_loop lt xs p)) (snd (siftup_loop lt xs p)) \<and>
    on_path s (snd (siftup_loop lt xs p)) \<and>
    length xs \<le> 2 * snd (siftup_loop lt xs p) + 1"
  using assms
proof (induction "length xs - p" arbitrary: xs p rule: less_induct)
  case less
  let ?l = "2 * p + 1"
  show ?case
  proof (cases "?l < length xs")
    case True
    obtain c where c_def:
      "c = (if ?l + 1 < length xs \<and> \<not> lt (xs ! ?l) (xs ! (?l + 1)) then ?l + 1 else ?l)"
      by blast
    have unf: "siftup_loop lt xs p = siftup_loop lt (xs[p := xs ! c]) c"
      using True by (subst siftup_loop.simps) (simp add: Let_def c_def)
    have c: "c < length xs" "0 < c" "(c - 1) div 2 = p" "s \<le> p" "p < c"
      using True on_path_ge [OF less.prems(3)] by (auto simp: c_def)
    have irr: "\<not> lt x x" for x
      using asym by blast
    have "\<not> lt (xs ! i) (xs ! c)" if "i < length xs" "0 < i" "(i - 1) div 2 = p" for i
    proof -
      have "i = ?l \<or> i = ?l + 1" using that(2,3) by presburger
      then show ?thesis
        using that(1) irr asym by (auto simp: c_def)
    qed
    then have h: "hole_ok lt s (xs[p := xs ! c]) c"
      using c by (intro hole_ok_down [OF less.prems(1)])
    have o: "on_path s c"
      by (rule on_path_child [OF less.prems(3) c(2,3)])
    have m: "length (xs[p := xs ! c]) - c < length xs - p"
      using c less.prems(2) by simp
    have l: "c < length (xs[p := xs ! c])"
      using c by simp
    show ?thesis
      unfolding unf using less.hyps [OF m h l o] by simp
  next
    case False
    then have "siftup_loop lt xs p = (xs, p)"
      by (subst siftup_loop.simps) (simp add: Let_def)
    with less.prems False show ?thesis by simp
  qed
qed

lemma hole_ok_start:
  assumes "heap_above lt (Suc s) xs"
  shows "hole_ok lt s xs s"
  using assms unfolding heap_above_def hole_ok_def
  by (metis Suc_leI le_neq_implies_less less_irrefl)

lemma siftup_heap:
  assumes "heap_above lt (Suc s) xs" "s < length xs"
  shows "heap_above lt s (siftup lt xs s)"
proof -
  obtain ys q where sl: "siftup_loop lt xs s = (ys, q)" by fastforce
  have q: "hole_ok lt s ys q" "on_path s q" "length xs \<le> 2 * q + 1" "length ys = length xs" "q < length ys"
    using siftup_loop_hole [OF hole_ok_start [OF assms(1)] assms(2)] sl
      siftup_loop_length [of lt xs s] siftup_loop_pos [OF assms(2), of lt] by auto
  have "hole_ok lt s (ys[q := xs ! s]) q"
    using q(1) unfolding hole_ok_def
    by (auto simp: nth_list_update)
  then have "heap_above lt s (siftdown_loop lt (ys[q := xs ! s]) s q (xs ! s))"
    using q by (intro siftdown_loop_heap) auto
  with q show ?thesis
    by (simp add: siftup_def sl siftdown_def Let_def)
qed

lemma heapify_heap: "is_heap lt (heapify lt xs)"
proof -
  have "length ys = length xs \<Longrightarrow> heap_above lt n ys \<Longrightarrow> n \<le> length xs div 2 \<Longrightarrow>
      heap_above lt 0 (foldl (\<lambda>ys i. siftup lt ys i) ys (rev [0..<n]))" for n ys
  proof (induction n arbitrary: ys)
    case (Suc n)
    then show ?case by (simp add: siftup_heap)
  qed simp
  moreover have "heap_above lt (length xs div 2) xs"
    unfolding heap_above_def by auto
  ultimately show ?thesis
    by (simp add: heapify_def is_heap_def)
qed

lemma heappush_heap:
  assumes "is_heap lt xs"
  shows "is_heap lt (heappush lt xs v)"
proof -
  have "hole_ok lt 0 (xs @ [v]) (length xs)"
    using assms unfolding hole_ok_def is_heap_def heap_above_def
    by (auto simp: nth_append)
  moreover have "on_path 0 p" for p
  proof (induction p rule: less_induct)
    case (less p)
    then show ?case by (subst on_path.simps) auto
  qed
  ultimately show ?thesis
    unfolding heappush_def siftdown_def is_heap_def
    by (intro siftdown_loop_heap) auto
qed

lemma heap_above_1_butlast:
  assumes "is_heap lt xs"
  shows "heap_above lt 1 ((butlast xs)[0 := v])"
  unfolding heap_above_def
proof (intro allI impI)
  fix i
  assume i: "i < length ((butlast xs)[0 := v])" "0 < i" "1 \<le> (i - 1) div 2"
  have "(i - 1) div 2 < length (butlast xs)" "(i - 1) div 2 \<noteq> 0"
    using i by auto
  with i assms show "\<not> lt ((butlast xs)[0 := v] ! i) ((butlast xs)[0 := v] ! ((i - 1) div 2))"
    unfolding is_heap_def heap_above_def by (simp add: nth_butlast)
qed

lemma heappop_heap:
  assumes "is_heap lt xs"
  shows "is_heap lt (snd (heappop lt xs))"
  using heap_above_1_butlast [OF assms, of "last xs"]
  by (auto simp: heappop_def Let_def is_heap_def heap_above_def [of _ _ "[]"]
      intro!: siftup_heap [unfolded One_nat_def])

lemma heap_root_min:
  assumes "is_heap lt xs" "i < length xs"
  shows "\<not> lt (xs ! i) (xs ! 0)"
  using assms(2)
proof (induction i rule: less_induct)
  case (less i)
  show ?case
  proof (cases "i = 0")
    case True
    then show ?thesis using asym by auto
  next
    case False
    then have "\<not> lt (xs ! ((i - 1) div 2)) (xs ! 0)"
      using less by auto
    moreover have "\<not> lt (xs ! i) (xs ! ((i - 1) div 2))"
      using assms(1) less.prems False unfolding is_heap_def heap_above_def by auto
    ultimately show ?thesis using negtrans by blast
  qed
qed

lemma heappop_min:
  assumes "is_heap lt xs" "x \<in> set xs"
  shows "\<not> lt x (fst (heappop lt xs))"
proof -
  have "xs \<noteq> []" using assms(2) by auto
  then have "fst (heappop lt xs) = xs ! 0"
    by (cases xs rule: rev_cases) (auto simp: heappop_def Let_def nth_append)
  then show ?thesis
    using heap_root_min [OF assms(1)] assms(2) by (auto simp: in_set_conv_nth)
qed

end

section \<open>The queue as its user sees it\<close>

locale priority_queue =
  fixes lt :: "'a \<Rightarrow> 'a \<Rightarrow> bool"
    and ok :: "'a list \<Rightarrow> bool"
    and mk :: "'a list \<Rightarrow> 'a list"
    and push :: "'a list \<Rightarrow> 'a \<Rightarrow> 'a list"
    and pop :: "'a list \<Rightarrow> 'a \<times> 'a list"
  assumes ok_mk: "ok (mk xs)"
    and mset_mk: "mset (mk xs) = mset xs"
    and ok_push: "ok q \<Longrightarrow> ok (push q x)"
    and mset_push: "mset (push q x) = add_mset x (mset q)"
    and ok_pop: "ok q \<Longrightarrow> ok (snd (pop q))"
    and mset_pop: "q \<noteq> [] \<Longrightarrow> add_mset (fst (pop q)) (mset (snd (pop q))) = mset q"
    and min_pop: "ok q \<Longrightarrow> x \<in> set q \<Longrightarrow> \<not> lt x (fst (pop q))"
begin

lemma set_mk: "set (mk xs) = set xs"
  by (metis mset_mk set_mset_mset)

lemma set_push: "set (push q x) = insert x (set q)"
  by (metis mset_push set_mset_add_mset_insert set_mset_mset)

lemma set_pop: "q \<noteq> [] \<Longrightarrow> insert (fst (pop q)) (set (snd (pop q))) = set q"
  by (metis mset_pop set_mset_add_mset_insert set_mset_mset)

lemma pop_in: "q \<noteq> [] \<Longrightarrow> fst (pop q) \<in> set q"
  using set_pop by blast

lemma size_pop: "q \<noteq> [] \<Longrightarrow> length q = Suc (length (snd (pop q)))"
  by (metis mset_pop size_add_mset size_mset)

text \<open>The first item out of a heap made of a list is one of the least of the list.\<close>

lemma first_pop_least:
  assumes "xs \<noteq> []"
  shows "fst (pop (mk xs)) \<in> set xs \<and> (\<forall>x \<in> set xs. \<not> lt x (fst (pop (mk xs))))"
proof -
  have "mk xs \<noteq> []"
    using assms mset_mk [of xs] by auto
  then show ?thesis
    using pop_in [of "mk xs"] min_pop [OF ok_mk, of _ xs] by (simp add: set_mk)
qed

end

sublocale weak_order \<subseteq> priority_queue lt "is_heap lt" "heapify lt" "heappush lt" "heappop lt"
  by unfold_locales
     (auto simp: heapify_heap heappush_heap heappop_heap heappop_min mset_heappop)

section \<open>The entries of the eviction heap\<close>

interpretation entry: weak_order "entry_lt h" for h :: "node_id \<Rightarrow> tree_node"
proof
  fix x y z :: "prio \<times> node_id"
  show "entry_lt h x y \<Longrightarrow> \<not> entry_lt h y x"
    by (auto simp: entry_lt_def tree_node_lt_def split: if_splits)
  show "\<not> entry_lt h x y \<Longrightarrow> \<not> entry_lt h y z \<Longrightarrow> \<not> entry_lt h x z"
    by (auto simp: entry_lt_def tree_node_lt_def split: if_splits)
qed

end
