(* ===== verification/Token_Allocator.thy ===== *)
theory Token_Allocator
  imports Py_Prelude
begin

text \<open>
  \<open>TokenPoolAllocator\<close> of \<open>memory_pool.py\<close>: a Python list used as a stack of free slots. The
  locale \<open>slot_allocator\<close> is what the radix cache and the model runner rely on; it is
  interpreted on the allocator's own operations.
\<close>

section \<open>State and operations\<close>

record token_allocator =
  al_pool_size :: int
  al_free_slots :: "int list"

text \<open>\<open>list(range(pool_size, 0, -1))\<close>\<close>

definition all_slots :: "int \<Rightarrow> int list" where
  "all_slots pool_size = rev [1..pool_size]"

definition alloc_init :: "int \<Rightarrow> py_exn + token_allocator" where
  "alloc_init pool_size =
     (if pool_size \<le> 0 then Inl ValueError
      else Inr \<lparr>al_pool_size = pool_size, al_free_slots = all_slots pool_size\<rparr>)"

definition alloc :: "int \<Rightarrow> token_allocator \<Rightarrow> (int list, token_allocator) outcome" where
  "alloc n a =
     (if n \<le> 0 then Return [] a
      else if n > int (length (al_free_slots a)) then Raise MemoryError a
      else (let cut = length (al_free_slots a) - nat n
            in Return (drop cut (al_free_slots a))
                 (a\<lparr>al_free_slots := take cut (al_free_slots a)\<rparr>)))"

definition free :: "int list \<Rightarrow> token_allocator \<Rightarrow> token_allocator" where
  "free indices a = a\<lparr>al_free_slots := al_free_slots a @ indices\<rparr>"

definition available_size :: "token_allocator \<Rightarrow> int" where
  "available_size a = int (length (al_free_slots a))"

definition alloc_clear :: "token_allocator \<Rightarrow> token_allocator" where
  "alloc_clear a = a\<lparr>al_free_slots := all_slots (al_pool_size a)\<rparr>"

section \<open>The invariant\<close>

text \<open>\<open>held\<close> are the slots handed out and not yet returned.\<close>

definition alloc_inv :: "token_allocator \<Rightarrow> int multiset \<Rightarrow> bool" where
  "alloc_inv a held \<longleftrightarrow>
     0 < al_pool_size a \<and> mset (al_free_slots a) + held = mset_set {1..al_pool_size a}"

lemma mset_all_slots [simp]: "mset (all_slots n) = mset_set {1..n}"
proof -
  have "mset [1..n] = mset_set (set [1..n])"
    by (rule mset_set_set [symmetric]) simp
  then show ?thesis by (simp add: all_slots_def)
qed

lemma length_all_slots [simp]: "length (all_slots n) = nat n"
  by (simp add: all_slots_def)

lemma alloc_init_inv: "alloc_init n = Inr a \<Longrightarrow> alloc_inv a {#}"
  by (auto simp: alloc_init_def alloc_inv_def split: if_splits)

lemma alloc_clear_inv: "alloc_inv a held \<Longrightarrow> alloc_inv (alloc_clear a) {#}"
  by (simp add: alloc_clear_def alloc_inv_def)

lemma alloc_cases:
  "alloc n a = Return [] a \<and> n \<le> 0 \<or>
   alloc n a = Raise MemoryError a \<and> n > int (length (al_free_slots a)) \<or>
   (\<exists>xs ys. alloc n a = Return xs (a\<lparr>al_free_slots := ys\<rparr>) \<and>
      al_free_slots a = ys @ xs \<and> 0 < n \<and> int (length xs) = n)"
proof -
  have "al_free_slots a = take (length (al_free_slots a) - nat n) (al_free_slots a) @
      drop (length (al_free_slots a) - nat n) (al_free_slots a)"
    by simp
  then show ?thesis
    unfolding alloc_def Let_def by (auto simp: le_nat_iff)
qed

lemma alloc_length: "alloc n a = Return xs b \<Longrightarrow> 0 \<le> n \<Longrightarrow> int (length xs) = n"
  using alloc_cases [of n a] by auto

lemma alloc_mset: "alloc n a = Return xs b \<Longrightarrow> mset (al_free_slots a) = mset (al_free_slots b) + mset xs"
  using alloc_cases [of n a] by auto

lemma alloc_pool_size: "alloc n a = Return xs b \<Longrightarrow> al_pool_size b = al_pool_size a"
  using alloc_cases [of n a] by auto

lemma alloc_inv_alloc:
  "alloc_inv a held \<Longrightarrow> alloc n a = Return xs b \<Longrightarrow> alloc_inv b (held + mset xs)"
  using alloc_mset [of n a xs b] alloc_pool_size [of n a xs b]
  by (simp add: alloc_inv_def add_ac)

lemma alloc_inv_free:
  "alloc_inv a (held + mset xs) \<Longrightarrow> alloc_inv (free xs a) held"
  by (simp add: alloc_inv_def free_def add_ac)

lemma alloc_inv_disjoint:
  assumes "alloc_inv a (mset xs + mset ys)"
  shows "distinct xs" "distinct ys" "set xs \<inter> set ys = {}"
    "distinct (al_free_slots a)" "set xs \<inter> set (al_free_slots a) = {}"
    "set xs \<subseteq> {1..al_pool_size a}"
proof -
  have eq: "mset (al_free_slots a @ xs @ ys) = mset_set {1..al_pool_size a}"
    using assms by (simp add: alloc_inv_def)
  then have d: "distinct (al_free_slots a @ xs @ ys)"
    by (metis distinct_count_atmost_1 count_mset_set finite_atLeastAtMost_int
        mset_set_set set_mset_mset finite_set_mset_mset_set mset_eq_setD
        distinct_sorted_list_of_set sorted_list_of_mset_set)
  then show "distinct xs" "distinct ys" "set xs \<inter> set ys = {}"
    "distinct (al_free_slots a)" "set xs \<inter> set (al_free_slots a) = {}" by auto
  have "set_mset (mset (al_free_slots a @ xs @ ys)) = {1..al_pool_size a}"
    unfolding eq by simp
  then show "set xs \<subseteq> {1..al_pool_size a}" by auto
qed

section \<open>The interface\<close>

text \<open>
  What a client may rely on: a successful \<open>alloc n\<close> hands out \<open>n\<close> different slots that no
  one holds, among the slots \<open>1..pool_size\<close> (slot 0, the padding, never); it fails exactly
  when fewer are free, and then changes nothing; and what is freed can be handed out again.
\<close>

locale slot_allocator =
  fixes inv :: "'s \<Rightarrow> int multiset \<Rightarrow> bool"
    and get :: "int \<Rightarrow> 's \<Rightarrow> (int list, 's) outcome"
    and put :: "int list \<Rightarrow> 's \<Rightarrow> 's"
    and avail :: "'s \<Rightarrow> int"
    and pool :: "'s \<Rightarrow> int"
  assumes get_ok: "0 \<le> n \<Longrightarrow> n \<le> avail s \<Longrightarrow> \<exists>xs t. get n s = Return xs t"
    and get_full: "avail s < n \<Longrightarrow> 0 < n \<Longrightarrow> get n s = Raise MemoryError s"
    and get_length: "0 \<le> n \<Longrightarrow> get n s = Return xs t \<Longrightarrow> int (length xs) = n"
    and get_avail: "0 \<le> n \<Longrightarrow> get n s = Return xs t \<Longrightarrow> avail t = avail s - n"
    and get_inv: "inv s held \<Longrightarrow> get n s = Return xs t \<Longrightarrow> inv t (held + mset xs)"
    and put_inv: "inv s (held + mset xs) \<Longrightarrow> inv (put xs s) held"
    and put_avail: "avail (put xs s) = avail s + int (length xs)"
    and inv_size: "inv s held \<Longrightarrow> avail s + int (size held) = pool s"
    and inv_slots: "inv s (mset xs + held) \<Longrightarrow> distinct xs \<and> set xs \<subseteq> {1..pool s} \<and> set xs \<inter> set_mset held = {}"
    and get_pool: "get n s = Return xs t \<Longrightarrow> pool t = pool s"
begin

lemma get_fresh:
  assumes "inv s held" "get n s = Return xs t"
  shows "distinct xs \<and> set xs \<inter> set_mset held = {} \<and> set xs \<subseteq> {1..pool s}"
  using inv_slots [of t xs held] get_inv [OF assms] get_pool [OF assms(2)]
  by (simp add: add.commute)

lemma put_get:
  assumes "inv s held" "0 \<le> n" "get n s = Return xs t"
  shows "inv (put xs t) held \<and> avail (put xs t) = avail s"
  using get_inv [OF assms(1,3)] put_inv get_avail [OF assms(2,3)] get_length [OF assms(2,3)]
  by (simp add: put_avail)

end

interpretation pool_alloc: slot_allocator alloc_inv alloc free available_size al_pool_size
proof
  fix n s t xs held
  show "\<exists>xs t. alloc n s = Return xs t" if "0 \<le> n" "n \<le> available_size s"
    using alloc_cases [of n s] that by (auto simp: available_size_def)
  show "alloc n s = Raise MemoryError s" if "available_size s < n" "0 < n"
    using that by (simp add: alloc_def available_size_def)
  show "int (length xs) = n" if "0 \<le> n" "alloc n s = Return xs t"
    using alloc_length that by blast
  show "available_size t = available_size s - n" if "0 \<le> n" "alloc n s = Return xs t"
    using that alloc_length [OF that(2,1)] arg_cong [OF alloc_mset [OF that(2)], of size]
    by (simp add: available_size_def)
  show "alloc_inv t (held + mset xs)" if "alloc_inv s held" "alloc n s = Return xs t"
    using that by (rule alloc_inv_alloc)
  show "alloc_inv (free xs s) held" if "alloc_inv s (held + mset xs)"
    using that by (rule alloc_inv_free)
  show "available_size (free xs s) = available_size s + int (length xs)"
    by (simp add: available_size_def free_def)
  show "al_pool_size t = al_pool_size s" if "alloc n s = Return xs t"
    using that by (rule alloc_pool_size)
next
  fix s held
  assume i: "alloc_inv s held"
  then have "mset (al_free_slots s) + held = mset_set {1..al_pool_size s}" "0 < al_pool_size s"
    by (simp_all add: alloc_inv_def)
  from arg_cong [OF this(1), of size] this(2)
  show "available_size s + int (size held) = al_pool_size s"
    by (simp add: available_size_def)
next
  fix s xs held
  assume "alloc_inv s (mset xs + held)"
  moreover obtain ys where "held = mset ys"
    by (metis ex_mset)
  ultimately show "distinct xs \<and> set xs \<subseteq> {1..al_pool_size s} \<and> set xs \<inter> set_mset held = {}"
    using alloc_inv_disjoint [of s xs ys] by simp
qed

end
