(* ===== verification/Radix_Cache.thy ===== *)
theory Radix_Cache
  imports Heapq Token_Allocator
begin

text \<open>
  \<open>RadixCache\<close> of \<open>radix_cache.py\<close>: its state and every one of its methods, in the order of the
  source. The state extends the object store of Tree_Node by the attributes of the cache. The
  allocator attached by \<open>set_allocator\<close> is a component of the state: the cache and the model
  runner share one allocator object, and there is one copy of it in the model.

  The loops of the source are \<^theory_text>\<open>partial_function\<close>s: on an arbitrary object graph they need
  not stop. Where the source dereferences \<open>None\<close>, indexes an empty list, slices or extends with
  \<open>None\<close>, or asserts, the model raises the exception Python raises, in the state reached so far.
\<close>

section \<open>State\<close>

record radix_cache = py_world +
  rc_disable :: bool
  rc_page_size :: int
  rc_strategy :: eviction_strategy
  rc_root :: node_id
  rc_evictable_size :: int
  rc_protected_size :: int
  rc_evictable_leaves :: "node_id set"
  rc_allocator :: "token_allocator option"

definition sys_maxsize :: int where
  "sys_maxsize = 2 ^ 63 - 1"

section \<open>Construction and reset\<close>

definition reset :: "radix_cache \<Rightarrow> radix_cache" where
  "reset s =
     (let (r, s1) = new_node (- sys_maxsize) s;
          s2 = upd_node r (\<lambda>nd. nd\<lparr>tn_key := []\<rparr>) (s1\<lparr>rc_root := r\<rparr>);
          s3 = upd_node r (\<lambda>nd. nd\<lparr>tn_value := Some []\<rparr>) s2;
          s4 = upd_node r (\<lambda>nd. nd\<lparr>tn_lock_ref := 1\<rparr>) s3
      in s4\<lparr>rc_evictable_size := 0, rc_protected_size := 0, rc_evictable_leaves := {}\<rparr>)"

definition radix_init :: "cache_init_params option \<Rightarrow> py_world \<Rightarrow> py_exn + radix_cache" where
  "radix_init po w =
     (let params = (case po of None \<Rightarrow> CacheInitParams_default | Some p \<Rightarrow> p) in
      case strategy_of_policy (py_lower (cp_eviction_policy params)) of
        None \<Rightarrow> Inl ValueError
      | Some st \<Rightarrow>
          Inr (reset (py_world.extend w (radix_cache.fields
                 (cp_disable params) (cp_page_size params) st 0 0 0 {} None))))"

definition set_allocator :: "token_allocator \<Rightarrow> radix_cache \<Rightarrow> radix_cache" where
  "set_allocator a s = s\<lparr>rc_allocator := Some a\<rparr>"

section \<open>Leaf status\<close>

definition update_leaf_status :: "node_id \<Rightarrow> radix_cache \<Rightarrow> radix_cache" where
  "update_leaf_status n s =
     (let nd = w_heap s n in
      if evicted nd \<or> tn_lock_ref nd > 0
      then s\<lparr>rc_evictable_leaves := rc_evictable_leaves s - {n}\<rparr>
      else if list_ex (\<lambda>(t, c). \<not> evicted (w_heap s c)) (tn_children nd)
      then s\<lparr>rc_evictable_leaves := rc_evictable_leaves s - {n}\<rparr>
      else s\<lparr>rc_evictable_leaves := insert n (rc_evictable_leaves s)\<rparr>)"

section \<open>Splitting a node\<close>

definition split_node ::
  "token list \<Rightarrow> node_id \<Rightarrow> nat \<Rightarrow> radix_cache \<Rightarrow> (node_id, radix_cache) outcome" where
  "split_node key child split_len s =
     (let cd = w_heap s child;
          (nw, s1) = new_node (tn_priority cd) s
      in
      if length (tn_key cd) \<le> split_len then Raise IndexError s1
      else
        let s2 = upd_node nw (\<lambda>nd. nd\<lparr>tn_children := [(tn_key cd ! split_len, child)],
                                     tn_parent := tn_parent cd,
                                     tn_lock_ref := tn_lock_ref cd,
                                     tn_key := take split_len (tn_key cd)\<rparr>) s1
        in
        case tn_value cd of
          None \<Rightarrow> Raise TypeError s2
        | Some v \<Rightarrow>
            (let s3 = upd_node nw (\<lambda>nd. nd\<lparr>tn_value := Some (take split_len v)\<rparr>) s2;
                 s4 = upd_node child (\<lambda>nd. nd\<lparr>tn_parent := Some nw,
                                             tn_key := drop split_len (tn_key cd),
                                             tn_value := Some (drop split_len v)\<rparr>) s3
             in
             case tn_parent (w_heap s4 nw) of
               None \<Rightarrow> Raise AttributeError s4
             | Some p \<Rightarrow>
                 (case key of
                    [] \<Rightarrow> Raise IndexError s4
                  | k0 # _ \<Rightarrow>
                      Return nw (upd_node p (\<lambda>nd. nd\<lparr>tn_children :=
                                    AList.update k0 nw (tn_children nd)\<rparr>) s4))))"

section \<open>match_prefix\<close>

text \<open>The loop of \<open>_match_prefix_helper\<close>; \<open>value\<close> is the list of the nodes' value lists.\<close>

partial_function (option) match_loop ::
  "int \<Rightarrow> node_id \<Rightarrow> token list \<Rightarrow> token \<Rightarrow> slot list option list \<Rightarrow> radix_cache \<Rightarrow>
     (slot list option list \<times> node_id, radix_cache) outcome option" where
  "match_loop access_time node key child_key value s =
     (if key \<noteq> [] then
        (case map_of (tn_children (w_heap s node)) child_key of
           None \<Rightarrow> Some (Return (value, node) s)
         | Some child \<Rightarrow>
             (let s1 = upd_node child (\<lambda>nd. nd\<lparr>tn_last_access := access_time\<rparr>) s;
                  ckey = tn_key (w_heap s1 child);
                  prefix_len = key_match ckey key
              in
              if prefix_len < length ckey then
                (case split_node ckey child prefix_len s1 of
                   Return nw s2 \<Rightarrow> Some (Return (value @ [tn_value (w_heap s2 nw)], nw) s2)
                 | Raise e s2 \<Rightarrow> Some (Raise e s2)
                 | Diverge \<Rightarrow> None)
              else
                let key' = drop prefix_len key
                in match_loop access_time child key'
                     (if key' \<noteq> [] then hd key' else child_key)
                     (value @ [tn_value (w_heap s1 child)]) s1))
      else Some (Return (value, node) s))"

declare match_loop.simps [code]

definition match_prefix_helper ::
  "node_id \<Rightarrow> token list \<Rightarrow> radix_cache \<Rightarrow>
     (slot list option list \<times> node_id, radix_cache) outcome" where
  "match_prefix_helper node key s =
     (let (access_time, s1) = monotonic s;
          s2 = upd_node node (\<lambda>nd. nd\<lparr>tn_last_access := access_time\<rparr>) s1
      in
      if key = [] then Return ([], node) s2
      else run_loop (match_loop access_time node key (hd key) [] s2))"

text \<open>\<open>indices.extend(v)\<close> for every \<open>v\<close>; extending with \<open>None\<close> raises.\<close>

fun flatten_indices :: "slot list \<Rightarrow> slot list option list \<Rightarrow> slot list option" where
  "flatten_indices indices [] = Some indices"
| "flatten_indices indices (None # vs) = None"
| "flatten_indices indices (Some v # vs) = flatten_indices (indices @ v) vs"

definition match_prefix ::
  "token list \<Rightarrow> radix_cache \<Rightarrow> (match_result, radix_cache) outcome" where
  "match_prefix key s =
     (if rc_disable s \<or> length key = 0
      then Return \<lparr>mr_device_indices = [], mr_last_node = rc_root s\<rparr> s
      else bind_outcome (match_prefix_helper (rc_root s) key s)
        (\<lambda>(value, last_node) s1.
           case flatten_indices [] value of
             None \<Rightarrow> Raise TypeError s1
           | Some indices \<Rightarrow>
               Return \<lparr>mr_device_indices = indices, mr_last_node = last_node\<rparr> s1))"

section \<open>insert\<close>

text \<open>
  The loop of \<open>_insert_helper\<close>; it returns the node it stopped at, the rest of the key and of
  the value, the last \<open>child_key\<close> and the prefix length.
\<close>

partial_function (option) insert_loop ::
  "int \<Rightarrow> int \<Rightarrow> node_id \<Rightarrow> token list \<Rightarrow> slot list \<Rightarrow> token \<Rightarrow> nat \<Rightarrow> radix_cache \<Rightarrow>
     (node_id \<times> token list \<times> slot list \<times> token \<times> nat, radix_cache) outcome option" where
  "insert_loop access_time priority node key value child_key matched s =
     (if key \<noteq> [] then
        (case map_of (tn_children (w_heap s node)) child_key of
           None \<Rightarrow> Some (Return (node, key, value, child_key, matched) s)
         | Some child \<Rightarrow>
             (let s1 = upd_node child (\<lambda>nd. nd\<lparr>tn_last_access := access_time\<rparr>) s;
                  ckey = tn_key (w_heap s1 child);
                  prefix_len = key_match ckey key;
                  matched' = matched + prefix_len;
                  key' = drop prefix_len key;
                  value' = drop prefix_len value;
                  child_key' = (if key' \<noteq> [] then hd key' else child_key)
              in
              if prefix_len < length ckey then
                (case split_node ckey child prefix_len s1 of
                   Return nw s2 \<Rightarrow>
                     (let s3 = upd_node nw (\<lambda>nd. nd\<lparr>tn_priority := max (tn_priority nd) priority\<rparr>) s2
                      in insert_loop access_time priority nw key' value' child_key' matched' s3)
                 | Raise e s2 \<Rightarrow> Some (Raise e s2)
                 | Diverge \<Rightarrow> None)
              else
                let s2 = upd_node child (\<lambda>nd. nd\<lparr>tn_priority := max (tn_priority nd) priority\<rparr>) s1
                in insert_loop access_time priority child key' value' child_key' matched' s2))
      else Some (Return (node, key, value, child_key, matched) s))"

declare insert_loop.simps [code]

text \<open>The end of \<open>_insert_helper\<close>: a new leaf for the rest of the key.\<close>

definition add_leaf ::
  "int \<Rightarrow> node_id \<Rightarrow> token list \<Rightarrow> slot list \<Rightarrow> token \<Rightarrow> radix_cache \<Rightarrow> radix_cache" where
  "add_leaf priority node key value child_key s =
     (let (nw, s1) = new_node priority s;
          s2 = upd_node nw (\<lambda>nd. nd\<lparr>tn_parent := Some node, tn_key := key,
                                  tn_value := Some value\<rparr>) s1;
          s3 = upd_node node (\<lambda>nd. nd\<lparr>tn_children :=
                  AList.update child_key nw (tn_children nd)\<rparr>) s2;
          s4 = s3\<lparr>rc_evictable_size := rc_evictable_size s3 + int (length key)\<rparr>
      in update_leaf_status nw (update_leaf_status node s4))"

definition insert_helper ::
  "node_id \<Rightarrow> token list \<Rightarrow> slot list \<Rightarrow> int option \<Rightarrow> radix_cache \<Rightarrow> (nat, radix_cache) outcome" where
  "insert_helper node key value priority_opt s =
     (let priority = (case priority_opt of None \<Rightarrow> 0 | Some p \<Rightarrow> p);
          (access_time, s1) = monotonic s;
          s2 = upd_node node (\<lambda>nd. nd\<lparr>tn_last_access := access_time,
                                    tn_priority := max (tn_priority nd) priority\<rparr>) s1
      in
      if length key = 0 then Return 0 s2
      else
        bind_outcome (run_loop (insert_loop access_time priority node key value (hd key) 0 s2))
          (\<lambda>(node', key', value', child_key, matched) s3.
             if key' \<noteq> [] then Return matched (add_leaf priority node' key' value' child_key s3)
             else Return matched s3))"

definition radix_insert :: "insert_params \<Rightarrow> radix_cache \<Rightarrow> (insert_result, radix_cache) outcome" where
  "radix_insert params s =
     (if rc_disable s then Return \<lparr>ir_prefix_len = 0\<rparr> s
      else
        let key = ip_key params;
            priority = (case ip_priority params of None \<Rightarrow> 0 | Some p \<Rightarrow> p);
            value = param_value params
        in bind_outcome (insert_helper (rc_root s) key value (Some priority) s)
             (\<lambda>prefix_len s1. Return \<lparr>ir_prefix_len = prefix_len\<rparr> s1))"

section \<open>evict\<close>

definition delete_leaf :: "node_id \<Rightarrow> radix_cache \<Rightarrow> (unit, radix_cache) outcome" where
  "delete_leaf n s =
     (case tn_key (w_heap s n) of
        [] \<Rightarrow> Raise IndexError s
      | key # _ \<Rightarrow>
          (case tn_parent (w_heap s n) of
             None \<Rightarrow> Raise AttributeError s
           | Some p \<Rightarrow>
               (let v = map_of (tn_children (w_heap s p)) key;
                    s1 = upd_node p (\<lambda>nd. nd\<lparr>tn_children := AList.delete key (tn_children nd)\<rparr>) s
                in
                if v \<noteq> Some n then Raise AssertionError s1
                else
                  let s2 = s1\<lparr>rc_evictable_size :=
                              rc_evictable_size s1 - int (length (tn_key (w_heap s1 n)))\<rparr>;
                      s3 = s2\<lparr>rc_evictable_leaves := rc_evictable_leaves s2 - {n}\<rparr>
                  in Return () (update_leaf_status p s3))))"

definition free_slots :: "slot list \<Rightarrow> radix_cache \<Rightarrow> radix_cache" where
  "free_slots v s =
     (case rc_allocator s of
        None \<Rightarrow> s
      | Some a \<Rightarrow> s\<lparr>rc_allocator := Some (free v a)\<rparr>)"

definition node_entry :: "radix_cache \<Rightarrow> node_id \<Rightarrow> prio \<times> node_id" where
  "node_entry s n = (get_priority (rc_strategy s) (w_heap s n), n)"

partial_function (option) evict_loop ::
  "int \<Rightarrow> int \<Rightarrow> (prio \<times> node_id) list \<Rightarrow> radix_cache \<Rightarrow> (int, radix_cache) outcome option" where
  "evict_loop num_tokens num_evicted eviction_heap s =
     (if num_evicted < num_tokens \<and> eviction_heap \<noteq> [] then
        (let (entry, heap1) = heappop (entry_lt (w_heap s)) eviction_heap;
             x = snd entry
         in
         case tn_value (w_heap s x) of
           None \<Rightarrow> Some (Raise TypeError s)
         | Some v \<Rightarrow>
             (let s1 = free_slots v s;
                  num_evicted' = num_evicted + int (length v)
              in
              case delete_leaf x s1 of
                Raise e s2 \<Rightarrow> Some (Raise e s2)
              | Diverge \<Rightarrow> None
              | Return _ s2 \<Rightarrow>
                  (case tn_parent (w_heap s2 x) of
                     None \<Rightarrow> Some (Raise AttributeError s2)
                   | Some p \<Rightarrow>
                       if tn_children (w_heap s2 p) = [] \<and> tn_lock_ref (w_heap s2 p) = 0
                       then evict_loop num_tokens num_evicted'
                              (heappush (entry_lt (w_heap s2)) heap1 (node_entry s2 p)) s2
                       else evict_loop num_tokens num_evicted' heap1 s2)))
      else Some (Return num_evicted s))"

declare evict_loop.simps [code]

definition evict :: "evict_params \<Rightarrow> radix_cache \<Rightarrow> (evict_result, radix_cache) outcome" where
  "evict params s =
     (if rc_disable s then Return EvictResult_default s
      else
        let leaves = w_set_order s (rc_evictable_leaves s);
            eviction_heap = heapify (entry_lt (w_heap s)) (map (node_entry s) leaves)
        in bind_outcome (run_loop (evict_loop (ep_num_tokens params) 0 eviction_heap s))
             (\<lambda>num_evicted s1. Return \<lparr>er_num_tokens_evicted = num_evicted\<rparr> s1))"

section \<open>Reference counting\<close>

partial_function (option) inc_loop ::
  "node_id option \<Rightarrow> int \<Rightarrow> radix_cache \<Rightarrow> (int, radix_cache) outcome option" where
  "inc_loop node delta s =
     (if node \<noteq> Some (rc_root s) then
        (case node of
           None \<Rightarrow> Some (Raise AttributeError s)
         | Some n \<Rightarrow>
             (let len = int (length (tn_key (w_heap s n)));
                  fresh = (tn_lock_ref (w_heap s n) = 0);
                  s1 = (if fresh
                        then s\<lparr>rc_evictable_size := rc_evictable_size s - len,
                               rc_protected_size := rc_protected_size s + len\<rparr>
                        else s);
                  delta1 = (if fresh then delta - len else delta);
                  s2 = upd_node n (\<lambda>nd. nd\<lparr>tn_lock_ref := tn_lock_ref nd + 1\<rparr>) s1;
                  s3 = update_leaf_status n s2
              in inc_loop (tn_parent (w_heap s3 n)) delta1 s3))
      else Some (Return delta s))"

declare inc_loop.simps [code]

definition inc_lock_ref :: "node_id \<Rightarrow> radix_cache \<Rightarrow> (int, radix_cache) outcome" where
  "inc_lock_ref node s =
     (if rc_disable s then Return 0 s else run_loop (inc_loop (Some node) 0 s))"

partial_function (option) dec_loop ::
  "node_id option \<Rightarrow> int \<Rightarrow> radix_cache \<Rightarrow> (int, radix_cache) outcome option" where
  "dec_loop node delta s =
     (if node \<noteq> Some (rc_root s) then
        (case node of
           None \<Rightarrow> Some (Raise AttributeError s)
         | Some n \<Rightarrow>
             (let len = int (length (tn_key (w_heap s n)));
                  final = (tn_lock_ref (w_heap s n) = 1);
                  s1 = (if final
                        then s\<lparr>rc_evictable_size := rc_evictable_size s + len,
                               rc_protected_size := rc_protected_size s - len\<rparr>
                        else s);
                  delta1 = (if final then delta + len else delta);
                  s2 = upd_node n (\<lambda>nd. nd\<lparr>tn_lock_ref := tn_lock_ref nd - 1\<rparr>) s1;
                  s3 = update_leaf_status n s2
              in dec_loop (tn_parent (w_heap s3 n)) delta1 s3))
      else Some (Return delta s))"

declare dec_loop.simps [code]

definition dec_lock_ref :: "node_id \<Rightarrow> radix_cache \<Rightarrow> (int, radix_cache) outcome" where
  "dec_lock_ref node s =
     (if rc_disable s then Return 0 s else run_loop (dec_loop (Some node) 0 s))"

section \<open>Sizes and printing\<close>

definition evictable_size :: "radix_cache \<Rightarrow> int" where
  "evictable_size s = rc_evictable_size s"

definition protected_size :: "radix_cache \<Rightarrow> int" where
  "protected_size s = rc_protected_size s"

text \<open>The stack is a Python list: \<open>pop\<close> and \<open>append\<close> work at its end.\<close>

partial_function (option) total_size_loop ::
  "node_id list \<Rightarrow> int \<Rightarrow> radix_cache \<Rightarrow> int option" where
  "total_size_loop stack size_acc s =
     (if stack \<noteq> [] then
        (let current = last stack;
             nd = w_heap s current;
             size' = size_acc + (case tn_value nd of None \<Rightarrow> 0 | Some v \<Rightarrow> int (length v));
             pushed = map snd (filter (\<lambda>(t, c). \<not> evicted (w_heap s c)) (tn_children nd))
         in total_size_loop (butlast stack @ pushed) size' s)
      else Some size_acc)"

declare total_size_loop.simps [code]

definition total_size :: "radix_cache \<Rightarrow> (int, radix_cache) outcome" where
  "total_size s =
     (case total_size_loop [rc_root s] 0 s of None \<Rightarrow> Diverge | Some n \<Rightarrow> Return n s)"

text \<open>
  \<open>_print_helper\<close> writes one line per node: the indentation, the length of the key, its first
  ten tokens and the lock count. The model returns the lines.
\<close>

type_synonym print_line = "nat \<times> nat \<times> token list \<times> int"

partial_function (option) print_loop ::
  "(node_id \<times> nat) list \<Rightarrow> print_line list \<Rightarrow> radix_cache \<Rightarrow> print_line list option" where
  "print_loop stack out s =
     (if stack \<noteq> [] then
        (let (current, indent) = last stack;
             nd = w_heap s current;
             line = (indent, length (tn_key nd), take 10 (tn_key nd), tn_lock_ref nd);
             pushed = map (\<lambda>(t, c). (c, indent + 2)) (tn_children nd)
         in print_loop (butlast stack @ pushed) (out @ [line]) s)
      else Some out)"

declare print_loop.simps [code]

definition pretty_print :: "radix_cache \<Rightarrow> (print_line list \<times> int) option" where
  "pretty_print s =
     (case print_loop [(rc_root s, 0)] [] s of
        None \<Rightarrow> None
      | Some lines \<Rightarrow>
          (case total_size s of Return n s' \<Rightarrow> Some (lines, n) | _ \<Rightarrow> None))"

end
