(* ===== verification/Radix_Tree.thy ===== *)
theory Radix_Tree
  imports Radix_Cache
begin

text \<open>
  The shape of the object graph. A state of the cache is a radix tree when there is a ghost map
  \<open>P\<close> that gives every live node the tokens and the slots on its path from the root, such
  that the fields of the nodes agree with it (\<open>tree_ok\<close>). The code has no such map; it is
  determined by the store, and the operations on the store (a field that is no part of the shape,
  a split, a new leaf, a leaf removed) change it at one node at most.

  \<open>walk\<close> reads the tree without changing it: \<open>walk h r ks\<close> are the slots cached for \<open>ks\<close>.
  It is the abstraction function: the cache \<^emph>\<open>is\<close> a prefix-closed map from token lists to
  slot lists of the same length.
\<close>

section \<open>The tree\<close>

type_synonym node_store = "node_id \<Rightarrow> tree_node"
type_synonym paths = "node_id \<Rightarrow> (token list \<times> slot list) option"

definition root_ok :: "node_store \<Rightarrow> node_id \<Rightarrow> paths \<Rightarrow> bool" where
  "root_ok h r P \<longleftrightarrow>
     P r = Some ([], []) \<and> tn_key (h r) = [] \<and> tn_value (h r) = Some [] \<and> tn_parent (h r) = None"

definition child_of :: "node_store \<Rightarrow> paths \<Rightarrow> node_id \<Rightarrow> node_id \<Rightarrow> bool" where
  "child_of h P n p \<longleftrightarrow>
     (\<exists>q vs v. tn_parent (h n) = Some p \<and> P p = Some (q, vs) \<and> tn_value (h n) = Some v \<and>
        tn_key (h n) \<noteq> [] \<and> length v = length (tn_key (h n)) \<and>
        P n = Some (q @ tn_key (h n), vs @ v) \<and>
        map_of (tn_children (h p)) (hd (tn_key (h n))) = Some n)"

definition up_ok :: "node_store \<Rightarrow> node_id \<Rightarrow> paths \<Rightarrow> bool" where
  "up_ok h r P \<longleftrightarrow> (\<forall>n. P n \<noteq> None \<longrightarrow> n \<noteq> r \<longrightarrow> (\<exists>p. child_of h P n p))"

definition down_ok :: "node_store \<Rightarrow> node_id \<Rightarrow> paths \<Rightarrow> bool" where
  "down_ok h r P \<longleftrightarrow>
     (\<forall>n. P n \<noteq> None \<longrightarrow>
        distinct (map fst (tn_children (h n))) \<and>
        (\<forall>t c. (t, c) \<in> set (tn_children (h n)) \<longrightarrow>
           P c \<noteq> None \<and> c \<noteq> r \<and> tn_parent (h c) = Some n \<and> hd (tn_key (h c)) = t))"

definition tree_ok :: "node_store \<Rightarrow> node_id \<Rightarrow> paths \<Rightarrow> bool" where
  "tree_ok h r P \<longleftrightarrow> root_ok h r P \<and> up_ok h r P \<and> down_ok h r P"

lemma tree_ok_rootD:
  "tree_ok h r P \<Longrightarrow> P r = Some ([], [])" "tree_ok h r P \<Longrightarrow> tn_key (h r) = []"
  "tree_ok h r P \<Longrightarrow> tn_value (h r) = Some []" "tree_ok h r P \<Longrightarrow> tn_parent (h r) = None"
  by (simp_all add: tree_ok_def root_ok_def)

lemma tree_ok_upE:
  assumes "tree_ok h r P" "P n = Some (q, vs)" "n \<noteq> r"
  obtains p q' vs' v where "tn_parent (h n) = Some p" "P p = Some (q', vs')"
    "tn_value (h n) = Some v" "tn_key (h n) \<noteq> []" "length v = length (tn_key (h n))"
    "q = q' @ tn_key (h n)" "vs = vs' @ v"
    "map_of (tn_children (h p)) (hd (tn_key (h n))) = Some n"
  using assms unfolding tree_ok_def up_ok_def child_of_def by fastforce

lemma tree_ok_distinct: "tree_ok h r P \<Longrightarrow> P n \<noteq> None \<Longrightarrow> distinct (map fst (tn_children (h n)))"
  by (simp add: tree_ok_def down_ok_def)

lemma tree_ok_childD:
  assumes "tree_ok h r P" "P n = Some (q, vs)" "(t, c) \<in> set (tn_children (h n))"
  shows "\<exists>v. P c = Some (q @ tn_key (h c), vs @ v) \<and> tn_value (h c) = Some v \<and>
     tn_key (h c) \<noteq> [] \<and> length v = length (tn_key (h c)) \<and> c \<noteq> r \<and>
     tn_parent (h c) = Some n \<and> hd (tn_key (h c)) = t"
proof -
  have c: "P c \<noteq> None" "c \<noteq> r" "tn_parent (h c) = Some n" "hd (tn_key (h c)) = t"
    using assms unfolding tree_ok_def down_ok_def by (metis option.simps(3))+
  then obtain qc vc where "P c = Some (qc, vc)" by fastforce
  from tree_ok_upE [OF assms(1) this c(2)] c(3,4) assms(2) show ?thesis
    using \<open>P c = Some (qc, vc)\<close> c(2) by (metis Pair_inject option.inject)
qed

lemmas tree_ok_child_lookup = tree_ok_childD [OF _ _ map_of_SomeD]

lemma path_induct [consumes 2, case_names root child]:
  assumes "tree_ok h r P" "P n = Some (q, vs)"
    and "Q r [] []"
    and "\<And>n p q vs v. P p = Some (q, vs) \<Longrightarrow> Q p q vs \<Longrightarrow> n \<noteq> r \<Longrightarrow> tn_parent (h n) = Some p \<Longrightarrow>
      tn_value (h n) = Some v \<Longrightarrow> tn_key (h n) \<noteq> [] \<Longrightarrow> length v = length (tn_key (h n)) \<Longrightarrow>
      P n = Some (q @ tn_key (h n), vs @ v) \<Longrightarrow>
      map_of (tn_children (h p)) (hd (tn_key (h n))) = Some n \<Longrightarrow>
      Q n (q @ tn_key (h n)) (vs @ v)"
  shows "Q n q vs"
  using assms(2)
proof (induction "length q" arbitrary: n q vs rule: less_induct)
  case less
  show ?case
  proof (cases "n = r")
    case True
    with less.prems assms(1,3) show ?thesis by (auto dest: tree_ok_rootD)
  next
    case False
    with less.prems assms(1) obtain p q' vs' v where
      "tn_parent (h n) = Some p" "P p = Some (q', vs')"
      "tn_value (h n) = Some v" "tn_key (h n) \<noteq> []" "length v = length (tn_key (h n))"
      "q = q' @ tn_key (h n)" "vs = vs' @ v"
      "map_of (tn_children (h p)) (hd (tn_key (h n))) = Some n"
      by (elim tree_ok_upE)
    moreover from this have "Q p q' vs'" by (intro less.hyps) auto
    ultimately show ?thesis
      using assms(4) [of p q' vs' n v] less.prems False by simp
  qed
qed

lemma path_lengths: "tree_ok h r P \<Longrightarrow> P n = Some (q, vs) \<Longrightarrow> length q = length vs"
  by (induction rule: path_induct) auto

lemma path_root_unique: "tree_ok h r P \<Longrightarrow> P n = Some ([], vs) \<Longrightarrow> n = r"
  by (metis append_is_Nil_conv tree_ok_upE)

lemma parent_neq: "tree_ok h r P \<Longrightarrow> P n \<noteq> None \<Longrightarrow> tn_parent (h n) = Some p \<Longrightarrow> p \<noteq> n"
proof
  assume a: "tree_ok h r P" "P n \<noteq> None" "tn_parent (h n) = Some p" "p = n"
  then obtain q vs where n: "P n = Some (q, vs)" by fastforce
  have "n \<noteq> r" using a tree_ok_rootD(4) by fastforce
  with n a show False
    by (metis append_self_conv option.inject prod.inject tree_ok_upE)
qed

lemma child_in_parent:
  assumes "tree_ok h r P" "P n \<noteq> None" "n \<noteq> r" "tn_parent (h n) = Some p"
  shows "(hd (tn_key (h n)), n) \<in> set (tn_children (h p))" "P p \<noteq> None"
proof -
  obtain q vs where "P n = Some (q, vs)" using assms(2) by fastforce
  from tree_ok_upE [OF assms(1) this assms(3)] assms(4)
  show "(hd (tn_key (h n)), n) \<in> set (tn_children (h p))" "P p \<noteq> None"
    by (metis map_of_SomeD option.inject, metis option.distinct(1) option.inject)
qed

section \<open>Changes of the store and the tree\<close>

definition same_shape :: "tree_node \<Rightarrow> tree_node \<Rightarrow> bool" where
  "same_shape a b \<longleftrightarrow> tn_children a = tn_children b \<and> tn_parent a = tn_parent b \<and>
     tn_key a = tn_key b \<and> tn_value a = tn_value b"

lemma same_shapeD:
  "same_shape a b \<Longrightarrow> tn_children a = tn_children b" "same_shape a b \<Longrightarrow> tn_parent a = tn_parent b"
  "same_shape a b \<Longrightarrow> tn_key a = tn_key b" "same_shape a b \<Longrightarrow> tn_value a = tn_value b"
  by (simp_all add: same_shape_def)

lemma same_shape_refl [simp]: "same_shape a a"
  by (simp add: same_shape_def)

lemma tree_ok_cong:
  assumes "tree_ok h r P" "\<And>n. P n \<noteq> None \<Longrightarrow> same_shape (h' n) (h n)"
  shows "tree_ok h' r P"
proof -
  have "root_ok h' r P"
    using assms same_shapeD [OF assms(2) [of r]] by (auto simp: tree_ok_def root_ok_def)
  moreover have "child_of h' P n p" if "P n \<noteq> None" "child_of h P n p" for n p
    using that same_shapeD [OF assms(2) [of n]] same_shapeD [OF assms(2) [of p]]
    unfolding child_of_def by fastforce
  then have "up_ok h' r P"
    using assms(1) unfolding tree_ok_def up_ok_def by blast
  moreover have "down_ok h' r P"
    unfolding down_ok_def
  proof (intro allI impI conjI)
    fix n
    assume n: "P n \<noteq> None"
    note nn = same_shapeD [OF assms(2) [OF n]]
    show "distinct (map fst (tn_children (h' n)))"
      using tree_ok_distinct [OF assms(1) n] nn by simp
    fix t c
    assume c: "(t, c) \<in> set (tn_children (h' n))"
    then have c': "P c \<noteq> None" "c \<noteq> r" "tn_parent (h c) = Some n" "hd (tn_key (h c)) = t"
      using assms(1) n nn unfolding tree_ok_def down_ok_def by auto
    with same_shapeD [OF assms(2) [OF c'(1)]]
    show "P c \<noteq> None" "c \<noteq> r" "tn_parent (h' c) = Some n" "hd (tn_key (h' c)) = t" by auto
  qed
  ultimately show ?thesis by (simp add: tree_ok_def)
qed


text \<open>What a change that leaves a node's own fields alone keeps of its edges.\<close>

lemma child_of_lookup: "child_of h P n u \<Longrightarrow> map_of (tn_children (h u)) (hd (tn_key (h n))) = Some n"
  by (auto simp: child_of_def)

lemma child_of_parent: "child_of h P n u \<Longrightarrow> tn_parent (h n) = Some u \<and> P u \<noteq> None"
  by (auto simp: child_of_def)

lemma child_of_keep:
  assumes "child_of h P n u" "P' n = P n" "P' u = P u"
    and "tn_parent (h' n) = tn_parent (h n)" "tn_key (h' n) = tn_key (h n)"
      "tn_value (h' n) = tn_value (h n)"
    and "map_of (tn_children (h' u)) (hd (tn_key (h n))) = Some n"
  shows "child_of h' P' n u"
  using assms unfolding child_of_def by auto

lemma tree_ok_child_of: "tree_ok h r P \<Longrightarrow> P n \<noteq> None \<Longrightarrow> n \<noteq> r \<Longrightarrow> \<exists>u. child_of h P n u"
  by (simp add: tree_ok_def up_ok_def)

definition edge_ok :: "node_store \<Rightarrow> node_id \<Rightarrow> paths \<Rightarrow> node_id \<Rightarrow> token \<Rightarrow> node_id \<Rightarrow> bool" where
  "edge_ok h r P n t d \<longleftrightarrow>
     P d \<noteq> None \<and> d \<noteq> r \<and> tn_parent (h d) = Some n \<and> hd (tn_key (h d)) = t"

lemma down_okI:
  assumes "\<And>n. P n \<noteq> None \<Longrightarrow> distinct (map fst (tn_children (h n)))"
    and "\<And>n t d. P n \<noteq> None \<Longrightarrow> (t, d) \<in> set (tn_children (h n)) \<Longrightarrow> edge_ok h r P n t d"
  shows "down_ok h r P"
  using assms unfolding down_ok_def edge_ok_def by blast

lemma tree_ok_edge:
  "tree_ok h r P \<Longrightarrow> P n \<noteq> None \<Longrightarrow> (t, d) \<in> set (tn_children (h n)) \<Longrightarrow> edge_ok h r P n t d"
  unfolding tree_ok_def down_ok_def edge_ok_def by blast

lemma edge_ok_keep:
  assumes "edge_ok h r P n t d" "P' d = P d"
    and "tn_parent (h' d) = tn_parent (h d)" "tn_key (h' d) = tn_key (h d)"
  shows "edge_ok h' r P' n t d"
  using assms by (simp add: edge_ok_def)

subsection \<open>Splitting a node\<close>

text \<open>
  \<open>c\<close> keeps the tail of its key from position \<open>m\<close>; the new node \<open>w\<close> between \<open>c\<close> and its
  parent \<open>p\<close> has the head.
\<close>

definition split_shape ::
  "node_store \<Rightarrow> node_store \<Rightarrow> node_id \<Rightarrow> node_id \<Rightarrow> node_id \<Rightarrow> nat \<Rightarrow> slot list \<Rightarrow> bool" where
  "split_shape h h' p c w m v \<longleftrightarrow>
     tn_children (h' w) = [(tn_key (h c) ! m, c)] \<and> tn_parent (h' w) = Some p \<and>
     tn_key (h' w) = take m (tn_key (h c)) \<and> tn_value (h' w) = Some (take m v) \<and>
     tn_children (h' c) = tn_children (h c) \<and> tn_parent (h' c) = Some w \<and>
     tn_key (h' c) = drop m (tn_key (h c)) \<and> tn_value (h' c) = Some (drop m v) \<and>
     tn_children (h' p) = AList.update (hd (tn_key (h c))) w (tn_children (h p)) \<and>
     tn_parent (h' p) = tn_parent (h p) \<and> tn_key (h' p) = tn_key (h p) \<and>
     tn_value (h' p) = tn_value (h p)"

definition split_step ::
  "node_store \<Rightarrow> node_store \<Rightarrow> node_id \<Rightarrow> paths \<Rightarrow> node_id \<Rightarrow> node_id \<Rightarrow> node_id \<Rightarrow> nat \<Rightarrow>
     token list \<Rightarrow> slot list \<Rightarrow> slot list \<Rightarrow> bool" where
  "split_step h h' r P p c w m q vs v \<longleftrightarrow>
     tree_ok h r P \<and> P c = Some (q @ tn_key (h c), vs @ v) \<and> c \<noteq> r \<and>
     tn_parent (h c) = Some p \<and> P p = Some (q, vs) \<and> tn_value (h c) = Some v \<and>
     0 < m \<and> m < length (tn_key (h c)) \<and> P w = None \<and> split_shape h h' p c w m v \<and>
     (\<forall>n. P n \<noteq> None \<longrightarrow> n \<noteq> c \<longrightarrow> n \<noteq> p \<longrightarrow> same_shape (h' n) (h n))"

lemma split_step_nodes:
  assumes "split_step h h' r P p c w m q vs v"
  shows "p \<noteq> c" "w \<noteq> c" "w \<noteq> p" "w \<noteq> r" "length v = length (tn_key (h c))" "tn_key (h c) \<noteq> []"
    "map_of (tn_children (h p)) (hd (tn_key (h c))) = Some c"
    "distinct (map fst (tn_children (h p)))"
proof -
  note st = assms [unfolded split_step_def]
  show "p \<noteq> c" using parent_neq [of h r P c p] st by auto
  show "w \<noteq> c" "w \<noteq> p" "w \<noteq> r" using st tree_ok_rootD(1) [of h r P] by auto
  show "length v = length (tn_key (h c))" "tn_key (h c) \<noteq> []"
    "map_of (tn_children (h p)) (hd (tn_key (h c))) = Some c"
    using tree_ok_upE [of h r P c] st by (metis append_same_eq option.inject same_append_eq prod.inject)+
  show "distinct (map fst (tn_children (h p)))"
    using st tree_ok_distinct [of h r P p] by simp
qed

lemma split_step_same:
  assumes "split_step h h' r P p c w m q vs v" "P n \<noteq> None" "n \<noteq> c"
  shows "tn_parent (h' n) = tn_parent (h n)" "tn_key (h' n) = tn_key (h n)"
    "tn_value (h' n) = tn_value (h n)"
  using assms unfolding split_step_def split_shape_def
  by (cases "n = p"; auto dest: same_shapeD)+

lemma split_step_children:
  assumes "split_step h h' r P p c w m q vs v" "P n \<noteq> None" "n \<noteq> p"
  shows "tn_children (h' n) = tn_children (h n)"
  using assms unfolding split_step_def split_shape_def
  by (cases "n = c") (auto dest: same_shapeD)

lemma split_step_lookup:
  assumes st: "split_step h h' r P p c w m q vs v" and n: "child_of h P n u" "n \<noteq> c"
  shows "map_of (tn_children (h' u)) (hd (tn_key (h n))) = Some n"
proof (cases "u = p")
  case True
  have old: "map_of (tn_children (h u)) (hd (tn_key (h n))) = Some n"
    using n(1) by (auto simp: child_of_def)
  then have "hd (tn_key (h n)) \<noteq> hd (tn_key (h c))"
    using True split_step_nodes(7) [OF st] n(2) by auto
  with True old st show ?thesis
    by (simp add: split_step_def split_shape_def update_conv')
next
  case False
  then show ?thesis
    using n split_step_children [OF st, of u] by (auto simp: child_of_def)
qed

lemma split_step_up:
  assumes st: "split_step h h' r P p c w m q vs v"
    and P': "P' = P(w \<mapsto> (q @ take m (tn_key (h c)), vs @ take m v))"
  shows "up_ok h' r P'"
  unfolding up_ok_def
proof (intro allI impI)
  fix n
  assume n: "P' n \<noteq> None" "n \<noteq> r"
  note nodes = split_step_nodes [OF st]
  note st' = st [unfolded split_step_def split_shape_def]
  consider "n = w" | "n = c" | "n \<noteq> w" "n \<noteq> c" by blast
  then show "\<exists>u. child_of h' P' n u"
  proof cases
    case 1
    then have "child_of h' P' n p"
      using st' nodes P' by (simp add: child_of_def update_conv')
    then show ?thesis ..
  next
    case 2
    then have "child_of h' P' n w"
      using st' nodes P' by (simp add: child_of_def hd_drop_conv_nth)
    then show ?thesis ..
  next
    case 3
    then have Pn: "P n \<noteq> None" using n P' by auto
    then obtain u where u: "child_of h P n u"
      using st n(2) unfolding split_step_def tree_ok_def up_ok_def by blast
    moreover have "u \<noteq> w" using u st' by (auto simp: child_of_def)
    ultimately have "child_of h' P' n u"
      using split_step_lookup [OF st u 3(2)] split_step_same [OF st Pn 3(2)] 3(1) P'
      by (auto simp: child_of_def)
    then show ?thesis ..
  qed
qed

lemma split_step_kept_child:
  assumes st: "split_step h h' r P p c w m q vs v"
    and n: "P n \<noteq> None" "(t, d) \<in> set (tn_children (h n))"
  shows "if d = c then n = p \<and> t = hd (tn_key (h c))
         else P d \<noteq> None \<and> d \<noteq> r \<and> d \<noteq> w \<and> tn_parent (h' d) = Some n \<and> hd (tn_key (h' d)) = t"
proof -
  have ok: "tree_ok h r P" and w: "P w = None" "tn_parent (h c) = Some p"
    using st by (simp_all add: split_step_def)
  have d: "P d \<noteq> None" "d \<noteq> r" "tn_parent (h d) = Some n" "hd (tn_key (h d)) = t"
    using ok n unfolding tree_ok_def down_ok_def by auto
  then show ?thesis
    using split_step_same [OF st d(1)] w by auto
qed

lemma split_step_down:
  assumes st: "split_step h h' r P p c w m q vs v"
    and P': "P' = P(w \<mapsto> (q @ take m (tn_key (h c)), vs @ take m v))"
  shows "down_ok h' r P'"
  unfolding down_ok_def
proof (intro allI impI)
  fix n
  assume n: "P' n \<noteq> None"
  note nodes = split_step_nodes [OF st]
  note st' = st [unfolded split_step_def split_shape_def]
  let ?ok = "\<lambda>t d. P' d \<noteq> None \<and> d \<noteq> r \<and> tn_parent (h' d) = Some n \<and> hd (tn_key (h' d)) = t"
  consider "n = w" | "n = p" | "n \<noteq> w" "n \<noteq> p" by blast
  then show "distinct (map fst (tn_children (h' n))) \<and>
    (\<forall>t d. (t, d) \<in> set (tn_children (h' n)) \<longrightarrow> ?ok t d)"
  proof cases
    case 1
    with st' P' show ?thesis by (auto simp: hd_drop_conv_nth)
  next
    case 2
    have "?ok t d" if "(t, d) \<in> set (tn_children (h' p))" for t d
    proof (cases "t = hd (tn_key (h c))")
      case True
      then have "d = w" using that st' nodes by (auto simp: set_alist_update)
      with True 2 st' nodes P' show ?thesis by simp
    next
      case False
      then have "(t, d) \<in> set (tn_children (h p))"
        using that st' nodes by (auto simp: set_alist_update)
      with split_step_kept_child [OF st _ this] False st' 2 P' show ?thesis
        by (auto split: if_splits)
    qed
    with 2 st' nodes show ?thesis by (simp add: distinct_alist_update)
  next
    case 3
    then have Pn: "P n \<noteq> None" using n P' by simp
    have "?ok t d" if "(t, d) \<in> set (tn_children (h' n))" for t d
      using split_step_kept_child [OF st Pn, of t d] split_step_children [OF st Pn 3(2)] that 3(2) P'
      by (cases "d = c") auto
    with split_step_children [OF st Pn 3(2)] tree_ok_distinct [of h r P n] st' Pn show ?thesis
      by auto
  qed
qed

lemma tree_ok_split:
  assumes st: "split_step h h' r P p c w m q vs v"
  shows "tree_ok h' r (P(w \<mapsto> (q @ take m (tn_key (h c)), vs @ take m v)))"
proof -
  have "P r \<noteq> None" "r \<noteq> c" "r \<noteq> w" "root_ok h r P"
    using st split_step_nodes(4) [OF st] by (auto simp: split_step_def tree_ok_def root_ok_def)
  then have "root_ok h' r (P(w \<mapsto> (q @ take m (tn_key (h c)), vs @ take m v)))"
    using split_step_same [OF st, of r] by (simp add: root_ok_def)
  with split_step_up [OF st refl] split_step_down [OF st refl] show ?thesis
    by (simp add: tree_ok_def)
qed

subsection \<open>A new leaf\<close>

definition leaf_shape ::
  "node_store \<Rightarrow> node_store \<Rightarrow> node_id \<Rightarrow> node_id \<Rightarrow> token list \<Rightarrow> slot list \<Rightarrow> bool" where
  "leaf_shape h h' p w k v \<longleftrightarrow>
     tn_children (h' w) = [] \<and> tn_parent (h' w) = Some p \<and> tn_key (h' w) = k \<and>
     tn_value (h' w) = Some v \<and>
     tn_children (h' p) = AList.update (hd k) w (tn_children (h p)) \<and>
     tn_parent (h' p) = tn_parent (h p) \<and> tn_key (h' p) = tn_key (h p) \<and>
     tn_value (h' p) = tn_value (h p)"

definition leaf_step ::
  "node_store \<Rightarrow> node_store \<Rightarrow> node_id \<Rightarrow> paths \<Rightarrow> node_id \<Rightarrow> node_id \<Rightarrow>
     token list \<Rightarrow> slot list \<Rightarrow> token list \<Rightarrow> slot list \<Rightarrow> bool" where
  "leaf_step h h' r P p w q vs k v \<longleftrightarrow>
     tree_ok h r P \<and> P p = Some (q, vs) \<and> P w = None \<and> k \<noteq> [] \<and> length v = length k \<and>
     map_of (tn_children (h p)) (hd k) = None \<and> leaf_shape h h' p w k v \<and>
     (\<forall>n. P n \<noteq> None \<longrightarrow> n \<noteq> p \<longrightarrow> same_shape (h' n) (h n))"

lemma leaf_step_same:
  assumes "leaf_step h h' r P p w q vs k v" "P n \<noteq> None"
  shows "tn_parent (h' n) = tn_parent (h n)" "tn_key (h' n) = tn_key (h n)"
    "tn_value (h' n) = tn_value (h n)" "n \<noteq> w"
    "n \<noteq> p \<Longrightarrow> tn_children (h' n) = tn_children (h n)"
  using assms unfolding leaf_step_def leaf_shape_def
  by (cases "n = p"; auto dest: same_shapeD)+

lemma leaf_step_up:
  assumes st: "leaf_step h h' r P p w q vs k v" and P': "P' = P(w \<mapsto> (q @ k, vs @ v))"
  shows "up_ok h' r P'"
  unfolding up_ok_def
proof (intro allI impI)
  fix n
  assume n: "P' n \<noteq> None" "n \<noteq> r"
  note st' = st [unfolded leaf_step_def leaf_shape_def]
  have pw: "p \<noteq> w" using st' by auto
  show "\<exists>u. child_of h' P' n u"
  proof (cases "n = w")
    case True
    then have "child_of h' P' n p"
      using st' pw P' by (simp add: child_of_def update_conv')
    then show ?thesis ..
  next
    case False
    then have Pn: "P n \<noteq> None" using n P' by simp
    then obtain u where u: "child_of h P n u"
      using tree_ok_child_of [of h r P n] n(2) st' by blast
    then have Pu: "P u \<noteq> None" by (simp add: child_of_parent)
    have "map_of (tn_children (h' u)) (hd (tn_key (h n))) = Some n"
      using child_of_lookup [OF u] st' leaf_step_same(5) [OF st Pu]
      by (cases "u = p") (auto simp: update_conv')
    with u leaf_step_same [OF st Pn] leaf_step_same(4) [OF st Pu] P'
    have "child_of h' P' n u" by (intro child_of_keep [OF u]) auto
    then show ?thesis ..
  qed
qed

lemma leaf_step_down:
  assumes st: "leaf_step h h' r P p w q vs k v" and P': "P' = P(w \<mapsto> (q @ k, vs @ v))"
  shows "down_ok h' r P'"
proof (rule down_okI)
  note st' = st [unfolded leaf_step_def leaf_shape_def]
  have ok: "tree_ok h r P" using st' by simp
  have pw: "p \<noteq> w" "w \<noteq> r" using st' tree_ok_rootD(1) [OF ok] by auto
  have dist: "distinct (map fst (tn_children (h n)))" if "P n \<noteq> None" for n
    using tree_ok_distinct [OF ok that] .
  fix n
  assume n: "P' n \<noteq> None"
  show "distinct (map fst (tn_children (h' n)))"
    using n P' st' dist [of n] leaf_step_same(5) [OF st, of n]
    by (cases "n = w"; cases "n = p") (auto simp: distinct_alist_update)
  fix t d
  assume d: "(t, d) \<in> set (tn_children (h' n))"
  have nw: "n \<noteq> w" using d st' by auto
  then have Pn: "P n \<noteq> None" using n P' by simp
  show "edge_ok h' r P' n t d"
  proof (cases "n = p \<and> t = hd k")
    case True
    then have "d = w" using d st' dist [OF Pn] by (auto simp: set_alist_update)
    with True st' pw P' show ?thesis by (simp add: edge_ok_def)
  next
    case False
    then have "(t, d) \<in> set (tn_children (h n))"
      using d st' dist [OF Pn] leaf_step_same(5) [OF st Pn]
      by (cases "n = p") (auto simp: set_alist_update)
    from tree_ok_edge [OF ok Pn this] have e: "edge_ok h r P n t d" .
    then have "P d \<noteq> None" by (simp add: edge_ok_def)
    with e leaf_step_same [OF st this] P' show ?thesis by (intro edge_ok_keep [OF e]) auto
  qed
qed

lemma tree_ok_add_leaf:
  assumes st: "leaf_step h h' r P p w q vs k v"
  shows "tree_ok h' r (P(w \<mapsto> (q @ k, vs @ v)))"
proof -
  have "P r \<noteq> None" "root_ok h r P"
    using st by (auto simp: leaf_step_def tree_ok_def root_ok_def)
  then have "root_ok h' r (P(w \<mapsto> (q @ k, vs @ v)))"
    using leaf_step_same [OF st, of r] by (simp add: root_ok_def)
  with leaf_step_up [OF st refl] leaf_step_down [OF st refl] show ?thesis
    by (simp add: tree_ok_def)
qed

subsection \<open>Removing a leaf\<close>

definition delete_step ::
  "node_store \<Rightarrow> node_store \<Rightarrow> node_id \<Rightarrow> paths \<Rightarrow> node_id \<Rightarrow> node_id \<Rightarrow> bool" where
  "delete_step h h' r P p x \<longleftrightarrow>
     tree_ok h r P \<and> P x \<noteq> None \<and> x \<noteq> r \<and> tn_children (h x) = [] \<and> tn_parent (h x) = Some p \<and>
     tn_children (h' p) = AList.delete (hd (tn_key (h x))) (tn_children (h p)) \<and>
     tn_parent (h' p) = tn_parent (h p) \<and> tn_key (h' p) = tn_key (h p) \<and>
     tn_value (h' p) = tn_value (h p) \<and>
     (\<forall>n. P n \<noteq> None \<longrightarrow> n \<noteq> p \<longrightarrow> same_shape (h' n) (h n))"

lemma delete_step_same:
  assumes "delete_step h h' r P p x" "P n \<noteq> None"
  shows "tn_parent (h' n) = tn_parent (h n)" "tn_key (h' n) = tn_key (h n)"
    "tn_value (h' n) = tn_value (h n)"
    "n \<noteq> p \<Longrightarrow> tn_children (h' n) = tn_children (h n)"
  using assms unfolding delete_step_def
  by (cases "n = p"; auto dest: same_shapeD)+

lemma delete_step_nodes:
  assumes "delete_step h h' r P p x"
  shows "p \<noteq> x" "(hd (tn_key (h x)), x) \<in> set (tn_children (h p))" "P p \<noteq> None"
    "distinct (map fst (tn_children (h p)))"
proof -
  note st = assms [unfolded delete_step_def]
  show "p \<noteq> x" using parent_neq [of h r P x p] st by blast
  show "(hd (tn_key (h x)), x) \<in> set (tn_children (h p))" "P p \<noteq> None"
    using child_in_parent [of h r P x p] st by blast+
  then show "distinct (map fst (tn_children (h p)))"
    using tree_ok_distinct [of h r P p] st by blast
qed

lemma delete_step_up:
  assumes st: "delete_step h h' r P p x"
  shows "up_ok h' r (P(x := None))"
  unfolding up_ok_def
proof (intro allI impI)
  fix n
  assume n: "(P(x := None)) n \<noteq> None" "n \<noteq> r"
  then have nx: "n \<noteq> x" "P n \<noteq> None" by (auto split: if_splits)
  note st' = st [unfolded delete_step_def]
  note nodes = delete_step_nodes [OF st]
  obtain u where u: "child_of h P n u"
    using tree_ok_child_of [of h r P n] st' nx n(2) by blast
  note lu = child_of_lookup [OF u]
  have Pu: "P u \<noteq> None" and ux: "u \<noteq> x"
    using child_of_parent [OF u] lu st' by auto
  have "hd (tn_key (h n)) \<noteq> hd (tn_key (h x))" if "u = p"
    using lu nodes that nx(1) by (metis map_of_is_SomeI option.inject)
  then have "map_of (tn_children (h' u)) (hd (tn_key (h n))) = Some n"
    using lu st' delete_step_same(4) [OF st Pu] by (cases "u = p") (auto simp: delete_conv')
  with nx ux delete_step_same [OF st nx(2)] have "child_of h' (P(x := None)) n u"
    by (intro child_of_keep [OF u]) auto
  then show "\<exists>u. child_of h' (P(x := None)) n u" ..
qed

lemma delete_step_down:
  assumes st: "delete_step h h' r P p x"
  shows "down_ok h' r (P(x := None))"
proof (rule down_okI)
  note st' = st [unfolded delete_step_def]
  note nodes = delete_step_nodes [OF st]
  have ok: "tree_ok h r P" using st' by simp
  fix n
  assume "(P(x := None)) n \<noteq> None"
  then have n: "n \<noteq> x" "P n \<noteq> None" by (auto split: if_splits)
  show "distinct (map fst (tn_children (h' n)))"
    using st' nodes delete_step_same(4) [OF st n(2)] tree_ok_distinct [OF ok n(2)]
    by (cases "n = p") (auto simp: distinct_alist_delete)
  fix t d
  assume d: "(t, d) \<in> set (tn_children (h' n))"
  then have d': "(t, d) \<in> set (tn_children (h n))" "n = p \<longrightarrow> t \<noteq> hd (tn_key (h x))"
    using st' delete_step_same(4) [OF st n(2)]
    by (cases "n = p"; auto simp: set_alist_delete)+
  from tree_ok_edge [OF ok n(2) d'(1)] have e: "edge_ok h r P n t d" .
  then have "P d \<noteq> None" "d \<noteq> x"
    using d'(2) st' by (auto simp: edge_ok_def)
  with e delete_step_same [OF st this(1)] show "edge_ok h' r (P(x := None)) n t d"
    by (intro edge_ok_keep [OF e]) auto
qed

lemma tree_ok_delete_leaf:
  assumes st: "delete_step h h' r P p x"
  shows "tree_ok h' r (P(x := None))"
proof -
  have "P r \<noteq> None" "r \<noteq> x" "root_ok h r P"
    using st by (auto simp: delete_step_def tree_ok_def root_ok_def)
  then have "root_ok h' r (P(x := None))"
    using delete_step_same [OF st, of r] by (simp add: root_ok_def)
  with delete_step_up [OF st] delete_step_down [OF st] show ?thesis
    by (simp add: tree_ok_def)
qed

section \<open>The tree as a map\<close>

function walk :: "node_store \<Rightarrow> node_id \<Rightarrow> token list \<Rightarrow> slot list option" where
  "walk h n ks =
     (if ks = [] then Some []
      else case map_of (tn_children (h n)) (hd ks) of
        None \<Rightarrow> None
      | Some c \<Rightarrow>
          (let k = tn_key (h c); i = key_match k ks in
           case tn_value (h c) of
             None \<Rightarrow> None
           | Some v \<Rightarrow>
               if i = length ks then Some (take i v)
               else if i = length k \<and> 0 < i then map_option ((@) v) (walk h c (drop i ks))
               else None))"
  by pat_completeness auto
termination
  by (relation "measure (\<lambda>(h, n, ks). length ks)") auto

declare walk.simps [simp del]

lemma walk_Nil [simp]: "walk h n [] = Some []"
  by (simp add: walk.simps)

text \<open>One step of a walk, at a node of the tree.\<close>

lemma walk_step:
  assumes "tn_value (h c) = Some v" "tn_key (h c) \<noteq> []" "length v = length (tn_key (h c))"
    and "map_of (tn_children (h p)) (hd (tn_key (h c))) = Some c"
  shows "walk h p (tn_key (h c) @ ks) = map_option ((@) v) (walk h c ks)"
proof -
  have "hd (tn_key (h c) @ ks) = hd (tn_key (h c))"
    using assms(2) by simp
  then show ?thesis
    using assms by (subst walk.simps) (auto simp: Let_def)
qed

lemma walk_partial:
  assumes "tn_value (h c) = Some v" "map_of (tn_children (h p)) (hd ks) = Some c"
    and "ks \<noteq> []" "prefix ks (tn_key (h c))"
  shows "walk h p ks = Some (take (length ks) v)"
proof -
  have "key_match (tn_key (h c)) ks = length ks"
    using key_match_greatest [of "length ks" "tn_key (h c)" ks] key_match_le(2) [of "tn_key (h c)" ks]
      assms(4) by (simp add: prefix_take_iff)
  then show ?thesis
    using assms by (subst walk.simps) simp
qed

lemma walk_app:
  assumes "tree_ok h r P" "P n = Some (q, vs)"
  shows "walk h r (q @ ks) = map_option ((@) vs) (walk h n ks)"
  using assms
proof (induction arbitrary: ks rule: path_induct)
  case root
  show ?case by (cases "walk h r ks") auto
next
  case (child n p q vs v)
  have "walk h r ((q @ tn_key (h n)) @ ks) = map_option ((@) vs) (walk h p (tn_key (h n) @ ks))"
    using child.IH by simp
  also have "\<dots> = map_option ((@) vs) (map_option ((@) v) (walk h n ks))"
    using child.hyps by (subst walk_step) auto
  finally show ?case
    by (simp add: option.map_comp comp_def)
qed

lemma walk_path: "tree_ok h r P \<Longrightarrow> P n = Some (q, vs) \<Longrightarrow> walk h r q = Some vs"
  using walk_app [of h r P n q vs "[]"] by simp

lemma walk_complete:
  assumes "tree_ok h r P" "P n = Some (q, vs)" "prefix ks q"
  shows "walk h r ks = Some (take (length ks) vs)"
  using assms
proof (induction rule: path_induct)
  case root
  then show ?case by simp
next
  case (child n p q vs v)
  have len: "length vs = length q"
    using path_lengths [OF assms(1) child.hyps(1)] by simp
  from child.prems consider "prefix ks q" | zs where "ks = q @ zs" "prefix zs (tn_key (h n))" "zs \<noteq> []"
    unfolding prefix_append by (metis append_Nil2 prefix_order.refl)
  then show ?case
  proof cases
    case 1
    with child.IH len show ?thesis by (simp add: prefix_length_le)
  next
    case 2
    then have "walk h p zs = Some (take (length zs) v)"
      using child.hyps by (intro walk_partial) (auto simp: prefix_def)
    with 2 len walk_app [OF assms(1) child.hyps(1), of zs] show ?thesis by simp
  qed
qed

lemma walk_sound:
  assumes "tree_ok h r P" "P n = Some (q, vs)" "walk h n ks = Some ws"
  shows "\<exists>m q' vs'. P m = Some (q', vs') \<and> prefix (q @ ks) q' \<and>
           vs @ ws = take (length (q @ ks)) vs'"
  using assms
proof (induction "length ks" arbitrary: n q vs ks ws rule: less_induct)
  case less
  note len = path_lengths [OF less.prems(1,2)]
  show ?case
  proof (cases "ks = []")
    case True
    with less.prems len show ?thesis by (intro exI [of _ n]) auto
  next
    case False
    then obtain c where c: "map_of (tn_children (h n)) (hd ks) = Some c"
      using less.prems(3) by (subst (asm) walk.simps) (auto split: option.splits)
    from tree_ok_child_lookup [OF less.prems(1,2) c] obtain v where
      v: "P c = Some (q @ tn_key (h c), vs @ v)" "tn_value (h c) = Some v"
        "length v = length (tn_key (h c))" by blast
    let ?i = "key_match (tn_key (h c)) ks"
    have "?i = length ks \<and> ws = take ?i v \<or>
      ?i = length (tn_key (h c)) \<and> 0 < ?i \<and>
        (\<exists>ws'. walk h c (drop ?i ks) = Some ws' \<and> ws = v @ ws')"
      using less.prems(3) False c v by (subst (asm) walk.simps) (auto simp: Let_def split: if_splits)
    then show ?thesis
    proof (elim disjE conjE exE)
      assume i: "?i = length ks" "ws = take ?i v"
      then have "prefix ks (tn_key (h c))"
        using key_match_prefix [of "tn_key (h c)" ks] key_match_le(1) [of "tn_key (h c)" ks]
        by (simp add: prefix_take_iff)
      with i v len show ?thesis by (intro exI [of _ c]) auto
    next
      fix ws'
      assume i: "?i = length (tn_key (h c))" "0 < ?i" "walk h c (drop ?i ks) = Some ws'" "ws = v @ ws'"
      have ks: "ks = tn_key (h c) @ drop ?i ks"
        using key_match_full_split [OF i(1)] i(1) by simp
      have "length (drop ?i ks) < length ks" using i(2) False by simp
      from less.hyps [OF this less.prems(1) v(1) i(3)] ks i(4) show ?thesis by (metis append.assoc)
    qed
  qed
qed

text \<open>What the tree caches, by its paths.\<close>

lemma walk_iff:
  assumes "tree_ok h r P"
  shows "walk h r ks = Some ws \<longleftrightarrow>
    (\<exists>n q vs. P n = Some (q, vs) \<and> prefix ks q \<and> ws = take (length ks) vs)"
  using walk_sound [OF assms tree_ok_rootD(1) [OF assms], of ks ws] walk_complete [OF assms, of _ _ _ ks]
  by auto

lemma walk_length: "tree_ok h r P \<Longrightarrow> walk h r ks = Some ws \<Longrightarrow> length ws = length ks"
  by (auto simp: walk_iff dest!: path_lengths prefix_length_le)

lemma walk_prefix_closed:
  assumes ok: "tree_ok h r P" and w: "walk h r ks = Some ws" and js: "prefix js ks"
  shows "walk h r js = Some (take (length js) ws)"
proof -
  from ok w obtain n q vs where n: "P n = Some (q, vs)" "prefix ks q" "ws = take (length ks) vs"
    by (auto simp: walk_iff)
  with js have "prefix js q" by (meson prefix_order.trans)
  from walk_complete [OF ok n(1) this] n(3) prefix_length_le [OF js] show ?thesis
    by (simp add: min_def)
qed

end
