(* ===== verification/Radix_Inv.thy ===== *)
theory Radix_Inv
  imports Radix_Tree
begin

text \<open>
  The invariant of the cache, and the primitive changes that keep it. Beside the shape of the
  tree it says what the counters of the cache mean:

  \<^item> \<open>lock_ok\<close>: the lock count of a node is the number of outstanding locks on it (the ghost
    \<open>D\<close>) plus the lock counts of its children, so that a locked node has locked ancestors;
  \<^item> \<open>acct_ok\<close>: \<open>evictable_size_\<close> and \<open>protected_size_\<close> are the numbers of tokens in unlocked
    and in locked nodes, and \<open>evictable_leaves\<close> is the set of unlocked nodes without children.
\<close>

section \<open>The invariant\<close>

type_synonym locks = "node_id \<Rightarrow> nat"

definition kids_lock :: "node_store \<Rightarrow> node_id \<Rightarrow> int" where
  "kids_lock h n = (\<Sum>p\<leftarrow>tn_children (h n). tn_lock_ref (h (snd p)))"

text \<open>With a gap of \<open>d\<close> at one node: the state between two steps of a lock loop.\<close>

definition lock_gap :: "node_store \<Rightarrow> node_id \<Rightarrow> paths \<Rightarrow> locks \<Rightarrow> node_id \<Rightarrow> int \<Rightarrow> bool" where
  "lock_gap h r P D cur d \<longleftrightarrow>
     0 < tn_lock_ref (h r) \<and> (\<forall>n. P n = None \<longrightarrow> D n = 0) \<and>
     (\<forall>n. P n \<noteq> None \<longrightarrow> n \<noteq> r \<longrightarrow>
        0 \<le> tn_lock_ref (h n) \<and>
        tn_lock_ref (h n) + (if n = cur then d else 0) = int (D n) + kids_lock h n)"

definition lock_ok :: "node_store \<Rightarrow> node_id \<Rightarrow> paths \<Rightarrow> locks \<Rightarrow> bool" where
  "lock_ok h r P D = lock_gap h r P D r 0"

definition unlocked_tokens :: "node_store \<Rightarrow> node_id \<Rightarrow> paths \<Rightarrow> int" where
  "unlocked_tokens h r P =
     (\<Sum>n \<in> dom P - {r}. if tn_lock_ref (h n) = 0 then int (length (tn_key (h n))) else 0)"

definition locked_tokens :: "node_store \<Rightarrow> node_id \<Rightarrow> paths \<Rightarrow> int" where
  "locked_tokens h r P =
     (\<Sum>n \<in> dom P - {r}. if tn_lock_ref (h n) = 0 then 0 else int (length (tn_key (h n))))"

definition unlocked_leaves :: "node_store \<Rightarrow> node_id \<Rightarrow> paths \<Rightarrow> node_id set" where
  "unlocked_leaves h r P =
     {n. P n \<noteq> None \<and> n \<noteq> r \<and> tn_lock_ref (h n) = 0 \<and> tn_children (h n) = []}"

definition acct_ok :: "radix_cache \<Rightarrow> paths \<Rightarrow> bool" where
  "acct_ok s P \<longleftrightarrow>
     rc_evictable_size s = unlocked_tokens (w_heap s) (rc_root s) P \<and>
     rc_protected_size s = locked_tokens (w_heap s) (rc_root s) P \<and>
     rc_evictable_leaves s = unlocked_leaves (w_heap s) (rc_root s) P"

definition fresh_ok :: "radix_cache \<Rightarrow> paths \<Rightarrow> bool" where
  "fresh_ok s P \<longleftrightarrow> (\<forall>n. P n \<noteq> None \<longrightarrow> n < w_counter s)"

definition set_order_ok :: "'a py_world_scheme \<Rightarrow> bool" where
  "set_order_ok w \<longleftrightarrow>
     (\<forall>A. finite A \<longrightarrow> set (w_set_order w A) = A \<and> distinct (w_set_order w A))"

definition cache_inv :: "radix_cache \<Rightarrow> paths \<Rightarrow> locks \<Rightarrow> bool" where
  "cache_inv s P D \<longleftrightarrow>
     tree_ok (w_heap s) (rc_root s) P \<and> fresh_ok s P \<and>
     lock_ok (w_heap s) (rc_root s) P D \<and> acct_ok s P \<and> set_order_ok s"

text \<open>What no operation but construction, \<open>reset\<close> and \<open>evict\<close> changes.\<close>

definition same_config :: "radix_cache \<Rightarrow> radix_cache \<Rightarrow> bool" where
  "same_config s t \<longleftrightarrow>
     rc_disable t = rc_disable s \<and> rc_page_size t = rc_page_size s \<and>
     rc_strategy t = rc_strategy s \<and> rc_root t = rc_root s \<and>
     w_clock t = w_clock s \<and> w_set_order t = w_set_order s \<and> w_counter s \<le> w_counter t"

lemma same_config_refl [simp]: "same_config s s"
  by (simp add: same_config_def)

lemma same_config_trans: "same_config s t \<Longrightarrow> same_config t u \<Longrightarrow> same_config s u"
  by (auto simp: same_config_def)

section \<open>Consequences\<close>

lemma cache_invD:
  assumes "cache_inv s P D"
  shows "tree_ok (w_heap s) (rc_root s) P" "fresh_ok s P"
    "lock_ok (w_heap s) (rc_root s) P D" "acct_ok s P" "set_order_ok s"
  using assms by (simp_all add: cache_inv_def)

lemma fresh_ok_finite: "fresh_ok s P \<Longrightarrow> finite (dom P)"
proof -
  assume "fresh_ok s P"
  then have "dom P \<subseteq> {..<w_counter s}"
    by (auto simp: fresh_ok_def)
  then show "finite (dom P)"
    by (rule finite_subset) simp
qed

lemma fresh_ok_new: "fresh_ok s P \<Longrightarrow> P (w_counter s) = None"
  unfolding fresh_ok_def by (metis less_irrefl)

lemma lock_gap_nonneg: "lock_gap h r P D cur d \<Longrightarrow> P n \<noteq> None \<Longrightarrow> 0 \<le> tn_lock_ref (h n)"
  unfolding lock_gap_def by (cases "n = r") auto

lemma lock_gap_eq:
  "lock_gap h r P D cur d \<Longrightarrow> P n \<noteq> None \<Longrightarrow> n \<noteq> r \<Longrightarrow>
     tn_lock_ref (h n) + (if n = cur then d else 0) = int (D n) + kids_lock h n"
  unfolding lock_gap_def by blast

lemma lock_ok_eq:
  "lock_ok h r P D \<Longrightarrow> P n \<noteq> None \<Longrightarrow> n \<noteq> r \<Longrightarrow> tn_lock_ref (h n) = int (D n) + kids_lock h n"
  unfolding lock_ok_def using lock_gap_eq [of h r P D r 0 n] by simp

lemma lock_ok_dead: "lock_ok h r P D \<Longrightarrow> P n = None \<Longrightarrow> D n = 0"
  by (simp add: lock_ok_def lock_gap_def)

lemma lock_okI:
  assumes "0 < tn_lock_ref (h r)"
    and "\<And>n. P n = None \<Longrightarrow> D n = 0"
    and "\<And>n. P n \<noteq> None \<Longrightarrow> n \<noteq> r \<Longrightarrow> 0 \<le> tn_lock_ref (h n)"
    and "\<And>n. P n \<noteq> None \<Longrightarrow> n \<noteq> r \<Longrightarrow> tn_lock_ref (h n) = int (D n) + kids_lock h n"
  shows "lock_ok h r P D"
  unfolding lock_ok_def lock_gap_def using assms by simp

lemma lock_ok_nonneg: "lock_ok h r P D \<Longrightarrow> P n \<noteq> None \<Longrightarrow> 0 \<le> tn_lock_ref (h n)"
  unfolding lock_ok_def by (rule lock_gap_nonneg)

lemma lock_ok_root: "lock_ok h r P D \<Longrightarrow> 0 < tn_lock_ref (h r)"
  by (simp add: lock_ok_def lock_gap_def)

lemma kids_lock_cong:
  assumes "tn_children (h' n) = tn_children (h n)"
    and "\<And>t c. (t, c) \<in> set (tn_children (h n)) \<Longrightarrow> tn_lock_ref (h' c) = tn_lock_ref (h c)"
  shows "kids_lock h' n = kids_lock h n"
proof -
  have "map (\<lambda>p. tn_lock_ref (h' (snd p))) (tn_children (h n)) =
      map (\<lambda>p. tn_lock_ref (h (snd p))) (tn_children (h n))"
    using assms(2) by (auto simp del: map_eq_conv intro!: map_cong)
  with assms(1) show ?thesis
    unfolding kids_lock_def by (simp only:)
qed

lemma kids_lock_ge:
  assumes ok: "tree_ok h r P" and n: "P n \<noteq> None" "(t, c) \<in> set (tn_children (h n))"
    and nn: "\<And>m. P m \<noteq> None \<Longrightarrow> 0 \<le> tn_lock_ref (h m)"
  shows "tn_lock_ref (h c) \<le> kids_lock h n"
proof -
  have "\<forall>p \<in> set (tn_children (h n)). 0 \<le> tn_lock_ref (h (snd p))"
    using tree_ok_edge [OF ok n(1)] nn by (auto simp: edge_ok_def)
  then have "tn_lock_ref (h (snd (t, c))) \<le> (\<Sum>p\<leftarrow>tn_children (h n). tn_lock_ref (h (snd p)))"
    using n(2) by (intro member_le_sum_list) (auto intro: rev_image_eqI)
  then show ?thesis by (simp add: kids_lock_def)
qed

lemma kids_lock_nonneg:
  assumes ok: "tree_ok h r P" and n: "P n \<noteq> None"
    and nn: "\<And>m. P m \<noteq> None \<Longrightarrow> 0 \<le> tn_lock_ref (h m)"
  shows "0 \<le> kids_lock h n"
  unfolding kids_lock_def using tree_ok_edge [OF ok n] nn
  by (intro sum_list_nonneg) (auto simp: edge_ok_def)

text \<open>A locked node has a locked parent, and a node with an outstanding lock is locked.\<close>

lemma lock_parent:
  assumes "tree_ok h r P" "lock_ok h r P D" "P n \<noteq> None" "n \<noteq> r" "tn_parent (h n) = Some p"
  shows "tn_lock_ref (h n) \<le> tn_lock_ref (h p) \<or> p = r"
proof -
  have p: "(hd (tn_key (h n)), n) \<in> set (tn_children (h p))" "P p \<noteq> None"
    using child_in_parent [OF assms(1,3,4,5)] by auto
  have "tn_lock_ref (h n) \<le> kids_lock h p"
    using kids_lock_ge [OF assms(1) p(2,1)] lock_ok_nonneg [OF assms(2)] by blast
  with lock_ok_eq [OF assms(2) p(2)] show ?thesis by linarith
qed

lemma lock_outstanding:
  assumes "tree_ok h r P" "lock_ok h r P D" "P n \<noteq> None" "n \<noteq> r"
  shows "int (D n) \<le> tn_lock_ref (h n)"
  using lock_ok_eq [OF assms(2-4)] kids_lock_nonneg [OF assms(1,3)] lock_ok_nonneg [OF assms(2)]
  by fastforce

lemma tree_ok_value: "tree_ok h r P \<Longrightarrow> P n \<noteq> None \<Longrightarrow> tn_value (h n) \<noteq> None"
  by (metis option.distinct(1) tree_ok_child_of tree_ok_rootD(3) child_of_def)

lemma tokens_cong:
  assumes "\<And>n. P n \<noteq> None \<Longrightarrow> tn_lock_ref (k n) = tn_lock_ref (h n)"
    and "\<And>n. P n \<noteq> None \<Longrightarrow> tn_key (k n) = tn_key (h n)"
  shows "unlocked_tokens k r P = unlocked_tokens h r P" "locked_tokens k r P = locked_tokens h r P"
proof -
  have eq: "tn_lock_ref (k n) = tn_lock_ref (h n)" "tn_key (k n) = tn_key (h n)"
    if "n \<in> dom P - {r}" for n
    using that assms by blast+
  show "unlocked_tokens k r P = unlocked_tokens h r P" "locked_tokens k r P = locked_tokens h r P"
    unfolding unlocked_tokens_def locked_tokens_def
    by (intro sum.cong refl; simp only: eq)+
qed

section \<open>Leaf status\<close>

lemma update_leaf_status_fields [simp]:
  "w_heap (update_leaf_status n s) = w_heap s"
  "w_counter (update_leaf_status n s) = w_counter s"
  "w_clock (update_leaf_status n s) = w_clock s"
  "w_reads (update_leaf_status n s) = w_reads s"
  "w_set_order (update_leaf_status n s) = w_set_order s"
  "rc_disable (update_leaf_status n s) = rc_disable s"
  "rc_page_size (update_leaf_status n s) = rc_page_size s"
  "rc_strategy (update_leaf_status n s) = rc_strategy s"
  "rc_root (update_leaf_status n s) = rc_root s"
  "rc_evictable_size (update_leaf_status n s) = rc_evictable_size s"
  "rc_protected_size (update_leaf_status n s) = rc_protected_size s"
  "rc_allocator (update_leaf_status n s) = rc_allocator s"
  by (simp_all add: update_leaf_status_def Let_def)

lemma update_leaf_status_set:
  assumes ok: "tree_ok (w_heap s) (rc_root s) P" and n: "P n \<noteq> None"
    and nn: "0 \<le> tn_lock_ref (w_heap s n)" and root: "0 < tn_lock_ref (w_heap s (rc_root s))"
  shows "rc_evictable_leaves (update_leaf_status n s) =
    rc_evictable_leaves s - {n} \<union> {n} \<inter> unlocked_leaves (w_heap s) (rc_root s) P"
proof -
  have "list_ex (\<lambda>(t, c). \<not> evicted (w_heap s c)) (tn_children (w_heap s n)) \<longleftrightarrow>
      tn_children (w_heap s n) \<noteq> []"
  proof (cases "tn_children (w_heap s n)")
    case (Cons p ps)
    then have "P (snd p) \<noteq> None"
      using tree_ok_edge [OF ok n, of "fst p" "snd p"] by (simp add: edge_ok_def)
    with Cons tree_ok_value [OF ok this] show ?thesis
      by (simp add: evicted_def case_prod_beta)
  qed simp
  moreover have "\<not> evicted (w_heap s n)"
    using tree_ok_value [OF ok n] by (simp add: evicted_def)
  moreover have "n \<in> unlocked_leaves (w_heap s) (rc_root s) P \<longleftrightarrow>
      \<not> tn_lock_ref (w_heap s n) > 0 \<and> tn_children (w_heap s n) = []"
    using n nn root by (auto simp: unlocked_leaves_def)
  ultimately show ?thesis
    unfolding update_leaf_status_def Let_def by auto
qed

section \<open>Changes that are no part of the invariant\<close>

lemma cache_inv_cong:
  assumes inv: "cache_inv s P D" and cfg: "same_config s t"
    and acct: "rc_evictable_size t = rc_evictable_size s" "rc_protected_size t = rc_protected_size s"
      "rc_evictable_leaves t = rc_evictable_leaves s"
    and nodes: "\<And>n. P n \<noteq> None \<Longrightarrow> same_shape (w_heap t n) (w_heap s n) \<and>
      tn_lock_ref (w_heap t n) = tn_lock_ref (w_heap s n)"
  shows "cache_inv t P D"
proof -
  note i = cache_invD [OF inv]
  let ?r = "rc_root s"
  have root: "rc_root t = ?r" "P ?r \<noteq> None"
    using cfg tree_ok_rootD(1) [OF i(1)] by (simp_all add: same_config_def)
  have tree: "tree_ok (w_heap t) ?r P"
    using tree_ok_cong [OF i(1)] nodes by blast
  have kids: "kids_lock (w_heap t) n = kids_lock (w_heap s) n" if "P n \<noteq> None" for n
    using tree_ok_edge [OF i(1) that] nodes that
    by (intro kids_lock_cong) (auto simp: edge_ok_def same_shapeD)
  have lock: "lock_ok (w_heap t) ?r P D"
  proof (rule lock_okI)
    show "0 < tn_lock_ref (w_heap t ?r)"
      using nodes [OF root(2)] lock_ok_root [OF i(3)] by simp
    fix n
    show "P n = None \<Longrightarrow> D n = 0"
      by (rule lock_ok_dead [OF i(3)])
    assume n: "P n \<noteq> None" "n \<noteq> ?r"
    show "0 \<le> tn_lock_ref (w_heap t n)"
      using nodes [OF n(1)] lock_ok_nonneg [OF i(3) n(1)] by simp
    show "tn_lock_ref (w_heap t n) = int (D n) + kids_lock (w_heap t) n"
      using nodes [OF n(1)] lock_ok_eq [OF i(3) n] kids [OF n(1)] by simp
  qed
  have "unlocked_tokens (w_heap t) ?r P = unlocked_tokens (w_heap s) ?r P"
    "locked_tokens (w_heap t) ?r P = locked_tokens (w_heap s) ?r P"
    using nodes by (auto intro!: tokens_cong simp: same_shapeD)
  moreover have "unlocked_leaves (w_heap t) ?r P = unlocked_leaves (w_heap s) ?r P"
  proof -
    have "tn_lock_ref (w_heap t n) = 0 \<and> tn_children (w_heap t n) = [] \<longleftrightarrow>
        tn_lock_ref (w_heap s n) = 0 \<and> tn_children (w_heap s n) = []" if "P n \<noteq> None" for n
      using nodes [OF that] by (simp add: same_shape_def)
    then show ?thesis
      unfolding unlocked_leaves_def by blast
  qed
  ultimately have "acct_ok t P"
    using i(4) acct root(1) by (simp add: acct_ok_def)
  moreover have "fresh_ok t P"
    using i(2) cfg unfolding fresh_ok_def same_config_def by (meson less_le_trans)
  moreover have "set_order_ok t"
    using i(5) cfg by (simp add: set_order_ok_def same_config_def)
  ultimately show ?thesis
    using tree lock root(1) by (simp add: cache_inv_def)
qed


section \<open>Splitting a node\<close>

lemma fresh_ok_upd:
  assumes "fresh_ok s P" "w_counter s \<le> w_counter t" "w < w_counter t"
  shows "fresh_ok t (P(w \<mapsto> x))"
  unfolding fresh_ok_def
proof (intro allI impI)
  fix n
  assume "(P(w \<mapsto> x)) n \<noteq> None"
  then have "n = w \<or> n < w_counter s"
    using assms(1) by (auto simp: fresh_ok_def split: if_splits)
  with assms(2,3) show "n < w_counter t" by auto
qed

lemma split_kids_lock:
  assumes st: "split_step h k r P p c w m q vs v" and n: "P n \<noteq> None"
    and locks: "\<And>n. P n \<noteq> None \<Longrightarrow> tn_lock_ref (k n) = tn_lock_ref (h n)"
      "tn_lock_ref (k w) = tn_lock_ref (h c)"
  shows "kids_lock k n = kids_lock h n"
proof -
  note st' = st [unfolded split_step_def split_shape_def]
  note nodes = split_step_nodes [OF st]
  have kid: "tn_lock_ref (k d) = tn_lock_ref (h d)" if "(u, d) \<in> set (tn_children (h n))" for u d
    using tree_ok_edge [of h r P n u d] that st' n locks(1) by (simp add: edge_ok_def)
  show ?thesis
  proof (cases "n = p")
    case True
    have "P c \<noteq> None" using st' by simp
    then have "kids_lock k p = (\<Sum>x\<leftarrow>tn_children (h p). tn_lock_ref (k (snd x)))"
      using st' locks(2) locks(1) [of c]
        sum_list_alist_update_old [OF nodes(8,7), of "\<lambda>x. tn_lock_ref (k x)" w]
      by (simp add: kids_lock_def)
    also have "\<dots> = kids_lock h p"
      using kid True unfolding kids_lock_def
      by (intro arg_cong [of _ _ sum_list] map_cong) auto
    finally show ?thesis using True by simp
  next
    case False
    with kid split_step_children [OF st n] show ?thesis
      by (intro kids_lock_cong) auto
  qed
qed

lemma split_lock_ok:
  assumes st: "split_step h k r P p c w m q vs v" and ok: "lock_ok h r P D"
    and locks: "\<And>n. P n \<noteq> None \<Longrightarrow> tn_lock_ref (k n) = tn_lock_ref (h n)"
      "tn_lock_ref (k w) = tn_lock_ref (h c)"
  shows "lock_ok k r (P(w \<mapsto> x)) D"
proof -
  note st' = st [unfolded split_step_def split_shape_def]
  have nodes: "P w = None" "P c \<noteq> None" "P r \<noteq> None"
    using st' tree_ok_rootD(1) [of h r P] by auto
  have kw: "kids_lock k w = tn_lock_ref (k w)"
    using st' locks(2) locks(1) [OF nodes(2)] by (simp add: kids_lock_def)
  show ?thesis
  proof (rule lock_okI)
    show "0 < tn_lock_ref (k r)"
      using lock_ok_root [OF ok] locks(1) [OF nodes(3)] by simp
    fix n
    show "(P(w \<mapsto> x)) n = None \<Longrightarrow> D n = 0"
      using lock_ok_dead [OF ok, of n] by (auto split: if_splits)
    assume n: "(P(w \<mapsto> x)) n \<noteq> None" "n \<noteq> r"
    show "0 \<le> tn_lock_ref (k n)"
      using n locks nodes lock_ok_nonneg [OF ok] by (cases "n = w") auto
    show "tn_lock_ref (k n) = int (D n) + kids_lock k n"
      using lock_ok_dead [OF ok nodes(1)] n locks(1) nodes kw lock_ok_eq [OF ok, of n] split_kids_lock [OF st _ locks, of n]
      by (cases "n = w") auto
  qed
qed

lemma split_acct:
  assumes st: "split_step h k r P p c w m q vs v" and fin: "finite (dom P)"
    and locks: "\<And>n. P n \<noteq> None \<Longrightarrow> tn_lock_ref (k n) = tn_lock_ref (h n)"
      "tn_lock_ref (k w) = tn_lock_ref (h c)"
  shows "unlocked_tokens k r (P(w \<mapsto> x)) = unlocked_tokens h r P"
    "locked_tokens k r (P(w \<mapsto> x)) = locked_tokens h r P"
    "unlocked_leaves k r (P(w \<mapsto> x)) = unlocked_leaves h r P"
proof -
  note st' = st [unfolded split_step_def split_shape_def]
  note nodes = split_step_nodes [OF st]
  have dom: "dom (P(w \<mapsto> x)) - {r} = Set.insert w (dom P - {r})"
    using nodes(4) by auto
  have wc: "w \<notin> dom P - {r}" "c \<in> dom P - {r}" "P c \<noteq> None" "finite (dom P - {r})"
    using st' fin by auto
  have keys: "tn_key (k n) = tn_key (h n)" if "P n \<noteq> None" "n \<noteq> c" for n
    using split_step_same [OF st that] by simp
  let ?f = "\<lambda>h n. if tn_lock_ref (h n) = 0 then int (length (tn_key (h n))) else 0"
  let ?g = "\<lambda>h n. if tn_lock_ref (h n) = 0 then 0 else int (length (tn_key (h n)))"
  have "sum (?f k) (dom P - {r}) = sum (?f h) (dom P - {r}) - ?f h c + ?f k c"
    "sum (?g k) (dom P - {r}) = sum (?g h) (dom P - {r}) - ?g h c + ?g k c"
    using wc locks(1) keys by (intro sum_update_point; auto)+
  then show "unlocked_tokens k r (P(w \<mapsto> x)) = unlocked_tokens h r P"
    "locked_tokens k r (P(w \<mapsto> x)) = locked_tokens h r P"
    unfolding unlocked_tokens_def locked_tokens_def dom
    using wc st' locks(2) locks(1) [OF wc(3)] by (simp_all add: of_nat_diff)
  have "map_of (tn_children (k p)) (hd (tn_key (h c))) \<noteq> None"
    using st' by (simp add: update_conv')
  then have "tn_children (k p) \<noteq> []" "tn_children (h p) \<noteq> []"
    using nodes(7) by auto
  then have "tn_children (k n) = [] \<longleftrightarrow> tn_children (h n) = []" if "P n \<noteq> None" for n
    using split_step_children [OF st that] by (cases "n = p") auto
  then show "unlocked_leaves k r (P(w \<mapsto> x)) = unlocked_leaves h r P"
    using st' locks by (auto simp: unlocked_leaves_def split: if_splits)
qed

lemma split_inv:
  assumes inv: "cache_inv s P D" and cfg: "same_config s t" and ctr: "w < w_counter t"
    and st: "split_step (w_heap s) (w_heap t) (rc_root s) P p c w m q vs v"
    and acct: "rc_evictable_size t = rc_evictable_size s" "rc_protected_size t = rc_protected_size s"
      "rc_evictable_leaves t = rc_evictable_leaves s"
    and locks: "\<And>n. P n \<noteq> None \<Longrightarrow> tn_lock_ref (w_heap t n) = tn_lock_ref (w_heap s n)"
      "tn_lock_ref (w_heap t w) = tn_lock_ref (w_heap s c)"
  shows "cache_inv t (P(w \<mapsto> (q @ take m (tn_key (w_heap s c)), vs @ take m v))) D"
proof -
  note i = cache_invD [OF inv]
  have root: "rc_root t = rc_root s" "w_counter s \<le> w_counter t" "w_set_order t = w_set_order s"
    using cfg by (simp_all add: same_config_def)
  show ?thesis
    unfolding cache_inv_def root(1)
  proof (intro conjI)
    show "fresh_ok t (P(w \<mapsto> (q @ take m (tn_key (w_heap s c)), vs @ take m v)))"
      using i(2) root(2) ctr by (rule fresh_ok_upd)
    show "acct_ok t (P(w \<mapsto> (q @ take m (tn_key (w_heap s c)), vs @ take m v)))"
      using i(4) acct root split_acct [OF st fresh_ok_finite [OF i(2)] locks]
      by (simp add: acct_ok_def)
    show "set_order_ok t"
      using i(5) root(3) by (simp add: set_order_ok_def)
  qed (use tree_ok_split [OF st] split_lock_ok [OF st i(3) locks] in auto)
qed


section \<open>A new leaf\<close>

lemma leaf_kids_lock:
  assumes st: "leaf_step h k r P p w q vs key v" and n: "P n \<noteq> None"
    and locks: "\<And>n. P n \<noteq> None \<Longrightarrow> tn_lock_ref (k n) = tn_lock_ref (h n)" "tn_lock_ref (k w) = 0"
  shows "kids_lock k n = kids_lock h n"
proof -
  note st' = st [unfolded leaf_step_def leaf_shape_def]
  have kid: "tn_lock_ref (k d) = tn_lock_ref (h d)" if "(u, d) \<in> set (tn_children (h n))" for u d
    using tree_ok_edge [of h r P n u d] that st' n locks(1) by (simp add: edge_ok_def)
  show ?thesis
  proof (cases "n = p")
    case True
    have "hd key \<notin> set (map fst (tn_children (h p)))"
      using st' by (simp add: map_of_eq_None_iff)
    then have "kids_lock k p = (\<Sum>x\<leftarrow>tn_children (h p). tn_lock_ref (k (snd x)))"
      using st' locks(2) sum_list_alist_update_new [of "hd key" _ "\<lambda>x. tn_lock_ref (k x)" w]
      by (simp add: kids_lock_def)
    also have "\<dots> = kids_lock h p"
      using kid True unfolding kids_lock_def
      by (intro arg_cong [of _ _ sum_list] map_cong) auto
    finally show ?thesis using True by simp
  next
    case False
    with kid leaf_step_same(5) [OF st n] show ?thesis
      by (intro kids_lock_cong) auto
  qed
qed

lemma leaf_lock_ok:
  assumes st: "leaf_step h k r P p w q vs key v" and ok: "lock_ok h r P D"
    and locks: "\<And>n. P n \<noteq> None \<Longrightarrow> tn_lock_ref (k n) = tn_lock_ref (h n)" "tn_lock_ref (k w) = 0"
  shows "lock_ok k r (P(w \<mapsto> x)) D"
proof -
  note st' = st [unfolded leaf_step_def leaf_shape_def]
  have nodes: "P w = None" "P r \<noteq> None" "kids_lock k w = 0"
    using st' tree_ok_rootD(1) [of h r P] by (auto simp: kids_lock_def)
  show ?thesis
  proof (rule lock_okI)
    show "0 < tn_lock_ref (k r)"
      using lock_ok_root [OF ok] locks(1) [OF nodes(2)] by simp
    fix n
    show "(P(w \<mapsto> x)) n = None \<Longrightarrow> D n = 0"
      using lock_ok_dead [OF ok, of n] by (auto split: if_splits)
    assume n: "(P(w \<mapsto> x)) n \<noteq> None" "n \<noteq> r"
    show "0 \<le> tn_lock_ref (k n)"
      using n locks nodes lock_ok_nonneg [OF ok] by (cases "n = w") auto
    show "tn_lock_ref (k n) = int (D n) + kids_lock k n"
      using lock_ok_dead [OF ok nodes(1)] n locks nodes lock_ok_eq [OF ok, of n] leaf_kids_lock [OF st _ locks, of n]
      by (cases "n = w") auto
  qed
qed

lemma leaf_acct:
  assumes st: "leaf_step h k r P p w q vs key v" and fin: "finite (dom P)"
    and locks: "\<And>n. P n \<noteq> None \<Longrightarrow> tn_lock_ref (k n) = tn_lock_ref (h n)" "tn_lock_ref (k w) = 0"
  shows "unlocked_tokens k r (P(w \<mapsto> x)) = unlocked_tokens h r P + int (length key)"
    "locked_tokens k r (P(w \<mapsto> x)) = locked_tokens h r P"
    "unlocked_leaves k r (P(w \<mapsto> x)) = Set.insert w (unlocked_leaves h r P - {p})"
proof -
  note st' = st [unfolded leaf_step_def leaf_shape_def]
  have nodes: "P w = None" "w \<noteq> r"
    using st' tree_ok_rootD(1) [of h r P] by auto
  have dom: "dom (P(w \<mapsto> x)) - {r} = Set.insert w (dom P - {r})"
    using nodes by auto
  have fin': "finite (dom P - {r})" "w \<notin> dom P - {r}"
    using fin nodes by auto
  have "unlocked_tokens k r P = unlocked_tokens h r P" "locked_tokens k r P = locked_tokens h r P"
    using locks(1) leaf_step_same(2) [OF st] by (auto intro: tokens_cong)
  then show "unlocked_tokens k r (P(w \<mapsto> x)) = unlocked_tokens h r P + int (length key)"
    "locked_tokens k r (P(w \<mapsto> x)) = locked_tokens h r P"
    unfolding unlocked_tokens_def locked_tokens_def dom
    using fin' st' locks(2) by simp_all
  have "map_of (tn_children (k p)) (hd key) \<noteq> None"
    using st' by (simp add: update_conv')
  then have "tn_children (k p) \<noteq> []" by auto
  then have "tn_children (k n) = [] \<longleftrightarrow> tn_children (h n) = [] \<and> n \<noteq> p" if "P n \<noteq> None" for n
    using leaf_step_same(5) [OF st that] by (cases "n = p") auto
  then show "unlocked_leaves k r (P(w \<mapsto> x)) = Set.insert w (unlocked_leaves h r P - {p})"
    using st' locks nodes by (auto simp: unlocked_leaves_def split: if_splits)
qed

section \<open>Removing a leaf\<close>

lemma delete_kids_lock:
  assumes st: "delete_step h k r P p x" and n: "P n \<noteq> None"
    and locks: "\<And>n. P n \<noteq> None \<Longrightarrow> tn_lock_ref (k n) = tn_lock_ref (h n)" "tn_lock_ref (h x) = 0"
  shows "kids_lock k n = kids_lock h n"
proof -
  note st' = st [unfolded delete_step_def]
  note nodes = delete_step_nodes [OF st]
  have kid: "tn_lock_ref (k d) = tn_lock_ref (h d)" if "(u, d) \<in> set (tn_children (h n))" for u d
    using tree_ok_edge [of h r P n u d] that st' n locks(1) by (simp add: edge_ok_def)
  show ?thesis
  proof (cases "n = p")
    case True
    have "map_of (tn_children (h p)) (hd (tn_key (h x))) = Some x"
      using nodes(2,4) by simp
    then have "kids_lock k p = (\<Sum>x\<leftarrow>tn_children (h p). tn_lock_ref (k (snd x)))"
      using st' locks sum_list_alist_delete [OF nodes(4), of _ x "\<lambda>x. tn_lock_ref (k x)"]
      by (simp add: kids_lock_def)
    also have "\<dots> = kids_lock h p"
      using kid True unfolding kids_lock_def
      by (intro arg_cong [of _ _ sum_list] map_cong) auto
    finally show ?thesis using True by simp
  next
    case False
    with kid delete_step_same(4) [OF st n] show ?thesis
      by (intro kids_lock_cong) auto
  qed
qed

lemma delete_lock_ok:
  assumes st: "delete_step h k r P p x" and ok: "lock_ok h r P D"
    and locks: "\<And>n. P n \<noteq> None \<Longrightarrow> tn_lock_ref (k n) = tn_lock_ref (h n)" "tn_lock_ref (h x) = 0"
  shows "lock_ok k r (P(x := None)) D"
proof (rule lock_okI)
  note st' = st [unfolded delete_step_def]
  have Pr: "P r \<noteq> None" using st' tree_ok_rootD(1) [of h r P] by auto
  show "0 < tn_lock_ref (k r)"
    using lock_ok_root [OF ok] locks(1) [OF Pr] by simp
  have "P x \<noteq> None" "x \<noteq> r" "kids_lock h x = 0"
    using st' by (simp_all add: kids_lock_def)
  with lock_ok_eq [OF ok this(1,2)] locks(2) have Dx: "D x = 0" by simp
  fix n
  show "(P(x := None)) n = None \<Longrightarrow> D n = 0"
    using lock_ok_dead [OF ok, of n] Dx by (auto split: if_splits)
  assume n: "(P(x := None)) n \<noteq> None" "n \<noteq> r"
  then have Pn: "P n \<noteq> None" by (auto split: if_splits)
  show "0 \<le> tn_lock_ref (k n)"
    using locks(1) [OF Pn] lock_ok_nonneg [OF ok Pn] by simp
  show "tn_lock_ref (k n) = int (D n) + kids_lock k n"
    using locks(1) [OF Pn] lock_ok_eq [OF ok Pn n(2)] delete_kids_lock [OF st Pn locks] by simp
qed

lemma delete_acct:
  assumes st: "delete_step h k r P p x" and fin: "finite (dom P)"
    and locks: "\<And>n. P n \<noteq> None \<Longrightarrow> tn_lock_ref (k n) = tn_lock_ref (h n)" "tn_lock_ref (h x) = 0"
  shows "unlocked_tokens k r (P(x := None)) = unlocked_tokens h r P - int (length (tn_key (h x)))"
    "locked_tokens k r (P(x := None)) = locked_tokens h r P"
    "unlocked_leaves k r (P(x := None)) - {p} = unlocked_leaves h r P - {x} - {p}"
proof -
  note st' = st [unfolded delete_step_def]
  note nodes = delete_step_nodes [OF st]
  have dom: "dom (P(x := None)) - {r} = dom P - {r} - {x}"
    by auto
  have fin': "finite (dom P - {r})" "x \<in> dom P - {r}"
    using fin st' by auto
  have same: "tn_key (k n) = tn_key (h n)" "tn_lock_ref (k n) = tn_lock_ref (h n)"
    if "n \<in> dom P - {r}" for n
    using delete_step_same(2) [OF st, of n] locks(1) [of n] that by auto
  let ?f = "\<lambda>h n. if tn_lock_ref (h n) = 0 then int (length (tn_key (h n))) else 0"
  let ?g = "\<lambda>h n. if tn_lock_ref (h n) = 0 then 0 else int (length (tn_key (h n)))"
  have "sum (?f k) (dom P - {r} - {x}) = sum (?f h) (dom P - {r}) - ?f h x"
    "sum (?g k) (dom P - {r} - {x}) = sum (?g h) (dom P - {r}) - ?g h x"
    using fin' same by (intro sum_remove_point; simp)+
  then show "unlocked_tokens k r (P(x := None)) = unlocked_tokens h r P - int (length (tn_key (h x)))"
    "locked_tokens k r (P(x := None)) = locked_tokens h r P"
    unfolding unlocked_tokens_def locked_tokens_def dom using locks(2) by simp_all
  have "tn_children (k n) = tn_children (h n)" if "P n \<noteq> None" "n \<noteq> p" for n
    using delete_step_same(4) [OF st that] .
  then show "unlocked_leaves k r (P(x := None)) - {p} = unlocked_leaves h r P - {x} - {p}"
    using locks by (auto simp: unlocked_leaves_def split: if_splits)
qed

end
