(* ===== verification/Radix_Match.thy ===== *)
theory Radix_Match
  imports Radix_Inv
begin

text \<open>
  \<open>_split_node\<close> and \<open>match_prefix\<close> on a cache that satisfies the invariant. Matching changes
  access times and may split one node; \<open>reshaped\<close> is what such changes leave alone: the cached
  map, the counters of the cache, the locks, and the paths of the nodes that were there before.
\<close>

section \<open>Reshaping the tree\<close>

definition cached :: "radix_cache \<Rightarrow> token list \<Rightarrow> slot list option" where
  "cached s ks = walk (w_heap s) (rc_root s) ks"

definition reshaped :: "radix_cache \<Rightarrow> paths \<Rightarrow> locks \<Rightarrow> radix_cache \<Rightarrow> paths \<Rightarrow> bool" where
  "reshaped s P D t P' \<longleftrightarrow>
     cache_inv t P' D \<and> same_config s t \<and> P \<subseteq>\<^sub>m P' \<and> cached t = cached s \<and>
     rc_allocator t = rc_allocator s \<and> rc_evictable_size t = rc_evictable_size s \<and>
     rc_protected_size t = rc_protected_size s \<and> rc_evictable_leaves t = rc_evictable_leaves s"

lemma reshaped_refl: "cache_inv s P D \<Longrightarrow> reshaped s P D s P"
  by (simp add: reshaped_def)

lemma reshaped_trans:
  "reshaped s P D t P' \<Longrightarrow> reshaped t P' D u P'' \<Longrightarrow> reshaped s P D u P''"
  unfolding reshaped_def by (auto intro: same_config_trans map_le_trans)

lemma reshapedD:
  assumes "reshaped s P D t P'"
  shows "cache_inv t P' D" "same_config s t" "P \<subseteq>\<^sub>m P'" "cached t = cached s"
  using assms by (simp_all add: reshaped_def)

lemma map_le_Some: "P \<subseteq>\<^sub>m P' \<Longrightarrow> P n = Some x \<Longrightarrow> P' n = Some x"
  by (metis domI map_le_def)

lemma cached_iff:
  assumes "cache_inv s P D"
  shows "cached s ks = Some ws \<longleftrightarrow>
    (\<exists>n q vs. P n = Some (q, vs) \<and> prefix ks q \<and> ws = take (length ks) vs)"
  unfolding cached_def by (rule walk_iff [OF cache_invD(1) [OF assms]])

text \<open>Every path of \<open>R\<close> is the beginning of a path of \<open>Q\<close>.\<close>

definition covers :: "paths \<Rightarrow> paths \<Rightarrow> bool" where
  "covers Q R \<longleftrightarrow>
     (\<forall>n q vs. R n = Some (q, vs) \<longrightarrow>
        (\<exists>m q' vs'. Q m = Some (q', vs') \<and> prefix q q' \<and> vs = take (length q) vs'))"

lemma coversI:
  assumes "\<And>n q vs. R n = Some (q, vs) \<Longrightarrow>
    \<exists>m q' vs'. Q m = Some (q', vs') \<and> prefix q q' \<and> vs = take (length q) vs'"
  shows "covers Q R"
  using assms by (simp add: covers_def)

lemma covers_cached:
  assumes a: "cache_inv a Q E" and b: "cache_inv b R F" and cov: "covers Q R"
    and ks: "cached b ks = Some ws"
  shows "cached a ks = Some ws"
proof -
  obtain n q vs where n: "R n = Some (q, vs)" "prefix ks q" "ws = take (length ks) vs"
    using ks cached_iff [OF b] by blast
  obtain m q' vs' where m: "Q m = Some (q', vs')" "prefix q q'" "vs = take (length q) vs'"
    using cov n(1) unfolding covers_def by blast
  have "prefix ks q'" using n(2) m(2) by (meson prefix_order.trans)
  moreover have "ws = take (length ks) vs'"
    using n m prefix_length_le [OF n(2)] by (simp add: min_def)
  ultimately show ?thesis using cached_iff [OF a] m(1) by blast
qed

lemma cached_eqI:
  assumes "cache_inv s P D" "cache_inv t P' D'" "covers P P'" "covers P' P"
  shows "cached t = cached s"
proof
  fix ks
  have "cached t ks = Some ws \<longleftrightarrow> cached s ks = Some ws" for ws
    using covers_cached [OF assms(1,2,3)] covers_cached [OF assms(2,1,4)] by blast
  then show "cached t ks = cached s ks"
    by (metis option.exhaust)
qed

lemma covers_map_le:
  assumes "cache_inv s P D" "P \<subseteq>\<^sub>m P'"
  shows "covers P' P"
proof (rule coversI)
  fix n q vs
  assume n: "P n = Some (q, vs)"
  then have "P' n = Some (q, vs)"
    using assms(2) by (rule map_le_Some [rotated])
  moreover have "vs = take (length q) vs"
    using path_lengths [OF cache_invD(1) [OF assms(1)] n] by simp
  ultimately show "\<exists>m q' vs'. P' m = Some (q', vs') \<and> prefix q q' \<and> vs = take (length q) vs'"
    by blast
qed

text \<open>A step that touches access times and priorities only.\<close>

lemma reshaped_touch:
  assumes inv: "cache_inv s P D" and cfg: "same_config s t"
    and acct: "rc_evictable_size t = rc_evictable_size s" "rc_protected_size t = rc_protected_size s"
      "rc_evictable_leaves t = rc_evictable_leaves s" "rc_allocator t = rc_allocator s"
    and nodes: "\<And>n. P n \<noteq> None \<Longrightarrow> same_shape (w_heap t n) (w_heap s n) \<and>
      tn_lock_ref (w_heap t n) = tn_lock_ref (w_heap s n)"
  shows "reshaped s P D t P"
proof -
  have i: "cache_inv t P D"
    using inv cfg acct(1-3) nodes by (rule cache_inv_cong)
  have "cached t = cached s"
    using cached_eqI [OF inv i] covers_map_le [OF inv map_le_refl] by blast
  with i cfg acct show ?thesis
    by (simp add: reshaped_def)
qed

section \<open>The split of a node\<close>

lemma split_node_inv:
  assumes inv: "cache_inv s P D" and c: "P c = Some (qc, vc)" "c \<noteq> rc_root s"
    and m: "0 < m" "m < length (tn_key (w_heap s c))"
  obtains p q vs v t where
    "split_node (tn_key (w_heap s c)) c m s = Return (w_counter s) t"
    "tn_parent (w_heap s c) = Some p" "P p = Some (q, vs)" "tn_value (w_heap s c) = Some v"
    "qc = q @ tn_key (w_heap s c)" "vc = vs @ v" "length v = length (tn_key (w_heap s c))"
    "reshaped s P D t (P(w_counter s \<mapsto> (q @ take m (tn_key (w_heap s c)), vs @ take m v)))"
    "tn_value (w_heap t (w_counter s)) = Some (take m v)"
    "tn_children (w_heap t (w_counter s)) = [(tn_key (w_heap s c) ! m, c)]"
proof -
  note i = cache_invD [OF inv]
  let ?h = "w_heap s" and ?w = "w_counter s" and ?k = "tn_key (w_heap s c)"
  obtain p q vs v where p: "tn_parent (?h c) = Some p" "P p = Some (q, vs)" "tn_value (?h c) = Some v"
    "qc = q @ ?k" "vc = vs @ v" "?k \<noteq> []" "length v = length ?k"
    by (rule tree_ok_upE [OF i(1) c])
  obtain k0 ks where k0: "?k = k0 # ks" using p(6) by (cases ?k) auto
  have w: "P ?w = None" by (rule fresh_ok_new [OF i(2)])
  then have wn: "?w \<noteq> c" "?w \<noteq> p" "c \<noteq> p" using c p parent_neq [OF i(1) _ p(1)] by auto
  define s1 where "s1 = snd (new_node (tn_priority (?h c)) s)"
  define t where "t = s1\<lparr>w_heap := (w_heap s1)(
      ?w := (w_heap s1 ?w)\<lparr>tn_children := [(?k ! m, c)], tn_parent := Some p,
              tn_lock_ref := tn_lock_ref (?h c), tn_key := take m ?k, tn_value := Some (take m v)\<rparr>,
      c := (?h c)\<lparr>tn_parent := Some ?w, tn_key := drop m ?k, tn_value := Some (drop m v)\<rparr>,
      p := (?h p)\<lparr>tn_children := AList.update k0 ?w (tn_children (?h p))\<rparr>)\<rparr>"
  have s1: "new_node (tn_priority (?h c)) s = (?w, s1)" "\<And>n. n \<noteq> ?w \<Longrightarrow> w_heap s1 n = ?h n"
    by (simp_all add: s1_def prod_eq_iff)
  have split: "split_node ?k c m s = Return ?w t"
    unfolding split_node_def Let_def s1(1)
    using m p wn k0 s1(2) by (simp add: t_def upd_node_def fun_upd_def fun_eq_iff)
  have cfg: "same_config s t" "rc_allocator t = rc_allocator s"
    "rc_evictable_size t = rc_evictable_size s" "rc_protected_size t = rc_protected_size s"
    "rc_evictable_leaves t = rc_evictable_leaves s" "?w < w_counter t"
    by (simp_all add: t_def s1_def new_node_def monotonic_def Let_def same_config_def)
  have st: "split_step ?h (w_heap t) (rc_root s) P p c ?w m q vs v"
    unfolding split_step_def split_shape_def
    using i(1) c p m w wn s1(2) k0 by (auto simp: t_def)
  have locks: "tn_lock_ref (w_heap t n) = tn_lock_ref (?h n)" if "P n \<noteq> None" for n
    using that w s1(2) by (auto simp: t_def)
  have lockw: "tn_lock_ref (w_heap t ?w) = tn_lock_ref (?h c)"
    using wn by (simp add: t_def)
  let ?P = "P(?w \<mapsto> (q @ take m ?k, vs @ take m v))"
  have inv': "cache_inv t ?P D"
    using split_inv [OF inv cfg(1,6) st cfg(3,4,5) locks lockw] .
  have sub: "P \<subseteq>\<^sub>m ?P"
    using w by (auto simp: map_le_def)
  have "covers P ?P"
  proof (rule coversI)
    fix n q' vs'
    assume n: "?P n = Some (q', vs')"
    show "\<exists>m q'' vs''. P m = Some (q'', vs'') \<and> prefix q' q'' \<and> vs' = take (length q') vs''"
    proof (cases "n = ?w")
      case True
      then show ?thesis
        using n c p m(2) path_lengths [OF i(1) p(2)]
        by (intro exI [of _ c]) (auto simp: take_is_prefix)
    next
      case False
      then have "P n = Some (q', vs')" using n by simp
      then show ?thesis using covers_map_le [OF inv map_le_refl] unfolding covers_def by blast
    qed
  qed
  then have "cached t = cached s"
    using cached_eqI [OF inv inv'] covers_map_le [OF inv sub] by blast
  then have "reshaped s P D t ?P"
    using inv' sub cfg by (simp add: reshaped_def)
  with that [OF split p(1,2,3,4,5,7)] show thesis
    using wn by (simp add: t_def)
qed


section \<open>match_prefix\<close>

lemma key_match_take: "key_match xs (take j ys) = min j (key_match xs ys)"
proof (induction xs ys arbitrary: j rule: list_induct2')
  case (4 x xs y ys)
  then show ?case by (cases j) auto
qed auto

lemma flatten_indices_snoc:
  "flatten_indices acc vs = Some xs \<Longrightarrow> flatten_indices acc (vs @ [Some v]) = Some (xs @ v)"
  by (induction acc vs rule: flatten_indices.induct) auto

text \<open>Nothing longer is cached where the walk leaves the tree.\<close>

lemma cached_beyond:
  assumes inv: "cache_inv s P D" and node: "P node = Some (q, vs)"
    and stop: "case map_of (tn_children (w_heap s node)) (hd key) of
        None \<Rightarrow> i = 0
      | Some c \<Rightarrow> i = key_match (tn_key (w_heap s c)) key \<and> i < length (tn_key (w_heap s c))"
    and ks: "prefix ks (q @ key)" "length q + i < length ks"
  shows "cached s ks = None"
proof -
  obtain zs where zs: "ks = q @ zs" "prefix zs key"
    using ks by (auto simp: prefix_append dest: prefix_length_le)
  then have ne: "zs \<noteq> []" "i < length zs" "hd zs = hd key"
    using ks(2) by (cases zs; auto simp: prefix_def)+
  have "walk (w_heap s) node zs = None"
  proof (cases "map_of (tn_children (w_heap s node)) (hd key)")
    case None
    with ne show ?thesis by (subst walk.simps) simp
  next
    case (Some c)
    have "zs = take (length zs) key"
      using zs(2) by (simp add: prefix_take_iff)
    then have "key_match (tn_key (w_heap s c)) zs = i"
      using key_match_take [of "tn_key (w_heap s c)" "length zs" key] stop Some ne(2) by simp
    with Some ne stop show ?thesis
      by (subst walk.simps) (auto simp: Let_def split: option.splits)
  qed
  then show ?thesis
    using walk_app [OF cache_invD(1) [OF inv] node, of zs] zs(1) by (simp add: cached_def)
qed

definition longest :: "radix_cache \<Rightarrow> token list \<Rightarrow> token list \<Rightarrow> bool" where
  "longest s key q \<longleftrightarrow>
     prefix q key \<and> (\<forall>ks. prefix ks key \<longrightarrow> length q < length ks \<longrightarrow> cached s ks = None)"

lemma touch_child:
  assumes inv: "cache_inv s P D"
  shows "reshaped s P D (upd_node c (\<lambda>nd. nd\<lparr>tn_last_access := a\<rparr>) s) P"
  by (rule reshaped_touch [OF inv])
     (simp_all add: same_config_def upd_node_def same_shape_def)

lemma match_loop_spec:
  assumes "cache_inv s P D" "P node = Some (q, vs)" "flatten_indices [] value = Some vs"
    and "key \<noteq> [] \<Longrightarrow> ck = hd key"
  shows "\<exists>t P' value' node' q' vs'.
    match_loop a node key ck value s = Some (Return (value', node') t) \<and>
    reshaped s P D t P' \<and> P' node' = Some (q', vs') \<and> flatten_indices [] value' = Some vs' \<and>
    longest s (q @ key) q'"
  using assms
proof (induction "length key" arbitrary: s P node q vs key ck "value" rule: less_induct)
  case less
  note inv = less.prems(1) and node = less.prems(2)
  let ?ch = "map_of (tn_children (w_heap s node)) (hd key)"
  show ?case
  proof (cases "key = [] \<or> ?ch = None")
    case True
    then have ml: "match_loop a node key ck value s = Some (Return (value, node) s)"
      using less.prems(4) by (subst match_loop.simps) auto
    have "cached s ks = None" if "prefix ks (q @ key)" "length q < length ks" for ks
      using cached_beyond [OF inv node, where key = key and i = 0 and ks = ks] that True
      by (cases "key = []") (auto dest: prefix_length_le)
    with ml reshaped_refl [OF inv] node less.prems(3) show ?thesis
      by (auto simp: longest_def)
  next
    case False
    then obtain c where c: "?ch = Some c" and key: "key \<noteq> []" "ck = hd key"
      using less.prems(4) by auto
    let ?s1 = "upd_node c (\<lambda>nd. nd\<lparr>tn_last_access := a\<rparr>) s"
    let ?k = "tn_key (w_heap s c)"
    let ?i = "key_match ?k key"
    have re1: "reshaped s P D ?s1 P" by (rule touch_child [OF inv])
    note inv1 = reshapedD(1) [OF re1]
    from tree_ok_child_lookup [OF cache_invD(1) [OF inv] node c] obtain v where
      v: "P c = Some (q @ ?k, vs @ v)" "tn_value (w_heap s c) = Some v" "?k \<noteq> []"
        "length v = length ?k" "c \<noteq> rc_root s" "hd ?k = hd key" by blast
    have ipos: "0 < ?i" using key_match_pos v(3,6) key(1) by blast
    have k1: "tn_key (w_heap ?s1 c) = ?k" "rc_root ?s1 = rc_root s"
      by (simp_all add: upd_node_def)
    show ?thesis
    proof (cases "?i < length ?k")
      case True
      obtain p q1 vs1 v1 t where sp:
        "split_node ?k c ?i ?s1 = Return (w_counter ?s1) t"
        "q @ ?k = q1 @ ?k" "vs @ v = vs1 @ v1" "length v1 = length ?k"
        "reshaped ?s1 P D t (P(w_counter ?s1 \<mapsto> (q1 @ take ?i ?k, vs1 @ take ?i v1)))"
        "tn_value (w_heap t (w_counter ?s1)) = Some (take ?i v1)"
        using split_node_inv [OF inv1 v(1), of ?i] v(5) ipos True unfolding k1 by metis
      have eqs: "q1 = q" "vs1 = vs" "v1 = v" using sp v(4) by auto
      have ml: "match_loop a node key ck value s =
          Some (Return (value @ [Some (take ?i v)], w_counter ?s1) t)"
        using key c True sp(1,6) eqs by (subst match_loop.simps) (simp add: Let_def)
      have "prefix (q @ take ?i ?k) (q @ key)"
        by (simp add: key_match_prefix take_is_prefix)
      moreover have "cached s ks = None"
        if "prefix ks (q @ key)" "length (q @ take ?i ?k) < length ks" for ks
        using cached_beyond [OF inv node, where key = key and i = ?i and ks = ks] that c True by simp
      ultimately have "longest s (q @ key) (q @ take ?i ?k)"
        by (simp add: longest_def)
      moreover have "reshaped s P D t (P(w_counter ?s1 \<mapsto> (q @ take ?i ?k, vs @ take ?i v)))"
        using reshaped_trans [OF re1] sp(5) eqs by simp
      ultimately show ?thesis
        using ml flatten_indices_snoc [OF less.prems(3), of "take ?i v"]
        by (intro exI conjI; assumption?) (assumption | simp)+
    next
      case False
      then have i: "?i = length ?k" using key_match_le(1) [of ?k key] by simp
      let ?key = "drop ?i key"
      have q2: "q @ key = (q @ ?k) @ ?key"
        using key_match_full_split [OF i] i by simp
      let ?ck = "if ?key \<noteq> [] then hd ?key else ck"
      have step: "match_loop a node key ck value s = match_loop a c ?key ?ck (value @ [Some v]) ?s1"
        using key c False v(2) by (subst match_loop.simps) (simp add: Let_def)
      have "length ?key < length key" "?key \<noteq> [] \<Longrightarrow> ?ck = hd ?key"
        using ipos key(1) by simp_all
      from less.hyps [OF this(1) inv1 v(1) flatten_indices_snoc [OF less.prems(3)] this(2)]
      obtain t P' value' node' q' vs' where rest:
        "match_loop a c ?key ?ck (value @ [Some v]) ?s1 = Some (Return (value', node') t)"
        "reshaped ?s1 P D t P'" "P' node' = Some (q', vs')" "flatten_indices [] value' = Some vs'"
        "longest ?s1 ((q @ ?k) @ ?key) q'"
        by blast
      have "longest s (q @ key) q'"
        using rest(5) q2 reshapedD(4) [OF re1] by (simp add: longest_def)
      with step rest(1,3,4) reshaped_trans [OF re1 rest(2)] show ?thesis
        by auto
    qed
  qed
qed

text \<open>
  What \<open>match_prefix\<close> promises: the slots of the longest cached prefix of the key, a node
  whose path from the root is exactly that prefix, and a cache with the same content.
\<close>

definition match_ok ::
  "radix_cache \<Rightarrow> paths \<Rightarrow> locks \<Rightarrow> token list \<Rightarrow> match_result \<Rightarrow> radix_cache \<Rightarrow> paths \<Rightarrow>
     token list \<Rightarrow> bool" where
  "match_ok s P D key r t P' q \<longleftrightarrow>
     reshaped s P D t P' \<and> longest s key q \<and> cached s q = Some (mr_device_indices r) \<and>
     P' (mr_last_node r) = Some (q, mr_device_indices r)"

lemma cached_path: "cache_inv s P D \<Longrightarrow> P n = Some (q, vs) \<Longrightarrow> cached s q = Some vs"
  unfolding cached_def by (rule walk_path [OF cache_invD(1)])

lemma cached_Nil [simp]: "cached s [] = Some []"
  by (simp add: cached_def)

lemma longest_Nil: "longest s [] []"
  by (auto simp: longest_def dest: prefix_length_le)

lemma match_prefix_spec:
  assumes inv: "cache_inv s P D" and en: "\<not> rc_disable s"
  shows "\<exists>r t P' q. match_prefix key s = Return r t \<and> match_ok s P D key r t P' q"
proof (cases "key = []")
  case True
  then have "match_prefix key s = Return \<lparr>mr_device_indices = [], mr_last_node = rc_root s\<rparr> s"
    by (simp add: match_prefix_def)
  then show ?thesis
    using True reshaped_refl [OF inv] longest_Nil tree_ok_rootD(1) [OF cache_invD(1) [OF inv]]
    by (auto simp: match_ok_def)
next
  case False
  define a where "a = fst (monotonic s)"
  define s1 where
    "s1 = upd_node (rc_root s) (\<lambda>nd. nd\<lparr>tn_last_access := a\<rparr>) (snd (monotonic s))"
  have re1: "reshaped s P D s1 P"
    unfolding s1_def
    by (rule reshaped_touch [OF inv]) (simp_all add: same_config_def monotonic_def upd_node_def same_shape_def)
  note inv1 = reshapedD(1) [OF re1]
  have r1: "rc_root s1 = rc_root s" by (simp add: s1_def upd_node_def monotonic_def)
  have p1: "P (rc_root s) = Some ([], [])"
    by (rule tree_ok_rootD(1) [OF cache_invD(1) [OF inv]])
  have flat: "flatten_indices [] [] = Some []" by simp
  obtain t P' v' n' q' vs' where m:
    "match_loop a (rc_root s) key (hd key) [] s1 = Some (Return (v', n') t)"
    "reshaped s1 P D t P'" "P' n' = Some (q', vs')" "flatten_indices [] v' = Some vs'"
    "longest s1 ([] @ key) q'"
    using match_loop_spec [OF inv1 p1 flat, where ck = "hd key" and a = a and key = key] by blast
  have "match_prefix key s = Return \<lparr>mr_device_indices = vs', mr_last_node = n'\<rparr> t"
    using False en m(1,4)
    by (simp add: match_prefix_def match_prefix_helper_def case_prod_beta a_def s1_def)
  moreover have re: "reshaped s P D t P'"
    using reshaped_trans [OF re1 m(2)] .
  moreover have "cached s q' = Some vs'"
    using cached_path [OF reshapedD(1) [OF re] m(3)] reshapedD(4) [OF re] by simp
  moreover have "longest s key q'"
    using m(5) reshapedD(4) [OF re1] by (simp add: longest_def)
  ultimately show ?thesis
    using m(3) by (auto simp: match_ok_def)
qed

lemma match_prefix_disabled:
  "rc_disable s \<Longrightarrow> match_prefix key s = Return \<lparr>mr_device_indices = [], mr_last_node = rc_root s\<rparr> s"
  by (simp add: match_prefix_def)

end
