(* ===== verification/Radix_Insert.thy ===== *)
theory Radix_Insert
  imports Radix_Match
begin

text \<open>
  \<open>insert\<close> on a cache that satisfies the invariant: the loop walks to the longest cached prefix
  of the key (splitting a node where the prefix ends inside its key), and a leaf for the rest of
  the key is added there.
\<close>

section \<open>The new leaf\<close>

lemma cached_add_path:
  assumes inv: "cache_inv s P D" and inv': "cache_inv t (P(w \<mapsto> (q, vs))) D'" and w: "P w = None"
  shows "cached t ks = Some ws \<longleftrightarrow>
    cached s ks = Some ws \<or> (prefix ks q \<and> ws = take (length ks) vs)"
  unfolding cached_iff [OF inv] cached_iff [OF inv'] using w by (auto split: if_splits) (metis option.distinct(1))

lemma add_leaf_frame:
  assumes "t = add_leaf prio node key v ck s"
  shows "same_config s t" "rc_allocator t = rc_allocator s"
    "rc_evictable_size t = rc_evictable_size s + int (length key)"
    "rc_protected_size t = rc_protected_size s" "w_counter s < w_counter t"
  unfolding assms
  by (simp_all add: add_leaf_def new_node_def monotonic_def Let_def same_config_def upd_node_def)

lemma add_leaf_heap:
  assumes "t = add_leaf prio node key v ck s" "w_counter s \<noteq> node"
  shows "tn_children (w_heap t (w_counter s)) = []" "tn_parent (w_heap t (w_counter s)) = Some node"
    "tn_key (w_heap t (w_counter s)) = key" "tn_value (w_heap t (w_counter s)) = Some v"
    "tn_lock_ref (w_heap t (w_counter s)) = 0"
    "w_heap t node =
       (w_heap s node)\<lparr>tn_children := AList.update ck (w_counter s) (tn_children (w_heap s node))\<rparr>"
    "n \<noteq> w_counter s \<Longrightarrow> n \<noteq> node \<Longrightarrow> w_heap t n = w_heap s n"
  unfolding assms(1) using assms(2)
  by (simp_all add: add_leaf_def new_node_def monotonic_def Let_def upd_node_def)

lemma add_leaf_leaves:
  assumes t: "t = add_leaf prio node key v ck s"
    and ok: "tree_ok (w_heap t) (rc_root s) P'" and lock: "lock_ok (w_heap t) (rc_root s) P' D"
    and n: "P' node \<noteq> None" "P' (w_counter s) \<noteq> None"
  shows "rc_evictable_leaves t =
    (let U = unlocked_leaves (w_heap t) (rc_root s) P'
     in rc_evictable_leaves s - {node} \<union> {node} \<inter> U - {w_counter s} \<union> {w_counter s} \<inter> U)"
proof -
  define s1 where "s1 = snd (new_node prio s)"
  define s2 where "s2 = upd_node (w_counter s)
      (\<lambda>nd. nd\<lparr>tn_parent := Some node, tn_key := key, tn_value := Some v\<rparr>) s1"
  define s3 where "s3 = upd_node node
      (\<lambda>nd. nd\<lparr>tn_children := AList.update ck (w_counter s) (tn_children nd)\<rparr>) s2"
  define s4 where "s4 = s3\<lparr>rc_evictable_size := rc_evictable_size s3 + int (length key)\<rparr>"
  have t': "t = update_leaf_status (w_counter s) (update_leaf_status node s4)"
    unfolding t add_leaf_def by (simp add: s1_def s2_def s3_def s4_def case_prod_beta Let_def)
  have h: "w_heap t = w_heap s4" "rc_root s4 = rc_root s" "rc_evictable_leaves s4 = rc_evictable_leaves s"
    by (simp_all add: t' s1_def s2_def s3_def s4_def upd_node_def new_node_def monotonic_def Let_def)
  note ok' = ok [unfolded h(1)] and lock' = lock [unfolded h(1)]
  have 1: "rc_evictable_leaves (update_leaf_status node s4) =
      rc_evictable_leaves s4 - {node} \<union> {node} \<inter> unlocked_leaves (w_heap s4) (rc_root s4) P'"
    using ok' lock_ok_nonneg [OF lock' n(1)] lock_ok_root [OF lock'] n(1)
    by (intro update_leaf_status_set) (simp_all add: h(2))
  have 2: "rc_evictable_leaves t = rc_evictable_leaves (update_leaf_status node s4) - {w_counter s} \<union>
      {w_counter s} \<inter> unlocked_leaves (w_heap s4) (rc_root s4) P'"
    unfolding t' using ok' lock_ok_nonneg [OF lock' n(2)] lock_ok_root [OF lock'] n(2)
    by (subst update_leaf_status_set) (simp_all add: h(2))
  show ?thesis
    using 1 2 h by (simp add: Let_def)
qed

lemma add_leaf_inv:
  assumes inv: "cache_inv s P D" and node: "P node = Some (q, vs)"
    and key: "key \<noteq> []" "length v = length key"
    and free: "map_of (tn_children (w_heap s node)) (hd key) = None"
    and t: "t = add_leaf prio node key v (hd key) s"
  shows "cache_inv t (P(w_counter s \<mapsto> (q @ key, vs @ v))) D"
proof -
  note i = cache_invD [OF inv]
  let ?w = "w_counter s" and ?r = "rc_root s"
  let ?P = "P(?w \<mapsto> (q @ key, vs @ v))"
  have w: "P ?w = None" by (rule fresh_ok_new [OF i(2)])
  with node have wn: "?w \<noteq> node" by auto
  note fr = add_leaf_frame [OF t] and hp = add_leaf_heap [OF t wn]
  have cfg: "rc_root t = ?r" "w_set_order t = w_set_order s"
    using fr(1) by (simp_all add: same_config_def)
  have st: "leaf_step (w_heap s) (w_heap t) ?r P node ?w q vs key v"
    unfolding leaf_step_def leaf_shape_def using i(1) node w key free hp wn
    by (auto simp: same_shape_def) (metis hp(7) option.distinct(1))+
  have locks: "tn_lock_ref (w_heap t n) = tn_lock_ref (w_heap s n)" if "P n \<noteq> None" for n
    using hp(6,7) that w by (cases "n = node"; cases "n = ?w") auto
  note tree = tree_ok_add_leaf [OF st] and lock = leaf_lock_ok [OF st i(3) locks hp(5)]
  note ac = leaf_acct [OF st fresh_ok_finite [OF i(2)] locks hp(5)]
  have old: "rc_evictable_leaves s = unlocked_leaves (w_heap s) ?r P"
    using i(4) by (simp add: acct_ok_def)
  then have w_old: "?w \<notin> rc_evictable_leaves s" "node \<noteq> ?w"
    using w wn by (auto simp: unlocked_leaves_def)
  define L U where "L = unlocked_leaves (w_heap s) ?r P" and "U = unlocked_leaves (w_heap t) ?r ?P"
  have U: "U = Set.insert ?w (L - {node})" "?w \<notin> L" "node \<noteq> ?w"
    using ac(3) [of "(q @ key, vs @ v)"] w_old old by (simp_all add: L_def U_def)
  have "rc_evictable_leaves t = L - {node} \<union> {node} \<inter> U - {?w} \<union> {?w} \<inter> U"
    using add_leaf_leaves [OF t tree lock] node wn old by (simp add: Let_def L_def U_def)
  then have "rc_evictable_leaves t = unlocked_leaves (w_heap t) ?r ?P"
    using U unfolding U_def [symmetric] by blast
  with i(4) ac(1,2) [of "(q @ key, vs @ v)"] fr cfg have "acct_ok t ?P"
    by (simp add: acct_ok_def)
  moreover have "fresh_ok t ?P"
    using i(2) fr(1,5) by (intro fresh_ok_upd) (auto simp: same_config_def)
  moreover have "set_order_ok t"
    using i(5) cfg by (simp add: set_order_ok_def)
  ultimately show ?thesis
    using tree lock cfg by (simp add: cache_inv_def)
qed

section \<open>The loop\<close>

lemma touch_node:
  assumes inv: "cache_inv s P D" and f: "\<And>nd. same_shape (f nd) nd \<and> tn_lock_ref (f nd) = tn_lock_ref nd"
  shows "reshaped s P D (upd_node c f s) P"
  using f by (intro reshaped_touch [OF inv]) (simp_all add: same_config_def upd_node_def)

text \<open>One iteration: the node it moves to, and the tree it leaves.\<close>

lemma insert_loop_step:
  assumes inv: "cache_inv s P D" and node: "P node = Some (q, vs)" and key: "key \<noteq> []"
    and ch: "map_of (tn_children (w_heap s node)) (hd key) = Some c"
  shows "\<exists>i node' ws s' P'.
    insert_loop a prio node key vals (hd key) m s =
      insert_loop a prio node' (drop i key) (drop i vals)
        (if drop i key \<noteq> [] then hd (drop i key) else hd key) (m + i) s' \<and>
    0 < i \<and> i \<le> length key \<and> reshaped s P D s' P' \<and> P' node' = Some (q @ take i key, ws)"
proof -
  let ?s1 = "upd_node c (\<lambda>nd. nd\<lparr>tn_last_access := a\<rparr>) s"
  let ?up = "\<lambda>nd. nd\<lparr>tn_priority := max (tn_priority nd) prio\<rparr>"
  let ?k = "tn_key (w_heap s c)"
  let ?i = "key_match ?k key"
  have re1: "reshaped s P D ?s1 P" by (rule touch_child [OF inv])
  note inv1 = reshapedD(1) [OF re1]
  from tree_ok_child_lookup [OF cache_invD(1) [OF inv] node ch] obtain v where
    v: "P c = Some (q @ ?k, vs @ v)" "tn_value (w_heap s c) = Some v" "?k \<noteq> []"
      "length v = length ?k" "c \<noteq> rc_root s" "hd ?k = hd key" by blast
  have i: "0 < ?i" "?i \<le> length key"
    using key_match_pos [OF v(3) key v(6)] key_match_le(2) by auto
  have k1: "tn_key (w_heap ?s1 c) = ?k" "rc_root ?s1 = rc_root s"
    by (simp_all add: upd_node_def)
  show ?thesis
  proof (cases "?i < length ?k")
    case True
    obtain p q1 vs1 v1 t where sp:
      "split_node ?k c ?i ?s1 = Return (w_counter ?s1) t"
      "q @ ?k = q1 @ ?k" "vs @ v = vs1 @ v1" "length v1 = length ?k"
      "reshaped ?s1 P D t (P(w_counter ?s1 \<mapsto> (q1 @ take ?i ?k, vs1 @ take ?i v1)))"
      using split_node_inv [OF inv1 v(1), of ?i] v(5) i(1) True unfolding k1 by metis
    let ?t = "upd_node (w_counter ?s1) ?up t"
    let ?P = "P(w_counter ?s1 \<mapsto> (q1 @ take ?i ?k, vs1 @ take ?i v1))"
    have "reshaped t ?P D ?t ?P"
      by (rule touch_node [OF reshapedD(1) [OF sp(5)]]) (simp add: same_shape_def)
    then have "reshaped s P D ?t ?P"
      using reshaped_trans [OF re1 sp(5)] reshaped_trans by blast
    moreover have "insert_loop a prio node key vals (hd key) m s =
        insert_loop a prio (w_counter ?s1) (drop ?i key) (drop ?i vals)
          (if drop ?i key \<noteq> [] then hd (drop ?i key) else hd key) (m + ?i) ?t"
      using key ch True sp(1) by (subst insert_loop.simps) (simp add: Let_def)
    moreover have "?P (w_counter ?s1) = Some (q @ take ?i key, vs1 @ take ?i v1)"
      using sp(2) by (simp add: key_match_prefix)
    ultimately show ?thesis using i by blast
  next
    case False
    then have ik: "?i = length ?k" using key_match_le(1) [of ?k key] by simp
    let ?t = "upd_node c ?up ?s1"
    have "reshaped ?s1 P D ?t P"
      by (rule touch_node [OF inv1]) (simp add: same_shape_def)
    then have "reshaped s P D ?t P" by (rule reshaped_trans [OF re1])
    moreover have "insert_loop a prio node key vals (hd key) m s =
        insert_loop a prio c (drop ?i key) (drop ?i vals)
          (if drop ?i key \<noteq> [] then hd (drop ?i key) else hd key) (m + ?i) ?t"
      using key ch False by (subst insert_loop.simps) (simp add: Let_def)
    moreover have "P c = Some (q @ take ?i key, vs @ v)"
      using v(1) key_match_prefix [of ?k key] ik by simp
    ultimately show ?thesis using i by blast
  qed
qed

lemma insert_loop_spec:
  assumes "cache_inv s P D" "P node = Some (q, vs)" "key \<noteq> [] \<Longrightarrow> ck = hd key"
  shows "\<exists>t P' node' n ws ck'.
    insert_loop a prio node key vals ck m s =
      Some (Return (node', drop n key, drop n vals, ck', m + n) t) \<and>
    n \<le> length key \<and> reshaped s P D t P' \<and> P' node' = Some (q @ take n key, ws) \<and>
    longest s (q @ key) (q @ take n key) \<and>
    (n < length key \<longrightarrow>
       ck' = hd (drop n key) \<and> map_of (tn_children (w_heap t node')) (hd (drop n key)) = None)"
  using assms
proof (induction "length key" arbitrary: s P node q vs key ck vals m rule: less_induct)
  case less
  note inv = less.prems(1) and node = less.prems(2)
  show ?case
  proof (cases "key = [] \<or> map_of (tn_children (w_heap s node)) (hd key) = None")
    case True
    then have il: "insert_loop a prio node key vals ck m s = Some (Return (node, key, vals, ck, m) s)"
      using less.prems(3) by (subst insert_loop.simps) auto
    have "cached s ks = None" if "prefix ks (q @ key)" "length q < length ks" for ks
      using cached_beyond [OF inv node, where key = key and i = 0 and ks = ks] that True
      by (cases "key = []") (auto dest: prefix_length_le)
    then have "longest s (q @ key) q" by (simp add: longest_def)
    with il reshaped_refl [OF inv] node less.prems(3) True show ?thesis
      by (intro exI [of _ s] exI [of _ P] exI [of _ node] exI [of _ "0::nat"] exI [of _ vs] exI [of _ ck]) auto
  next
    case False
    then obtain c where key: "key \<noteq> []" and c: "map_of (tn_children (w_heap s node)) (hd key) = Some c"
      by auto
    obtain i n1 ws1 s1 P1 where st:
      "insert_loop a prio node key vals (hd key) m s =
        insert_loop a prio n1 (drop i key) (drop i vals)
          (if drop i key \<noteq> [] then hd (drop i key) else hd key) (m + i) s1"
      "0 < i" "i \<le> length key" "reshaped s P D s1 P1" "P1 n1 = Some (q @ take i key, ws1)"
      using insert_loop_step [OF inv node key c, of a prio vals m] by blast
    let ?ck = "if drop i key \<noteq> [] then hd (drop i key) else hd key"
    have dec: "length (drop i key) < length key" and ck: "drop i key \<noteq> [] \<Longrightarrow> ?ck = hd (drop i key)"
      using st(2) key by simp_all
    obtain t P' node' n ws ck' where ih:
      "insert_loop a prio n1 (drop i key) (drop i vals) ?ck (m + i) s1 =
         Some (Return (node', drop n (drop i key), drop n (drop i vals), ck', m + i + n) t)"
      "n \<le> length (drop i key)" "reshaped s1 P1 D t P'"
      "P' node' = Some ((q @ take i key) @ take n (drop i key), ws)"
      "longest s1 ((q @ take i key) @ drop i key) ((q @ take i key) @ take n (drop i key))"
      "n < length (drop i key) \<longrightarrow> ck' = hd (drop n (drop i key)) \<and>
         map_of (tn_children (w_heap t node')) (hd (drop n (drop i key))) = None"
      using less.hyps [OF dec reshapedD(1) [OF st(4)] st(5) ck, of "drop i vals" "m + i"] by blast
    have comb: "take i key @ take n (drop i key) = take (i + n) key"
      by (simp add: take_add)
    have "longest s (q @ key) (q @ take (i + n) key)"
      using ih(5) reshapedD(4) [OF st(4)] comb by (simp add: longest_def)
    moreover have "P' node' = Some (q @ take (i + n) key, ws)"
      using ih(4) comb by simp
    moreover have "insert_loop a prio node key vals ck m s =
        Some (Return (node', drop (i + n) key, drop (i + n) vals, ck', m + (i + n)) t)"
      using st(1) ih(1) less.prems(3) [OF key] by (simp add: add.commute add.assoc)
    moreover have "i + n < length key \<longrightarrow> ck' = hd (drop (i + n) key) \<and>
         map_of (tn_children (w_heap t node')) (hd (drop (i + n) key)) = None"
      using ih(6) by (simp add: add.commute less_diff_conv)
    moreover have "i + n \<le> length key" using ih(2) st(3) by simp
    ultimately show ?thesis
      using reshaped_trans [OF st(4) ih(3)] by blast
  qed
qed

section \<open>insert\<close>

lemma map_le_upd_new: "P \<subseteq>\<^sub>m Q \<Longrightarrow> Q w = None \<Longrightarrow> P \<subseteq>\<^sub>m Q(w \<mapsto> x)"
  unfolding map_le_def by (metis domIff fun_upd_other)

text \<open>
  What \<open>insert\<close> promises. The first \<open>n\<close> tokens of the key, the longest cached prefix, keep the
  slots they have; the rest of the key gets the slots the caller passed for it. Nothing else
  changes in the map, and no node disappears.
\<close>

definition insert_ok ::
  "radix_cache \<Rightarrow> paths \<Rightarrow> locks \<Rightarrow> token list \<Rightarrow> slot list \<Rightarrow> nat \<Rightarrow> radix_cache \<Rightarrow> paths \<Rightarrow> bool"
where
  "insert_ok s P D key vals n t P' \<longleftrightarrow>
     cache_inv t P' D \<and> same_config s t \<and> P \<subseteq>\<^sub>m P' \<and>
     rc_allocator t = rc_allocator s \<and> rc_protected_size t = rc_protected_size s \<and>
     rc_evictable_size t = rc_evictable_size s + int (length key - n) \<and>
     n \<le> length key \<and> longest s key (take n key) \<and>
     (\<exists>ms. cached s (take n key) = Some ms \<and>
        (\<forall>ks ws. cached t ks = Some ws \<longleftrightarrow>
           cached s ks = Some ws \<or> (prefix ks key \<and> ws = take (length ks) (ms @ drop n vals))))"

lemma insert_okI_full:
  assumes re: "reshaped s P D t P'" and ms: "cached s key = Some ms" and len: "length vals = length key"
    and inv: "cache_inv s P D"
  shows "insert_ok s P D key vals (length key) t P'"
proof -
  have "longest s key key"
    by (auto simp: longest_def dest: prefix_length_le)
  moreover have "cached s ks = Some (take (length ks) ms)" if "prefix ks key" for ks
  proof -
    obtain n q vs where n: "P n = Some (q, vs)" "prefix key q" "ms = take (length key) vs"
      using ms cached_iff [OF inv] by blast
    have "take (length ks) ms = take (length ks) vs"
      using n(3) prefix_length_le [OF that] by (simp add: min_def)
    then show ?thesis
      using n(1,2) that cached_iff [OF inv] by (metis prefix_order.trans)
  qed
  ultimately show ?thesis
    using re ms len unfolding insert_ok_def reshaped_def by auto
qed

lemma insert_okI_leaf:
  assumes re: "reshaped s P D s1 P1" and node: "P1 node = Some (take n key, ms)"
    and n: "n < length key" "longest s key (take n key)" and len: "length vals = length key"
    and free: "map_of (tn_children (w_heap s1 node)) (hd (drop n key)) = None"
    and t: "t = add_leaf prio node (drop n key) (drop n vals) (hd (drop n key)) s1"
  shows "insert_ok s P D key vals n t (P1(w_counter s1 \<mapsto> (key, ms @ drop n vals)))"
proof -
  note inv1 = reshapedD(1) [OF re]
  let ?P = "P1(w_counter s1 \<mapsto> (key, ms @ drop n vals))"
  have inv: "cache_inv t ?P D"
    using add_leaf_inv [OF inv1 node _ _ free t] n(1) len by simp
  have w: "P1 (w_counter s1) = None"
    by (rule fresh_ok_new [OF cache_invD(2) [OF inv1]])
  have ms: "cached s (take n key) = Some ms"
    using cached_path [OF inv1 node] reshapedD(4) [OF re] by simp
  have sub: "P \<subseteq>\<^sub>m ?P"
    using reshapedD(3) [OF re] w by (rule map_le_upd_new)
  have "cached t ks = Some ws \<longleftrightarrow>
      cached s ks = Some ws \<or> (prefix ks key \<and> ws = take (length ks) (ms @ drop n vals))" for ks ws
    using cached_add_path [OF inv1 inv w] reshapedD(4) [OF re] by simp
  then show ?thesis
    using inv sub ms n re add_leaf_frame [OF t] same_config_trans [OF reshapedD(2) [OF re]]
    by (auto simp: insert_ok_def reshaped_def)
qed

lemma radix_insert_spec:
  assumes inv: "cache_inv s P D" and en: "\<not> rc_disable s"
    and len: "length (param_value params) = length (ip_key params)"
  shows "\<exists>n t P'. radix_insert params s = Return \<lparr>ir_prefix_len = n\<rparr> t \<and>
    insert_ok s P D (ip_key params) (param_value params) n t P'"
proof -
  let ?key = "ip_key params" and ?vals = "param_value params"
  define prio where "prio = (case ip_priority params of None \<Rightarrow> 0 | Some p \<Rightarrow> p)"
  obtain a s0 where mono: "monotonic s = (a, s0)" by fastforce
  define s1 where "s1 = upd_node (rc_root s) (\<lambda>nd. nd\<lparr>tn_last_access := a,
      tn_priority := max (tn_priority nd) prio\<rparr>) s0"
  have re1: "reshaped s P D s1 P"
    unfolding s1_def using mono
    by (intro reshaped_touch [OF inv])
       (auto simp: same_config_def monotonic_def upd_node_def same_shape_def)
  have ins: "radix_insert params s = bind_outcome
      (if length ?key = 0 then Return 0 s1
       else bind_outcome (run_loop (insert_loop a prio (rc_root s) ?key ?vals (hd ?key) 0 s1))
          (\<lambda>(node', key', value', child_key, matched) s3.
             if key' \<noteq> [] then Return matched (add_leaf prio node' key' value' child_key s3)
             else Return matched s3))
      (\<lambda>prefix_len s1. Return \<lparr>ir_prefix_len = prefix_len\<rparr> s1)"
    using en unfolding radix_insert_def insert_helper_def prio_def
    by (simp add: param_value_def mono s1_def prio_def Let_def)
  show ?thesis
  proof (cases "?key = []")
    case True
    have "insert_ok s P D ?key ?vals 0 s1 P"
      using insert_okI_full [OF re1 _ len inv, of "[]"] True by simp
    with ins True show ?thesis by (intro exI [of _ 0] exI [of _ s1] exI [of _ P]) simp
  next
    case False
    have root: "P (rc_root s) = Some ([], [])"
      by (rule tree_ok_rootD(1) [OF cache_invD(1) [OF inv]])
    obtain t P' node n ws ck where il:
      "insert_loop a prio (rc_root s) ?key ?vals (hd ?key) 0 s1 =
         Some (Return (node, drop n ?key, drop n ?vals, ck, 0 + n) t)"
      "n \<le> length ?key" "reshaped s1 P D t P'" "P' node = Some ([] @ take n ?key, ws)"
      "longest s1 ([] @ ?key) ([] @ take n ?key)"
      "n < length ?key \<longrightarrow> ck = hd (drop n ?key) \<and>
         map_of (tn_children (w_heap t node)) (hd (drop n ?key)) = None"
      using insert_loop_spec [OF reshapedD(1) [OF re1] root, of ?key "hd ?key" a prio ?vals 0] by blast
    have re: "reshaped s P D t P'" by (rule reshaped_trans [OF re1 il(3)])
    have lg: "longest s ?key (take n ?key)"
      using il(5) reshapedD(4) [OF re1] by (simp add: longest_def)
    show ?thesis
    proof (cases "n < length ?key")
      case True
      then have "radix_insert params s = Return \<lparr>ir_prefix_len = n\<rparr>
          (add_leaf prio node (drop n ?key) (drop n ?vals) (hd (drop n ?key)) t)"
        using ins il(1,6) False by simp
      moreover have "insert_ok s P D ?key ?vals n
          (add_leaf prio node (drop n ?key) (drop n ?vals) (hd (drop n ?key)) t)
          (P'(w_counter t \<mapsto> (?key, ws @ drop n ?vals)))"
        using il(4,6) True by (intro insert_okI_leaf [OF re _ True lg len]) auto
      ultimately show ?thesis by blast
    next
      case full: False
      then have n: "n = length ?key" using il(2) by simp
      have "cached s ?key = Some ws"
        using cached_path [OF reshapedD(1) [OF re] il(4)] reshapedD(4) [OF re] n by simp
      then have "insert_ok s P D ?key ?vals n t P'"
        using insert_okI_full [OF re _ len inv] n by simp
      moreover have "radix_insert params s = Return \<lparr>ir_prefix_len = n\<rparr> t"
        using ins il(1) False n by simp
      ultimately show ?thesis by blast
    qed
  qed
qed

text \<open>The whole key is cached afterwards, with the slots just described.\<close>

lemma insert_ok_cached:
  assumes "insert_ok s P D key vals n t P'" "length vals = length key"
    and "cache_inv s P D"
  shows "\<exists>ms. cached s (take n key) = Some ms \<and> cached t key = Some (ms @ drop n vals)"
proof -
  obtain ms where ms: "cached s (take n key) = Some ms"
    "\<And>ks ws. cached t ks = Some ws \<longleftrightarrow>
       cached s ks = Some ws \<or> (prefix ks key \<and> ws = take (length ks) (ms @ drop n vals))"
    using assms(1) unfolding insert_ok_def by blast
  have "length ms = n"
    using ms(1) assms(1) cached_iff [OF assms(3)] path_lengths [OF cache_invD(1) [OF assms(3)]]
    by (auto simp: insert_ok_def dest: prefix_length_le)
  with ms assms show ?thesis
    by (auto simp: insert_ok_def)
qed

lemma radix_insert_disabled: "rc_disable s \<Longrightarrow> radix_insert p s = Return \<lparr>ir_prefix_len = 0\<rparr> s"
  by (simp add: radix_insert_def)

end
