(* ===== verification/Radix_Lock.thy ===== *)
theory Radix_Lock
  imports Radix_Insert
begin

text \<open>
  \<open>inc_lock_ref\<close> and \<open>dec_lock_ref\<close> on a cache that satisfies the invariant: both walk from a
  node to the root, add or take one lock at every node on the way, and move the tokens of a node
  between the two counters when its count leaves or reaches zero. Between two iterations the
  equation of \<open>lock_ok\<close> is off by one at the node the loop stands on (\<open>lock_gap\<close>).
\<close>

section \<open>One iteration\<close>

definition lock_inv :: "radix_cache \<Rightarrow> paths \<Rightarrow> locks \<Rightarrow> node_id \<Rightarrow> int \<Rightarrow> bool" where
  "lock_inv s P D cur d \<longleftrightarrow>
     tree_ok (w_heap s) (rc_root s) P \<and> fresh_ok s P \<and>
     lock_gap (w_heap s) (rc_root s) P D cur d \<and> acct_ok s P \<and> set_order_ok s"

lemma lock_invD:
  assumes "lock_inv s P D cur d"
  shows "tree_ok (w_heap s) (rc_root s) P" "fresh_ok s P"
    "lock_gap (w_heap s) (rc_root s) P D cur d" "acct_ok s P" "set_order_ok s"
  using assms by (simp_all add: lock_inv_def)

lemma lock_gap_root: "lock_gap h r P D r d \<longleftrightarrow> lock_ok h r P D"
  by (simp add: lock_ok_def lock_gap_def)

lemma lock_inv_root: "lock_inv s P D (rc_root s) d \<longleftrightarrow> cache_inv s P D"
  by (simp add: lock_inv_def cache_inv_def lock_gap_root)

lemma distinct_kids:
  assumes "tree_ok h r P" "P n \<noteq> None"
  shows "distinct (map snd (tn_children (h n)))"
proof -
  have "distinct (map fst (tn_children (h n)))"
    by (rule tree_ok_distinct [OF assms])
  moreover have "map fst (tn_children (h n)) = map (\<lambda>c. hd (tn_key (h c))) (map snd (tn_children (h n)))"
    using tree_ok_edge [OF assms] by (auto simp: edge_ok_def)
  ultimately show ?thesis
    by (metis distinct_map)
qed

lemma bump_kids:
  assumes ok: "tree_ok h r P" and n: "P n \<noteq> None" and c: "P c \<noteq> None" "c \<noteq> r"
    and p: "tn_parent (h c) = Some p"
    and h': "h' = h(c := (h c)\<lparr>tn_lock_ref := tn_lock_ref (h c) + d\<rparr>)"
  shows "kids_lock h' n = kids_lock h n + (if n = p then d else 0)"
proof -
  have ch: "tn_children (h' n) = tn_children (h n)" by (simp add: h')
  show ?thesis
  proof (cases "n = p")
    case True
    have "c \<in> set (map snd (tn_children (h n)))"
      using child_in_parent(1) [OF ok c p] True by force
    then have "(\<Sum>x\<leftarrow>tn_children (h n). tn_lock_ref (h' (snd x))) =
        (\<Sum>x\<leftarrow>tn_children (h n). tn_lock_ref (h (snd x))) - tn_lock_ref (h c) + tn_lock_ref (h' c)"
      using distinct_kids [OF ok n] by (intro sum_list_point) (auto simp: h')
    moreover have "tn_lock_ref (h' c) = tn_lock_ref (h c) + d" by (simp add: h')
    ultimately show ?thesis using True unfolding kids_lock_def ch by simp
  next
    case False
    have "x \<noteq> c" if "(t, x) \<in> set (tn_children (h n))" for t x
      using tree_ok_edge [OF ok n that] p False by (auto simp: edge_ok_def)
    then have "kids_lock h' n = kids_lock h n"
      by (intro kids_lock_cong) (auto simp: h')
    with False show ?thesis by simp
  qed
qed

lemma bump_gap:
  assumes ok: "tree_ok h r P" and gap: "lock_gap h r P D c d" and c: "P c \<noteq> None" "c \<noteq> r"
    and p: "tn_parent (h c) = Some p"
    and h': "h' = h(c := (h c)\<lparr>tn_lock_ref := tn_lock_ref (h c) + d\<rparr>)"
  shows "lock_gap h' r P D p d"
proof -
  have pc: "p \<noteq> c" by (rule parent_neq [OF ok c(1) p])
  have nn: "0 \<le> tn_lock_ref (h c) + d"
    using lock_gap_eq [OF gap c] kids_lock_nonneg [OF ok c(1)] lock_gap_nonneg [OF gap] by fastforce
  have "0 \<le> tn_lock_ref (h' n) \<and>
      tn_lock_ref (h' n) + (if n = p then d else 0) = int (D n) + kids_lock h' n"
    if n: "P n \<noteq> None" "n \<noteq> r" for n
    using bump_kids [OF ok n(1) c p h'] lock_gap_eq [OF gap n] lock_gap_nonneg [OF gap n(1)] nn pc
    by (auto simp: h' split: if_splits)
  then show ?thesis
    using gap c(2) unfolding lock_gap_def by (simp add: h')
qed

lemma bump_acct:
  assumes fin: "finite (dom P)" and c: "P c \<noteq> None" "c \<noteq> r"
    and h': "h' = h(c := (h c)\<lparr>tn_lock_ref := l\<rparr>)"
  shows "unlocked_tokens h' r P = unlocked_tokens h r P
      - (if tn_lock_ref (h c) = 0 then int (length (tn_key (h c))) else 0)
      + (if l = 0 then int (length (tn_key (h c))) else 0)"
    "locked_tokens h' r P = locked_tokens h r P
      - (if tn_lock_ref (h c) = 0 then 0 else int (length (tn_key (h c))))
      + (if l = 0 then 0 else int (length (tn_key (h c))))"
    "unlocked_leaves h' r P - {c} = unlocked_leaves h r P - {c}"
proof -
  have a: "finite (dom P - {r})" "c \<in> dom P - {r}" using fin c by auto
  let ?f = "\<lambda>h n. if tn_lock_ref (h n) = 0 then int (length (tn_key (h n))) else 0"
  let ?g = "\<lambda>h n. if tn_lock_ref (h n) = 0 then 0 else int (length (tn_key (h n)))"
  have "sum (?f h') (dom P - {r}) = sum (?f h) (dom P - {r}) - ?f h c + ?f h' c"
    "sum (?g h') (dom P - {r}) = sum (?g h) (dom P - {r}) - ?g h c + ?g h' c"
    using a by (intro sum_update_point; auto simp: h')+
  then show "unlocked_tokens h' r P = unlocked_tokens h r P
      - (if tn_lock_ref (h c) = 0 then int (length (tn_key (h c))) else 0)
      + (if l = 0 then int (length (tn_key (h c))) else 0)"
    "locked_tokens h' r P = locked_tokens h r P
      - (if tn_lock_ref (h c) = 0 then 0 else int (length (tn_key (h c))))
      + (if l = 0 then 0 else int (length (tn_key (h c))))"
    unfolding unlocked_tokens_def locked_tokens_def by (simp_all add: h')
  show "unlocked_leaves h' r P - {c} = unlocked_leaves h r P - {c}"
    by (auto simp: unlocked_leaves_def h')
qed

text \<open>The body of both loops; \<open>d\<close> is what it adds to the lock count.\<close>

definition bump :: "int \<Rightarrow> node_id \<Rightarrow> radix_cache \<Rightarrow> radix_cache" where
  "bump d n s =
     (let nd = w_heap s n; len = int (length (tn_key nd));
          x = (if tn_lock_ref nd = 0 then - len else if tn_lock_ref nd + d = 0 then len else 0)
      in update_leaf_status n (upd_node n (\<lambda>nd. nd\<lparr>tn_lock_ref := tn_lock_ref nd + d\<rparr>)
           (s\<lparr>rc_evictable_size := rc_evictable_size s + x,
              rc_protected_size := rc_protected_size s - x\<rparr>)))"

lemma bump_fields [simp]:
  "rc_root (bump d n s) = rc_root s" "same_config s (bump d n s)"
  "rc_allocator (bump d n s) = rc_allocator s"
  "w_heap (bump d n s) =
     (w_heap s)(n := (w_heap s n)\<lparr>tn_lock_ref := tn_lock_ref (w_heap s n) + d\<rparr>)"
  by (simp_all add: bump_def Let_def same_config_def upd_node_def)

lemma bump_sizes:
  "rc_evictable_size (bump d n s) + rc_protected_size (bump d n s) =
     rc_evictable_size s + rc_protected_size s"
  by (simp add: bump_def Let_def upd_node_def)

lemma bump_inv:
  assumes inv: "lock_inv s P D c d" and c: "P c \<noteq> None" "c \<noteq> rc_root s"
    and p: "tn_parent (w_heap s c) = Some p" and d: "d \<noteq> 0"
  shows "lock_inv (bump d c s) P D p d"
proof -
  note i = lock_invD [OF inv]
  let ?t = "bump d c s" and ?r = "rc_root s" and ?h = "w_heap s"
  let ?l = "tn_lock_ref (?h c) + d"
  have h': "w_heap ?t = ?h(c := (?h c)\<lparr>tn_lock_ref := ?l\<rparr>)" by simp
  have tree: "tree_ok (w_heap ?t) ?r P"
    using i(1) by (rule tree_ok_cong) (simp add: h' same_shape_def)
  note gap = bump_gap [OF i(1,3) c p h']
  note ac = bump_acct [OF fresh_ok_finite [OF i(2)] c h']
  have old: "rc_evictable_leaves s = unlocked_leaves ?h ?r P"
    "rc_evictable_size s = unlocked_tokens ?h ?r P" "rc_protected_size s = locked_tokens ?h ?r P"
    using i(4) by (simp_all add: acct_ok_def)
  define u where "u = upd_node c (\<lambda>nd. nd\<lparr>tn_lock_ref := tn_lock_ref nd + d\<rparr>) s"
  have u: "w_heap u = w_heap ?t" "rc_root u = ?r"
    by (simp_all add: u_def upd_node_def)
  have "rc_evictable_leaves ?t = rc_evictable_leaves (update_leaf_status c u)"
    by (simp add: bump_def u_def Let_def upd_node_def update_leaf_status_def evicted_def)
  also have "\<dots> = rc_evictable_leaves s - {c} \<union> {c} \<inter> unlocked_leaves (w_heap ?t) ?r P"
    using update_leaf_status_set [of u P c] tree c(1) lock_gap_nonneg [OF gap c(1)] gap u
    by (simp add: lock_gap_def u_def upd_node_def)
  also have "\<dots> = unlocked_leaves (w_heap ?t) ?r P"
    using ac(3) old(1) by blast
  finally have leaves: "rc_evictable_leaves ?t = unlocked_leaves (w_heap ?t) ?r P" .
  have "rc_evictable_size ?t = unlocked_tokens (w_heap ?t) ?r P"
    "rc_protected_size ?t = locked_tokens (w_heap ?t) ?r P"
    unfolding ac using old(2,3) d by (simp_all add: bump_def Let_def upd_node_def)
  with leaves have "acct_ok ?t P" by (simp add: acct_ok_def)
  moreover have "fresh_ok ?t P"
    using i(2) by (simp add: fresh_ok_def bump_def Let_def upd_node_def)
  moreover have "set_order_ok ?t"
    using i(5) by (simp add: set_order_ok_def bump_def Let_def upd_node_def)
  ultimately show ?thesis
    using tree gap by (simp add: lock_inv_def del: bump_fields(4))
qed

section \<open>The loops\<close>

text \<open>What a lock or an unlock leaves alone, and how it accounts for the tokens it moves.\<close>

definition relocked :: "radix_cache \<Rightarrow> radix_cache \<Rightarrow> bool" where
  "relocked s t \<longleftrightarrow>
     same_config s t \<and> rc_allocator t = rc_allocator s \<and>
     rc_evictable_size t + rc_protected_size t = rc_evictable_size s + rc_protected_size s \<and>
     (\<forall>n. same_shape (w_heap t n) (w_heap s n))"

lemma relocked_refl: "relocked s s"
  by (simp add: relocked_def)

lemma relocked_trans: "relocked s t \<Longrightarrow> relocked t u \<Longrightarrow> relocked s u"
  by (auto simp: relocked_def same_shape_def intro: same_config_trans)

lemma relocked_bump: "relocked s (bump d n s)"
  using bump_sizes by (auto simp: relocked_def same_shape_def)

lemma relockedD:
  "relocked s t \<Longrightarrow> same_config s t" "relocked s t \<Longrightarrow> rc_root t = rc_root s"
  "relocked s t \<Longrightarrow> same_shape (w_heap t n) (w_heap s n)"
  by (simp_all add: relocked_def same_config_def)

lemma relocked_cached:
  assumes "relocked s t" "cache_inv s P D" "cache_inv t P D'"
  shows "cached t = cached s"
  using cached_eqI [OF assms(2,3)] covers_map_le [OF assms(2) map_le_refl] by blast

lemma inc_loop_bump:
  assumes "n \<noteq> rc_root s" "0 \<le> tn_lock_ref (w_heap s n)"
  shows "inc_loop (Some n) delta s =
    inc_loop (tn_parent (w_heap s n))
      (delta + (rc_evictable_size (bump 1 n s) - rc_evictable_size s)) (bump 1 n s)"
  using assms by (subst inc_loop.simps) (simp add: bump_def Let_def upd_node_def)

lemma dec_loop_bump:
  assumes "n \<noteq> rc_root s" "0 < tn_lock_ref (w_heap s n)"
  shows "dec_loop (Some n) delta s =
    dec_loop (tn_parent (w_heap s n))
      (delta + (rc_evictable_size (bump (- 1) n s) - rc_evictable_size s)) (bump (- 1) n s)"
  using assms by (subst dec_loop.simps) (simp add: bump_def Let_def upd_node_def)

text \<open>
  A loop that stops at the root and otherwise bumps and goes to the parent. Both loops are of
  this form on the states they meet.
\<close>

lemma bump_loop:
  assumes stop: "\<And>delta s. loop (Some (rc_root s)) delta s = Some (Return delta s)"
    and step: "\<And>n delta s. lock_inv s P D n d \<Longrightarrow> P n \<noteq> None \<Longrightarrow> n \<noteq> rc_root s \<Longrightarrow>
      loop (Some n) delta s =
        loop (tn_parent (w_heap s n))
          (delta + (rc_evictable_size (bump d n s) - rc_evictable_size s)) (bump d n s)"
    and d: "d \<noteq> 0"
  shows "lock_inv s P D n d \<Longrightarrow> P n = Some (q, vs) \<Longrightarrow>
    \<exists>t. loop (Some n) delta s = Some (Return (delta + (rc_evictable_size t - rc_evictable_size s)) t) \<and>
      cache_inv t P D \<and> relocked s t"
proof (induction "length q" arbitrary: n q vs s delta rule: less_induct)
  case less
  show ?case
  proof (cases "n = rc_root s")
    case True
    with less.prems(1) have "cache_inv s P D" by (simp add: lock_inv_root)
    with True stop relocked_refl show ?thesis
      by (intro exI [of _ s]) simp
  next
    case False
    obtain p q' vs' v where p: "tn_parent (w_heap s n) = Some p" "P p = Some (q', vs')"
      "tn_key (w_heap s n) \<noteq> []" "q = q' @ tn_key (w_heap s n)"
      using tree_ok_upE [OF lock_invD(1) [OF less.prems(1)] less.prems(2) False] by metis
    have n: "P n \<noteq> None" using less.prems(2) by simp
    have dec: "length q' < length q" using p(3,4) by simp
    let ?s = "bump d n s"
    note inv = bump_inv [OF less.prems(1) n False p(1) d]
    obtain t where t: "loop (Some p) (delta + (rc_evictable_size ?s - rc_evictable_size s)) ?s =
        Some (Return (delta + (rc_evictable_size ?s - rc_evictable_size s) +
          (rc_evictable_size t - rc_evictable_size ?s)) t)" "cache_inv t P D" "relocked ?s t"
      using less.hyps [OF dec inv p(2)] by blast
    have "loop (Some n) delta s = Some (Return (delta + (rc_evictable_size t - rc_evictable_size s)) t)"
      using step [OF less.prems(1) n False] t(1) p(1) by simp
    with t(2) relocked_trans [OF relocked_bump t(3)] show ?thesis by blast
  qed
qed

lemma lock_gap_pos:
  assumes "tree_ok h r P" "lock_gap h r P D n (- 1)" "P n \<noteq> None" "n \<noteq> r"
  shows "0 < tn_lock_ref (h n)"
  using lock_gap_eq [OF assms(2-4)] kids_lock_nonneg [OF assms(1,3)] lock_gap_nonneg [OF assms(2)]
  by fastforce

section \<open>inc_lock_ref and dec_lock_ref\<close>

lemma lock_inv_start:
  assumes inv: "cache_inv s P D" and n: "P n \<noteq> None" and D': "int (D' n) = int (D n) + d"
    "\<And>m. m \<noteq> n \<Longrightarrow> D' m = D m"
  shows "lock_inv s P D' n d"
proof -
  note i = cache_invD [OF inv]
  have "lock_gap (w_heap s) (rc_root s) P D' n d"
    unfolding lock_gap_def
  proof (intro conjI allI impI)
    show "0 < tn_lock_ref (w_heap s (rc_root s))" by (rule lock_ok_root [OF i(3)])
    fix m
    show "P m = None \<Longrightarrow> D' m = 0"
      using lock_ok_dead [OF i(3), of m] n D'(2) by (cases "m = n") auto
    assume m: "P m \<noteq> None" "m \<noteq> rc_root s"
    show "0 \<le> tn_lock_ref (w_heap s m)" by (rule lock_ok_nonneg [OF i(3) m(1)])
    show "tn_lock_ref (w_heap s m) + (if m = n then d else 0) = int (D' m) + kids_lock (w_heap s) m"
      using lock_ok_eq [OF i(3) m] D' by (cases "m = n") auto
  qed
  with i show ?thesis by (simp add: lock_inv_def)
qed

lemma inc_lock_ref_spec:
  assumes inv: "cache_inv s P D" and n: "P n \<noteq> None" and en: "\<not> rc_disable s"
  shows "\<exists>t. inc_lock_ref n s = Return (rc_evictable_size t - rc_evictable_size s) t \<and>
    cache_inv t P (D(n := D n + 1)) \<and> relocked s t"
proof -
  have start: "lock_inv s P (D(n := D n + 1)) n 1"
    by (rule lock_inv_start [OF inv n]) simp_all
  obtain q vs where q: "P n = Some (q, vs)" using n by fastforce
  have "\<exists>t. inc_loop (Some n) 0 s =
      Some (Return (0 + (rc_evictable_size t - rc_evictable_size s)) t) \<and>
      cache_inv t P (D(n := D n + 1)) \<and> relocked s t"
  proof (rule bump_loop [OF _ _ _ start q])
    show "inc_loop (Some (rc_root s)) delta s = Some (Return delta s)" for delta s
      by (subst inc_loop.simps) simp
    fix m delta s
    assume a: "lock_inv s P (D(n := D n + 1)) m 1" "P m \<noteq> None" "m \<noteq> rc_root s"
    show "inc_loop (Some m) delta s = inc_loop (tn_parent (w_heap s m))
        (delta + (rc_evictable_size (bump 1 m s) - rc_evictable_size s)) (bump 1 m s)"
      using a lock_gap_nonneg [OF lock_invD(3) [OF a(1)] a(2)] by (intro inc_loop_bump)
  qed simp
  with en show ?thesis by (auto simp: inc_lock_ref_def)
qed

lemma dec_lock_ref_spec:
  assumes inv: "cache_inv s P D" and D: "0 < D n" and en: "\<not> rc_disable s"
  shows "\<exists>t. dec_lock_ref n s = Return (rc_evictable_size t - rc_evictable_size s) t \<and>
    cache_inv t P (D(n := D n - 1)) \<and> relocked s t"
proof -
  have n: "P n \<noteq> None"
    using lock_ok_dead [OF cache_invD(3) [OF inv], of n] D by (metis less_irrefl)
  have start: "lock_inv s P (D(n := D n - 1)) n (- 1)"
    using D by (intro lock_inv_start [OF inv n]) simp_all
  obtain q vs where q: "P n = Some (q, vs)" using n by fastforce
  have "\<exists>t. dec_loop (Some n) 0 s =
      Some (Return (0 + (rc_evictable_size t - rc_evictable_size s)) t) \<and>
      cache_inv t P (D(n := D n - 1)) \<and> relocked s t"
  proof (rule bump_loop [OF _ _ _ start q])
    show "dec_loop (Some (rc_root s)) delta s = Some (Return delta s)" for delta s
      by (subst dec_loop.simps) simp
    fix m delta s
    assume a: "lock_inv s P (D(n := D n - 1)) m (- 1)" "P m \<noteq> None" "m \<noteq> rc_root s"
    show "dec_loop (Some m) delta s = dec_loop (tn_parent (w_heap s m))
        (delta + (rc_evictable_size (bump (- 1) m s) - rc_evictable_size s)) (bump (- 1) m s)"
      using a lock_gap_pos [OF lock_invD(1,3) [OF a(1)] a(2,3)] by (intro dec_loop_bump)
  qed simp
  with en show ?thesis by (auto simp: dec_lock_ref_def)
qed

section \<open>The lock counts are determined by the outstanding locks\<close>

lemma path_bound:
  assumes "finite (dom P)"
  obtains M where "\<And>n q vs. P n = Some (q, vs) \<Longrightarrow> length q \<le> M"
proof
  fix n q vs
  assume n: "P n = Some (q, vs)"
  have "length q \<in> (\<lambda>n. length (fst (the (P n)))) ` dom P"
    using n by (force intro: rev_image_eqI)
  then show "length q \<le> Max ((\<lambda>n. length (fst (the (P n)))) ` dom P)"
    using assms by simp
qed

text \<open>From the leaves up: induction on how much longer a path can still get.\<close>

lemma tree_induct_down [consumes 3, case_names node]:
  assumes ok: "tree_ok h r P" and fin: "finite (dom P)" and n: "P n \<noteq> None"
    and step: "\<And>n. P n \<noteq> None \<Longrightarrow> (\<And>t c. (t, c) \<in> set (tn_children (h n)) \<Longrightarrow> Q c) \<Longrightarrow> Q n"
  shows "Q n"
proof -
  obtain M where M: "\<And>n q vs. P n = Some (q, vs) \<Longrightarrow> length q \<le> M"
    using path_bound [OF fin] by blast
  obtain q vs where "P n = Some (q, vs)" using n by fastforce
  then show ?thesis
  proof (induction "M - length q" arbitrary: n q vs rule: less_induct)
    case less
    show ?case
    proof (rule step)
      show "P n \<noteq> None" using less.prems by simp
      fix t c
      assume c: "(t, c) \<in> set (tn_children (h n))"
      obtain v where v: "P c = Some (q @ tn_key (h c), vs @ v)" "tn_key (h c) \<noteq> []"
        using tree_ok_childD [OF ok less.prems c] by blast
      have "M - length (q @ tn_key (h c)) < M - length q"
        using M [OF v(1)] v(2) by (cases "tn_key (h c)") auto
      then show "Q c" using v(1) by (rule less.hyps)
    qed
  qed
qed

lemma locks_determined:
  assumes s: "cache_inv s P D" and t: "cache_inv t P D" and re: "relocked s t"
    and n: "P n \<noteq> None" "n \<noteq> rc_root s"
  shows "tn_lock_ref (w_heap t n) = tn_lock_ref (w_heap s n)"
proof -
  note i = cache_invD [OF s] and j = cache_invD [OF t]
  have root: "rc_root t = rc_root s" by (rule relockedD(2) [OF re])
  have "n \<noteq> rc_root s \<longrightarrow> tn_lock_ref (w_heap t n) = tn_lock_ref (w_heap s n)"
    using i(1) fresh_ok_finite [OF i(2)] n(1)
  proof (induction rule: tree_induct_down)
    case (node n)
    have "c \<noteq> rc_root s" if "(u, c) \<in> set (tn_children (w_heap s n))" for u c
      using tree_ok_edge [OF i(1) node(1) that] by (simp add: edge_ok_def)
    then have "kids_lock (w_heap t) n = kids_lock (w_heap s) n"
      using node(2) same_shapeD(1) [OF relockedD(3) [OF re]] by (intro kids_lock_cong) auto
    then show ?case
      using lock_ok_eq [OF i(3) node(1)] lock_ok_eq [OF j(3) node(1)] root by auto
  qed
  with n(2) show ?thesis by blast
qed

lemma counters_determined:
  assumes s: "cache_inv s P D" and t: "cache_inv t P D" and re: "relocked s t"
  shows "rc_evictable_size t = rc_evictable_size s" "rc_protected_size t = rc_protected_size s"
    "rc_evictable_leaves t = rc_evictable_leaves s"
proof -
  note i = cache_invD [OF s] and j = cache_invD [OF t]
  have root: "rc_root t = rc_root s" by (rule relockedD(2) [OF re])
  have lock: "tn_lock_ref (w_heap t n) = tn_lock_ref (w_heap s n)" if "n \<in> dom P - {rc_root s}" for n
    using locks_determined [OF s t re, of n] that by blast
  have key: "tn_key (w_heap t n) = tn_key (w_heap s n)"
    "tn_children (w_heap t n) = tn_children (w_heap s n)" for n
    by (rule same_shapeD [OF relockedD(3) [OF re]])+
  have "unlocked_tokens (w_heap t) (rc_root s) P = unlocked_tokens (w_heap s) (rc_root s) P"
    "locked_tokens (w_heap t) (rc_root s) P = locked_tokens (w_heap s) (rc_root s) P"
    unfolding unlocked_tokens_def locked_tokens_def by (intro sum.cong refl; simp only: lock key)+
  moreover have "n \<in> unlocked_leaves (w_heap t) (rc_root s) P \<longleftrightarrow>
      n \<in> unlocked_leaves (w_heap s) (rc_root s) P" for n
    using lock [of n] key(2) [of n] unfolding unlocked_leaves_def mem_Collect_eq
    by (metis DiffI domIff singletonD)
  then have "unlocked_leaves (w_heap t) (rc_root s) P = unlocked_leaves (w_heap s) (rc_root s) P"
    by blast
  ultimately show "rc_evictable_size t = rc_evictable_size s"
    "rc_protected_size t = rc_protected_size s" "rc_evictable_leaves t = rc_evictable_leaves s"
    using i(4) j(4) root by (simp_all add: acct_ok_def)
qed

lemma lock_unlock:
  assumes inv: "cache_inv s P D" and n: "P n \<noteq> None" and en: "\<not> rc_disable s"
    and inc: "inc_lock_ref n s = Return d1 t" and dec: "dec_lock_ref n t = Return d2 u"
  shows "cache_inv u P D" "relocked s u" "d1 + d2 = 0"
    "rc_evictable_size u = rc_evictable_size s" "rc_protected_size u = rc_protected_size s"
    "rc_evictable_leaves u = rc_evictable_leaves s"
    "\<And>m. P m \<noteq> None \<Longrightarrow> m \<noteq> rc_root s \<Longrightarrow> tn_lock_ref (w_heap u m) = tn_lock_ref (w_heap s m)"
proof -
  have t: "d1 = rc_evictable_size t - rc_evictable_size s" "cache_inv t P (D(n := D n + 1))" "relocked s t"
    using inc_lock_ref_spec [OF inv n en] inc by auto
  have en': "\<not> rc_disable t" using en relockedD(1) [OF t(3)] by (simp add: same_config_def)
  have "d2 = rc_evictable_size u - rc_evictable_size t" "cache_inv u P (D(n := D n))" "relocked t u"
    using dec_lock_ref_spec [OF t(2) _ en', of n] dec by auto
  then have u: "d2 = rc_evictable_size u - rc_evictable_size t" "cache_inv u P D" "relocked s u"
    using relocked_trans [OF t(3)] by simp_all
  show "cache_inv u P D" "relocked s u" by (fact u)+
  note c = counters_determined [OF inv u(2,3)]
  show "rc_evictable_size u = rc_evictable_size s" "rc_protected_size u = rc_protected_size s"
    "rc_evictable_leaves u = rc_evictable_leaves s"
    by (fact c)+
  show "d1 + d2 = 0" using t(1) u(1) c(1) by simp
  show "tn_lock_ref (w_heap u m) = tn_lock_ref (w_heap s m)" if "P m \<noteq> None" "m \<noteq> rc_root s" for m
    by (rule locks_determined [OF inv u(2,3) that])
qed

end
