(* ===== verification/Radix_Evict.thy ===== *)
theory Radix_Evict
  imports Radix_Lock
begin

text \<open>
  \<open>evict\<close> on a cache that satisfies the invariant. The specification is a run of single steps
  (\<open>evict_run\<close>): while tokens are still wanted and there is an unlocked leaf, one that no other
  unlocked leaf precedes is removed and its slots are returned. It mentions neither the heap nor
  the order in which Python lists a set. The loop of \<open>evict\<close> refines it; what eviction
  guarantees is proved of the runs.
\<close>

section \<open>Removing one leaf\<close>

text \<open>Eviction changes no field of a node but \<open>children\<close>.\<close>

definition pruned :: "radix_cache \<Rightarrow> radix_cache \<Rightarrow> bool" where
  "pruned s t \<longleftrightarrow>
     same_config s t \<and> rc_protected_size t = rc_protected_size s \<and>
     (\<forall>n. w_heap t n = (w_heap s n)\<lparr>tn_children := tn_children (w_heap t n)\<rparr>)"

lemma tree_node_children_eq:
  "((a :: tree_node) = b\<lparr>tn_children := tn_children a\<rparr>) \<longleftrightarrow>
     tn_parent a = tn_parent b \<and> tn_key a = tn_key b \<and> tn_value a = tn_value b \<and>
     tn_lock_ref a = tn_lock_ref b \<and> tn_last_access a = tn_last_access b \<and>
     tn_creation a = tn_creation b \<and> tn_hit_count a = tn_hit_count b \<and>
     tn_priority a = tn_priority b"
  by (cases a; cases b) auto

lemma pruned_refl: "pruned s s"
  by (simp add: pruned_def)

lemma pruned_trans: "pruned s t \<Longrightarrow> pruned t u \<Longrightarrow> pruned s u"
  unfolding pruned_def tree_node_children_eq by (auto intro: same_config_trans)

lemma pruned_fields:
  assumes "pruned s t"
  shows "rc_root t = rc_root s" "rc_strategy t = rc_strategy s" "rc_disable t = rc_disable s"
    "tn_parent (w_heap t n) = tn_parent (w_heap s n)" "tn_key (w_heap t n) = tn_key (w_heap s n)"
    "tn_value (w_heap t n) = tn_value (w_heap s n)"
    "tn_lock_ref (w_heap t n) = tn_lock_ref (w_heap s n)"
    "tn_last_access (w_heap t n) = tn_last_access (w_heap s n)"
    "tn_creation (w_heap t n) = tn_creation (w_heap s n)"
    "tn_hit_count (w_heap t n) = tn_hit_count (w_heap s n)"
    "tn_priority (w_heap t n) = tn_priority (w_heap s n)"
  using assms unfolding pruned_def same_config_def tree_node_children_eq by auto

lemma pruned_entry:
  assumes "pruned s t"
  shows "node_entry t n = node_entry s n" "entry_lt (w_heap t) = entry_lt (w_heap s)"
proof -
  show "node_entry t n = node_entry s n"
    using pruned_fields [OF assms] by (cases "rc_strategy s") (simp_all add: node_entry_def)
  show "entry_lt (w_heap t) = entry_lt (w_heap s)"
    using pruned_fields(8) [OF assms] by (intro ext) (simp add: entry_lt_def tree_node_lt_def)
qed

lemma free_slots_fields [simp]:
  "w_heap (free_slots v s) = w_heap s" "rc_root (free_slots v s) = rc_root s"
  "rc_evictable_leaves (free_slots v s) = rc_evictable_leaves s"
  "rc_evictable_size (free_slots v s) = rc_evictable_size s"
  "rc_protected_size (free_slots v s) = rc_protected_size s"
  "rc_strategy (free_slots v s) = rc_strategy s"
  "rc_allocator (free_slots v s) = map_option (free v) (rc_allocator s)"
  "same_config s (free_slots v s)" "cached (free_slots v s) = cached s"
  by (auto simp: free_slots_def same_config_def cached_def split: option.split)

lemma free_slots_inv: "cache_inv s P D \<Longrightarrow> cache_inv (free_slots v s) P D"
  by (erule cache_inv_cong) auto

lemma pruned_free: "pruned s (free_slots v s)"
  unfolding pruned_def tree_node_children_eq by simp

lemma delete_leaf_inv:
  assumes inv: "cache_inv s P D" and x: "x \<in> rc_evictable_leaves s"
  obtains t p where "delete_leaf x s = Return () t" "tn_parent (w_heap s x) = Some p"
    "P p \<noteq> None" "p \<noteq> x" "cache_inv t (P(x := None)) D" "pruned s t"
    "rc_allocator t = rc_allocator s"
    "rc_evictable_size t = rc_evictable_size s - int (length (tn_key (w_heap s x)))"
    "rc_evictable_leaves t - {p} = rc_evictable_leaves s - {x} - {p}"
proof -
  note i = cache_invD [OF inv]
  let ?h = "w_heap s" and ?r = "rc_root s"
  have old: "rc_evictable_leaves s = unlocked_leaves ?h ?r P"
    using i(4) by (simp add: acct_ok_def)
  then have leaf: "P x \<noteq> None" "x \<noteq> ?r" "tn_lock_ref (?h x) = 0" "tn_children (?h x) = []"
    using x by (simp_all add: unlocked_leaves_def)
  obtain qx vx where qx: "P x = Some (qx, vx)" using leaf(1) by fastforce
  obtain p q vs where p: "tn_parent (?h x) = Some p" "P p = Some (q, vs)" "tn_key (?h x) \<noteq> []"
    "map_of (tn_children (?h p)) (hd (tn_key (?h x))) = Some x"
    using tree_ok_upE [OF i(1) qx leaf(2)] by metis
  obtain k ks where k: "tn_key (?h x) = k # ks" using p(3) by (cases "tn_key (?h x)") auto
  have px: "p \<noteq> x" by (rule parent_neq [OF i(1) leaf(1) p(1)])
  define u where "u = s\<lparr>w_heap := ?h(p := (?h p)\<lparr>tn_children := AList.delete k (tn_children (?h p))\<rparr>),
      rc_evictable_size := rc_evictable_size s - int (length (tn_key (?h x))),
      rc_evictable_leaves := rc_evictable_leaves s - {x}\<rparr>"
  define t where "t = update_leaf_status p u"
  have del: "delete_leaf x s = Return () t"
    using k p(1,4) px by (simp add: delete_leaf_def t_def u_def upd_node_def Let_def)
  have st: "delete_step ?h (w_heap t) ?r P p x"
    unfolding delete_step_def using i(1) leaf p k px by (simp add: t_def u_def)
  have locks: "tn_lock_ref (w_heap t n) = tn_lock_ref (?h n)" for n
    by (simp add: t_def u_def)
  let ?P = "P(x := None)"
  note tree = tree_ok_delete_leaf [OF st] and lock = delete_lock_ok [OF st i(3) locks leaf(3)]
  note ac = delete_acct [OF st fresh_ok_finite [OF i(2)] locks leaf(3)]
  have Pp: "?P p \<noteq> None" using p(2) px by simp
  have leaves: "rc_evictable_leaves t =
      rc_evictable_leaves u - {p} \<union> {p} \<inter> unlocked_leaves (w_heap t) ?r ?P"
    unfolding t_def using update_leaf_status_set [of u ?P p] tree Pp lock_ok_nonneg [OF lock Pp]
      lock_ok_root [OF lock] by (simp add: t_def u_def)
  have set: "rc_evictable_leaves t = unlocked_leaves (w_heap t) ?r ?P"
    unfolding leaves using ac(3) old by (auto simp: u_def)
  have pr: "pruned s t"
    unfolding pruned_def tree_node_children_eq by (simp add: t_def u_def same_config_def)
  have cnt: "rc_evictable_size t = rc_evictable_size s - int (length (tn_key (?h x)))"
    "rc_protected_size t = rc_protected_size s" "rc_root t = ?r"
    by (simp_all add: t_def u_def)
  have "acct_ok t ?P"
    unfolding acct_ok_def cnt ac using set i(4) by (simp add: acct_ok_def)
  moreover have "fresh_ok t ?P" "set_order_ok t"
    using i(2,5) by (simp_all add: t_def u_def fresh_ok_def set_order_ok_def)
  ultimately have "cache_inv t ?P D"
    using tree lock unfolding cache_inv_def cnt(3) by blast
  moreover have "rc_evictable_leaves t - {p} = rc_evictable_leaves s - {x} - {p}"
    unfolding leaves by (auto simp: u_def)
  ultimately show thesis
    using that [OF del p(1) _ px _ pr] p(2) by (simp add: t_def u_def)
qed

section \<open>Runs of evictions\<close>

text \<open>An evictable leaf that the strategy puts before no other one.\<close>

definition least_leaf :: "radix_cache \<Rightarrow> node_id \<Rightarrow> bool" where
  "least_leaf s x \<longleftrightarrow>
     x \<in> rc_evictable_leaves s \<and>
     (\<forall>y \<in> rc_evictable_leaves s. \<not> entry_lt (w_heap s) (node_entry s y) (node_entry s x))"

inductive evict_run :: "int \<Rightarrow> radix_cache \<Rightarrow> node_id list \<Rightarrow> radix_cache \<Rightarrow> bool" where
  stop: "n \<le> 0 \<or> rc_evictable_leaves s = {} \<Longrightarrow> evict_run n s [] s"
| evict_one: "0 < n \<Longrightarrow> least_leaf s x \<Longrightarrow> tn_value (w_heap s x) = Some v \<Longrightarrow>
    delete_leaf x (free_slots v s) = Return () t \<Longrightarrow> evict_run (n - int (length v)) t xs u \<Longrightarrow>
    evict_run n s (x # xs) u"

inductive_cases evict_run_NilE: "evict_run n s [] t"
inductive_cases evict_run_ConsE: "evict_run n s (x # xs) t"

section \<open>The loop of evict is such a run\<close>

text \<open>The heap holds the current entry of every evictable leaf, once.\<close>

definition heap_ok :: "radix_cache \<Rightarrow> (prio \<times> node_id) list \<Rightarrow> bool" where
  "heap_ok s hp \<longleftrightarrow>
     is_heap (entry_lt (w_heap s)) hp \<and> finite (rc_evictable_leaves s) \<and>
     mset hp = image_mset (node_entry s) (mset_set (rc_evictable_leaves s))"

lemma leaves_finite: "cache_inv s P D \<Longrightarrow> finite (rc_evictable_leaves s)"
proof -
  assume inv: "cache_inv s P D"
  have "rc_evictable_leaves s \<subseteq> dom P"
    using cache_invD(4) [OF inv] by (auto simp: acct_ok_def unlocked_leaves_def)
  then show ?thesis
    using fresh_ok_finite [OF cache_invD(2) [OF inv]] by (rule finite_subset)
qed

lemma heap_ok_start:
  assumes inv: "cache_inv s P D"
  shows "heap_ok s (heapify (entry_lt (w_heap s))
    (map (node_entry s) (w_set_order s (rc_evictable_leaves s))))"
proof -
  have fin: "finite (rc_evictable_leaves s)" by (rule leaves_finite [OF inv])
  then have "set (w_set_order s (rc_evictable_leaves s)) = rc_evictable_leaves s"
    "distinct (w_set_order s (rc_evictable_leaves s))"
    using cache_invD(5) [OF inv] by (simp_all add: set_order_ok_def)
  then have "mset (w_set_order s (rc_evictable_leaves s)) = mset_set (rc_evictable_leaves s)"
    by (metis mset_set_set)
  with fin show ?thesis
    by (simp add: heap_ok_def entry.ok_mk)
qed

lemma heap_ok_pop:
  assumes ok: "heap_ok s hp" and ne: "hp \<noteq> []"
  shows "least_leaf s (snd (fst (heappop (entry_lt (w_heap s)) hp)))"
    "is_heap (entry_lt (w_heap s)) (snd (heappop (entry_lt (w_heap s)) hp))"
    "mset (snd (heappop (entry_lt (w_heap s)) hp)) = image_mset (node_entry s)
      (mset_set (rc_evictable_leaves s - {snd (fst (heappop (entry_lt (w_heap s)) hp))}))"
proof -
  let ?lt = "entry_lt (w_heap s)" and ?L = "rc_evictable_leaves s"
  let ?e = "fst (heappop ?lt hp)" and ?q = "snd (heappop ?lt hp)"
  note ok' = ok [unfolded heap_ok_def]
  have set: "set hp = node_entry s ` ?L"
    using ok' by (metis finite_set_mset_mset_set set_image_mset set_mset_mset)
  then obtain x where x: "x \<in> ?L" "?e = node_entry s x"
    using entry.pop_in [OF ne, of "w_heap s"] by blast
  have sx: "snd ?e = x" using x(2) by (simp add: node_entry_def)
  have "\<not> ?lt (node_entry s y) ?e" if "y \<in> ?L" for y
    using entry.min_pop [of "w_heap s" hp "node_entry s y"] ok' set that by blast
  then show "least_leaf s (snd ?e)"
    using x sx by (simp add: least_leaf_def)
  show "is_heap ?lt ?q" using ok' entry.ok_pop by blast
  have "add_mset ?e (mset ?q) = image_mset (node_entry s) (mset_set ?L)"
    using entry.mset_pop [OF ne] ok' by simp
  also have "mset_set ?L = add_mset x (mset_set (?L - {x}))"
    using ok' x(1) by (simp add: mset_set.remove)
  finally show "mset ?q = image_mset (node_entry s) (mset_set (?L - {snd ?e}))"
    using x(2) sx by simp
qed

lemma evict_one_inv:
  assumes inv: "cache_inv s P D" and x: "least_leaf s x"
  obtains t p v where "tn_value (w_heap s x) = Some v" "length v = length (tn_key (w_heap s x))"
    "delete_leaf x (free_slots v s) = Return () t"
    "tn_parent (w_heap t x) = Some p" "cache_inv t (P(x := None)) D" "pruned s t"
    "rc_allocator t = map_option (free v) (rc_allocator s)"
    "rc_evictable_size t = rc_evictable_size s - int (length v)" "P x \<noteq> None" "p \<notin> rc_evictable_leaves s"
    "rc_evictable_leaves t = (if tn_children (w_heap t p) = [] \<and> tn_lock_ref (w_heap t p) = 0
       then Set.insert p (rc_evictable_leaves s - {x}) else rc_evictable_leaves s - {x})"
proof -
  note i = cache_invD [OF inv]
  have xl: "x \<in> rc_evictable_leaves s" using x by (simp add: least_leaf_def)
  have old: "rc_evictable_leaves s = unlocked_leaves (w_heap s) (rc_root s) P"
    using i(4) by (simp add: acct_ok_def)
  have leaf: "P x \<noteq> None" "x \<noteq> rc_root s" using xl old by (simp_all add: unlocked_leaves_def)
  obtain qx vx where qx: "P x = Some (qx, vx)" using leaf(1) by fastforce
  obtain v where v: "tn_value (w_heap s x) = Some v" "length v = length (tn_key (w_heap s x))"
    using tree_ok_upE [OF i(1) qx leaf(2)] by metis
  obtain t p where t: "delete_leaf x (free_slots v s) = Return () t"
    "tn_parent (w_heap s x) = Some p" "P p \<noteq> None" "p \<noteq> x" "cache_inv t (P(x := None)) D"
    "pruned (free_slots v s) t" "rc_allocator t = map_option (free v) (rc_allocator s)"
    "rc_evictable_size t = rc_evictable_size s - int (length (tn_key (w_heap s x)))"
    "rc_evictable_leaves t - {p} = rc_evictable_leaves s - {x} - {p}"
    by (rule delete_leaf_inv [OF free_slots_inv [OF inv], of x v, unfolded free_slots_fields]) (use xl in blast)+
  have pr: "pruned s t" by (rule pruned_trans [OF pruned_free t(6)])
  have "tn_children (w_heap s p) \<noteq> []"
    using child_in_parent(1) [OF i(1) leaf t(2)] by auto
  then have p: "p \<notin> rc_evictable_leaves s" using old by (simp add: unlocked_leaves_def)
  note j = cache_invD [OF t(5)]
  have "p \<in> rc_evictable_leaves t \<longleftrightarrow> tn_children (w_heap t p) = [] \<and> tn_lock_ref (w_heap t p) = 0"
    using j(4) t(3,4) lock_ok_root [OF j(3)]
    by (auto simp: acct_ok_def unlocked_leaves_def)
  with t(9) p have "rc_evictable_leaves t =
      (if tn_children (w_heap t p) = [] \<and> tn_lock_ref (w_heap t p) = 0
       then Set.insert p (rc_evictable_leaves s - {x}) else rc_evictable_leaves s - {x})"
    by auto
  with that [OF v t(1) _ t(5) pr t(7) _ leaf(1) p] show thesis
    using t(2,8) v(2) pruned_fields(4) [OF pr, of x] by simp
qed

lemma evict_loop_run:
  assumes "cache_inv s P D" "heap_ok s hp"
  shows "\<exists>xs t. evict_loop num k hp s = Some (Return (k + (rc_evictable_size s - rc_evictable_size t)) t) \<and>
    evict_run (num - k) s xs t"
  using assms
proof (induction "card (dom P)" arbitrary: s P hp k rule: less_induct)
  case less
  note inv = less.prems(1) and ok = less.prems(2)
  show ?case
  proof (cases "k < num \<and> hp \<noteq> []")
    case False
    have "rc_evictable_leaves s = {}" if "hp = []"
      using ok that by (auto simp: heap_ok_def mset_set_empty_iff)
    with False have "evict_run (num - k) s [] s" by (auto intro: evict_run.stop)
    moreover have "evict_loop num k hp s = Some (Return k s)"
      using False by (subst evict_loop.simps) auto
    ultimately show ?thesis by (intro exI [of _ "[]"] exI [of _ s]) simp
  next
    case True
    let ?lt = "entry_lt (w_heap s)"
    obtain e q where pop: "heappop ?lt hp = (e, q)" by fastforce
    define x where "x = snd e"
    note hp = heap_ok_pop [OF ok conjunct2 [OF True], unfolded pop fst_conv snd_conv, folded x_def]
    obtain t p v where t: "tn_value (w_heap s x) = Some v" "length v = length (tn_key (w_heap s x))"
      "delete_leaf x (free_slots v s) = Return () t" "tn_parent (w_heap t x) = Some p"
      "cache_inv t (P(x := None)) D" "pruned s t"
      "rc_allocator t = map_option (free v) (rc_allocator s)"
      "rc_evictable_size t = rc_evictable_size s - int (length v)" "P x \<noteq> None"
      "p \<notin> rc_evictable_leaves s"
      "rc_evictable_leaves t = (if tn_children (w_heap t p) = [] \<and> tn_lock_ref (w_heap t p) = 0
         then Set.insert p (rc_evictable_leaves s - {x}) else rc_evictable_leaves s - {x})"
      by (rule evict_one_inv [OF inv hp(1)]) (rule that; assumption)
    note en = pruned_entry [OF t(6)]
    define hp' where "hp' = (if tn_children (w_heap t p) = [] \<and> tn_lock_ref (w_heap t p) = 0
      then heappush (entry_lt (w_heap t)) q (node_entry t p) else q)"
    have "evict_loop num k hp s = evict_loop num (k + int (length v)) hp' t"
      using True pop t(1,3,4) by (subst evict_loop.simps) (simp add: Let_def x_def hp'_def)
    moreover have "heap_ok t hp'"
      using hp(2,3) t(10,11) leaves_finite [OF inv] unfolding heap_ok_def hp'_def en(2)
      by (simp add: en entry.ok_push ext [OF en(1)])
    moreover have "card (dom (P(x := None))) < card (dom P)"
      using t(9) fresh_ok_finite [OF cache_invD(2) [OF inv]]
      by (auto intro!: psubset_card_mono)
    ultimately obtain xs u where u: "evict_loop num k hp s =
        Some (Return (k + int (length v) + (rc_evictable_size t - rc_evictable_size u)) u)"
      "evict_run (num - (k + int (length v))) t xs u"
      using less.hyps [OF _ t(5), of hp' "k + int (length v)"] by metis
    have "evict_run (num - k) s (x # xs) u"
      using True hp(1) t(1,3) u(2) by (intro evict_run.evict_one) (auto simp: algebra_simps)
    moreover have "evict_loop num k hp s = Some (Return (k + (rc_evictable_size s - rc_evictable_size u)) u)"
      using u(1) t(8) by simp
    ultimately show ?thesis by blast
  qed
qed

section \<open>What a run guarantees\<close>

definition node_slots :: "radix_cache \<Rightarrow> node_id \<Rightarrow> slot list" where
  "node_slots s n = (case tn_value (w_heap s n) of None \<Rightarrow> [] | Some v \<Rightarrow> v)"

definition evict_ok ::
  "radix_cache \<Rightarrow> paths \<Rightarrow> locks \<Rightarrow> int \<Rightarrow> node_id list \<Rightarrow> radix_cache \<Rightarrow> bool" where
  "evict_ok s P D n xs t \<longleftrightarrow>
     cache_inv t (P |` (- set xs)) D \<and> pruned s t \<and> distinct xs \<and>
     (\<forall>x \<in> set xs. P x \<noteq> None \<and> x \<noteq> rc_root s \<and> tn_lock_ref (w_heap s x) = 0) \<and>
     rc_allocator t = map_option (free (concat (map (node_slots s) xs))) (rc_allocator s) \<and>
     rc_evictable_size t = rc_evictable_size s - int (length (concat (map (node_slots s) xs))) \<and>
     (n \<le> int (length (concat (map (node_slots s) xs))) \<or> rc_evictable_leaves t = {}) \<and>
     (xs \<noteq> [] \<longrightarrow> int (length (concat (map (node_slots s) (butlast xs)))) < n)"

lemma free_free: "free ws (free vs a) = free (vs @ ws) a"
  by (simp add: free_def)

lemma evict_run_ok:
  assumes "evict_run n s xs t" "cache_inv s P D"
  shows "evict_ok s P D n xs t"
  using assms
proof (induction arbitrary: P rule: evict_run.induct)
  case (stop n s)
  have "P |` (- {}) = P" by (rule ext) simp
  moreover have "map_option (free []) (rc_allocator s) = rc_allocator s"
    by (simp add: option.map_ident_strong free_def)
  ultimately show ?case
    using stop by (simp add: evict_ok_def pruned_refl)
next
  case (evict_one n s x v t xs u)
  obtain p where t: "length v = length (tn_key (w_heap s x))"
    "cache_inv t (P(x := None)) D" "pruned s t"
    "rc_allocator t = map_option (free v) (rc_allocator s)"
    "rc_evictable_size t = rc_evictable_size s - int (length v)" "P x \<noteq> None"
    using evict_one_inv [OF evict_one.prems evict_one.hyps(2)] evict_one.hyps(3,4)
    by (metis option.inject outcome.inject(1))
  have "x \<in> unlocked_leaves (w_heap s) (rc_root s) P"
    using evict_one.hyps(2) cache_invD(4) [OF evict_one.prems]
    by (simp add: least_leaf_def acct_ok_def)
  then have x: "x \<noteq> rc_root s" "tn_lock_ref (w_heap s x) = 0"
    by (simp_all add: unlocked_leaves_def)
  note ih = evict_one.IH [OF t(2), unfolded evict_ok_def]
  have slots: "node_slots t = node_slots s"
    by (rule ext) (simp add: node_slots_def pruned_fields(6) [OF t(3)])
  have vx: "node_slots s x = v" using evict_one.hyps(3) by (simp add: node_slots_def)
  have "P(x := None) |` (- set xs) = P |` (- set (x # xs))"
    by (rule ext) (simp add: restrict_map_def)
  then have "cache_inv u (P |` (- set (x # xs))) D" using ih by simp
  moreover have "x \<notin> set xs" using ih by auto
  moreover have "rc_allocator u = map_option (free (concat (map (node_slots s) (x # xs)))) (rc_allocator s)"
    using ih t(4) by (simp add: slots vx option.map_comp comp_def free_free)
  moreover have "\<forall>y \<in> set xs. P y \<noteq> None \<and> y \<noteq> rc_root s \<and> tn_lock_ref (w_heap s y) = 0"
    using ih pruned_fields(1,7) [OF t(3)] by (auto split: if_splits)
  moreover have "int (length (concat (map (node_slots s) (butlast (x # xs))))) < n"
    using ih evict_one.hyps(1) by (auto simp: slots vx)
  ultimately show ?case
    unfolding evict_ok_def using ih t(5,6) x pruned_trans [OF t(3)] by (auto simp: slots vx)
qed

lemma least_leaf_key:
  assumes inv: "cache_inv s P D" and x: "least_leaf s x"
  shows "tn_key (w_heap s x) \<noteq> []"
proof -
  note i = cache_invD [OF inv]
  have "x \<in> unlocked_leaves (w_heap s) (rc_root s) P"
    using x i(4) by (simp add: least_leaf_def acct_ok_def)
  then obtain q vs where "P x = Some (q, vs)" "x \<noteq> rc_root s" by (auto simp: unlocked_leaves_def)
  then show ?thesis using tree_ok_upE [OF i(1)] by metis
qed

text \<open>
  A run is the run of its first victims, for a target of just their tokens, and then the run of the
  others: there is a state between any two victims.
\<close>

lemma evict_run_split:
  assumes "evict_run n s zs t" "cache_inv s P D" "zs = ys @ xs"
  shows "\<exists>u. evict_run (int (length (concat (map (node_slots s) ys)))) s ys u \<and>
    evict_run (n - int (length (concat (map (node_slots s) ys)))) u xs t"
  using assms
proof (induction arbitrary: P ys rule: evict_run.induct)
  case (stop n s)
  then show ?case by (auto intro!: exI [of _ s] evict_run.stop)
next
  case (evict_one n s x v t zs u)
  show ?case
  proof (cases ys)
    case Nil
    have "evict_run n s (x # zs) u"
      using evict_one.hyps by (rule evict_run.evict_one)
    with Nil evict_one.prems(2) show ?thesis by (auto intro!: exI [of _ s] evict_run.stop)
  next
    case (Cons y ys')
    then have ys: "y = x" "zs = ys' @ xs" using evict_one.prems(2) by auto
    obtain t: "length v = length (tn_key (w_heap s x))" "cache_inv t (P(x := None)) D" "pruned s t"
      using evict_one_inv [OF evict_one.prems(1) evict_one.hyps(2)] evict_one.hyps(3,4)
      by (metis option.inject outcome.inject(1))
    have slots: "node_slots t = node_slots s"
      by (rule ext) (simp add: node_slots_def pruned_fields(6) [OF t(3)])
    have vx: "node_slots s x = v" using evict_one.hyps(3) by (simp add: node_slots_def)
    obtain w where w: "evict_run (int (length (concat (map (node_slots s) ys')))) t ys' w"
      "evict_run (n - int (length v) - int (length (concat (map (node_slots s) ys')))) w xs u"
      using evict_one.IH [OF t(2) ys(2)] unfolding slots by blast
    have "tn_key (w_heap s x) \<noteq> []"
      by (rule least_leaf_key [OF evict_one.prems(1) evict_one.hyps(2)])
    then have "0 < int (length v) + int (length (concat (map (node_slots s) ys')))"
      using t(1) by (cases "tn_key (w_heap s x)") simp_all
    then have "evict_run (int (length v) + int (length (concat (map (node_slots s) ys')))) s (x # ys') w"
      by (rule evict_run.evict_one [OF _ evict_one.hyps(2-4)]) (simp add: w(1))
    then show ?thesis
      using w(2) unfolding Cons ys(1) by (auto simp: vx algebra_simps)
  qed
qed

lemma no_leaves_no_tokens:
  assumes inv: "cache_inv s P D" and none: "rc_evictable_leaves s = {}"
  shows "rc_evictable_size s = 0"
proof -
  note i = cache_invD [OF inv]
  have "n \<noteq> rc_root s \<longrightarrow> tn_lock_ref (w_heap s n) \<noteq> 0" if n: "P n \<noteq> None" for n
    using i(1) fresh_ok_finite [OF i(2)] n
  proof (induction rule: tree_induct_down)
    case (node n)
    show ?case
    proof (intro impI notI)
      assume n: "n \<noteq> rc_root s" "tn_lock_ref (w_heap s n) = 0"
      then have "tn_children (w_heap s n) \<noteq> []"
        using none i(4) node(1) by (auto simp: acct_ok_def unlocked_leaves_def)
      then obtain u c where c: "(u, c) \<in> set (tn_children (w_heap s n))"
        by (metis list.set_intros(1) neq_Nil_conv surj_pair)
      have edge: "P c \<noteq> None" "c \<noteq> rc_root s"
        using tree_ok_edge [OF i(1) node(1) c] by (simp_all add: edge_ok_def)
      have "tn_lock_ref (w_heap s c) \<le> kids_lock (w_heap s) n"
        using kids_lock_ge [OF i(1) node(1) c] lock_ok_nonneg [OF i(3)] by blast
      then have "tn_lock_ref (w_heap s c) \<le> 0"
        using lock_ok_eq [OF i(3) node(1) n(1)] n(2) by linarith
      with lock_ok_nonneg [OF i(3) edge(1)] node(2) [OF c] edge(2) show False by simp
    qed
  qed
  then have "unlocked_tokens (w_heap s) (rc_root s) P = 0"
    unfolding unlocked_tokens_def by (intro sum.neutral ballI) (metis DiffE domIff singletonI)
  with i(4) show ?thesis by (simp add: acct_ok_def)
qed

lemma evict_ok_mono:
  assumes ok: "evict_ok s P D n xs t" and inv: "cache_inv s P D"
  shows "cached t ks = Some ws \<Longrightarrow> cached s ks = Some ws"
proof (rule covers_cached [OF inv _ _])
  show "cache_inv t (P |` (- set xs)) D" using ok by (simp add: evict_ok_def)
  show "covers P (P |` (- set xs))"
    using covers_map_le [OF inv map_le_refl] unfolding covers_def restrict_map_def
    by (metis option.distinct(1))
qed

lemma evict_ok_locked:
  assumes ok: "evict_ok s P D n xs t" and m: "P m = Some (q, vs)"
    and lock: "m = rc_root s \<or> 0 < tn_lock_ref (w_heap s m)"
  shows "(P |` (- set xs)) m = Some (q, vs)" "cached t q = Some vs"
proof -
  have "m \<notin> set xs" using ok lock by (auto simp: evict_ok_def)
  with m show m': "(P |` (- set xs)) m = Some (q, vs)" by (simp add: restrict_map_def)
  have "cache_inv t (P |` (- set xs)) D" using ok by (simp add: evict_ok_def)
  then show "cached t q = Some vs" using m' by (rule cached_path)
qed

lemma evict_spec:
  assumes inv: "cache_inv s P D" and en: "\<not> rc_disable s"
  shows "\<exists>xs t. evict params s = Return
      \<lparr>er_num_tokens_evicted = int (length (concat (map (node_slots s) xs)))\<rparr> t \<and>
    evict_run (ep_num_tokens params) s xs t \<and> evict_ok s P D (ep_num_tokens params) xs t"
proof -
  let ?hp = "heapify (entry_lt (w_heap s)) (map (node_entry s) (w_set_order s (rc_evictable_leaves s)))"
  obtain xs t where r: "evict_loop (ep_num_tokens params) 0 ?hp s =
      Some (Return (0 + (rc_evictable_size s - rc_evictable_size t)) t)"
    "evict_run (ep_num_tokens params - 0) s xs t"
    using evict_loop_run [OF inv heap_ok_start [OF inv]] by blast
  have run: "evict_run (ep_num_tokens params) s xs t" using r(2) by simp
  note ok = evict_run_ok [OF run inv]
  have "evict params s = Return \<lparr>er_num_tokens_evicted = rc_evictable_size s - rc_evictable_size t\<rparr> t"
    using en r(1) by (simp add: evict_def Let_def)
  with run ok show ?thesis
    by (intro exI [of _ xs] exI [of _ t]) (simp add: evict_ok_def)
qed

lemma evict_disabled: "rc_disable s \<Longrightarrow> evict p s = Return EvictResult_default s"
  by (simp add: evict_def)

end
