(* ===== verification/Radix_Reach.thy ===== *)
theory Radix_Reach
  imports Radix_Evict
begin

text \<open>
  The cache as a state machine: the states that construction and any sequence of calls can
  reach, with the number of outstanding locks on each node. Every reachable state satisfies the
  invariant. The contract a client of a prefix cache relies on is the locale \<open>prefix_cache\<close>,
  after the abstract class \<open>BasePrefixCache\<close>; the reachable states of \<open>RadixCache\<close> and its
  methods are an interpretation of it.
\<close>

section \<open>Construction and reset\<close>

lemma reset_fields:
  "rc_root (reset s) = w_counter s" "w_counter (reset s) = Suc (w_counter s)"
  "rc_evictable_size (reset s) = 0" "rc_protected_size (reset s) = 0"
  "rc_evictable_leaves (reset s) = {}" "w_set_order (reset s) = w_set_order s"
  "rc_disable (reset s) = rc_disable s" "rc_strategy (reset s) = rc_strategy s"
  "rc_allocator (reset s) = rc_allocator s"
  "tn_children (w_heap (reset s) (w_counter s)) = []" "tn_parent (w_heap (reset s) (w_counter s)) = None"
  "tn_key (w_heap (reset s) (w_counter s)) = []" "tn_value (w_heap (reset s) (w_counter s)) = Some []"
  "tn_lock_ref (w_heap (reset s) (w_counter s)) = 1"
  by (simp_all add: reset_def new_node_def monotonic_def upd_node_def Let_def)

lemma reset_inv:
  assumes "set_order_ok s"
  shows "cache_inv (reset s) [w_counter s \<mapsto> ([], [])] (\<lambda>_. 0)"
proof -
  let ?t = "reset s" and ?P = "[w_counter s \<mapsto> ([], [])] :: paths"
  have dom: "dom ?P - {w_counter s} = {}" by simp
  have "tree_ok (w_heap ?t) (rc_root ?t) ?P"
    by (simp add: tree_ok_def root_ok_def up_ok_def down_ok_def reset_fields)
  moreover have "fresh_ok ?t ?P" by (simp add: fresh_ok_def reset_fields)
  moreover have "lock_ok (w_heap ?t) (rc_root ?t) ?P (\<lambda>_. 0)"
    by (simp add: lock_ok_def lock_gap_def reset_fields)
  moreover have "acct_ok ?t ?P"
    by (auto simp: acct_ok_def unlocked_tokens_def locked_tokens_def unlocked_leaves_def
        reset_fields dom)
  moreover have "set_order_ok ?t"
    using assms by (simp add: set_order_ok_def reset_fields)
  ultimately show ?thesis by (simp add: cache_inv_def)
qed

lemma radix_init_inv:
  assumes "radix_init po w = Inr s" "set_order_ok w"
  shows "\<exists>P. cache_inv s P (\<lambda>_. 0)"
proof -
  obtain u where u: "s = reset u" "w_set_order u = w_set_order w"
    using assms(1) by (auto simp: radix_init_def Let_def py_world.defs split: option.splits)
  with assms(2) show ?thesis
    using reset_inv [of u] by (auto simp: set_order_ok_def)
qed

lemma set_allocator_inv: "cache_inv s P D \<Longrightarrow> cache_inv (set_allocator a s) P D"
  by (erule cache_inv_cong) (auto simp: set_allocator_def same_config_def)

section \<open>The path of a node\<close>

inductive path_of :: "radix_cache \<Rightarrow> node_id \<Rightarrow> token list \<Rightarrow> bool" for s where
  root: "path_of s (rc_root s) []"
| child: "path_of s n q \<Longrightarrow> (t, c) \<in> set (tn_children (w_heap s n)) \<Longrightarrow>
    path_of s c (q @ tn_key (w_heap s c))"

lemma path_of_sound:
  assumes "path_of s n q" "cache_inv s P D"
  shows "\<exists>vs. P n = Some (q, vs)"
  using assms
proof (induction rule: path_of.induct)
  case root
  then show ?case using tree_ok_rootD(1) [OF cache_invD(1)] by blast
next
  case (child n q t c)
  then show ?case using tree_ok_childD [OF cache_invD(1) [OF child.prems] _ child.hyps(2)] by blast
qed

lemma path_of_complete:
  assumes "cache_inv s P D" "P n = Some (q, vs)"
  shows "path_of s n q"
  using cache_invD(1) [OF assms(1)] assms(2)
proof (induction rule: path_induct)
  case root
  show ?case by (rule path_of.root)
next
  case (child n p q vs v)
  show ?case using path_of.child [OF child.IH map_of_SomeD] child.hyps by blast
qed

lemma path_of_iff: "cache_inv s P D \<Longrightarrow> path_of s n q \<longleftrightarrow> (\<exists>vs. P n = Some (q, vs))"
  using path_of_sound path_of_complete by blast

lemma path_of_mono:
  assumes "cache_inv s P D" "cache_inv t P' D'" "P \<subseteq>\<^sub>m P'" "path_of s n q"
  shows "path_of t n q"
proof -
  obtain vs where "P n = Some (q, vs)" using path_of_sound [OF assms(4,1)] by blast
  then show ?thesis
    using path_of_complete [OF assms(2)] map_le_Some [OF assms(3)] by blast
qed

section \<open>The reachable states\<close>

inductive reachable :: "radix_cache \<Rightarrow> locks \<Rightarrow> bool" where
  init: "radix_init po w = Inr s \<Longrightarrow> set_order_ok w \<Longrightarrow> \<not> rc_disable s \<Longrightarrow> reachable s (\<lambda>_. 0)"
| attach: "reachable s D \<Longrightarrow> reachable (set_allocator a s) D"
| clear: "reachable s D \<Longrightarrow> reachable (reset s) (\<lambda>_. 0)"
| match: "reachable s D \<Longrightarrow> match_prefix key s = Return r t \<Longrightarrow> reachable t D"
| insert: "reachable s D \<Longrightarrow> length (param_value p) = length (ip_key p) \<Longrightarrow>
    radix_insert p s = Return i t \<Longrightarrow> reachable t D"
| lock: "reachable s D \<Longrightarrow> path_of s n q \<Longrightarrow> inc_lock_ref n s = Return d t \<Longrightarrow>
    reachable t (D(n := D n + 1))"
| unlock: "reachable s D \<Longrightarrow> 0 < D n \<Longrightarrow> dec_lock_ref n s = Return d t \<Longrightarrow>
    reachable t (D(n := D n - 1))"
| evict: "reachable s D \<Longrightarrow> evict p s = Return e t \<Longrightarrow> reachable t D"

definition healthy :: "radix_cache \<Rightarrow> locks \<Rightarrow> bool" where
  "healthy s D \<longleftrightarrow> \<not> rc_disable s \<and> (\<exists>P. cache_inv s P D)"

lemma healthyE:
  assumes "healthy s D"
  obtains P where "cache_inv s P D" "\<not> rc_disable s"
  using assms by (auto simp: healthy_def)

lemma healthyI: "cache_inv s P D \<Longrightarrow> same_config u s \<Longrightarrow> \<not> rc_disable u \<Longrightarrow> healthy s D"
  by (auto simp: healthy_def same_config_def)

lemma healthy_match:
  assumes "healthy s D" "match_prefix key s = Return r t"
  shows "healthy t D"
proof -
  obtain P where inv: "cache_inv s P D" "\<not> rc_disable s" by (rule healthyE [OF assms(1)])
  then obtain P' q where "match_ok s P D key r t P' q"
    using match_prefix_spec [OF inv, of key] assms(2) by auto
  then show ?thesis
    using inv(2) by (auto simp: match_ok_def reshaped_def intro: healthyI)
qed

lemma healthy_insert:
  assumes "healthy s D" "length (param_value p) = length (ip_key p)" "radix_insert p s = Return i t"
  shows "healthy t D"
proof -
  obtain P where inv: "cache_inv s P D" "\<not> rc_disable s" by (rule healthyE [OF assms(1)])
  then obtain n P' where "insert_ok s P D (ip_key p) (param_value p) n t P'"
    using radix_insert_spec [OF inv assms(2)] assms(3) by auto
  then show ?thesis
    using inv(2) by (auto simp: insert_ok_def intro: healthyI)
qed

lemma healthy_lock:
  assumes "healthy s D" "path_of s n q" "inc_lock_ref n s = Return d t"
  shows "healthy t (D(n := D n + 1))"
proof -
  obtain P where inv: "cache_inv s P D" "\<not> rc_disable s" by (rule healthyE [OF assms(1)])
  have "P n \<noteq> None" using path_of_sound [OF assms(2) inv(1)] by blast
  then have "cache_inv t P (D(n := D n + 1))" "relocked s t"
    using inc_lock_ref_spec [OF inv(1) _ inv(2), of n] assms(3) by auto
  then show ?thesis
    using inv(2) by (auto simp: relocked_def intro: healthyI)
qed

lemma healthy_unlock:
  assumes "healthy s D" "0 < D n" "dec_lock_ref n s = Return d t"
  shows "healthy t (D(n := D n - 1))"
proof -
  obtain P where inv: "cache_inv s P D" "\<not> rc_disable s" by (rule healthyE [OF assms(1)])
  have "cache_inv t P (D(n := D n - 1))" "relocked s t"
    using dec_lock_ref_spec [OF inv(1) assms(2) inv(2)] assms(3) by auto
  then show ?thesis
    using inv(2) by (auto simp: relocked_def intro: healthyI)
qed

lemma healthy_evict:
  assumes "healthy s D" "evict p s = Return e t"
  shows "healthy t D"
proof -
  obtain P where inv: "cache_inv s P D" "\<not> rc_disable s" by (rule healthyE [OF assms(1)])
  obtain xs where "evict_ok s P D (ep_num_tokens p) xs t"
    using evict_spec [OF inv, of p] assms(2) by auto
  then show ?thesis
    using inv(2) by (auto simp: evict_ok_def pruned_def intro: healthyI)
qed

lemma healthy_reset: "healthy s D \<Longrightarrow> healthy (reset s) (\<lambda>_. 0)"
  unfolding healthy_def reset_fields by (blast intro: reset_inv dest: cache_invD(5))

lemma healthy_attach: "healthy s D \<Longrightarrow> healthy (set_allocator a s) D"
  using set_allocator_inv by (fastforce simp: healthy_def set_allocator_def)

lemma reachable_healthy: "reachable s D \<Longrightarrow> healthy s D"
proof (induction rule: reachable.induct)
  case (init po w s)
  then show ?case using radix_init_inv by (auto simp: healthy_def)
next
  case (lock s D n q d t)
  show ?case by (rule healthy_lock [OF lock.IH lock.hyps(2,3)])
next
  case (unlock s D n d t)
  show ?case by (rule healthy_unlock [OF unlock.IH unlock.hyps(2,3)])
qed (blast intro: healthy_match healthy_insert healthy_evict healthy_reset healthy_attach)+

lemma reachableE:
  assumes "reachable s D"
  obtains P where "cache_inv s P D" "\<not> rc_disable s"
  using healthyE [OF reachable_healthy [OF assms]] by blast

end
