(* ===== verification/Prefix_Cache.thy ===== *)
theory Prefix_Cache
  imports Cache_Types
begin

text \<open>
  The contract of a prefix cache, after the abstract class \<open>BasePrefixCache\<close>: what a client
  (the model runner) may rely on, whatever data structure is behind it. The content of a cache is
  a map from token lists to slot lists; a node handle stands for the prefix it was returned for;
  \<open>D n\<close> is the number of locks a client holds on the handle \<open>n\<close>.
\<close>

locale prefix_cache =
  fixes ok :: "'s \<Rightarrow> (node_id \<Rightarrow> nat) \<Rightarrow> bool"
    and content :: "'s \<Rightarrow> token list \<Rightarrow> slot list option"
    and stands :: "'s \<Rightarrow> node_id \<Rightarrow> token list \<Rightarrow> bool"
    and lookup :: "token list \<Rightarrow> 's \<Rightarrow> (match_result, 's) outcome"
    and store :: "insert_params \<Rightarrow> 's \<Rightarrow> (insert_result, 's) outcome"
    and hold :: "node_id \<Rightarrow> 's \<Rightarrow> (int, 's) outcome"
    and release :: "node_id \<Rightarrow> 's \<Rightarrow> (int, 's) outcome"
    and shrink :: "evict_params \<Rightarrow> 's \<Rightarrow> (evict_result, 's) outcome"
    and loose :: "'s \<Rightarrow> int"
    and pinned :: "'s \<Rightarrow> int"
  assumes content_length: "ok s D \<Longrightarrow> content s ks = Some ws \<Longrightarrow> length ws = length ks"
    and content_closed: "ok s D \<Longrightarrow> content s ks = Some ws \<Longrightarrow> prefix js ks \<Longrightarrow>
      content s js = Some (take (length js) ws)"
    and lookup_ok: "ok s D \<Longrightarrow> \<exists>r t q. lookup key s = Return r t \<and> ok t D \<and>
      content t = content s \<and> prefix q key \<and> content s q = Some (mr_device_indices r) \<and>
      (\<forall>ks. prefix ks key \<longrightarrow> length q < length ks \<longrightarrow> content s ks = None) \<and>
      stands t (mr_last_node r) q \<and> (\<forall>n p. stands s n p \<longrightarrow> stands t n p) \<and>
      loose t = loose s \<and> pinned t = pinned s"
    and store_ok: "ok s D \<Longrightarrow> length (param_value ip) = length (ip_key ip) \<Longrightarrow>
      \<exists>n t ms. store ip s = Return \<lparr>ir_prefix_len = n\<rparr> t \<and> ok t D \<and> n \<le> length (ip_key ip) \<and>
        content s (take n (ip_key ip)) = Some ms \<and>
        (\<forall>ks. prefix ks (ip_key ip) \<longrightarrow> n < length ks \<longrightarrow> content s ks = None) \<and>
        (\<forall>ks ws. content t ks = Some ws \<longleftrightarrow> content s ks = Some ws \<or>
           (prefix ks (ip_key ip) \<and> ws = take (length ks) (ms @ drop n (param_value ip)))) \<and>
        (\<forall>m q. stands s m q \<longrightarrow> stands t m q) \<and>
        loose t = loose s + int (length (ip_key ip) - n) \<and> pinned t = pinned s"
    and hold_ok: "ok s D \<Longrightarrow> stands s n q \<Longrightarrow>
      \<exists>d t. hold n s = Return d t \<and> ok t (D(n := D n + 1)) \<and> content t = content s \<and>
        (\<forall>m p. stands s m p \<longrightarrow> stands t m p) \<and>
        loose t = loose s + d \<and> pinned t = pinned s - d"
    and release_ok: "ok s D \<Longrightarrow> 0 < D n \<Longrightarrow>
      \<exists>d t. release n s = Return d t \<and> ok t (D(n := D n - 1)) \<and> content t = content s \<and>
        (\<forall>m p. stands s m p \<longrightarrow> stands t m p) \<and>
        loose t = loose s + d \<and> pinned t = pinned s - d"
    and shrink_ok: "ok s D \<Longrightarrow>
      \<exists>e t. shrink ep s = Return \<lparr>er_num_tokens_evicted = e\<rparr> t \<and> ok t D \<and>
        (\<forall>ks ws. content t ks = Some ws \<longrightarrow> content s ks = Some ws) \<and>
        (\<forall>n q. 0 < D n \<longrightarrow> stands s n q \<longrightarrow> stands t n q \<and> content t q = content s q) \<and>
        (ep_num_tokens ep \<le> e \<or> loose t = 0) \<and>
        loose t = loose s - e \<and> pinned t = pinned s"
begin

text \<open>What was stored is found, and the rest of a longer key is not.\<close>

lemma store_lookup:
  assumes ok: "ok s D" and len: "length (param_value p) = length (ip_key p)"
    and st: "store p s = Return i t"
  shows "\<exists>r u ms. lookup (ip_key p) t = Return r u \<and> content u = content t \<and>
    content s (take (ir_prefix_len i) (ip_key p)) = Some ms \<and>
    mr_device_indices r = ms @ drop (ir_prefix_len i) (param_value p) \<and>
    stands u (mr_last_node r) (ip_key p)"
proof -
  obtain n ms where n: "i = \<lparr>ir_prefix_len = n\<rparr>" "ok t D" "n \<le> length (ip_key p)"
    "content s (take n (ip_key p)) = Some ms"
    "\<forall>ks ws. content t ks = Some ws \<longleftrightarrow> content s ks = Some ws \<or>
       (prefix ks (ip_key p) \<and> ws = take (length ks) (ms @ drop n (param_value p)))"
    using store_ok [OF ok len] st by auto
  have "length ms = n" using content_length [OF ok n(4)] n(3) by simp
  then have full: "content t (ip_key p) = Some (ms @ drop n (param_value p))"
    using n(3,5) len by auto
  obtain r u q where r: "lookup (ip_key p) t = Return r u" "content u = content t"
    "prefix q (ip_key p)" "content t q = Some (mr_device_indices r)"
    "\<forall>ks. prefix ks (ip_key p) \<longrightarrow> length q < length ks \<longrightarrow> content t ks = None"
    "stands u (mr_last_node r) q"
    using lookup_ok [OF n(2), of "ip_key p"] by blast
  have "\<not> length q < length (ip_key p)" using r(5) full by auto
  with r(3) have "q = ip_key p"
    by (metis append_eq_conv_conj not_less prefix_def take_all)
  with r full n(1,4) show ?thesis by auto
qed

text \<open>A looked-up prefix that is locked survives any number of evictions.\<close>

lemma lookup_hold_shrink:
  assumes ok: "ok s D" and l: "lookup key s = Return r t" and h: "hold (mr_last_node r) t = Return d u"
    and e: "shrink p u = Return e v"
  shows "content v (take (length (mr_device_indices r)) key) = Some (mr_device_indices r)"
    and "ok v (D(mr_last_node r := D (mr_last_node r) + 1))"
proof -
  let ?n = "mr_last_node r"
  obtain q where q: "ok t D" "content t = content s" "prefix q key"
    "content s q = Some (mr_device_indices r)" "stands t ?n q"
    using lookup_ok [OF ok, of key] l by auto
  have u: "ok u (D(?n := D ?n + 1))" "content u = content t" "stands u ?n q"
    using hold_ok [OF q(1,5)] h q(5) by auto
  obtain e' where v: "ok v (D(?n := D ?n + 1))"
    "\<forall>n q. 0 < (D(?n := D ?n + 1)) n \<longrightarrow> stands u n q \<longrightarrow> stands v n q \<and> content v q = content u q"
    using shrink_ok [OF u(1), of p] e by auto
  have kept: "content v q = content u q" using v(2) [rule_format, of ?n q] u(3) by simp
  show "ok v (D(?n := D ?n + 1))" by (rule v(1))
  have "length (mr_device_indices r) = length q" by (rule content_length [OF ok q(4)])
  then have "take (length (mr_device_indices r)) key = q"
    using q(3) by (simp add: prefix_take_iff)
  with kept u(2) q(2,4) show
    "content v (take (length (mr_device_indices r)) key) = Some (mr_device_indices r)" by simp
qed

text \<open>Looking up twice gives the same slots.\<close>

lemma lookup_twice:
  assumes ok: "ok s D" and l: "lookup key s = Return r t"
  shows "\<exists>r' u. lookup key t = Return r' u \<and> mr_device_indices r' = mr_device_indices r"
proof -
  obtain q where q: "ok t D" "content t = content s" "prefix q key"
    "content s q = Some (mr_device_indices r)"
    "\<forall>ks. prefix ks key \<longrightarrow> length q < length ks \<longrightarrow> content s ks = None"
    using lookup_ok [OF ok, of key] l by auto
  obtain r' u q' where r': "lookup key t = Return r' u" "prefix q' key"
    "content t q' = Some (mr_device_indices r')"
    "\<forall>ks. prefix ks key \<longrightarrow> length q' < length ks \<longrightarrow> content t ks = None"
    using lookup_ok [OF q(1), of key] by blast
  have "\<not> length q < length q'" "\<not> length q' < length q"
    using q(2-5) r'(2-4) by auto
  then have "q' = q"
    using q(3) r'(2) by (metis linorder_neqE_nat prefix_take_iff)
  with q r' show ?thesis by auto
qed

text \<open>Evicting nothing that is locked: the loose tokens bound what can go.\<close>

lemma shrink_bounded:
  assumes "ok s D" "shrink p s = Return e t"
  shows "loose t + er_num_tokens_evicted e = loose s" "pinned t = pinned s"
    "er_num_tokens_evicted e < ep_num_tokens p \<Longrightarrow> loose t = 0"
  using shrink_ok [OF assms(1), of p] assms(2) by auto

end

end
