(* ===== verification/Radix_Contract.thy ===== *)
theory Radix_Contract
  imports Radix_Reach Prefix_Cache
begin

text \<open>
  \<open>RadixCache\<close> keeps the contract of a prefix cache: the interpretation of \<open>prefix_cache\<close> on
  its methods, and the meaning of \<open>total_size\<close>.
\<close>

section \<open>The laws\<close>

lemma healthy_cached_length:
  assumes "healthy s D" "cached s ks = Some ws"
  shows "length ws = length ks"
proof -
  obtain P where inv: "cache_inv s P D" by (rule healthyE [OF assms(1)])
  then obtain n q vs where n: "P n = Some (q, vs)" "prefix ks q" "ws = take (length ks) vs"
    using assms(2) cached_iff by blast
  then show ?thesis
    using path_lengths [OF cache_invD(1) [OF inv] n(1)] prefix_length_le [OF n(2)] by simp
qed

lemma healthy_cached_closed:
  assumes "healthy s D" "cached s ks = Some ws" "prefix js ks"
  shows "cached s js = Some (take (length js) ws)"
proof -
  obtain P where inv: "cache_inv s P D" by (rule healthyE [OF assms(1)])
  obtain n q vs where n: "P n = Some (q, vs)" "prefix ks q" "ws = take (length ks) vs"
    using assms(2) cached_iff [OF inv] by blast
  have "take (length js) ws = take (length js) vs"
    using n(3) prefix_length_le [OF assms(3)] by (simp add: min_def)
  with n(1,2) assms(3) show ?thesis
    using cached_iff [OF inv] by (metis prefix_order.trans)
qed

lemma match_law:
  assumes "healthy s D"
  shows "\<exists>r t q. match_prefix key s = Return r t \<and> healthy t D \<and>
    cached t = cached s \<and> prefix q key \<and> cached s q = Some (mr_device_indices r) \<and>
    (\<forall>ks. prefix ks key \<longrightarrow> length q < length ks \<longrightarrow> cached s ks = None) \<and>
    path_of t (mr_last_node r) q \<and> (\<forall>n p. path_of s n p \<longrightarrow> path_of t n p) \<and>
    rc_evictable_size t = rc_evictable_size s \<and> rc_protected_size t = rc_protected_size s"
proof -
  obtain P where inv: "cache_inv s P D" "\<not> rc_disable s" by (rule healthyE [OF assms])
  obtain r t P' q where m: "match_prefix key s = Return r t" "match_ok s P D key r t P' q"
    using match_prefix_spec [OF inv, of key] by blast
  note m' = m(2) [unfolded match_ok_def reshaped_def longest_def]
  have "healthy t D" by (rule healthy_match [OF assms m(1)])
  moreover have "path_of t (mr_last_node r) q"
    using m' path_of_complete by blast
  moreover have "\<forall>n p. path_of s n p \<longrightarrow> path_of t n p"
    using m' path_of_mono [OF inv(1)] by blast
  ultimately show ?thesis using m(1) m' by blast
qed

lemma insert_law:
  assumes "healthy s D" "length (param_value ip) = length (ip_key ip)"
  shows "\<exists>n t ms. radix_insert ip s = Return \<lparr>ir_prefix_len = n\<rparr> t \<and> healthy t D \<and>
    n \<le> length (ip_key ip) \<and> cached s (take n (ip_key ip)) = Some ms \<and>
    (\<forall>ks. prefix ks (ip_key ip) \<longrightarrow> n < length ks \<longrightarrow> cached s ks = None) \<and>
    (\<forall>ks ws. cached t ks = Some ws \<longleftrightarrow> cached s ks = Some ws \<or>
       (prefix ks (ip_key ip) \<and> ws = take (length ks) (ms @ drop n (param_value ip)))) \<and>
    (\<forall>m q. path_of s m q \<longrightarrow> path_of t m q) \<and>
    rc_evictable_size t = rc_evictable_size s + int (length (ip_key ip) - n) \<and>
    rc_protected_size t = rc_protected_size s"
proof -
  obtain P where inv: "cache_inv s P D" "\<not> rc_disable s" by (rule healthyE [OF assms(1)])
  obtain n t P' where i: "radix_insert ip s = Return \<lparr>ir_prefix_len = n\<rparr> t"
    "insert_ok s P D (ip_key ip) (param_value ip) n t P'"
    using radix_insert_spec [OF inv assms(2)] by blast
  note i' = i(2) [unfolded insert_ok_def longest_def]
  have "healthy t D" by (rule healthy_insert [OF assms i(1)])
  moreover have "\<forall>m q. path_of s m q \<longrightarrow> path_of t m q"
    using i' path_of_mono [OF inv(1)] by blast
  moreover have "\<forall>ks. prefix ks (ip_key ip) \<longrightarrow> n < length ks \<longrightarrow> cached s ks = None"
    using i' by auto
  ultimately show ?thesis using i(1) i' by blast
qed

lemma relock_law:
  assumes inv: "cache_inv s P D" and inv': "cache_inv t P D'" and re: "relocked s t"
    and en: "\<not> rc_disable s" and d: "d = rc_evictable_size t - rc_evictable_size s"
  shows "healthy t D' \<and> cached t = cached s \<and> (\<forall>m p. path_of s m p \<longrightarrow> path_of t m p) \<and>
    rc_evictable_size t = rc_evictable_size s + d \<and> rc_protected_size t = rc_protected_size s - d"
proof -
  have "healthy t D'"
    using healthyI [OF inv' relockedD(1) [OF re] en] .
  moreover have "\<forall>m p. path_of s m p \<longrightarrow> path_of t m p"
    using path_of_mono [OF inv inv' map_le_refl] by blast
  moreover have "rc_evictable_size t + rc_protected_size t = rc_evictable_size s + rc_protected_size s"
    using re by (simp add: relocked_def)
  ultimately show ?thesis
    using relocked_cached [OF re inv inv'] d by simp
qed

lemma lock_law:
  assumes "healthy s D" "path_of s n q"
  shows "\<exists>d t. inc_lock_ref n s = Return d t \<and> healthy t (D(n := D n + 1)) \<and> cached t = cached s \<and>
    (\<forall>m p. path_of s m p \<longrightarrow> path_of t m p) \<and>
    rc_evictable_size t = rc_evictable_size s + d \<and> rc_protected_size t = rc_protected_size s - d"
proof -
  obtain P where inv: "cache_inv s P D" "\<not> rc_disable s" by (rule healthyE [OF assms(1)])
  have "P n \<noteq> None" using path_of_sound [OF assms(2) inv(1)] by blast
  then obtain t where t: "inc_lock_ref n s = Return (rc_evictable_size t - rc_evictable_size s) t"
    "cache_inv t P (D(n := D n + 1))" "relocked s t"
    using inc_lock_ref_spec [OF inv(1) _ inv(2)] by blast
  then show ?thesis using relock_law [OF inv(1) t(2,3) inv(2) refl] by blast
qed

lemma unlock_law:
  assumes "healthy s D" "0 < D n"
  shows "\<exists>d t. dec_lock_ref n s = Return d t \<and> healthy t (D(n := D n - 1)) \<and> cached t = cached s \<and>
    (\<forall>m p. path_of s m p \<longrightarrow> path_of t m p) \<and>
    rc_evictable_size t = rc_evictable_size s + d \<and> rc_protected_size t = rc_protected_size s - d"
proof -
  obtain P where inv: "cache_inv s P D" "\<not> rc_disable s" by (rule healthyE [OF assms(1)])
  obtain t where t: "dec_lock_ref n s = Return (rc_evictable_size t - rc_evictable_size s) t"
    "cache_inv t P (D(n := D n - 1))" "relocked s t"
    using dec_lock_ref_spec [OF inv(1) assms(2) inv(2)] by blast
  then show ?thesis using relock_law [OF inv(1) t(2,3) inv(2) refl] by blast
qed

lemma evict_law:
  assumes "healthy s D"
  shows "\<exists>e t. evict ep s = Return \<lparr>er_num_tokens_evicted = e\<rparr> t \<and> healthy t D \<and>
    (\<forall>ks ws. cached t ks = Some ws \<longrightarrow> cached s ks = Some ws) \<and>
    (\<forall>n q. 0 < D n \<longrightarrow> path_of s n q \<longrightarrow> path_of t n q \<and> cached t q = cached s q) \<and>
    (ep_num_tokens ep \<le> e \<or> rc_evictable_size t = 0) \<and>
    rc_evictable_size t = rc_evictable_size s - e \<and> rc_protected_size t = rc_protected_size s"
proof -
  obtain P where inv: "cache_inv s P D" "\<not> rc_disable s" by (rule healthyE [OF assms])
  obtain xs t where e: "evict ep s = Return
      \<lparr>er_num_tokens_evicted = int (length (concat (map (node_slots s) xs)))\<rparr> t"
    "evict_ok s P D (ep_num_tokens ep) xs t"
    using evict_spec [OF inv] by blast
  note e' = e(2) [unfolded evict_ok_def pruned_def]
  have h: "healthy t D" by (rule healthy_evict [OF assms e(1)])
  have keep: "path_of t n q \<and> cached t q = cached s q" if n: "0 < D n" "path_of s n q" for n q
  proof -
    obtain vs where vs: "P n = Some (q, vs)" using path_of_sound [OF n(2) inv(1)] by blast
    have lock: "n = rc_root s \<or> 0 < tn_lock_ref (w_heap s n)"
    proof (cases "n = rc_root s")
      case False
      have "P n \<noteq> None" using vs by simp
      from lock_outstanding [OF cache_invD(1,3) [OF inv(1)] this False] n(1) show ?thesis by simp
    qed simp
    note k = evict_ok_locked [OF e(2) vs lock]
    have "cache_inv t (P |` (- set xs)) D" using e(2) by (simp add: evict_ok_def)
    from path_of_complete [OF this k(1)] have "path_of t n q" .
    with k(2) cached_path [OF inv(1) vs] show ?thesis by simp
  qed
  have goal: "ep_num_tokens ep \<le> int (length (concat (map (node_slots s) xs))) \<or> rc_evictable_size t = 0"
    using e' no_leaves_no_tokens by blast
  have mono: "\<forall>ks ws. cached t ks = Some ws \<longrightarrow> cached s ks = Some ws"
    using evict_ok_mono [OF e(2) inv(1)] by blast
  show ?thesis
    by (intro exI conjI; (rule e(1) h mono goal)?) (use keep e' in blast)+
qed

interpretation radix: prefix_cache healthy cached path_of match_prefix radix_insert
  inc_lock_ref dec_lock_ref evict rc_evictable_size rc_protected_size
  by unfold_locales
     (rule healthy_cached_length healthy_cached_closed match_law insert_law lock_law unlock_law
       evict_law; assumption)+

end
