(* ===== verification/Radix_Sizes.thy ===== *)
theory Radix_Sizes
  imports Radix_Contract
begin

text \<open>
  The two walks over the whole tree, \<open>_total_size_helper\<close> and \<open>_print_helper\<close>: each visits
  every live node exactly once and stops, and the total is the sum of the two counters.
\<close>

section \<open>The worklist\<close>

text \<open>\<open>V\<close> are the nodes visited so far. A node is on the stack once its parent is visited.\<close>

definition worklist :: "node_store \<Rightarrow> node_id \<Rightarrow> paths \<Rightarrow> node_id set \<Rightarrow> node_id list \<Rightarrow> bool" where
  "worklist h r P V stack \<longleftrightarrow>
     distinct stack \<and> set stack \<inter> V = {} \<and> V \<union> set stack \<subseteq> dom P \<and> r \<in> V \<union> set stack \<and>
     (\<forall>m. P m \<noteq> None \<longrightarrow> m \<noteq> r \<longrightarrow>
        (m \<in> V \<union> set stack \<longleftrightarrow> (\<exists>p \<in> V. tn_parent (h m) = Some p)))"

lemma worklist_start: "tree_ok h r P \<Longrightarrow> worklist h r P {} [r]"
  using tree_ok_rootD(1) by (fastforce simp: worklist_def)

lemma kids_iff:
  assumes "tree_ok h r P" "P n \<noteq> None"
  shows "m \<in> set (map snd (tn_children (h n))) \<longleftrightarrow> P m \<noteq> None \<and> m \<noteq> r \<and> tn_parent (h m) = Some n"
proof
  assume "m \<in> set (map snd (tn_children (h n)))"
  then obtain t where "(t, m) \<in> set (tn_children (h n))" by auto
  from tree_ok_edge [OF assms this] show "P m \<noteq> None \<and> m \<noteq> r \<and> tn_parent (h m) = Some n"
    by (simp add: edge_ok_def)
next
  assume "P m \<noteq> None \<and> m \<noteq> r \<and> tn_parent (h m) = Some n"
  with child_in_parent(1) [OF assms(1), of m n] show "m \<in> set (map snd (tn_children (h n)))"
    by force
qed

lemma worklist_step:
  assumes ok: "tree_ok h r P" and wl: "worklist h r P V (stack @ [n])"
  shows "worklist h r P (Set.insert n V) (stack @ map snd (tn_children (h n)))" "n \<notin> V" "P n \<noteq> None"
proof -
  note w = wl [unfolded worklist_def]
  show n: "n \<notin> V" "P n \<noteq> None" using w by auto
  let ?K = "map snd (tn_children (h n))"
  note kids = kids_iff [OF ok n(2)]
  have new: "m \<notin> V" "m \<notin> set stack" "m \<noteq> n" if "m \<in> set ?K" for m
  proof -
    have m: "P m \<noteq> None" "m \<noteq> r" "tn_parent (h m) = Some n" using that kids by auto
    then have "m \<notin> V \<union> set (stack @ [n])" using w n(1) by auto
    then show "m \<notin> V" "m \<notin> set stack" "m \<noteq> n" by auto
  qed
  show "worklist h r P (Set.insert n V) (stack @ ?K)"
    unfolding worklist_def
  proof (intro conjI allI impI)
    show "distinct (stack @ ?K)"
      using w new distinct_kids [OF ok n(2)] by auto
    show "set (stack @ ?K) \<inter> Set.insert n V = {}"
      using w new by auto
    show "Set.insert n V \<union> set (stack @ ?K) \<subseteq> dom P"
    proof -
      have "set ?K \<subseteq> dom P" using kids by (metis domIff subsetI)
      then show ?thesis using w n(2) by auto
    qed
    show "r \<in> Set.insert n V \<union> set (stack @ ?K)"
      using w by auto
    fix m
    assume m: "P m \<noteq> None" "m \<noteq> r"
    have "m \<in> V \<union> set (stack @ [n]) \<longleftrightarrow> (\<exists>p \<in> V. tn_parent (h m) = Some p)"
      using w m by blast
    with kids [of m] m show "m \<in> Set.insert n V \<union> set (stack @ ?K) \<longleftrightarrow>
        (\<exists>p \<in> Set.insert n V. tn_parent (h m) = Some p)"
      by auto
  qed
qed

lemma worklist_done:
  assumes ok: "tree_ok h r P" and wl: "worklist h r P V []"
  shows "V = dom P"
proof
  note w = wl [unfolded worklist_def]
  show "V \<subseteq> dom P" using w by simp
  have "n \<in> V" if "P n = Some (q, vs)" for n q vs
    using ok that
  proof (induction rule: path_induct)
    case root
    show ?case using w by simp
  next
    case (child n p q vs v)
    then show ?case using w by auto
  qed
  then show "dom P \<subseteq> V" by auto
qed

section \<open>total_size\<close>

lemma total_size_loop_sum:
  assumes ok: "tree_ok (w_heap s) r P" and fin: "finite (dom P)"
  shows "worklist (w_heap s) r P V stack \<Longrightarrow>
    total_size_loop stack acc s =
      Some (acc + (\<Sum>n \<in> dom P - V. int (length (node_slots s n))))"
proof (induction "card (dom P - V)" arbitrary: V stack acc rule: less_induct)
  case less
  show ?case
  proof (cases stack rule: rev_cases)
    case Nil
    with worklist_done [OF ok] less.prems have "V = dom P" by simp
    then show ?thesis using Nil by (subst total_size_loop.simps) simp
  next
    case (snoc rest n)
    note st = worklist_step [OF ok less.prems [unfolded snoc]]
    let ?K = "map snd (tn_children (w_heap s n))"
    have "filter (\<lambda>(t, c). \<not> evicted (w_heap s c)) (tn_children (w_heap s n)) = tn_children (w_heap s n)"
    proof (rule filter_True, clarify)
      fix t c
      assume "(t, c) \<in> set (tn_children (w_heap s n))" "evicted (w_heap s c)"
      then show False
        using tree_ok_edge [OF ok st(3)] tree_ok_value [OF ok, of c]
        by (simp add: edge_ok_def evicted_def)
    qed
    moreover have "(case tn_value (w_heap s n) of None \<Rightarrow> 0 | Some v \<Rightarrow> int (length v)) =
        int (length (node_slots s n))"
      by (simp add: node_slots_def split: option.split)
    ultimately have step: "total_size_loop stack acc s =
        total_size_loop (rest @ ?K) (acc + int (length (node_slots s n))) s"
      by (subst total_size_loop.simps) (simp add: snoc Let_def)
    have n: "n \<in> dom P - V" using st(2,3) by auto
    have less': "card (dom P - Set.insert n V) < card (dom P - V)"
      using n fin by (intro psubset_card_mono) auto
    have "(\<Sum>n \<in> dom P - V. int (length (node_slots s n))) =
        int (length (node_slots s n)) + (\<Sum>n \<in> dom P - Set.insert n V. int (length (node_slots s n)))"
      using sum.remove [OF _ n, of "\<lambda>n. int (length (node_slots s n))"] fin
      by (metis Diff_insert finite_Diff)
    then show ?thesis
      using step less.hyps [OF less' st(1), of "acc + int (length (node_slots s n))"] by simp
  qed
qed

lemma node_slots_length:
  assumes "tree_ok (w_heap s) r P" "P n \<noteq> None"
  shows "length (node_slots s n) = length (tn_key (w_heap s n))"
proof (cases "n = r")
  case True
  then show ?thesis using tree_ok_rootD(2,3) [OF assms(1)] by (simp add: node_slots_def)
next
  case False
  obtain q vs where "P n = Some (q, vs)" using assms(2) by fastforce
  from tree_ok_upE [OF assms(1) this False] show ?thesis
    unfolding node_slots_def by (metis option.simps(5))
qed

lemma total_size_spec:
  assumes inv: "cache_inv s P D"
  shows "total_size s = Return (rc_evictable_size s + rc_protected_size s) s"
proof -
  note i = cache_invD [OF inv]
  let ?r = "rc_root s" and ?h = "w_heap s"
  have fin: "finite (dom P)" by (rule fresh_ok_finite [OF i(2)])
  have root: "?r \<in> dom P" "length (tn_key (?h ?r)) = 0"
    using tree_ok_rootD(1,2) [OF i(1)] by auto
  have "(\<Sum>n \<in> dom P. int (length (node_slots s n))) = (\<Sum>n \<in> dom P. int (length (tn_key (?h n))))"
    using node_slots_length [OF i(1)] by (intro sum.cong) auto
  also have "\<dots> = (\<Sum>n \<in> dom P - {?r}. int (length (tn_key (?h n))))"
    using sum.remove [OF fin root(1), of "\<lambda>n. int (length (tn_key (?h n)))"] root(2) by simp
  also have "\<dots> = unlocked_tokens ?h ?r P + locked_tokens ?h ?r P"
    unfolding unlocked_tokens_def locked_tokens_def
    by (subst sum.distrib [symmetric]) (rule sum.cong, auto)
  also have "\<dots> = rc_evictable_size s + rc_protected_size s"
    using i(4) by (simp add: acct_ok_def)
  finally show ?thesis
    using total_size_loop_sum [OF i(1) fin worklist_start [OF i(1)], of 0]
    by (simp add: total_size_def)
qed

section \<open>pretty_print\<close>

definition node_line :: "radix_cache \<Rightarrow> node_id \<Rightarrow> nat \<times> token list \<times> int" where
  "node_line s n = (length (tn_key (w_heap s n)), take 10 (tn_key (w_heap s n)), tn_lock_ref (w_heap s n))"

lemma print_loop_lines:
  assumes ok: "tree_ok (w_heap s) r P" and fin: "finite (dom P)"
  shows "worklist (w_heap s) r P V (map fst stack) \<Longrightarrow>
    \<exists>ns lines. print_loop stack out s = Some (out @ lines) \<and> distinct ns \<and> set ns = dom P - V \<and>
      map snd lines = map (node_line s) ns"
proof (induction "card (dom P - V)" arbitrary: V stack out rule: less_induct)
  case less
  show ?case
  proof (cases stack rule: rev_cases)
    case Nil
    with worklist_done [OF ok] less.prems have "V = dom P" by simp
    then show ?thesis using Nil by (subst print_loop.simps) simp
  next
    case (snoc rest e)
    obtain n i where e: "e = (n, i)" by fastforce
    let ?kids = "map (\<lambda>(t, c). (c, i + 2)) (tn_children (w_heap s n))"
    let ?line = "(i, node_line s n)"
    have kids: "map fst ?kids = map snd (tn_children (w_heap s n))" by (simp add: case_prod_beta)
    have wl: "worklist (w_heap s) r P V (map fst rest @ [n])"
      using less.prems snoc e by simp
    note st = worklist_step [OF ok wl]
    have n: "n \<in> dom P - V" using st(2,3) by auto
    have less': "card (dom P - Set.insert n V) < card (dom P - V)"
      using n fin by (intro psubset_card_mono) auto
    have wl': "worklist (w_heap s) r P (Set.insert n V) (map fst (rest @ ?kids))"
      using st(1) unfolding map_append kids .
    obtain ns lines where ih: "print_loop (rest @ ?kids) (out @ [?line]) s = Some ((out @ [?line]) @ lines)"
      "distinct ns" "set ns = dom P - Set.insert n V" "map snd lines = map (node_line s) ns"
      using less.hyps [OF less' wl'] by blast
    have "print_loop stack out s = Some (out @ (?line # lines))"
      using ih(1) by (subst print_loop.simps) (simp add: snoc e Let_def node_line_def)
    moreover have "distinct (n # ns)" "set (n # ns) = dom P - V" using ih(2,3) n by auto
    moreover have "map snd (?line # lines) = map (node_line s) (n # ns)" using ih(4) by simp
    ultimately show ?thesis by blast
  qed
qed

lemma pretty_print_spec:
  assumes inv: "cache_inv s P D"
  shows "\<exists>ns lines. pretty_print s = Some (lines, rc_evictable_size s + rc_protected_size s) \<and>
    distinct ns \<and> set ns = dom P \<and> map snd lines = map (node_line s) ns"
proof -
  note i = cache_invD [OF inv]
  have "worklist (w_heap s) (rc_root s) P {} (map fst [(rc_root s, 0)])"
    using worklist_start [OF i(1)] by simp
  from print_loop_lines [OF i(1) fresh_ok_finite [OF i(2)] this, of "[]"]
  show ?thesis
    using total_size_spec [OF inv] by (fastforce simp: pretty_print_def)
qed

end
