(* ===== verification/Radix_Demo.thy ===== *)
theory Radix_Demo
  imports Radix_Sizes
begin

text \<open>
  Concrete caches for the witnesses of the properties: an empty cache, the cache after the key
  \<open>[1,2,3,4]\<close> was inserted with the slots \<open>[10,11,12,13]\<close>, after \<open>[1,2,9]\<close> was looked up
  in it (which splits the node), and after the node that lookup returned was locked.
\<close>

definition demo_node :: tree_node where
  "demo_node = \<lparr>tn_children = [], tn_parent = None, tn_key = [], tn_value = None, tn_lock_ref = 0,
     tn_last_access = 0, tn_creation = 0, tn_hit_count = 0, tn_priority = 0\<rparr>"

definition demo_world :: py_world where
  "demo_world = \<lparr>w_heap = (\<lambda>_. demo_node), w_counter = 0, w_clock = int, w_reads = 0,
     w_set_order = sorted_list_of_set\<rparr>"

definition demo_cache :: "eviction_strategy \<Rightarrow> radix_cache" where
  "demo_cache st = reset (py_world.extend demo_world (radix_cache.fields False 1 st 0 0 0 {} None))"

fun state_after :: "('a, 's) outcome \<Rightarrow> 's \<Rightarrow> 's" where
  "state_after (Return x t) s = t"
| "state_after _ s = s"

definition demo_insert :: insert_params where
  "demo_insert = InsertParams [1, 2, 3, 4] (Some [10, 11, 12, 13])"

definition demo0 :: radix_cache where "demo0 = demo_cache LRUStrategy"

definition demo1 :: radix_cache where
  "demo1 = state_after (radix_insert demo_insert demo0) demo0"

definition demo2 :: radix_cache where
  "demo2 = state_after (match_prefix [1, 2, 9] demo1) demo1"

definition demo_leaf :: node_id where "demo_leaf = 2"

definition demo3 :: radix_cache where
  "demo3 = state_after (inc_lock_ref demo_leaf demo2) demo2"

lemma set_order_demo: "set_order_ok demo_world"
  by (simp add: set_order_ok_def demo_world_def)

lemma demo0_init: "radix_init None demo_world = Inr demo0"
  by (simp add: radix_init_def CacheInitParams_default_def strategy_of_policy_def py_lower_def
      py_lower_char_def demo0_def demo_cache_def)

lemma demo0_reachable: "reachable demo0 (\<lambda>_. 0)"
  by (rule reachable.init [OF demo0_init set_order_demo])
     (simp add: demo0_def demo_cache_def reset_fields demo_world_def py_world.defs radix_cache.defs)

lemma demo_insert_len: "length (param_value demo_insert) = length (ip_key demo_insert)"
  by (simp add: demo_insert_def InsertParams_def param_value_def)

text \<open>Rules that evaluate the operations on these states by simplification.\<close>

lemmas demo_eval = InsertParams_def param_value_def demo_cache_def reset_def new_node_def
  monotonic_def upd_node_def demo_world_def demo_node_def py_world.defs radix_cache.defs Let_def

lemmas insert_eval = radix_insert_def insert_helper_def insert_loop.simps add_leaf_def
  update_leaf_status_def evicted_def demo_eval

lemmas match_eval = match_prefix_def match_prefix_helper_def match_loop.simps split_node_def demo_eval

lemma demo1_eval:
  "(case radix_insert demo_insert demo0 of Return i d \<Rightarrow> i = \<lparr>ir_prefix_len = 0\<rparr> \<and>
     rc_root d = 0 \<and> w_counter d = 2 \<and> rc_disable d = False \<and>
     tn_children (w_heap d 0) = [(1, 1)] \<and> tn_key (w_heap d 1) = [1, 2, 3, 4] \<and>
     tn_value (w_heap d 1) = Some [10, 11, 12, 13] \<and> tn_parent (w_heap d 1) = Some 0 \<and>
     tn_children (w_heap d 1) = [] \<and> tn_lock_ref (w_heap d 1) = 0 \<and>
     rc_evictable_leaves d = {1} \<and> rc_evictable_size d = 4 \<and> rc_protected_size d = 0 \<and>
     rc_strategy d = LRUStrategy \<and> rc_allocator d = None | _ \<Rightarrow> False)"
  by (simp add: demo0_def demo_insert_def insert_eval)

lemma demo1_step: "radix_insert demo_insert demo0 = Return \<lparr>ir_prefix_len = 0\<rparr> demo1"
  using demo1_eval by (simp add: demo1_def split: outcome.splits)

lemma demo1_reachable: "reachable demo1 (\<lambda>_. 0)"
  by (rule reachable.insert [OF demo0_reachable demo_insert_len demo1_step])

lemma demo1_eq:
  "rc_root demo1 = 0" "w_counter demo1 = 2" "rc_disable demo1 = False"
  "tn_children (w_heap demo1 0) = [(1, 1)]" "tn_key (w_heap demo1 1) = [1, 2, 3, 4]"
  "tn_value (w_heap demo1 1) = Some [10, 11, 12, 13]" "tn_parent (w_heap demo1 1) = Some 0"
  "tn_children (w_heap demo1 1) = []" "tn_lock_ref (w_heap demo1 1) = 0"
  "rc_evictable_leaves demo1 = {1}" "rc_evictable_size demo1 = 4" "rc_protected_size demo1 = 0"
  "rc_strategy demo1 = LRUStrategy" "rc_allocator demo1 = None"
  using demo1_eval unfolding demo1_step by simp_all

lemmas demo1_facts = demo1_eq [unfolded One_nat_def]

lemma demo2_eval:
  "(case match_prefix [1, 2, 9] demo1 of Return r d \<Rightarrow>
     r = \<lparr>mr_device_indices = [10, 11], mr_last_node = 2\<rparr> \<and>
     rc_root d = 0 \<and> rc_disable d = False \<and> tn_children (w_heap d 0) = [(1, 2)] \<and>
     tn_key (w_heap d 2) = [1, 2] \<and> tn_key (w_heap d 1) = [3, 4] \<and>
     tn_value (w_heap d 2) = Some [10, 11] \<and> tn_value (w_heap d 1) = Some [12, 13] \<and>
     tn_parent (w_heap d 2) = Some 0 \<and> tn_parent (w_heap d 1) = Some 2 \<and>
     tn_children (w_heap d 2) = [(3, 1)] \<and> tn_lock_ref (w_heap d 2) = 0 | _ \<Rightarrow> False)"
  by (simp add: match_eval demo1_facts)

lemma demo2_step:
  "match_prefix [1, 2, 9] demo1 = Return \<lparr>mr_device_indices = [10, 11], mr_last_node = 2\<rparr> demo2"
  using demo2_eval by (simp add: demo2_def split: outcome.splits)

lemma demo2_reachable: "reachable demo2 (\<lambda>_. 0)"
  by (rule reachable.match [OF demo1_reachable demo2_step])

lemma demo2_eq:
  "rc_root demo2 = 0" "rc_disable demo2 = False" "tn_children (w_heap demo2 0) = [(1, 2)]"
  "tn_key (w_heap demo2 2) = [1, 2]" "tn_key (w_heap demo2 1) = [3, 4]"
  "tn_value (w_heap demo2 2) = Some [10, 11]" "tn_value (w_heap demo2 1) = Some [12, 13]"
  "tn_parent (w_heap demo2 2) = Some 0" "tn_parent (w_heap demo2 1) = Some 2"
  "tn_children (w_heap demo2 2) = [(3, 1)]" "tn_lock_ref (w_heap demo2 2) = 0"
  using demo2_eval unfolding demo2_step by simp_all

lemmas demo2_facts = demo2_eq [unfolded One_nat_def]

lemma demo2_path: "path_of demo2 demo_leaf [1, 2]"
proof -
  have "path_of demo2 (rc_root demo2) []" by (rule path_of.root)
  moreover have "(1, demo_leaf) \<in> set (tn_children (w_heap demo2 (rc_root demo2)))"
    by (simp add: demo2_eq demo_leaf_def)
  ultimately have "path_of demo2 demo_leaf ([] @ tn_key (w_heap demo2 demo_leaf))"
    by (rule path_of.child)
  then show ?thesis by (simp add: demo2_eq demo_leaf_def)
qed

lemma demo3_step: "inc_lock_ref demo_leaf demo2 = Return (- 2) demo3"
  by (simp add: demo3_def inc_lock_ref_def inc_loop.simps update_leaf_status_def Let_def
      upd_node_def demo_leaf_def demo2_facts evicted_def)

lemma demo3_lock: "tn_lock_ref (w_heap demo3 demo_leaf) = 1"
  by (simp add: demo3_def inc_lock_ref_def inc_loop.simps update_leaf_status_def Let_def
      upd_node_def demo_leaf_def demo2_facts evicted_def)

lemma demo3_reachable: "reachable demo3 ((\<lambda>_. 0)(demo_leaf := 1))"
  using reachable.lock [OF demo2_reachable demo2_path demo3_step] by simp

end
