(* ===== verification/Radix_Steps.thy ===== *)
theory Radix_Steps
  imports Radix_Demo
begin

text \<open>
  The calls clients make between two resets, as a step relation on the cache and the outstanding
  locks, and what stays true of a locked prefix along any sequence of them.
\<close>

inductive client_step :: "radix_cache \<times> locks \<Rightarrow> radix_cache \<times> locks \<Rightarrow> bool" where
  step_match: "match_prefix key s = Return r t \<Longrightarrow> client_step (s, D) (t, D)"
| step_insert: "length (param_value p) = length (ip_key p) \<Longrightarrow> radix_insert p s = Return i t \<Longrightarrow>
    client_step (s, D) (t, D)"
| step_lock: "path_of s n q \<Longrightarrow> inc_lock_ref n s = Return d t \<Longrightarrow>
    client_step (s, D) (t, D(n := D n + 1))"
| step_unlock: "0 < D n \<Longrightarrow> dec_lock_ref n s = Return d t \<Longrightarrow>
    client_step (s, D) (t, D(n := D n - 1))"
| step_evict: "evict p s = Return e t \<Longrightarrow> client_step (s, D) (t, D)"

inductive_cases client_stepE: "client_step (s, D) (t, E)"

lemma client_step_reachable:
  assumes "client_step (s, D) (t, E)" and s: "reachable s D"
  shows "reachable t E"
  using assms(1)
proof (rule client_stepE)
  fix n q d
  assume "E = D(n := Suc (D n))" "path_of s n q" "inc_lock_ref n s = Return d t"
  then show ?thesis using reachable.lock [OF s] by simp
next
  fix n d
  assume "E = D(n := D n - Suc 0)" "0 < D n" "dec_lock_ref n s = Return d t"
  then show ?thesis using reachable.unlock [OF s] by simp
qed (blast intro: reachable.match [OF s] reachable.insert [OF s] reachable.evict [OF s])+

text \<open>A prefix a node stands for, with the slots cached for it.\<close>

definition pinned_at :: "radix_cache \<Rightarrow> node_id \<Rightarrow> token list \<Rightarrow> slot list \<Rightarrow> bool" where
  "pinned_at s n q ws \<longleftrightarrow> path_of s n q \<and> cached s q = Some ws"

lemma pinned_step:
  assumes "client_step (s, D) (t, E)" and ok: "healthy s D" and D: "0 < D n"
    and pin: "pinned_at s n q ws"
  shows "pinned_at t n q ws"
  using assms(1)
proof (rule client_stepE)
  note pin' = pin [unfolded pinned_at_def]
  fix key r
  assume "match_prefix key s = Return r t"
  then show ?thesis
    using match_law [OF ok, of key] pin' unfolding pinned_at_def by auto
next
  note pin' = pin [unfolded pinned_at_def]
  fix p i
  assume "length (param_value p) = length (ip_key p)" "radix_insert p s = Return i t"
  then show ?thesis
    using insert_law [OF ok, of p] pin' unfolding pinned_at_def by auto
next
  note pin' = pin [unfolded pinned_at_def]
  fix m q' d
  assume "path_of s m q'" "inc_lock_ref m s = Return d t"
  then show ?thesis
    using lock_law [OF ok, of m q'] pin' unfolding pinned_at_def by auto
next
  note pin' = pin [unfolded pinned_at_def]
  fix m d
  assume "0 < D m" "dec_lock_ref m s = Return d t"
  then show ?thesis
    using unlock_law [OF ok, of m] pin' unfolding pinned_at_def by auto
next
  note pin' = pin [unfolded pinned_at_def]
  fix p e
  assume "evict p s = Return e t"
  moreover obtain e' t' where "evict p s = Return \<lparr>er_num_tokens_evicted = e'\<rparr> t'"
    "\<forall>n q. 0 < D n \<longrightarrow> path_of s n q \<longrightarrow> path_of t' n q \<and> cached t' q = cached s q"
    using evict_law [OF ok, of p] by blast
  ultimately show ?thesis
    using D pin' unfolding pinned_at_def by simp
qed

text \<open>A run in which the locks on \<open>n\<close> never drop to zero.\<close>

inductive holding_run :: "node_id \<Rightarrow> radix_cache \<times> locks \<Rightarrow> radix_cache \<times> locks \<Rightarrow> bool" for n where
  hold_stop: "holding_run n c c"
| hold_step: "0 < D n \<Longrightarrow> client_step (s, D) c \<Longrightarrow> holding_run n c c' \<Longrightarrow> holding_run n (s, D) c'"

lemma pinned_run:
  assumes "holding_run n c c'" "reachable (fst c) (snd c)" "pinned_at (fst c) n q ws"
  shows "pinned_at (fst c') n q ws \<and> reachable (fst c') (snd c')"
  using assms
proof (induction rule: holding_run.induct)
  case (hold_step D s c c')
  obtain t E where c: "c = (t, E)" by fastforce
  have "pinned_at t n q ws"
    using pinned_step [of s D t E n q ws] hold_step.hyps(1,2) hold_step.prems reachable_healthy
    by (simp add: c)
  moreover have "reachable t E"
    using client_step_reachable hold_step.hyps(2) hold_step.prems by (simp add: c)
  ultimately show ?case using hold_step.IH by (simp add: c)
qed simp

end
