(* ===== verification/Radix_Policy.thy ===== *)
theory Radix_Policy
  imports Radix_Steps
begin

text \<open>
  No operation of the cache writes a node's \<open>hit_count\<close>, so that it is zero in every node the cache
  has made, and an \<open>LFUStrategy\<close> evicts what an \<open>LRUStrategy\<close> evicts.
\<close>

section \<open>The hit counts\<close>

text \<open>The nodes made from the identity \<open>c\<close> on have the count zero, and refer to each other only.\<close>

definition made :: "node_id \<Rightarrow> 'a py_world_scheme \<Rightarrow> node_id set" where
  "made c s = {c..<w_counter s}"

definition closed_in :: "node_id set \<Rightarrow> tree_node \<Rightarrow> bool" where
  "closed_in M nd \<longleftrightarrow> tn_hit_count nd = 0 \<and> snd ` set (tn_children nd) \<subseteq> M \<and> set_option (tn_parent nd) \<subseteq> M"

definition hits_zero :: "node_id \<Rightarrow> radix_cache \<Rightarrow> bool" where
  "hits_zero c s \<longleftrightarrow> rc_root s \<in> made c s \<and> (\<forall>n \<in> made c s. closed_in (made c s) (w_heap s n))"

definition keeps_zero :: "node_id \<Rightarrow> ('r, radix_cache) outcome \<Rightarrow> bool" where
  "keeps_zero c r \<longleftrightarrow> (\<forall>x t. r = Return x t \<longrightarrow> hits_zero c t)"

lemma made_simps [simp]:
  "made c (upd_node n f s) = made c s" "made c (s\<lparr>rc_evictable_leaves := l\<rparr>) = made c s"
  "made c (s\<lparr>rc_evictable_size := e\<rparr>) = made c s" "made c (s\<lparr>rc_protected_size := e\<rparr>) = made c s"
  "made c (s\<lparr>rc_allocator := a\<rparr>) = made c s" "made c (s\<lparr>rc_strategy := st\<rparr>) = made c s"
  "made c (s\<lparr>w_reads := k\<rparr>) = made c s"
  by (simp_all add: made_def)

lemma made_new: "c \<le> w_counter s \<Longrightarrow> made c (snd (new_node p s)) = insert (w_counter s) (made c s)"
  by (auto simp: made_def)

lemma hits_root: "hits_zero c s \<Longrightarrow> rc_root s \<in> made c s"
  by (simp add: hits_zero_def)

lemma hits_closed: "hits_zero c s \<Longrightarrow> n \<in> made c s \<Longrightarrow> closed_in (made c s) (w_heap s n)"
  by (simp add: hits_zero_def)

lemma hits_child:
  "hits_zero c s \<Longrightarrow> n \<in> made c s \<Longrightarrow> map_of (tn_children (w_heap s n)) k = Some x \<Longrightarrow> x \<in> made c s"
  using hits_closed [of c s n] map_of_SomeD [of "tn_children (w_heap s n)" k x]
  by (force simp: closed_in_def)

lemma hits_parent:
  "hits_zero c s \<Longrightarrow> n \<in> made c s \<Longrightarrow> tn_parent (w_heap s n) = Some p \<Longrightarrow> p \<in> made c s"
  using hits_closed [of c s n] by (simp add: closed_in_def)

lemma hits_upd:
  assumes "hits_zero c s" "n \<in> made c s \<Longrightarrow> closed_in (made c s) (f (w_heap s n))"
  shows "hits_zero c (upd_node n f s)"
  using assms by (auto simp: hits_zero_def upd_node_def made_def)

lemma hits_fields [simp]:
  "hits_zero c (s\<lparr>rc_evictable_leaves := l\<rparr>) = hits_zero c s"
  "hits_zero c (s\<lparr>rc_evictable_size := e\<rparr>) = hits_zero c s"
  "hits_zero c (s\<lparr>rc_protected_size := e\<rparr>) = hits_zero c s"
  "hits_zero c (s\<lparr>rc_allocator := a\<rparr>) = hits_zero c s"
  "hits_zero c (s\<lparr>rc_strategy := st\<rparr>) = hits_zero c s"
  "hits_zero c (s\<lparr>w_reads := k\<rparr>) = hits_zero c s"
  by (simp_all add: hits_zero_def)

lemma new_node_root: "rc_root (snd (new_node p s)) = rc_root s"
  by (simp add: new_node_def monotonic_def Let_def)

lemma hits_new:
  assumes "hits_zero c s"
  shows "hits_zero c (snd (new_node p s))" "made c s \<subseteq> made c (snd (new_node p s))"
    "w_counter s \<in> made c (snd (new_node p s))"
proof -
  have c: "c \<le> w_counter s" using hits_root [OF assms] by (simp add: made_def)
  note m = made_new [OF c, of p]
  show "made c s \<subseteq> made c (snd (new_node p s))" "w_counter s \<in> made c (snd (new_node p s))"
    unfolding m by auto
  have "closed_in (insert (w_counter s) (made c s)) (w_heap (snd (new_node p s)) n)"
    if "n \<in> insert (w_counter s) (made c s)" for n
  proof (cases "n = w_counter s")
    case True
    then show ?thesis by (simp add: new_node_heap closed_in_def)
  next
    case False
    then show ?thesis using hits_closed [OF assms, of n] that by (auto simp: closed_in_def)
  qed
  then show "hits_zero c (snd (new_node p s))"
    using hits_root [OF assms] by (simp add: hits_zero_def m new_node_root)
qed

lemma hits_leaf_status [simp]:
  "hits_zero c (update_leaf_status n s) = hits_zero c s" "made c (update_leaf_status n s) = made c s"
  by (simp_all add: update_leaf_status_def Let_def)

text \<open>Fields that play no part here may change.\<close>

lemma hits_upd_other:
  assumes "hits_zero c s" "\<And>nd. tn_hit_count (f nd) = tn_hit_count nd"
    "\<And>nd. tn_children (f nd) = tn_children nd" "\<And>nd. tn_parent (f nd) = tn_parent nd"
  shows "hits_zero c (upd_node n f s)"
  using assms(1) by (rule hits_upd) (use hits_closed [OF assms(1)] in \<open>simp add: closed_in_def assms(2-4)\<close>)

lemma closed_edge:
  assumes "closed_in M nd"
  shows "x \<in> M \<Longrightarrow> closed_in M (nd\<lparr>tn_children := AList.update k x (tn_children nd)\<rparr>)"
    "closed_in M (nd\<lparr>tn_children := AList.delete k (tn_children nd)\<rparr>)"
proof -
  have "snd ` set (AList.update k x al) \<subseteq> Set.insert x (snd ` set al)" for al :: "(token \<times> node_id) list"
    by (induction al) auto
  then show "x \<in> M \<Longrightarrow> closed_in M (nd\<lparr>tn_children := AList.update k x (tn_children nd)\<rparr>)"
    using assms by (fastforce simp: closed_in_def)
  show "closed_in M (nd\<lparr>tn_children := AList.delete k (tn_children nd)\<rparr>)"
    using assms by (auto simp: closed_in_def set_alist_delete)
qed

section \<open>The operations\<close>

lemma hits_reset:
  assumes "c \<le> w_counter s" "\<And>n. n \<in> made c s \<Longrightarrow> closed_in (made c s) (w_heap s n)"
  shows "hits_zero c (reset s)"
proof -
  have m: "made c (reset s) = insert (w_counter s) (made c s)"
    using assms(1) by (auto simp: made_def reset_fields)
  have "closed_in (insert (w_counter s) (made c s)) (w_heap (reset s) n)"
    if n: "n \<in> insert (w_counter s) (made c s)" for n
  proof (cases "n = w_counter s")
    case True
    then show ?thesis
      by (simp add: closed_in_def reset_def new_node_def monotonic_def upd_node_def Let_def)
  next
    case False
    then have "w_heap (reset s) n = w_heap s n"
      by (simp add: reset_def new_node_def monotonic_def upd_node_def Let_def)
    then show ?thesis using assms(2) [of n] n False by (auto simp: closed_in_def)
  qed
  then show ?thesis by (simp add: hits_zero_def m reset_fields)
qed

lemma hits_split:
  assumes h: "hits_zero c s" and x: "x \<in> made c s" and sp: "split_node k x m s = Return nw t"
  shows "hits_zero c t" "nw \<in> made c t"
proof -
  let ?s = "snd (new_node (tn_priority (w_heap s x)) s)"
  note new = hits_new [OF h, of "tn_priority (w_heap s x)"]
  have xn: "x \<noteq> w_counter s" using x by (simp add: made_def)
  obtain v p k0 k' where f: "tn_value (w_heap s x) = Some v" "tn_parent (w_heap s x) = Some p" "k = k0 # k'"
    "nw = w_counter s"
    "t = upd_node p (\<lambda>nd. nd\<lparr>tn_children := AList.update k0 nw (tn_children nd)\<rparr>)
      (upd_node x (\<lambda>nd. nd\<lparr>tn_parent := Some nw, tn_key := drop m (tn_key (w_heap s x)),
           tn_value := Some (drop m v)\<rparr>)
        (upd_node nw (\<lambda>nd. nd\<lparr>tn_value := Some (take m v)\<rparr>)
          (upd_node nw (\<lambda>nd. nd\<lparr>tn_children := [(tn_key (w_heap s x) ! m, x)],
             tn_parent := tn_parent (w_heap s x), tn_lock_ref := tn_lock_ref (w_heap s x),
             tn_key := take m (tn_key (w_heap s x))\<rparr>) ?s)))"
    using sp xn unfolding split_node_def Let_def
    by (auto simp: case_prod_beta split: if_splits option.splits list.splits)
  have mt: "made c t = made c ?s" by (simp add: f(5))
  show nw: "nw \<in> made c t" unfolding mt f(4) by (rule new(3))
  have px: "p \<in> made c ?s" using hits_parent [OF h x f(2)] new(2) by blast
  have xx: "x \<in> made c ?s" using x new(2) by blast
  show "hits_zero c t"
    unfolding f(5)
    by (intro hits_upd new(1) closed_edge(1))
       (use nw [unfolded mt] px xx f(2) hits_closed [OF new(1)] in \<open>auto simp: closed_in_def\<close>)
qed

lemma hits_match_loop:
  assumes "match_loop a node key k vals s = Some (Return r t)" "hits_zero c s" "node \<in> made c s"
  shows "hits_zero c t"
proof -
  have "node \<in> made c s \<longrightarrow> hits_zero c s \<longrightarrow> keeps_zero c r'"
    if "match_loop a node key k vals s = Some r'" for r'
    using that
  proof (induction rule: match_loop.raw_induct [rotated, consumes 1])
    case (1 loop acc node key k vals s r')
    let ?touch = "\<lambda>x. upd_node x (\<lambda>nd. nd\<lparr>tn_last_access := acc\<rparr>) s"
    have touch: "hits_zero c (?touch x)" if "hits_zero c s" for x
      using that by (rule hits_upd_other) simp_all
    show ?case
    proof (intro impI)
      assume n: "node \<in> made c s" "hits_zero c s"
      show "keeps_zero c r'"
      proof (cases "key = [] \<or> map_of (tn_children (w_heap s node)) k = None")
        case True
        then show ?thesis using 1(2) n(2) by (auto simp: keeps_zero_def split: if_splits)
      next
        case False
        then obtain x where x: "key \<noteq> []" "map_of (tn_children (w_heap s node)) k = Some x" by auto
        have xm: "x \<in> made c (?touch x)" using hits_child [OF n(2,1) x(2)] by simp
        show ?thesis
        proof (cases "key_match (tn_key (w_heap s x)) key < length (tn_key (w_heap s x))")
          case True
          then show ?thesis
            using 1(2) x hits_split [OF touch [OF n(2)] xm] n(2)
            by (auto simp: Let_def keeps_zero_def split: outcome.splits)
        next
          case False
          then show ?thesis
            using 1(2) x 1(1) xm touch [OF n(2)] by (auto simp: Let_def)
        qed
      qed
    qed
  qed
  with assms show ?thesis by (simp add: keeps_zero_def)
qed

lemma hits_match:
  assumes "match_prefix key s = Return r t" "hits_zero c s"
  shows "hits_zero c t"
proof (cases "rc_disable s \<or> length key = 0")
  case True
  then show ?thesis using assms by (simp add: match_prefix_def)
next
  case False
  define u where "u = upd_node (rc_root s) (\<lambda>nd. nd\<lparr>tn_last_access := w_clock s (w_reads s)\<rparr>)
    (s\<lparr>w_reads := Suc (w_reads s)\<rparr>)"
  have u: "hits_zero c u" "rc_root s \<in> made c u"
    using hits_root [OF assms(2)] assms(2) by (auto simp: u_def intro: hits_upd_other)
  obtain rs v where "match_loop (w_clock s (w_reads s)) (rc_root s) key (hd key) [] u = Some (Return rs v)" "v = t"
    using assms(1) False
    by (auto simp: match_prefix_def match_prefix_helper_def monotonic_def u_def run_loop_def Let_def
        elim!: bind_outcome_ReturnE split: option.splits)
  then show ?thesis using hits_match_loop [OF _ u] by blast
qed

lemma hits_insert_loop:
  assumes "insert_loop a pr node key vals k m s = Some (Return (node', key', vals', k', m') t)"
    "hits_zero c s" "node \<in> made c s"
  shows "hits_zero c t \<and> node' \<in> made c t"
proof -
  define good where "good r \<longleftrightarrow> (\<forall>node' key' vals' k' m' t.
      r = Return (node', key', vals', k', m') t \<longrightarrow> hits_zero c t \<and> node' \<in> made c t)"
    for r :: "(node_id \<times> token list \<times> slot list \<times> token \<times> nat, radix_cache) outcome"
  have "node \<in> made c s \<longrightarrow> hits_zero c s \<longrightarrow> good r"
    if "insert_loop a pr node key vals k m s = Some r" for r
    using that
  proof (induction rule: insert_loop.raw_induct [rotated, consumes 1])
    case (1 loop acc pr node key vals k m s r)
    let ?touch = "\<lambda>x. upd_node x (\<lambda>nd. nd\<lparr>tn_last_access := acc\<rparr>) s"
    let ?raise = "\<lambda>x. upd_node x (\<lambda>nd. nd\<lparr>tn_priority := max (tn_priority nd) pr\<rparr>)"
    have touch: "hits_zero c (?touch x)" if "hits_zero c s" for x
      using that by (rule hits_upd_other) simp_all
    have rise: "hits_zero c (?raise x u)" if "hits_zero c u" for x u
      using that by (rule hits_upd_other) simp_all
    show ?case
    proof (intro impI)
      assume n: "node \<in> made c s" "hits_zero c s"
      show "good r"
      proof (cases "key = [] \<or> map_of (tn_children (w_heap s node)) k = None")
        case True
        then show ?thesis using 1(2) n by (auto simp: good_def split: if_splits)
      next
        case False
        then obtain x where x: "key \<noteq> []" "map_of (tn_children (w_heap s node)) k = Some x" by auto
        have xm: "x \<in> made c (?touch x)" using hits_child [OF n(2,1) x(2)] by simp
        show ?thesis
        proof (cases "key_match (tn_key (w_heap s x)) key < length (tn_key (w_heap s x))")
          case True
          show ?thesis
          proof (cases "split_node (tn_key (w_heap s x)) x (key_match (tn_key (w_heap s x)) key) (?touch x)")
            case (Return nw u)
            note sp = hits_split [OF touch [OF n(2)] xm Return]
            then show ?thesis using 1(2) x True Return 1(1) rise [OF sp(1), of nw] by (auto simp: Let_def)
          qed (use 1(2) x True in \<open>auto simp: Let_def good_def\<close>)
        next
          case False
          then show ?thesis
            using 1(2) x 1(1) xm rise [OF touch [OF n(2)], of x x] by (auto simp: Let_def)
        qed
      qed
    qed
  qed
  with assms show ?thesis by (auto simp: good_def)
qed

lemma hits_add_leaf:
  assumes "hits_zero c s" "node \<in> made c s"
  shows "hits_zero c (add_leaf pr node key vals k s)"
proof -
  let ?s = "snd (new_node pr s)"
  note new = hits_new [OF assms(1), of pr]
  have "node \<in> made c ?s" using new(2) assms(2) by blast
  moreover have nc: "node \<noteq> w_counter s" using assms(2) by (simp add: made_def)
  moreover have "closed_in (made c ?s) (w_heap s node)"
    using hits_closed [OF new(1) \<open>node \<in> made c ?s\<close>] nc by simp
  ultimately have "hits_zero c (upd_node node (\<lambda>nd. nd\<lparr>tn_children := AList.update k (w_counter s) (tn_children nd)\<rparr>)
      (upd_node (w_counter s) (\<lambda>nd. nd\<lparr>tn_parent := Some node, tn_key := key, tn_value := Some vals\<rparr>) ?s))"
    using new hits_closed [OF new(1)]
    by (intro hits_upd closed_edge(1)) (auto simp: closed_in_def)
  then show ?thesis by (simp add: add_leaf_def Let_def case_prod_beta)
qed

lemma hits_insert:
  assumes "radix_insert p s = Return r t" "hits_zero c s"
  shows "hits_zero c t"
proof (cases "rc_disable s")
  case True
  then show ?thesis using assms by (simp add: radix_insert_def)
next
  case False
  let ?pr = "case ip_priority p of None \<Rightarrow> 0 | Some p \<Rightarrow> p" and ?key = "ip_key p" and ?a = "w_clock s (w_reads s)"
  define u where "u = upd_node (rc_root s) (\<lambda>nd. nd\<lparr>tn_last_access := ?a,
      tn_priority := max (tn_priority nd) ?pr\<rparr>) (s\<lparr>w_reads := Suc (w_reads s)\<rparr>)"
  have u: "hits_zero c u" "rc_root s \<in> made c u"
    using hits_root [OF assms(2)] assms(2) by (auto simp: u_def intro: hits_upd_other)
  obtain i where "insert_helper (rc_root s) ?key (param_value p) (Some ?pr) s = Return i t"
    using assms(1) False by (auto simp: radix_insert_def Let_def elim!: bind_outcome_ReturnE)
  then have "(if ?key = [] then Return 0 u else
      bind_outcome (run_loop (insert_loop ?a ?pr (rc_root s) ?key (param_value p) (hd ?key) 0 u))
        (\<lambda>(node', key', value', child_key, matched) s3.
           if key' \<noteq> [] then Return matched (add_leaf ?pr node' key' value' child_key s3)
           else Return matched s3)) = Return i t"
    unfolding insert_helper_def u_def by (simp add: monotonic_def Let_def split del: if_split)
  then show ?thesis
    using u hits_insert_loop [OF _ u] hits_add_leaf
    by (fastforce simp: run_loop_def elim!: bind_outcome_ReturnE split: if_splits option.splits)
qed

lemma hits_lock_upd: "hits_zero c s \<Longrightarrow> hits_zero c (upd_node n (\<lambda>nd. nd\<lparr>tn_lock_ref := l nd\<rparr>) s)"
  by (rule hits_upd_other) simp_all

lemma hits_inc_loop:
  assumes "inc_loop node d s = Some r" "hits_zero c s"
  shows "keeps_zero c r"
proof -
  have "hits_zero c s \<longrightarrow> keeps_zero c r"
    using assms(1)
  proof (induction rule: inc_loop.raw_induct [rotated, consumes 1])
    case (1 loop node d s r)
    show ?case
    proof
      assume h: "hits_zero c s"
      show "keeps_zero c r"
      proof (cases "node = None \<or> node = Some (rc_root s)")
        case True
        then show ?thesis using 1(2) h by (auto simp: keeps_zero_def split: if_splits)
      next
        case False
        then show ?thesis
          using 1(2) 1(1) h by (auto simp: Let_def hits_lock_upd split: if_splits)
      qed
    qed
  qed
  with assms(2) show ?thesis by blast
qed

lemma hits_dec_loop:
  assumes "dec_loop node d s = Some r" "hits_zero c s"
  shows "keeps_zero c r"
proof -
  have "hits_zero c s \<longrightarrow> keeps_zero c r"
    using assms(1)
  proof (induction rule: dec_loop.raw_induct [rotated, consumes 1])
    case (1 loop node d s r)
    show ?case
    proof
      assume h: "hits_zero c s"
      show "keeps_zero c r"
      proof (cases "node = None \<or> node = Some (rc_root s)")
        case True
        then show ?thesis using 1(2) h by (auto simp: keeps_zero_def split: if_splits)
      next
        case False
        then show ?thesis
          using 1(2) 1(1) h by (auto simp: Let_def hits_lock_upd split: if_splits)
      qed
    qed
  qed
  with assms(2) show ?thesis by blast
qed

lemma hits_lock:
  assumes "hits_zero c s"
  shows "inc_lock_ref n s = Return d t \<Longrightarrow> hits_zero c t" "dec_lock_ref n s = Return d t \<Longrightarrow> hits_zero c t"
  using assms hits_inc_loop [OF _ assms] hits_dec_loop [OF _ assms]
  by (auto simp: inc_lock_ref_def dec_lock_ref_def run_loop_def keeps_zero_def
      split: if_splits option.splits)

lemma hits_delete_leaf:
  assumes "delete_leaf n s = Return u t" "hits_zero c s"
  shows "hits_zero c t"
  using assms unfolding delete_leaf_def
  by (auto simp: Let_def intro!: hits_upd closed_edge(2) hits_closed
      split: list.splits option.splits if_splits)

lemma delete_leaf_frame:
  assumes "delete_leaf n (free_slots v s) = Return u t"
  shows "w_counter t = w_counter s" "rc_strategy t = rc_strategy s"
  using assms
  by (auto simp: delete_leaf_def update_leaf_status_def free_slots_def upd_node_def Let_def
      split: list.splits option.splits if_splits)

lemma hits_free [simp]: "hits_zero c (free_slots v s) = hits_zero c s" "made c (free_slots v s) = made c s"
  by (simp_all add: free_slots_def split: option.splits)

lemma hits_evict_loop:
  assumes "evict_loop num k hp s = Some r" "hits_zero c s"
  shows "keeps_zero c r"
proof -
  have "hits_zero c s \<longrightarrow> keeps_zero c r"
    using assms(1)
  proof (induction rule: evict_loop.raw_induct [rotated, consumes 1])
    case (1 loop num k hp s r)
    show ?case
    proof
      assume h: "hits_zero c s"
      show "keeps_zero c r"
      proof (cases "k < num \<and> hp \<noteq> []")
        case False
        then show ?thesis using 1(2) h by (auto simp: keeps_zero_def split: if_splits)
      next
        case True
        obtain e q where pop: "heappop (entry_lt (w_heap s)) hp = (e, q)" by fastforce
        show ?thesis
        proof (cases "tn_value (w_heap s (snd e))")
          case None
          then show ?thesis using 1(2) True pop by (auto simp: keeps_zero_def)
        next
          case (Some v)
          show ?thesis
          proof (cases "delete_leaf (snd e) (free_slots v s)")
            case (Return u t)
            have "hits_zero c t" using hits_delete_leaf [OF Return] h by simp
            then show ?thesis
              using 1(2) True pop Some Return 1(1)
              by (auto simp: Let_def keeps_zero_def split: option.splits if_splits)
          qed (use 1(2) True pop Some in \<open>auto simp: keeps_zero_def\<close>)
        qed
      qed
    qed
  qed
  with assms(2) show ?thesis by blast
qed

lemma hits_evict:
  assumes "evict p s = Return e t" "hits_zero c s"
  shows "hits_zero c t"
  using assms hits_evict_loop [OF _ assms(2)]
  by (auto simp: evict_def Let_def run_loop_def keeps_zero_def elim!: bind_outcome_ReturnE
      split: if_splits option.splits)

lemma hits_init:
  assumes "radix_init po w = Inr s"
  shows "hits_zero (w_counter w) s"
proof -
  obtain u where u: "s = reset u" "w_counter u = w_counter w"
    using assms by (auto simp: radix_init_def Let_def py_world.defs split: option.splits)
  then show ?thesis by (auto simp: made_def intro!: hits_reset)
qed

lemma reachable_hits:
  assumes "reachable s D"
  shows "\<exists>c. hits_zero c s"
  using assms
proof (induction rule: reachable.induct)
  case (init po w s)
  then show ?case using hits_init by blast
next
  case (attach s D a)
  then show ?case by (simp add: set_allocator_def)
next
  case (clear s D)
  then obtain c where c: "hits_zero c s" by blast
  have "hits_zero c (reset s)"
    by (rule hits_reset) (use hits_root [OF c] hits_closed [OF c] in \<open>auto simp: made_def\<close>)
  then show ?case ..
qed (blast intro: hits_match hits_insert hits_lock hits_evict)+

lemma path_of_made:
  assumes "path_of s n q" "hits_zero c s"
  shows "n \<in> made c s"
  using assms
proof (induction rule: path_of.induct)
  case root
  then show ?case by (rule hits_root)
next
  case (child n q t x)
  then show ?case using hits_closed [OF child.prems] by (force simp: closed_in_def)
qed

section \<open>Heaps of entries with the same order\<close>

definition same_order :: "('a \<Rightarrow> 'b) \<Rightarrow> ('a \<Rightarrow> 'a \<Rightarrow> bool) \<Rightarrow> ('b \<Rightarrow> 'b \<Rightarrow> bool) \<Rightarrow> 'a set \<Rightarrow> bool" where
  "same_order f lt lt' A \<longleftrightarrow> (\<forall>x \<in> A. \<forall>y \<in> A. lt' (f x) (f y) = lt x y)"

lemma set_update_in: "set xs \<subseteq> A \<Longrightarrow> x \<in> A \<Longrightarrow> set (xs[i := x]) \<subseteq> A"
  using set_update_subset_insert [of xs i x] by blast

lemma siftdown_loop_map:
  "same_order f lt lt' A \<Longrightarrow> set xs \<subseteq> A \<Longrightarrow> v \<in> A \<Longrightarrow> p < length xs \<Longrightarrow>
    siftdown_loop lt' (map f xs) b p (f v) = map f (siftdown_loop lt xs b p v)"
proof (induction lt xs b p v rule: siftdown_loop.induct)
  case (1 lt xs b p v)
  let ?i = "(p - 1) div 2"
  have i: "?i < length xs" using 1(5) by linarith
  then have x: "xs ! ?i \<in> A" using 1(3) by auto
  have same: "lt' (f v) (f (xs ! ?i)) = lt v (xs ! ?i)"
    using 1(2,4) x by (simp add: same_order_def)
  show ?case
  proof (cases "b < p \<and> lt v (xs ! ?i)")
    case True
    then have "siftdown_loop lt' (map f (xs[p := xs ! ?i])) b ?i (f v) =
        map f (siftdown_loop lt (xs[p := xs ! ?i]) b ?i v)"
      using 1(1) [OF _ refl refl] 1(2,4) set_update_in [OF 1(3) x] i by simp
    with True show ?thesis
      using i same by (subst (1 2) siftdown_loop.simps) (simp add: Let_def map_update)
  next
    case False
    then show ?thesis
      using i same by (subst (1 2) siftdown_loop.simps) (auto simp: Let_def map_update)
  qed
qed

lemma siftup_loop_step:
  assumes "2 * p + 1 < length xs"
    and "c = (if 2 * p + 1 + 1 < length xs \<and> \<not> lt (xs ! (2 * p + 1)) (xs ! (2 * p + 1 + 1))
      then 2 * p + 1 + 1 else 2 * p + 1)"
  shows "siftup_loop lt xs p = siftup_loop lt (xs[p := xs ! c]) c"
  unfolding assms(2) using assms(1) by (subst siftup_loop.simps) (simp add: Let_def)

lemma siftup_loop_map:
  "same_order f lt lt' A \<Longrightarrow> set xs \<subseteq> A \<Longrightarrow> p < length xs \<Longrightarrow>
    siftup_loop lt' (map f xs) p = map_prod (map f) id (siftup_loop lt xs p) \<and>
    set (fst (siftup_loop lt xs p)) \<subseteq> A"
proof (induction lt xs p rule: siftup_loop.induct)
  case (1 lt xs p)
  let ?l = "2 * p + 1"
  let ?c = "if ?l + 1 < length xs \<and> \<not> lt (xs ! ?l) (xs ! (?l + 1)) then ?l + 1 else ?l"
  show ?case
  proof (cases "?l < length xs")
    case True
    have c: "?c < length xs" using True by auto
    have in_A: "xs ! i \<in> A" if "i < length xs" for i using 1(3) that by auto
    have c': "?c = (if ?l + 1 < length (map f xs) \<and> \<not> lt' (map f xs ! ?l) (map f xs ! (?l + 1)) then ?l + 1 else ?l)"
      using 1(2) True in_A by (auto simp: same_order_def)
    have unf: "siftup_loop lt xs p = siftup_loop lt (xs[p := xs ! ?c]) ?c"
      by (rule siftup_loop_step [OF True refl])
    have unf': "siftup_loop lt' (map f xs) p = siftup_loop lt' (map f (xs[p := xs ! ?c])) ?c"
      using siftup_loop_step [where xs = "map f xs" and p = p and lt = lt', OF _ c'] True c by (simp only: length_map map_update nth_map)
    show ?thesis
      unfolding unf unf' using 1(1) [OF refl True refl refl] 1(2) set_update_in [OF 1(3) in_A [OF c]] c by simp
  next
    case False
    then show ?thesis using 1(3) by (subst (1 2 3) siftup_loop.simps) (simp add: Let_def)
  qed
qed

lemma siftup_map:
  assumes "same_order f lt lt' A" "set xs \<subseteq> A" "p < length xs"
  shows "siftup lt' (map f xs) p = map f (siftup lt xs p)"
proof -
  obtain ys q where ys: "siftup_loop lt xs p = (ys, q)" by fastforce
  note up = siftup_loop_map [OF assms, unfolded ys]
  have q: "q < length ys" "length ys = length xs"
    using siftup_loop_pos [OF assms(3), of lt] siftup_loop_length [of lt xs p] ys by simp_all
  have x: "xs ! p \<in> A" using assms(2,3) by auto
  have "set (ys[q := xs ! p]) \<subseteq> A" using up x by (intro set_update_in) auto
  then show ?thesis
    using up q x assms siftdown_loop_map [OF assms(1), of "ys[q := xs ! p]" "xs ! p" q p]
    by (simp add: siftup_def siftdown_def ys Let_def map_update [symmetric])
qed

lemma heapify_map:
  assumes "same_order f lt lt' A" "set xs \<subseteq> A"
  shows "heapify lt' (map f xs) = map f (heapify lt xs)"
proof -
  have "foldl (\<lambda>ys i. siftup lt' ys i) (map f ys) js = map f (foldl (\<lambda>ys i. siftup lt ys i) ys js)"
    if "set ys \<subseteq> A" "\<forall>i \<in> set js. i < length ys" for ys js
    using that
  proof (induction js arbitrary: ys)
    case (Cons i js)
    have "set (siftup lt ys i) \<subseteq> A"
      using mset_siftup [of i ys lt] Cons.prems by (metis list.set_intros(1) set_mset_mset)
    then show ?case using Cons siftup_map [OF assms(1), of ys i] by simp
  qed simp
  note step = this
  show ?thesis
    unfolding heapify_def length_map by (rule step [OF assms(2)]) auto
qed

lemma heappush_map:
  assumes "same_order f lt lt' A" "set xs \<subseteq> A" "x \<in> A"
  shows "heappush lt' (map f xs) (f x) = map f (heappush lt xs x)"
  using siftdown_loop_map [OF assms(1), of "xs @ [x]" x "length xs" 0] assms(2,3)
  by (simp add: heappush_def siftdown_def nth_append)

lemma heappop_map:
  assumes "same_order f lt lt' A" "set xs \<subseteq> A" "xs \<noteq> []"
  shows "heappop lt' (map f xs) = map_prod f (map f) (heappop lt xs)"
proof (cases "butlast xs = []")
  case True
  then show ?thesis using assms(3) by (simp add: heappop_def Let_def last_map map_butlast [symmetric])
next
  case False
  have "last xs \<in> A" "set (butlast xs) \<subseteq> A" using assms(2,3) in_set_butlastD by fastforce+
  then have "set ((butlast xs)[0 := last xs]) \<subseteq> A" by (intro set_update_in)
  then have "siftup lt' (map f ((butlast xs)[0 := last xs])) 0 = map f (siftup lt ((butlast xs)[0 := last xs]) 0)"
    using False by (intro siftup_map [OF assms(1)]) (auto simp del: length_butlast)
  then show ?thesis
    using False assms(3)
    by (simp add: heappop_def Let_def last_map map_butlast [symmetric] map_update nth_map [of 0 "butlast xs"] del: length_butlast)
qed

section \<open>LFU is LRU\<close>

text \<open>The entry that LFU has for the node of an LRU entry.\<close>

fun lfu_entry :: "prio \<times> node_id \<Rightarrow> prio \<times> node_id" where
  "lfu_entry (PFloat a, n) = (PTuple 0 a, n)"
| "lfu_entry e = e"

definition lru_entries :: "node_id set \<Rightarrow> (prio \<times> node_id) set" where
  "lru_entries M = range PFloat \<times> M"

lemma lfu_entry_order: "same_order lfu_entry (entry_lt h) (entry_lt h) (lru_entries M)"
  by (auto simp: same_order_def lru_entries_def entry_lt_def)

lemma lfu_entry_node: "snd (lfu_entry e) = snd e"
  by (cases e rule: lfu_entry.cases) simp_all

definition with_strategy :: "eviction_strategy \<Rightarrow> radix_cache \<Rightarrow> radix_cache" where
  "with_strategy st s = s\<lparr>rc_strategy := st\<rparr>"

fun map_state :: "('s \<Rightarrow> 's) \<Rightarrow> ('r, 's) outcome \<Rightarrow> ('r, 's) outcome" where
  "map_state f (Return x s) = Return x (f s)"
| "map_state f (Raise e s) = Raise e (f s)"
| "map_state f Diverge = Diverge"

lemma with_strategy_simps [simp]:
  "w_heap (with_strategy st s) = w_heap s" "rc_strategy (with_strategy st s) = st"
  "rc_evictable_leaves (with_strategy st s) = rc_evictable_leaves s"
  "w_set_order (with_strategy st s) = w_set_order s" "rc_disable (with_strategy st s) = rc_disable s"
  "made c (with_strategy st s) = made c s" "hits_zero c (with_strategy st s) = hits_zero c s"
  "upd_node n f (with_strategy st s) = with_strategy st (upd_node n f s)"
  "with_strategy st (with_strategy st' s) = with_strategy st s"
  "with_strategy (rc_strategy s) s = s"
  by (simp_all add: with_strategy_def upd_node_def)

lemma with_strategy_free: "free_slots v (with_strategy st s) = with_strategy st (free_slots v s)"
  by (simp add: free_slots_def with_strategy_def split: option.splits)

lemma with_strategy_leaf: "update_leaf_status n (with_strategy st s) = with_strategy st (update_leaf_status n s)"
  by (simp add: update_leaf_status_def Let_def with_strategy_def)

lemma with_strategy_delete: "delete_leaf n (with_strategy st s) = map_state (with_strategy st) (delete_leaf n s)"
proof -
  have f: "(with_strategy st u)\<lparr>rc_evictable_size := e, rc_evictable_leaves := l\<rparr> =
      with_strategy st (u\<lparr>rc_evictable_size := e, rc_evictable_leaves := l\<rparr>)"
    "rc_evictable_size (with_strategy st u) = rc_evictable_size u" for u e l
    by (simp_all add: with_strategy_def)
  show ?thesis
    by (simp add: delete_leaf_def Let_def f with_strategy_leaf split: list.split option.split)
qed

lemma node_entry_lfu:
  assumes "rc_strategy s = LRUStrategy" "hits_zero c s" "n \<in> made c s"
  shows "node_entry (with_strategy LFUStrategy s) n = lfu_entry (node_entry s n)"
    "node_entry s n \<in> lru_entries (made c s)"
  using hits_closed [OF assms(2,3)] assms(1,3) by (simp_all add: node_entry_def closed_in_def lru_entries_def)

lemma evict_loop_lfu:
  assumes "evict_loop num k hp s = Some r" "rc_strategy s = LRUStrategy" "hits_zero c s"
    "set hp \<subseteq> lru_entries (made c s)"
  shows "evict_loop num k (map lfu_entry hp) (with_strategy LFUStrategy s) =
    Some (map_state (with_strategy LFUStrategy) r)"
proof -
  have "rc_strategy s = LRUStrategy \<longrightarrow> hits_zero c s \<longrightarrow> set hp \<subseteq> lru_entries (made c s) \<longrightarrow>
    evict_loop num k (map lfu_entry hp) (with_strategy LFUStrategy s) =
      Some (map_state (with_strategy LFUStrategy) r)"
    using assms(1)
  proof (induction rule: evict_loop.raw_induct [rotated, consumes 1])
    case (1 loop num k hp s r)
    show ?case
    proof (intro impI)
      assume lru: "rc_strategy s = LRUStrategy" and h: "hits_zero c s" and hp: "set hp \<subseteq> lru_entries (made c s)"
      let ?u = "with_strategy LFUStrategy s"
      show "evict_loop num k (map lfu_entry hp) ?u = Some (map_state (with_strategy LFUStrategy) r)"
      proof (cases "k < num \<and> hp \<noteq> []")
        case False
        then show ?thesis using 1(2) by (subst evict_loop.simps) (auto split: if_splits)
      next
        case True
        obtain e q where pop: "heappop (entry_lt (w_heap s)) hp = (e, q)" by fastforce
        have pop': "heappop (entry_lt (w_heap s)) (map lfu_entry hp) = (lfu_entry e, map lfu_entry q)"
          using heappop_map [OF lfu_entry_order hp] True pop by simp
        have "add_mset e (mset q) = mset hp" using entry.mset_pop [of hp "w_heap s"] True pop by simp
        then have "insert e (set q) = set hp" by (metis set_mset_add_mset_insert set_mset_mset)
        then have q: "e \<in> lru_entries (made c s)" "set q \<subseteq> lru_entries (made c s)" using hp by auto
        then have x: "snd e \<in> made c s" by (auto simp: lru_entries_def)
        show ?thesis
        proof (cases "tn_value (w_heap s (snd e))")
          case None
          then show ?thesis using 1(2) True pop pop'
            by (subst evict_loop.simps) (auto simp: lfu_entry_node)
        next
          case (Some v)
          show ?thesis
          proof (cases "delete_leaf (snd e) (free_slots v s)")
            case (Return w t)
            have t: "hits_zero c t" using hits_delete_leaf [OF Return] h by simp
            have f: "w_counter t = w_counter s" "rc_strategy t = LRUStrategy"
              using delete_leaf_frame [OF Return] lru by simp_all
            then have m: "made c t = made c s" by (simp add: made_def)
            show ?thesis
            proof (cases "tn_parent (w_heap t (snd e))")
              case None
              then show ?thesis
                using 1(2) True pop pop' Some Return
                by (subst evict_loop.simps) (auto simp: lfu_entry_node Let_def with_strategy_free with_strategy_delete)
            next
              case p: (Some p)
              have "p \<in> made c t" using hits_parent [OF t _ p] x m by simp
              note en = node_entry_lfu [OF f(2) t this]
              have push: "heappush (entry_lt (w_heap t)) (map lfu_entry q) (lfu_entry (node_entry t p)) =
                  map lfu_entry (heappush (entry_lt (w_heap t)) q (node_entry t p))"
                using heappush_map [OF lfu_entry_order] q(2) en(2) m by simp
              have "set (heappush (entry_lt (w_heap t)) q (node_entry t p)) \<subseteq> lru_entries (made c t)"
                using entry.mset_push [of "w_heap t" q "node_entry t p"] q(2) en(2) m
                by (metis insert_subset set_mset_add_mset_insert set_mset_mset)
              then show ?thesis
                using 1(2) True pop pop' Some Return p t f m q(2) 1(1)
                by (subst evict_loop.simps)
                   (auto simp: lfu_entry_node Let_def with_strategy_free with_strategy_delete en push split: if_splits)
            qed
          qed (use 1(2) True pop pop' Some in \<open>subst evict_loop.simps, auto simp: lfu_entry_node Let_def
              with_strategy_free with_strategy_delete\<close>)+
        qed
      qed
    qed
  qed
  with assms show ?thesis by blast
qed

lemma with_strategy_inv: "cache_inv (with_strategy st s) P D = cache_inv s P D"
  by (simp add: cache_inv_def with_strategy_def fresh_ok_def acct_ok_def set_order_ok_def)

lemma evict_lfu:
  assumes inv: "cache_inv s P D" and h: "hits_zero c s" and lru: "rc_strategy s = LRUStrategy"
    and e: "evict p s = Return r t"
  shows "evict p (with_strategy LFUStrategy s) = Return r (with_strategy LFUStrategy t)"
proof (cases "rc_disable s")
  case True
  then show ?thesis using e by (simp add: evict_def)
next
  case False
  let ?ns = "w_set_order s (rc_evictable_leaves s)" and ?u = "with_strategy LFUStrategy s"
  note i = cache_invD [OF inv]
  have leaves: "n \<in> made c s" if "n \<in> set ?ns" for n
  proof -
    have "n \<in> rc_evictable_leaves s"
      using that i(5) leaves_finite [OF inv] by (simp add: set_order_ok_def)
    then obtain q vs where "P n = Some (q, vs)" using i(4) by (auto simp: acct_ok_def unlocked_leaves_def)
    then show ?thesis using path_of_made [OF path_of_complete [OF inv] h] by blast
  qed
  then have es: "map (node_entry ?u) ?ns = map lfu_entry (map (node_entry s) ?ns)"
    "set (map (node_entry s) ?ns) \<subseteq> lru_entries (made c s)"
    using node_entry_lfu [OF lru h] by auto
  have hp: "heapify (entry_lt (w_heap s)) (map (node_entry ?u) ?ns) =
      map lfu_entry (heapify (entry_lt (w_heap s)) (map (node_entry s) ?ns))"
    unfolding es(1) by (rule heapify_map [OF lfu_entry_order es(2)])
  have "set (heapify (entry_lt (w_heap s)) (map (node_entry s) ?ns)) \<subseteq> lru_entries (made c s)"
    using es(2) mset_heapify [of "entry_lt (w_heap s)" "map (node_entry s) ?ns"] by (metis set_mset_mset)
  note loop = evict_loop_lfu [OF _ lru h this]
  obtain k where k: "evict_loop (ep_num_tokens p) 0 (heapify (entry_lt (w_heap s)) (map (node_entry s) ?ns)) s =
      Some (Return k t)" "r = \<lparr>er_num_tokens_evicted = k\<rparr>"
    using e False by (auto simp: evict_def run_loop_def elim!: bind_outcome_ReturnE split: option.splits)
  show ?thesis using False loop [OF k(1)] k(2) by (simp add: evict_def hp)
qed

text \<open>The two policies side by side, from a state of an LFU cache.\<close>

lemma reachable_lfu_evict:
  assumes "reachable s D" "rc_strategy s = LFUStrategy"
  shows "\<exists>e t. evict p s = Return e t \<and>
    evict p (s\<lparr>rc_strategy := LRUStrategy\<rparr>) = Return e (t\<lparr>rc_strategy := LRUStrategy\<rparr>)"
proof -
  obtain P where inv: "cache_inv s P D" and en: "\<not> rc_disable s"
    using reachable_healthy [OF assms(1)] by (rule healthyE)
  obtain c where c: "hits_zero c s" using reachable_hits [OF assms(1)] by blast
  let ?s = "with_strategy LRUStrategy s"
  have inv': "cache_inv ?s P D" and en': "\<not> rc_disable ?s" using inv en by (simp_all add: with_strategy_inv)
  obtain xs t where t: "evict p ?s = Return \<lparr>er_num_tokens_evicted = int (length (concat (map (node_slots ?s) xs)))\<rparr> t"
    "evict_ok ?s P D (ep_num_tokens p) xs t"
    using evict_spec [OF inv' en', of p] by blast
  have "rc_strategy t = LRUStrategy"
    using t(2) by (simp add: evict_ok_def pruned_def same_config_def)
  then have lru_t: "(with_strategy LFUStrategy t)\<lparr>rc_strategy := LRUStrategy\<rparr> = t"
    by (simp add: with_strategy_def)
  have "with_strategy LFUStrategy ?s = s" using assms(2) by (simp add: with_strategy_def)
  with evict_lfu [OF inv' _ _ t(1), of c] c have "evict p s =
      Return \<lparr>er_num_tokens_evicted = int (length (concat (map (node_slots ?s) xs)))\<rparr> (with_strategy LFUStrategy t)"
    by simp
  moreover have "s\<lparr>rc_strategy := LRUStrategy\<rparr> = ?s" by (simp add: with_strategy_def)
  ultimately show ?thesis using t(1) lru_t
    by (intro exI [of _ "\<lparr>er_num_tokens_evicted = int (length (concat (map (node_slots ?s) xs)))\<rparr>"]
        exI [of _ "with_strategy LFUStrategy t"]) simp
qed
end
