(* ===== verification/Radix_Stale.thy ===== *)
theory Radix_Stale
  imports Radix_Steps
begin

text \<open>
  What \<open>dec_lock_ref\<close> does with a node from before a \<open>reset\<close>: the walk to the root never meets
  the new root, moves the old tokens between the counters of the empty cache and then raises.
\<close>

section \<open>The walk along parents\<close>

text \<open>\<open>up h x ns y\<close>: from the reference \<open>x\<close>, the parents lead through the nodes \<open>ns\<close> to \<open>y\<close>.\<close>

fun up :: "(node_id \<Rightarrow> tree_node) \<Rightarrow> node_id option \<Rightarrow> node_id list \<Rightarrow> node_id option \<Rightarrow> bool" where
  "up h x [] y \<longleftrightarrow> x = y"
| "up h x (n # ns) y \<longleftrightarrow> x = Some n \<and> up h (tn_parent (h n)) ns y"

lemma up_append: "up h x (ms @ ns) y \<longleftrightarrow> (\<exists>z. up h x ms z \<and> up h z ns y)"
  by (induction ms arbitrary: x) auto

lemma up_cong: "(\<And>n. n \<in> set ns \<Longrightarrow> tn_parent (h' n) = tn_parent (h n)) \<Longrightarrow> up h' x ns y = up h x ns y"
  by (induction ns arbitrary: x) auto

text \<open>The tokens of the nodes whose only lock it is.\<close>

definition unlocked_by :: "(node_id \<Rightarrow> tree_node) \<Rightarrow> node_id list \<Rightarrow> int" where
  "unlocked_by h ns = (\<Sum>n \<leftarrow> ns. if tn_lock_ref (h n) = 1 then int (length (tn_key (h n))) else 0)"

lemma unlocked_by_cong:
  "(\<And>n. n \<in> set ns \<Longrightarrow> h' n = h n) \<Longrightarrow> unlocked_by h' ns = unlocked_by h ns"
  unfolding unlocked_by_def by (intro arg_cong [of _ _ sum_list] map_cong) auto

lemma unlocked_by_nonneg: "0 \<le> unlocked_by h ns"
  unfolding unlocked_by_def by (intro sum_list_nonneg) auto

lemma unlocked_by_pos:
  assumes "n \<in> set ns" "tn_lock_ref (h n) = 1" "tn_key (h n) \<noteq> []"
  shows "0 < unlocked_by h ns"
proof -
  obtain ys zs where "ns = ys @ n # zs" using split_list [OF assms(1)] by blast
  then have "unlocked_by h ns = unlocked_by h ys + (int (length (tn_key (h n))) + unlocked_by h zs)"
    using assms(2) by (simp add: unlocked_by_def)
  with unlocked_by_nonneg [of h ys] unlocked_by_nonneg [of h zs] assms(3) show ?thesis
    by (cases "tn_key (h n)") simp_all
qed

lemma dec_loop_up:
  assumes "up (w_heap s) x ns y" "distinct ns" "rc_root s \<notin> set ns"
  shows "\<exists>t. dec_loop x d s = dec_loop y (d + unlocked_by (w_heap s) ns) t \<and>
    rc_evictable_size t = rc_evictable_size s + unlocked_by (w_heap s) ns \<and>
    rc_protected_size t = rc_protected_size s - unlocked_by (w_heap s) ns \<and>
    rc_root t = rc_root s \<and> (\<forall>m. m \<notin> set ns \<longrightarrow> w_heap t m = w_heap s m)"
  using assms
proof (induction ns arbitrary: x d s)
  case Nil
  then show ?case by (intro exI [of _ s]) (simp add: unlocked_by_def)
next
  case (Cons n ns)
  define k where "k = (if tn_lock_ref (w_heap s n) = 1 then int (length (tn_key (w_heap s n))) else 0)"
  define u where "u = update_leaf_status n (upd_node n (\<lambda>nd. nd\<lparr>tn_lock_ref := tn_lock_ref nd - 1\<rparr>)
    (s\<lparr>rc_evictable_size := rc_evictable_size s + k, rc_protected_size := rc_protected_size s - k\<rparr>))"
  have u: "w_heap u = (w_heap s)(n := (w_heap s n)\<lparr>tn_lock_ref := tn_lock_ref (w_heap s n) - 1\<rparr>)"
    "rc_root u = rc_root s" "rc_evictable_size u = rc_evictable_size s + k"
    "rc_protected_size u = rc_protected_size s - k"
    by (simp_all add: u_def update_leaf_status_def upd_node_def Let_def)
  have x: "x = Some n" "n \<noteq> rc_root s" "up (w_heap s) (tn_parent (w_heap s n)) ns y" "n \<notin> set ns"
    using Cons.prems by auto
  have step: "dec_loop x d s = dec_loop (tn_parent (w_heap u n)) (d + k) u"
    unfolding x(1) using x(2)
    by (subst dec_loop.simps) (simp add: Let_def k_def u_def)
  have "up (w_heap u) (tn_parent (w_heap u n)) ns y"
    using x(3,4) by (subst up_cong [of ns _ "w_heap s"]) (auto simp: u(1))
  moreover have "unlocked_by (w_heap u) ns = unlocked_by (w_heap s) ns"
    using x(4) by (intro unlocked_by_cong) (auto simp: u(1))
  moreover have "unlocked_by (w_heap s) (n # ns) = k + unlocked_by (w_heap s) ns"
    by (simp add: unlocked_by_def k_def)
  ultimately show ?case
    using Cons.IH [of u "tn_parent (w_heap u n)" "d + k"] Cons.prems(2,3) unfolding step
    by (fastforce simp: u(1-4) add.assoc)
qed

lemma path_up:
  assumes inv: "cache_inv s P D" and n: "P n = Some (q, vs)"
  shows "\<exists>ns. up (w_heap s) (Some n) ns (Some (rc_root s)) \<and> distinct ns \<and> rc_root s \<notin> set ns \<and>
    (\<forall>m \<in> set ns. \<exists>q' vs'. P m = Some (q', vs') \<and> length q' \<le> length q)"
  using cache_invD(1) [OF inv] n
proof (induction rule: path_induct)
  case root
  show ?case by (intro exI [of _ "[]"]) simp
next
  case (child n p q vs v)
  then obtain ns where ns: "up (w_heap s) (Some p) ns (Some (rc_root s))" "distinct ns" "rc_root s \<notin> set ns"
    "\<forall>m \<in> set ns. \<exists>q' vs'. P m = Some (q', vs') \<and> length q' \<le> length q" by blast
  have "n \<notin> set ns" using ns(4) child.hyps(5,7) by fastforce
  then show ?case
    using ns child.hyps by (intro exI [of _ "n # ns"]) fastforce
qed

section \<open>A lock released after a reset\<close>

lemma stale_dec:
  assumes inv: "cache_inv s P D" and en: "\<not> rc_disable s" and n: "P n = Some (q, vs)"
  shows "\<exists>k t u. dec_lock_ref n s = Return k u \<and> dec_lock_ref n (reset s) = Raise AttributeError t \<and>
    0 \<le> k \<and> (q \<noteq> [] \<and> tn_lock_ref (w_heap s n) = 1 \<longrightarrow> 0 < k) \<and>
    rc_evictable_size t = k \<and> rc_protected_size t = - k \<and> cached t = cached (reset s)"
proof -
  obtain ns where ns: "up (w_heap s) (Some n) ns (Some (rc_root s))" "distinct ns" "rc_root s \<notin> set ns"
    "\<forall>m \<in> set ns. \<exists>q' vs'. P m = Some (q', vs') \<and> length q' \<le> length q"
    using path_up [OF inv n] by blast
  let ?k = "unlocked_by (w_heap s) ns" and ?r = "rc_root s"
  obtain u where u: "dec_loop (Some n) 0 s = dec_loop (Some ?r) ?k u" "rc_root u = ?r"
    using dec_loop_up [OF ns(1-3), of 0] by auto
  then have ret: "dec_lock_ref n s = Return ?k u"
    using en by (simp add: dec_lock_ref_def dec_loop.simps [of "Some ?r" ?k u])
  have P_r: "P ?r = Some ([], [])" "tn_key (w_heap s ?r) = []" "tn_parent (w_heap s ?r) = None"
    using tree_ok_rootD [OF cache_invD(1) [OF inv]] by simp_all
  have old: "m < w_counter s" if "m \<in> set (ns @ [?r])" for m
    using that ns(4) P_r(1) cache_invD(2) [OF inv] by (fastforce simp: fresh_ok_def)
  have same: "w_heap (reset s) m = w_heap s m" if "m \<in> set (ns @ [?r])" for m
    using old [OF that] by (simp add: reset_def new_node_def monotonic_def upd_node_def Let_def)
  have "up (w_heap s) (Some n) (ns @ [?r]) None"
    unfolding up_append using ns(1) P_r(3) by auto
  then have up: "up (w_heap (reset s)) (Some n) (ns @ [?r]) None"
    using same by (subst up_cong [of _ _ "w_heap s"]) auto
  have root: "rc_root (reset s) \<notin> set (ns @ [?r])"
    using old [of "rc_root (reset s)"] by (auto simp: reset_fields)
  have k: "unlocked_by (w_heap (reset s)) (ns @ [?r]) = ?k"
  proof -
    have "unlocked_by (w_heap (reset s)) (ns @ [?r]) = unlocked_by (w_heap s) (ns @ [?r])"
      using same by (intro unlocked_by_cong) blast
    then show ?thesis by (simp add: unlocked_by_def P_r(2))
  qed
  obtain t where t: "dec_loop (Some n) 0 (reset s) = dec_loop None ?k t"
    "rc_evictable_size t = ?k" "rc_protected_size t = - ?k" "rc_root t = rc_root (reset s)"
    "\<And>m. m \<notin> set (ns @ [?r]) \<Longrightarrow> w_heap t m = w_heap (reset s) m"
    using dec_loop_up [OF up _ root, of 0] ns(2,3) by (auto simp: k reset_fields)
  have raise: "dec_lock_ref n (reset s) = Raise AttributeError t"
    using en by (simp add: dec_lock_ref_def t(1) dec_loop.simps [of None ?k t] reset_fields)
  have "tn_children (w_heap (reset s) (rc_root (reset s))) = []" by (simp add: reset_fields)
  moreover have "w_heap t (rc_root (reset s)) = w_heap (reset s) (rc_root (reset s))"
    by (rule t(5) [OF root])
  ultimately have "cached t ks = cached (reset s) ks" for ks
    unfolding cached_def t(4) by (cases "ks = []") (simp, subst (1 2) walk.simps, simp add: Let_def)
  then have "cached t = cached (reset s)" by (rule ext)
  moreover have "0 < ?k" if "q \<noteq> []" "tn_lock_ref (w_heap s n) = 1"
  proof -
    have "n \<noteq> ?r" using n P_r(1) that(1) by auto
    then have "n \<in> set ns" using ns(1) by (cases ns) auto
    moreover have "tn_key (w_heap s n) \<noteq> []"
      using tree_ok_upE [OF cache_invD(1) [OF inv] n \<open>n \<noteq> ?r\<close>] by metis
    ultimately show ?thesis using that(2) by (intro unlocked_by_pos)
  qed
  ultimately show ?thesis using ret raise t(2,3) unlocked_by_nonneg by blast
qed
end
