(* ===== verification/Radix_Props.thy ===== *)
theory Radix_Props
  imports Radix_Policy Radix_Stale
begin

text \<open>
  The properties of \<open>RadixCache\<close>, over the reachable states, each with a concrete witness.
\<close>

lemma demo2_cached: "cached demo2 [1, 2] = Some [10, 11]"
  unfolding cached_def by (subst walk.simps) (simp add: demo2_facts Let_def)

section \<open>Lookup and insertion\<close>

text \<open>
  C3. In every state a client can reach, the cache is a radix tree whose fields agree with one
  another: paths, children and parents, lock counts, the two token counters and the set of
  evictable leaves.
\<close>

theorem reachable_invariant: "reachable s D \<Longrightarrow> \<exists>P. cache_inv s P D"
  by (erule reachableE) (rule exI)

theorem reachable_invariant_witness: "\<exists>P. cache_inv demo3 P ((\<lambda>_. 0)(demo_leaf := 1))"
  by (rule reachable_invariant [OF demo3_reachable])

text \<open>
  C7. \<open>match_prefix\<close> returns the slots of the longest cached prefix of the key, with the node
  whose path from the root is exactly that prefix, and changes neither the content of the cache
  nor its counters.
\<close>

theorem match_prefix_longest:
  assumes "reachable s D"
  shows "\<exists>r t q. match_prefix key s = Return r t \<and> reachable t D \<and>
    prefix q key \<and> cached s q = Some (mr_device_indices r) \<and>
    length (mr_device_indices r) = length q \<and>
    (\<forall>ks. prefix ks key \<longrightarrow> length q < length ks \<longrightarrow> cached s ks = None) \<and>
    path_of t (mr_last_node r) q \<and> cached t = cached s \<and>
    rc_evictable_size t = rc_evictable_size s \<and> rc_protected_size t = rc_protected_size s"
proof -
  note h = reachable_healthy [OF assms]
  obtain r t q where r: "match_prefix key s = Return r t" "prefix q key"
    "cached s q = Some (mr_device_indices r)"
    "\<forall>ks. prefix ks key \<longrightarrow> length q < length ks \<longrightarrow> cached s ks = None"
    "path_of t (mr_last_node r) q" "cached t = cached s"
    "rc_evictable_size t = rc_evictable_size s" "rc_protected_size t = rc_protected_size s"
    using match_law [OF h, of key] by blast
  show ?thesis
    using r reachable.match [OF assms r(1)] healthy_cached_length [OF h r(3)] by blast
qed

theorem match_prefix_longest_witness:
  "\<exists>r t q. match_prefix [1, 2, 9] demo1 = Return r t \<and> prefix q [1, 2, 9] \<and>
     cached demo1 q = Some (mr_device_indices r) \<and> mr_device_indices r = [10, 11]"
  using match_prefix_longest [OF demo1_reachable, of "[1, 2, 9]"] demo2_step by auto

text \<open>
  C8. \<open>insert\<close> reports the length of the longest cached prefix of the key. Afterwards the cache
  holds exactly what it held before and the prefixes of the key, the reported part with the slots
  it had, the rest with the slots passed in; the rest counts as evictable.
\<close>

theorem insert_extends:
  assumes "reachable s D" "length (param_value p) = length (ip_key p)"
  shows "\<exists>n t ms. radix_insert p s = Return \<lparr>ir_prefix_len = n\<rparr> t \<and> reachable t D \<and>
    n \<le> length (ip_key p) \<and> cached s (take n (ip_key p)) = Some ms \<and>
    (\<forall>ks. prefix ks (ip_key p) \<longrightarrow> n < length ks \<longrightarrow> cached s ks = None) \<and>
    (\<forall>ks ws. cached t ks = Some ws \<longleftrightarrow> cached s ks = Some ws \<or>
       (prefix ks (ip_key p) \<and> ws = take (length ks) (ms @ drop n (param_value p)))) \<and>
    (\<forall>m q. path_of s m q \<longrightarrow> path_of t m q) \<and>
    rc_evictable_size t = rc_evictable_size s + int (length (ip_key p) - n) \<and>
    rc_protected_size t = rc_protected_size s"
proof -
  obtain n t ms where i: "radix_insert p s = Return \<lparr>ir_prefix_len = n\<rparr> t"
    "n \<le> length (ip_key p)" "cached s (take n (ip_key p)) = Some ms"
    "\<forall>ks. prefix ks (ip_key p) \<longrightarrow> n < length ks \<longrightarrow> cached s ks = None"
    "\<forall>ks ws. cached t ks = Some ws \<longleftrightarrow> cached s ks = Some ws \<or>
       (prefix ks (ip_key p) \<and> ws = take (length ks) (ms @ drop n (param_value p)))"
    "\<forall>m q. path_of s m q \<longrightarrow> path_of t m q"
    "rc_evictable_size t = rc_evictable_size s + int (length (ip_key p) - n)"
    "rc_protected_size t = rc_protected_size s"
    using insert_law [OF reachable_healthy [OF assms(1)] assms(2)] by blast
  show ?thesis
    using i reachable.insert [OF assms i(1)] by blast
qed

theorem insert_extends_witness:
  "\<exists>n t ms. radix_insert demo_insert demo0 = Return \<lparr>ir_prefix_len = n\<rparr> t \<and> reachable t (\<lambda>_. 0) \<and>
     rc_evictable_size t = rc_evictable_size demo0 + int (length (ip_key demo_insert) - n)"
  using insert_extends [OF demo0_reachable demo_insert_len] by blast

text \<open>
  A lookup of a key that was just inserted finds all of it: the slots it had for the prefix
  \<open>insert\<close> reported, followed by the slots passed in for the rest.
\<close>

theorem insert_then_match:
  assumes "reachable s D" "length (param_value p) = length (ip_key p)"
    and "radix_insert p s = Return i t"
  shows "\<exists>r u ms. match_prefix (ip_key p) t = Return r u \<and>
    cached s (take (ir_prefix_len i) (ip_key p)) = Some ms \<and>
    mr_device_indices r = ms @ drop (ir_prefix_len i) (param_value p) \<and>
    path_of u (mr_last_node r) (ip_key p)"
  using radix.store_lookup [OF reachable_healthy [OF assms(1)] assms(2,3)] by blast

theorem insert_then_match_witness:
  "\<exists>r u ms. match_prefix (ip_key demo_insert) demo1 = Return r u \<and>
     mr_device_indices r = ms @ [10, 11, 12, 13]"
  using insert_then_match [OF demo0_reachable demo_insert_len demo1_step]
  by (auto simp: demo_insert_def InsertParams_def param_value_def)

section \<open>Locks\<close>

text \<open>
  C4. What a client has pinned stays: along any sequence of lookups, insertions, locks, unlocks
  and evictions during which at least one lock is outstanding on a node, the node keeps standing
  for the same tokens, and the slots cached for them do not change.
\<close>

theorem locked_prefix_survives:
  assumes "reachable s D" "holding_run n (s, D) (t, E)" "path_of s n q" "cached s q = Some ws"
  shows "path_of t n q \<and> cached t q = Some ws \<and> reachable t E"
  using pinned_run [OF assms(2), of q ws] assms by (simp add: pinned_at_def)

theorem locked_prefix_survives_witness:
  "\<exists>e t. evict \<lparr>ep_num_tokens = 100\<rparr> demo3 = Return e t \<and> path_of t demo_leaf [1, 2] \<and>
     cached t [1, 2] = Some [10, 11]"
proof -
  let ?D = "(\<lambda>_. 0)(demo_leaf := 1) :: locks"
  obtain e t where e: "evict \<lparr>ep_num_tokens = 100\<rparr> demo3 = Return e t"
    using evict_law [OF reachable_healthy [OF demo3_reachable]] by blast
  have run: "holding_run demo_leaf (demo3, ?D) (t, ?D)"
    by (rule hold_step [OF _ step_evict [OF e] hold_stop]) simp
  have "path_of demo3 demo_leaf [1, 2]" "cached demo3 [1, 2] = Some [10, 11]"
    using lock_law [OF reachable_healthy [OF demo2_reachable] demo2_path] demo3_step demo2_path
      demo2_cached by auto
  from locked_prefix_survives [OF demo3_reachable run this] e show ?thesis by blast
qed

text \<open>
  C14. A lock followed by its unlock leaves no trace: the two deltas cancel, both counters, the
  set of evictable leaves and every lock count are as before.
\<close>

theorem lock_unlock_roundtrip:
  assumes "reachable s D" "path_of s n q"
    and "inc_lock_ref n s = Return d1 t" "dec_lock_ref n t = Return d2 u"
  shows "d1 + d2 = 0 \<and> rc_evictable_size u = rc_evictable_size s \<and>
    rc_protected_size u = rc_protected_size s \<and> rc_evictable_leaves u = rc_evictable_leaves s \<and>
    (\<forall>m p. path_of s m p \<longrightarrow> m \<noteq> rc_root s \<longrightarrow> tn_lock_ref (w_heap u m) = tn_lock_ref (w_heap s m))"
proof -
  obtain P where inv: "cache_inv s P D" "\<not> rc_disable s" by (rule reachableE [OF assms(1)])
  have live: "P m \<noteq> None" if "path_of s m p" for m p
    using path_of_sound [OF that inv(1)] by auto
  note lu = lock_unlock [OF inv(1) live [OF assms(2)] inv(2) assms(3,4)]
  show ?thesis using lu(3-6) lu(7) [OF live] by blast
qed

theorem lock_unlock_roundtrip_witness:
  "\<exists>d2 u. dec_lock_ref demo_leaf demo3 = Return d2 u \<and> - 2 + d2 = 0 \<and>
     rc_evictable_size u = rc_evictable_size demo2"
proof -
  obtain d2 u where u: "dec_lock_ref demo_leaf demo3 = Return d2 u"
    using unlock_law [OF reachable_healthy [OF demo3_reachable], of demo_leaf] by auto
  from lock_unlock_roundtrip [OF demo2_reachable demo2_path demo3_step this] u show ?thesis by blast
qed

text \<open>
  C17. A lock moves tokens from the evictable to the protected counter and an unlock moves them
  back: the returned delta is the change of the evictable counter, their sum is constant, and a
  node on which a lock is outstanding has a positive lock count and is no evictable leaf.
\<close>

theorem lock_accounting:
  assumes "reachable s D" "path_of s n q"
  shows "\<exists>d t. inc_lock_ref n s = Return d t \<and> reachable t (D(n := D n + 1)) \<and>
    rc_evictable_size t = rc_evictable_size s + d \<and> rc_protected_size t = rc_protected_size s - d \<and>
    cached t = cached s \<and> 0 < tn_lock_ref (w_heap t n) \<and> n \<notin> rc_evictable_leaves t"
proof -
  obtain d t where t: "inc_lock_ref n s = Return d t" "cached t = cached s"
    "\<forall>m p. path_of s m p \<longrightarrow> path_of t m p"
    "rc_evictable_size t = rc_evictable_size s + d" "rc_protected_size t = rc_protected_size s - d"
    using lock_law [OF reachable_healthy [OF assms(1)] assms(2)] by blast
  have r: "reachable t (D(n := D n + 1))" by (rule reachable.lock [OF assms t(1)])
  obtain P where inv: "cache_inv t P (D(n := D n + 1))" by (rule reachableE [OF r])
  note i = cache_invD [OF inv]
  have "path_of t n q" using t(3) assms(2) by blast
  then have n: "P n \<noteq> None" using path_of_sound [OF _ inv] by fastforce
  have "0 < tn_lock_ref (w_heap t n)"
    using lock_outstanding [OF i(1,3) n] lock_ok_root [OF i(3)] by (cases "n = rc_root t") auto
  moreover have "n \<notin> rc_evictable_leaves t"
    using i(4) calculation by (simp add: acct_ok_def unlocked_leaves_def)
  ultimately show ?thesis using t r by blast
qed

theorem lock_accounting_witness:
  "\<exists>d t. inc_lock_ref demo_leaf demo2 = Return d t \<and> d = - 2 \<and>
     rc_protected_size t = rc_protected_size demo2 + 2"
  using lock_accounting [OF demo2_reachable demo2_path] demo3_step by auto

text \<open>
  C38. A handle does not survive a \<open>reset\<close>: releasing a lock that was taken before raises
  \<open>AttributeError\<close> after it has moved the tokens that the release would have unprotected, \<open>k\<close> of
  them, between the counters of the empty cache: the evictable counter is \<open>k\<close> then and the protected
  one \<open>- k\<close>. If the lock was the only one on the node and on the nodes below it (its lock count is
  one), \<open>k\<close> is positive and the protected counter negative. The reset itself gives no slot back to
  the allocator.
\<close>

theorem stale_unlock_raises:
  assumes "reachable s D" "path_of s n q"
  shows "\<exists>k t u. dec_lock_ref n s = Return k u \<and> dec_lock_ref n (reset s) = Raise AttributeError t \<and>
    0 \<le> k \<and> rc_evictable_size t = k \<and> rc_protected_size t = - k \<and>
    (q \<noteq> [] \<and> tn_lock_ref (w_heap s n) = 1 \<longrightarrow> 0 < k \<and> rc_protected_size t < 0) \<and>
    cached t = cached (reset s) \<and>
    (\<forall>ks. ks \<noteq> [] \<longrightarrow> cached (reset s) ks = None) \<and> rc_allocator (reset s) = rc_allocator s"
proof -
  obtain P where inv: "cache_inv s P D" and en: "\<not> rc_disable s" by (rule reachableE [OF assms(1)])
  obtain vs where n: "P n = Some (q, vs)" using path_of_sound [OF assms(2) inv] by blast
  have "cached (reset s) ks = None" if "ks \<noteq> []" for ks
    using that unfolding cached_def by (subst walk.simps) (simp add: reset_fields)
  with stale_dec [OF inv en n] show ?thesis by (fastforce simp: reset_fields)
qed

theorem stale_unlock_raises_witness:
  "\<exists>t. dec_lock_ref demo_leaf (reset demo3) = Raise AttributeError t \<and> tn_lock_ref (w_heap demo3 demo_leaf) = 1 \<and>
     rc_evictable_size t = 2 \<and> rc_protected_size t = - 2 \<and> rc_protected_size t < 0 \<and> cached t [1, 2] = None"
proof -
  obtain P where inv: "cache_inv demo2 P (\<lambda>_. 0)" "\<not> rc_disable demo2" by (rule reachableE [OF demo2_reachable])
  have live: "P demo_leaf \<noteq> None" using path_of_sound [OF demo2_path inv(1)] by auto
  obtain d u where d: "dec_lock_ref demo_leaf demo3 = Return d u"
    using unlock_law [OF reachable_healthy [OF demo3_reachable], of demo_leaf] by auto
  then have "d = 2" using lock_unlock(3) [OF inv(1) live inv(2) demo3_step d] by simp
  moreover have one: "tn_lock_ref (w_heap demo3 demo_leaf) = 1" by (rule demo3_lock)
  moreover have path: "path_of demo3 demo_leaf [1, 2]"
    using lock_law [OF reachable_healthy [OF demo2_reachable] demo2_path] demo2_path demo3_step by auto
  from stale_unlock_raises [OF demo3_reachable path] d one obtain t where
    "dec_lock_ref demo_leaf (reset demo3) = Raise AttributeError t" "rc_evictable_size t = d"
    "rc_protected_size t = - d" "rc_protected_size t < 0"
    "cached t = cached (reset demo3)" "cached (reset demo3) [1, 2] = None"
    by auto
  ultimately show ?thesis by simp
qed

section \<open>Eviction\<close>

text \<open>
  C9. Eviction is a run of single evictions, each of an unlocked leaf that the strategy puts
  before no other unlocked leaf, whatever order Python lists the set of leaves in and whatever
  shape the heap has. It returns the number of tokens of the victims, and gives exactly the slots
  of the victims back to the allocator, each victim's once.
\<close>

theorem evict_is_run:
  assumes "reachable s D"
  shows "\<exists>xs t. evict p s = Return
      \<lparr>er_num_tokens_evicted = int (length (concat (map (node_slots s) xs)))\<rparr> t \<and>
    evict_run (ep_num_tokens p) s xs t \<and> reachable t D \<and> distinct xs \<and>
    (\<forall>x \<in> set xs. x \<noteq> rc_root s \<and> tn_lock_ref (w_heap s x) = 0) \<and>
    (\<forall>n. (\<exists>q. path_of t n q) \<longleftrightarrow> (\<exists>q. path_of s n q) \<and> n \<notin> set xs) \<and>
    rc_allocator t = map_option (free (concat (map (node_slots s) xs))) (rc_allocator s)"
proof -
  obtain P where inv: "cache_inv s P D" "\<not> rc_disable s" by (rule reachableE [OF assms])
  obtain xs t where e: "evict p s = Return
      \<lparr>er_num_tokens_evicted = int (length (concat (map (node_slots s) xs)))\<rparr> t"
    "evict_run (ep_num_tokens p) s xs t" "evict_ok s P D (ep_num_tokens p) xs t"
    using evict_spec [OF inv] by blast
  have inv': "cache_inv t (P |` (- set xs)) D" using e(3) by (simp add: evict_ok_def)
  have "(\<exists>q. path_of t n q) \<longleftrightarrow> (\<exists>q. path_of s n q) \<and> n \<notin> set xs" for n
    unfolding path_of_iff [OF inv(1)] path_of_iff [OF inv'] by (auto simp: restrict_map_def)
  then have live: "\<forall>n. (\<exists>q. path_of t n q) \<longleftrightarrow> (\<exists>q. path_of s n q) \<and> n \<notin> set xs" ..
  show ?thesis
    by (intro exI conjI; (rule e(1,2) live reachable.evict [OF assms e(1)])?)
       (use e(3) in \<open>simp_all add: evict_ok_def\<close>)
qed

theorem evict_is_run_witness:
  "\<exists>xs t. evict \<lparr>ep_num_tokens = 3\<rparr> demo1 = Return
      \<lparr>er_num_tokens_evicted = int (length (concat (map (node_slots demo1) xs)))\<rparr> t \<and>
    evict_run 3 demo1 xs t"
  using evict_is_run [OF demo1_reachable, of "\<lparr>ep_num_tokens = 3\<rparr>"] by auto

text \<open>
  C16. Eviction reaches its target whenever it can: fewer tokens than asked for are evicted only
  if no evictable token is left. The counter drops by what was evicted, protected tokens are not
  touched, and nothing new is cached.
\<close>

theorem evict_reaches_target:
  assumes "reachable s D" "evict p s = Return e t"
  shows "(ep_num_tokens p \<le> er_num_tokens_evicted e \<or> rc_evictable_size t = 0) \<and>
    rc_evictable_size t + er_num_tokens_evicted e = rc_evictable_size s \<and>
    rc_protected_size t = rc_protected_size s \<and>
    (\<forall>ks ws. cached t ks = Some ws \<longrightarrow> cached s ks = Some ws)"
proof -
  note ok = reachable_healthy [OF assms(1)]
  have "\<forall>ks ws. cached t ks = Some ws \<longrightarrow> cached s ks = Some ws"
    using evict_law [OF ok, of p] assms(2) by auto
  with radix.shrink_bounded [OF ok assms(2)] show ?thesis by fastforce
qed

theorem evict_reaches_target_witness:
  "\<exists>e t. evict \<lparr>ep_num_tokens = 3\<rparr> demo1 = Return e t \<and>
     (3 \<le> er_num_tokens_evicted e \<or> rc_evictable_size t = 0)"
proof -
  obtain e t where e: "evict \<lparr>ep_num_tokens = 3\<rparr> demo1 = Return e t"
    using evict_law [OF reachable_healthy [OF demo1_reachable]] by blast
  from evict_reaches_target [OF demo1_reachable this] e show ?thesis by auto
qed

text \<open>
  C15. The eviction policy is obeyed and eviction stops as soon as the target is reached. When there
  is an evictable leaf and at least one token is asked for, the nodes that are live before the call
  and gone after it are a non-empty sequence of victims. Whenever a victim is removed, the victims
  before it do not add up to the target, and it is a leaf which the strategy puts before no other,
  in the cache that evicting just the victims before it leaves; the first one in the cache as it
  was. All victims together reach the target, or no evictable leaf is left.
\<close>

theorem evict_policy:
  assumes "reachable s D" "evict p s = Return e t" "0 < ep_num_tokens p"
    and "rc_evictable_leaves s \<noteq> {}"
  shows "\<exists>xs. xs \<noteq> [] \<and> distinct xs \<and>
    (\<forall>n. n \<in> set xs \<longleftrightarrow> (\<exists>q. path_of s n q) \<and> \<not> (\<exists>q. path_of t n q)) \<and>
    er_num_tokens_evicted e = int (length (concat (map (node_slots s) xs))) \<and>
    least_leaf s (hd xs) \<and>
    (\<forall>ys x zs. xs = ys @ x # zs \<longrightarrow>
       int (length (concat (map (node_slots s) ys))) < ep_num_tokens p \<and>
       (\<exists>u. evict_run (int (length (concat (map (node_slots s) ys)))) s ys u \<and> least_leaf u x)) \<and>
    (ep_num_tokens p \<le> er_num_tokens_evicted e \<or> rc_evictable_leaves t = {})"
proof -
  obtain P where inv: "cache_inv s P D" "\<not> rc_disable s" by (rule reachableE [OF assms(1)])
  obtain xs where xs: "e = \<lparr>er_num_tokens_evicted = int (length (concat (map (node_slots s) xs)))\<rparr>"
    "evict_run (ep_num_tokens p) s xs t" "evict_ok s P D (ep_num_tokens p) xs t"
    using evict_spec [OF inv, of p] assms(2) by auto
  have ne: "xs \<noteq> []" using xs(2) assms(3,4) by (auto elim: evict_run_NilE)
  then have first: "least_leaf s (hd xs)"
    using xs(2) by (cases xs) (auto elim: evict_run_ConsE)
  have inv': "cache_inv t (P |` (- set xs)) D" and live: "\<forall>x \<in> set xs. P x \<noteq> None"
    using xs(3) by (simp_all add: evict_ok_def)
  have gone: "n \<in> set xs \<longleftrightarrow> (\<exists>q. path_of s n q) \<and> \<not> (\<exists>q. path_of t n q)" for n
    unfolding path_of_iff [OF inv(1)] path_of_iff [OF inv'] using live by (auto simp: restrict_map_def)
  have step: "int (length (concat (map (node_slots s) ys))) < ep_num_tokens p \<and>
      (\<exists>u. evict_run (int (length (concat (map (node_slots s) ys)))) s ys u \<and> least_leaf u x)"
    if split: "xs = ys @ x # zs" for ys x zs
  proof -
    obtain u where "evict_run (int (length (concat (map (node_slots s) ys)))) s ys u"
      "evict_run (ep_num_tokens p - int (length (concat (map (node_slots s) ys)))) u (x # zs) t"
      using evict_run_split [OF xs(2) inv(1) split] by blast
    then show ?thesis by (auto elim: evict_run_ConsE)
  qed
  show ?thesis
    by (rule exI [of _ xs]) (use ne first gone step xs(1,3) in \<open>simp add: evict_ok_def\<close>)
qed

theorem evict_policy_witness:
  "\<exists>e t xs. evict \<lparr>ep_num_tokens = 3\<rparr> demo1 = Return e t \<and> least_leaf demo1 (hd xs) \<and>
     (\<exists>q. path_of demo1 (hd xs) q) \<and> \<not> (\<exists>q. path_of t (hd xs) q) \<and>
     int (length (concat (map (node_slots demo1) (butlast xs)))) < 3"
proof -
  obtain e t where e: "evict \<lparr>ep_num_tokens = 3\<rparr> demo1 = Return e t"
    using evict_law [OF reachable_healthy [OF demo1_reachable]] by blast
  have "0 < ep_num_tokens \<lparr>ep_num_tokens = 3\<rparr>" "rc_evictable_leaves demo1 \<noteq> {}"
    by (simp_all add: demo1_eq)
  from evict_policy [OF demo1_reachable e this] obtain xs where xs: "xs \<noteq> []" "least_leaf demo1 (hd xs)"
    "\<And>n. n \<in> set xs \<longleftrightarrow> (\<exists>q. path_of demo1 n q) \<and> \<not> (\<exists>q. path_of t n q)"
    "\<And>ys x zs. xs = ys @ x # zs \<Longrightarrow> int (length (concat (map (node_slots demo1) ys))) < 3"
    by auto
  have "hd xs \<in> set xs" "xs = butlast xs @ last xs # []" using xs(1) by simp_all
  with xs e show ?thesis by blast
qed

text \<open>
  C39. The strategy \<open>lfu\<close> is the strategy \<open>lru\<close>: no operation counts hits, so that from any state
  of an LFU cache eviction takes the same leaves in the same order, and leaves the same state, as
  it would with an LRU strategy.
\<close>

theorem lfu_is_lru:
  assumes "reachable s D" "rc_strategy s = LFUStrategy"
  shows "\<exists>e t. evict p s = Return e t \<and>
    evict p (s\<lparr>rc_strategy := LRUStrategy\<rparr>) = Return e (t\<lparr>rc_strategy := LRUStrategy\<rparr>)"
  by (rule reachable_lfu_evict [OF assms])

theorem lfu_is_lru_witness:
  "\<exists>s e t. radix_insert demo_insert (demo_cache LFUStrategy) = Return \<lparr>ir_prefix_len = 0\<rparr> s \<and>
     evict \<lparr>ep_num_tokens = 4\<rparr> s = Return e t \<and> 4 \<le> er_num_tokens_evicted e \<and>
     evict \<lparr>ep_num_tokens = 4\<rparr> (s\<lparr>rc_strategy := LRUStrategy\<rparr>) = Return e (t\<lparr>rc_strategy := LRUStrategy\<rparr>)"
proof -
  let ?p = "\<lparr>ep_num_tokens = 4\<rparr>" and ?params = "CacheInitParams_default\<lparr>cp_eviction_policy := ''LFU''\<rparr>"
  have "strategy_of_policy (py_lower ''LFU'') = Some LFUStrategy" by code_simp
  then have "radix_init (Some ?params) demo_world = Inr (demo_cache LFUStrategy)"
    by (simp add: radix_init_def CacheInitParams_default_def demo_cache_def)
  then have reach: "reachable (demo_cache LFUStrategy) (\<lambda>_. 0)"
    by (rule reachable.init [OF _ set_order_demo])
       (simp add: demo_cache_def reset_fields demo_world_def py_world.defs radix_cache.defs)
  obtain s where s: "radix_insert demo_insert (demo_cache LFUStrategy) = Return \<lparr>ir_prefix_len = 0\<rparr> s"
    "rc_evictable_size s = 4" "rc_strategy s = LFUStrategy"
    by (simp add: demo_insert_def insert_eval)
  have r: "reachable s (\<lambda>_. 0)" by (rule reachable.insert [OF reach demo_insert_len s(1)])
  obtain e t where e: "evict ?p s = Return e t"
    "evict ?p (s\<lparr>rc_strategy := LRUStrategy\<rparr>) = Return e (t\<lparr>rc_strategy := LRUStrategy\<rparr>)"
    using lfu_is_lru [OF r s(3)] by blast
  have "4 \<le> er_num_tokens_evicted e"
    using radix.shrink_bounded [OF reachable_healthy [OF r] e(1)] s(2) by fastforce
  with s(1) e show ?thesis by blast
qed

section \<open>Sizes, printing, the disabled cache\<close>

text \<open>
  C40. \<open>total_size\<close> terminates, changes nothing, and counts every cached token once: it is the
  sum of the evictable and the protected counter.
\<close>

theorem total_size_is_sum:
  assumes "reachable s D"
  shows "total_size s = Return (evictable_size s + protected_size s) s"
proof -
  obtain P where "cache_inv s P D" by (rule reachableE [OF assms])
  then show ?thesis
    unfolding evictable_size_def protected_size_def by (rule total_size_spec)
qed

theorem total_size_is_sum_witness: "total_size demo1 = Return 4 demo1"
  using total_size_is_sum [OF demo1_reachable]
  by (simp add: evictable_size_def protected_size_def demo1_eq)

text \<open>
  \<open>pretty_print\<close> terminates and prints one line for every node of the tree, no node twice,
  and the total number of tokens.
\<close>

theorem pretty_print_complete:
  assumes "reachable s D"
  shows "\<exists>ns lines. pretty_print s = Some (lines, evictable_size s + protected_size s) \<and>
    distinct ns \<and> set ns = {n. \<exists>q. path_of s n q} \<and> map snd lines = map (node_line s) ns"
proof -
  obtain P where inv: "cache_inv s P D" by (rule reachableE [OF assms])
  have "dom P = {n. \<exists>q. path_of s n q}"
    unfolding path_of_iff [OF inv] by auto
  with pretty_print_spec [OF inv] show ?thesis
    unfolding evictable_size_def protected_size_def by simp
qed

theorem pretty_print_complete_witness:
  "\<exists>ns lines. pretty_print demo1 = Some (lines, 4) \<and> map snd lines = map (node_line demo1) ns"
  using pretty_print_complete [OF demo1_reachable]
  by (auto simp: evictable_size_def protected_size_def demo1_eq)

section \<open>The parts below\<close>

text \<open>
  The pool allocator never hands out a slot twice: if \<open>held\<close> are the slots handed out and
  not returned, a successful \<open>alloc n\<close> returns \<open>n\<close> different slots of \<open>1..pool_size\<close>,
  none of them held; it fails, leaving the free list alone, exactly when fewer than \<open>n\<close> are free.
\<close>

theorem alloc_fresh:
  assumes "alloc_inv a held" "0 < n"
  shows "if n \<le> available_size a
    then \<exists>xs b. alloc n a = Return xs b \<and> int (length xs) = n \<and> distinct xs \<and>
      set xs \<subseteq> {1..al_pool_size a} \<and> set xs \<inter> set_mset held = {} \<and>
      alloc_inv b (held + mset xs) \<and> alloc_inv (free xs b) held
    else alloc n a = Raise MemoryError a"
proof (cases "n \<le> available_size a")
  case True
  then obtain xs b where xs: "alloc n a = Return xs b"
    using pool_alloc.get_ok [of n a] assms(2) by auto
  have n: "0 \<le> n" using assms(2) by simp
  show ?thesis
    using True xs pool_alloc.get_fresh [OF assms(1) xs] pool_alloc.get_length [OF n xs]
      pool_alloc.get_inv [OF assms(1) xs] pool_alloc.put_get [OF assms(1) n xs] by simp
next
  case False
  then show ?thesis using pool_alloc.get_full [of a n] assms(2) by simp
qed

theorem alloc_fresh_witness:
  "case alloc_init 4 of Inl e \<Rightarrow> False
   | Inr a \<Rightarrow> \<exists>xs b. alloc 3 a = Return xs b \<and> distinct xs \<and> alloc_inv b (mset xs)"
proof -
  obtain a where a: "alloc_init 4 = Inr a" "available_size a = 4"
    by (simp add: alloc_init_def available_size_def)
  from alloc_fresh [OF alloc_init_inv [OF a(1)], of 3] a(2) have
    "\<exists>xs b. alloc 3 a = Return xs b \<and> distinct xs \<and> alloc_inv b (mset xs)" by auto
  with a(1) show ?thesis by simp
qed

end
