(* ===== verification/Pooled_Cache.thy ===== *)
theory Pooled_Cache
  imports Radix_Contract
begin

text \<open>
  A prefix cache over an allocator of slots, as the model runner uses it: the contract
  \<open>prefix_cache\<close> with the allocator the cache refers to, which of its methods only eviction
  changes. The lemmas say what the calls do to the slots: a slot of the cache is the slot of the
  last token of exactly one cached prefix, its owner, and stays so.
\<close>

section \<open>Slots and their owners\<close>

definition owns :: "(token list \<Rightarrow> slot list option) \<Rightarrow> token list \<Rightarrow> slot \<Rightarrow> bool" where
  "owns c ks x \<longleftrightarrow> (\<exists>ws. c ks = Some (ws @ [x]))"

definition cached_slots :: "(token list \<Rightarrow> slot list option) \<Rightarrow> slot set" where
  "cached_slots c = {x. \<exists>ks. owns c ks x}"

definition unique_owner :: "(token list \<Rightarrow> slot list option) \<Rightarrow> bool" where
  "unique_owner c \<longleftrightarrow> (\<forall>ks js x. owns c ks x \<longrightarrow> owns c js x \<longrightarrow> ks = js)"

lemma ownsI: "c ks = Some ws \<Longrightarrow> ws \<noteq> [] \<Longrightarrow> last ws = x \<Longrightarrow> owns c ks x"
  unfolding owns_def by (metis append_butlast_last_id)

lemma owns_cached: "owns c ks x \<Longrightarrow> x \<in> cached_slots c"
  by (auto simp: cached_slots_def)

lemma owns_fun: "owns c ks x \<Longrightarrow> owns c ks y \<Longrightarrow> x = y"
  by (auto simp: owns_def)

lemma unique_ownerD: "unique_owner c \<Longrightarrow> owns c ks x \<Longrightarrow> owns c js x \<Longrightarrow> ks = js"
  by (auto simp: unique_owner_def)

lemma set_drop_iff: "x \<in> set (drop n xs) \<longleftrightarrow> (\<exists>j. n \<le> j \<and> j < length xs \<and> x = xs ! j)"
proof
  assume "x \<in> set (drop n xs)"
  then obtain i where "i < length xs - n" "x = xs ! (n + i)" by (auto simp: in_set_conv_nth)
  then show "\<exists>j. n \<le> j \<and> j < length xs \<and> x = xs ! j" by (intro exI [of _ "n + i"]) auto
next
  assume "\<exists>j. n \<le> j \<and> j < length xs \<and> x = xs ! j"
  then obtain j where "n \<le> j" "j < length xs" "x = xs ! j" by blast
  then have "j - n < length (drop n xs)" "drop n xs ! (j - n) = x" by auto
  then show "x \<in> set (drop n xs)" using nth_mem by blast
qed

lemma unique_owner_empty: "unique_owner (\<lambda>ks. if ks = [] then Some [] else None)"
  by (auto simp: unique_owner_def owns_def split: if_splits)

section \<open>The contract\<close>

locale pooled_cache =
  prefix_cache ok content stands lookup store hold release shrink loose pinned
  for ok :: "'s \<Rightarrow> (node_id \<Rightarrow> nat) \<Rightarrow> bool" and content stands lookup store hold release shrink
    and loose pinned +
  fixes pool_of :: "'s \<Rightarrow> token_allocator option"
    and with_pool :: "token_allocator \<Rightarrow> 's \<Rightarrow> 's"
  assumes lookup_pool: "ok s D \<Longrightarrow> lookup key s = Return r t \<Longrightarrow> pool_of t = pool_of s"
    and store_pool: "ok s D \<Longrightarrow> length (param_value ip) = length (ip_key ip) \<Longrightarrow>
      store ip s = Return i t \<Longrightarrow> pool_of t = pool_of s"
    and hold_pool: "ok s D \<Longrightarrow> stands s n q \<Longrightarrow> hold n s = Return d t \<Longrightarrow> pool_of t = pool_of s"
    and release_pool: "ok s D \<Longrightarrow> 0 < D n \<Longrightarrow> release n s = Return d t \<Longrightarrow> pool_of t = pool_of s"
    and with_pool_ok: "ok s D \<Longrightarrow> ok (with_pool a s) D \<and> content (with_pool a s) = content s \<and>
      stands (with_pool a s) = stands s \<and> pool_of (with_pool a s) = Some a"
begin

lemma owns_nth:
  assumes "ok s D" "content s ks = Some ws" "i < length ks"
  shows "owns (content s) (take (Suc i) ks) (ws ! i)"
proof -
  have len: "length ws = length ks" by (rule content_length [OF assms(1,2)])
  have "content s (take (Suc i) ks) = Some (take (Suc i) ws)"
    using content_closed [OF assms(1,2) take_is_prefix, of "Suc i"] assms(3) len by (auto simp: min_def)
  moreover have "take (Suc i) ws \<noteq> []" "last (take (Suc i) ws) = ws ! i"
    using assms(3) len by (simp_all add: take_Suc_conv_app_nth)
  ultimately show ?thesis by (rule ownsI)
qed

lemma owns_nonempty: "ok s D \<Longrightarrow> owns (content s) ks x \<Longrightarrow> ks \<noteq> []"
  unfolding owns_def using content_length by fastforce

lemma content_in_cached_slots:
  assumes "ok s D" "content s ks = Some ws"
  shows "set ws \<subseteq> cached_slots (content s)"
proof
  fix x assume "x \<in> set ws"
  then obtain i where "i < length ws" "x = ws ! i" by (auto simp: in_set_conv_nth)
  then show "x \<in> cached_slots (content s)"
    using owns_nth [OF assms] content_length [OF assms] owns_cached by metis
qed

lemma content_distinct:
  assumes "ok s D" "content s ks = Some ws" "unique_owner (content s)"
  shows "distinct ws"
  unfolding distinct_conv_nth
proof (intro allI impI)
  fix i j assume "i < length ws" "j < length ws" "i \<noteq> j"
  then have "i < length ks" "j < length ks" "take (Suc i) ks \<noteq> take (Suc j) ks"
    using content_length [OF assms(1,2)] by (auto dest: arg_cong [where f = length])
  then show "ws ! i \<noteq> ws ! j"
    using owns_nth [OF assms(1,2)] unique_ownerD [OF assms(3)] by metis
qed

text \<open>
  \<open>store\<close> makes owners of the prefixes that were not cached, with the slots given for them, and
  leaves every slot that had an owner with that owner.
\<close>

lemma store_owns:
  assumes ok: "ok s D" and len: "length (param_value ip) = length (ip_key ip)"
    and st: "store ip s = Return i t"
  shows "owns (content t) js x \<longleftrightarrow> owns (content s) js x \<or>
    (\<exists>j. ir_prefix_len i \<le> j \<and> j < length (ip_key ip) \<and> js = take (Suc j) (ip_key ip) \<and>
       x = param_value ip ! j)" (is "?new \<longleftrightarrow> ?old \<or> ?add")
proof -
  obtain n ms where n: "ir_prefix_len i = n" "ok t D" "n \<le> length (ip_key ip)"
    "content s (take n (ip_key ip)) = Some ms"
    "\<forall>ks ws. content t ks = Some ws \<longleftrightarrow> content s ks = Some ws \<or>
       (prefix ks (ip_key ip) \<and> ws = take (length ks) (ms @ drop n (param_value ip)))"
    using store_ok [OF ok len] st by auto
  let ?all = "ms @ drop n (param_value ip)"
  have ms: "length ms = n" using content_length [OF ok n(4)] n(3) by simp
  have full: "content t (ip_key ip) = Some ?all"
    using n(3,5) len ms by auto
  have at: "owns (content t) (take (Suc j) (ip_key ip)) (?all ! j)" if "j < length (ip_key ip)" for j
    by (rule owns_nth [OF n(2) full that])
  have old: "owns (content t) js x" if "owns (content s) js x" for js x
    using that n(5) unfolding owns_def by blast
  show ?thesis
  proof
    assume new: ?new
    then obtain ws where ws: "content t js = Some (ws @ [x])" by (auto simp: owns_def)
    show "?old \<or> ?add"
    proof (cases "content s js = Some (ws @ [x])")
      case True
      then show ?thesis by (auto simp: owns_def)
    next
      case False
      then have js: "prefix js (ip_key ip)" "ws @ [x] = take (length js) ?all"
        using n(5) ws by auto
      let ?j = "length ws"
      have "length js = Suc ?j" using content_length [OF n(2) ws] by simp
      then have j: "?j < length (ip_key ip)" "js = take (Suc ?j) (ip_key ip)"
        using js(1) by (simp_all add: prefix_take_iff)
      have x: "x = ?all ! ?j" using owns_fun [OF new] at [OF j(1)] j(2) by simp
      have old: "owns (content s) js x" if "?j < n"
      proof -
        have "take (Suc ?j) (take n (ip_key ip)) = js" using that j(2) by (simp add: min_def)
        then show ?thesis
          using owns_nth [OF ok n(4), of ?j] that j(1) x ms by (simp add: nth_append)
      qed
      have new: "x = param_value ip ! ?j" if "\<not> ?j < n"
        using that x ms len js j(1) by (simp add: nth_append)
      show ?thesis
      proof (cases "?j < n")
        case True
        then show ?thesis using old j(2) by blast
      next
        case False
        then have "ir_prefix_len i \<le> ?j \<and> ?j < length (ip_key ip) \<and>
            js = take (Suc ?j) (ip_key ip) \<and> x = param_value ip ! ?j"
          using new j n(1) by simp
        then show ?thesis by blast
      qed
    qed
  next
    assume "?old \<or> ?add"
    then show ?new
    proof
      assume ?add
      then obtain j where j: "n \<le> j" "j < length (ip_key ip)" "js = take (Suc j) (ip_key ip)"
        "x = param_value ip ! j" using n(1) by auto
      then have "?all ! j = x" using ms len by (simp add: nth_append)
      with at [OF j(2)] j(3) show ?new by simp
    qed (rule old)
  qed
qed

lemma store_cached_slots:
  assumes "ok s D" "length (param_value ip) = length (ip_key ip)" "store ip s = Return i t"
  shows "cached_slots (content t) =
    cached_slots (content s) \<union> set (drop (ir_prefix_len i) (param_value ip))"
proof (rule set_eqI)
  fix x
  have "x \<in> cached_slots (content t) \<longleftrightarrow> x \<in> cached_slots (content s) \<or>
      (\<exists>j. ir_prefix_len i \<le> j \<and> j < length (ip_key ip) \<and> x = param_value ip ! j)"
    unfolding cached_slots_def mem_Collect_eq store_owns [OF assms] by fast
  then show "x \<in> cached_slots (content t) \<longleftrightarrow>
      x \<in> cached_slots (content s) \<union> set (drop (ir_prefix_len i) (param_value ip))"
    by (simp add: set_drop_iff assms(2))
qed

lemma store_unique:
  assumes "ok s D" "length (param_value ip) = length (ip_key ip)" "store ip s = Return i t"
    and u: "unique_owner (content s)" and d: "distinct (drop (ir_prefix_len i) (param_value ip))"
    and fresh: "set (drop (ir_prefix_len i) (param_value ip)) \<inter> cached_slots (content s) = {}"
  shows "unique_owner (content t)"
proof -
  let ?n = "ir_prefix_len i" and ?v = "param_value ip"
  have new: "\<not> owns (content s) ks (?v ! j)" if "?n \<le> j" "j < length ?v" for j ks
  proof -
    have "?v ! j \<in> set (drop ?n ?v)" unfolding set_drop_iff using that by blast
    with fresh show ?thesis using owns_cached by blast
  qed
  have inj: "j = k" if "?n \<le> j" "j < length ?v" "?n \<le> k" "k < length ?v" "?v ! j = ?v ! k" for j k
  proof -
    have lt: "j - ?n < length ?v - ?n" "k - ?n < length ?v - ?n" using that by linarith+
    then have "j - ?n = k - ?n"
      using nth_eq_iff_index_eq [OF d, of "j - ?n" "k - ?n"] that by simp
    then show ?thesis using that by linarith
  qed
  show ?thesis
    unfolding unique_owner_def store_owns [OF assms(1-3)]
  proof (intro allI impI; elim disjE exE conjE)
    fix ks js x assume "owns (content s) ks x" "owns (content s) js x"
    then show "ks = js" by (rule unique_ownerD [OF u])
  qed (use new inj assms(2) in auto)
qed

text \<open>What is found for a key after it was looked up before and then stored with fresh slots.\<close>

lemma lookup_store_lookup:
  assumes ok: "ok s D" and l: "lookup key s = Return r t" and ok': "ok u D" and c: "content u = content s"
    and vals: "length (mr_device_indices r @ vals) = length key"
    and st: "store (InsertParams key (Some (mr_device_indices r @ vals))) u = Return i v"
  shows "ir_prefix_len i = length (mr_device_indices r)"
    and "content v key = Some (mr_device_indices r @ vals)"
proof -
  let ?p = "InsertParams key (Some (mr_device_indices r @ vals))"
  have p: "ip_key ?p = key" "param_value ?p = mr_device_indices r @ vals"
    by (simp_all add: InsertParams_def param_value_def)
  obtain q where q: "prefix q key" "content s q = Some (mr_device_indices r)"
    "\<forall>ks. prefix ks key \<longrightarrow> length q < length ks \<longrightarrow> content s ks = None"
    using lookup_ok [OF ok, of key] l by auto
  obtain n ms where n: "ir_prefix_len i = n" "n \<le> length key" "content s (take n key) = Some ms"
    "\<forall>ks. prefix ks key \<longrightarrow> n < length ks \<longrightarrow> content s ks = None"
    "\<forall>ks ws. content v ks = Some ws \<longleftrightarrow> content s ks = Some ws \<or>
       (prefix ks key \<and> ws = take (length ks) (ms @ drop n (param_value ?p)))"
    using store_ok [OF ok', of ?p] st vals by (auto simp: c p)
  have "\<not> length q < n" using q(3) n(2,3) take_is_prefix [of n key] by fastforce
  moreover have "\<not> n < length q" using n(4) q(1,2) by fastforce
  ultimately have len: "n = length q" by simp
  then have "take n key = q" using q(1) by (simp add: prefix_take_iff)
  then have ms: "ms = mr_device_indices r" "length ms = n"
    using q(2) n(3) content_length [OF ok q(2)] len by simp_all
  then show "ir_prefix_len i = length (mr_device_indices r)" using n(1) by simp
  have "content v key = Some (take (length key) (ms @ drop n (param_value ?p)))"
    using n(5) by blast
  then show "content v key = Some (mr_device_indices r @ vals)"
    using ms vals p(2) by simp
qed

end

section \<open>The radix cache\<close>

lemma match_pool:
  assumes "healthy s D" "match_prefix key s = Return r t"
  shows "rc_allocator t = rc_allocator s"
proof -
  obtain P where inv: "cache_inv s P D" "\<not> rc_disable s" by (rule healthyE [OF assms(1)])
  then obtain P' q where "match_ok s P D key r t P' q"
    using match_prefix_spec [OF inv, of key] assms(2) by auto
  then show ?thesis by (auto simp: match_ok_def reshaped_def)
qed

lemma insert_pool:
  assumes "healthy s D" "length (param_value p) = length (ip_key p)" "radix_insert p s = Return i t"
  shows "rc_allocator t = rc_allocator s"
proof -
  obtain P where inv: "cache_inv s P D" "\<not> rc_disable s" by (rule healthyE [OF assms(1)])
  then obtain n P' where "insert_ok s P D (ip_key p) (param_value p) n t P'"
    using radix_insert_spec [OF inv assms(2)] assms(3) by auto
  then show ?thesis by (auto simp: insert_ok_def)
qed

lemma lock_pool:
  assumes "healthy s D" "path_of s n q" "inc_lock_ref n s = Return d t"
  shows "rc_allocator t = rc_allocator s"
proof -
  obtain P where inv: "cache_inv s P D" "\<not> rc_disable s" by (rule healthyE [OF assms(1)])
  have "P n \<noteq> None" using path_of_sound [OF assms(2) inv(1)] by blast
  then have "relocked s t"
    using inc_lock_ref_spec [OF inv(1) _ inv(2), of n] assms(3) by auto
  then show ?thesis by (simp add: relocked_def)
qed

lemma unlock_pool:
  assumes "healthy s D" "0 < D n" "dec_lock_ref n s = Return d t"
  shows "rc_allocator t = rc_allocator s"
proof -
  obtain P where inv: "cache_inv s P D" "\<not> rc_disable s" by (rule healthyE [OF assms(1)])
  have "relocked s t" using dec_lock_ref_spec [OF inv(1) assms(2) inv(2)] assms(3) by auto
  then show ?thesis by (simp add: relocked_def)
qed

lemma attach_law:
  assumes "healthy s D"
  shows "healthy (set_allocator a s) D \<and> cached (set_allocator a s) = cached s \<and>
    path_of (set_allocator a s) = path_of s \<and> rc_allocator (set_allocator a s) = Some a"
proof -
  obtain P where inv: "cache_inv s P D" by (rule healthyE [OF assms])
  have "path_of (set_allocator a s) n q \<longleftrightarrow> path_of s n q" for n q
    using path_of_iff [OF inv] path_of_iff [OF set_allocator_inv [OF inv]] by simp
  then show ?thesis
    using healthy_attach [OF assms] by (auto simp: set_allocator_def cached_def fun_eq_iff)
qed

interpretation radix_pool: pooled_cache healthy cached path_of match_prefix radix_insert
  inc_lock_ref dec_lock_ref evict rc_evictable_size rc_protected_size rc_allocator set_allocator
  by unfold_locales (rule match_pool insert_pool lock_pool unlock_pool attach_law; assumption)+

end
