(* ===== verification/Token_Pool.thy ===== *)
theory Token_Pool
  imports Py_Prelude
begin

text \<open>
  \<open>MHATokenPool\<close> and \<open>PooledKVCache\<close> of \<open>memory_pool.py\<close>.

  The arrays are those of the package \<open>mlx.core\<close>, which is no part of this repository: their
  type \<open>'a\<close> is a parameter, and so are the seven array operations the two classes call (the
  record \<open>mlx\<close>). What the code relies on is \<open>mlx_laws\<close>, the documented meaning of these
  operations entry by entry, where \<open>elt x [i, j, \<dots>]\<close> is the entry of the array \<open>x\<close> at a
  position. A slot is a Python integer, a shape a list of numbers.

  An indexed assignment converts what it stores to the dtype of the buffer (\<open>float16\<close> unless the
  caller says otherwise). The laws describe arrays of one dtype, for which the conversion is the
  identity: what is said below of stored data is for a model that computes its keys and values in
  the dtype of the pool.

  All layers and all requests share one pool object, so the pool is a state that is passed through;
  a \<open>PooledKVCache\<close> has its own fields and refers to the pool.
\<close>

section \<open>The array package\<close>

record ('a, 'd) mlx =
  mx_zeros :: "int option list \<Rightarrow> 'd \<Rightarrow> py_exn + 'a"
  mx_first :: "'a \<Rightarrow> 'a"
  mx_transpose :: "nat list \<Rightarrow> 'a \<Rightarrow> 'a"
  mx_array :: "int list \<Rightarrow> 'a"
  mx_gather :: "'a \<Rightarrow> 'a \<Rightarrow> 'a"
  mx_scatter :: "'a \<Rightarrow> 'a \<Rightarrow> 'a \<Rightarrow> py_exn + 'a"
  mx_expand_dims :: "nat \<Rightarrow> 'a \<Rightarrow> 'a"
  mx_shape :: "'a \<Rightarrow> nat list"

text \<open>\<open>x[0]\<close>, \<open>transpose\<close> with axes \<open>(1, 0, 2)\<close>, \<open>expand_dims\<close> at axis 0.\<close>

definition reshape_laws :: "('a, 'd) mlx \<Rightarrow> ('a \<Rightarrow> nat list \<Rightarrow> 'e) \<Rightarrow> bool" where
  "reshape_laws mx elt \<longleftrightarrow>
     (\<forall>x b sh. mx_shape mx x = b # sh \<longrightarrow> 0 < b \<longrightarrow>
        mx_shape mx (mx_first mx x) = sh \<and>
        (\<forall>is. list_all2 (<) is sh \<longrightarrow> elt (mx_first mx x) is = elt x (0 # is))) \<and>
     (\<forall>x a b c. mx_shape mx x = [a, b, c] \<longrightarrow>
        mx_shape mx (mx_transpose mx [1, 0, 2] x) = [b, a, c] \<and>
        (\<forall>i < b. \<forall>j < a. \<forall>k < c. elt (mx_transpose mx [1, 0, 2] x) [i, j, k] = elt x [j, i, k])) \<and>
     (\<forall>x. mx_shape mx (mx_expand_dims mx 0 x) = 1 # mx_shape mx x \<and>
        (\<forall>is. list_all2 (<) is (mx_shape mx x) \<longrightarrow>
           elt (mx_expand_dims mx 0 x) (0 # is) = elt x is))"

text \<open>
  Reading and writing rows \<open>x[idx]\<close> with an index array. An empty list makes no index array
  (its entries have a floating-point type), and writing needs distinct rows.
\<close>

definition rows_laws :: "('a, 'd) mlx \<Rightarrow> ('a \<Rightarrow> nat list \<Rightarrow> 'e) \<Rightarrow> bool" where
  "rows_laws mx elt \<longleftrightarrow>
     (\<forall>x p h d ixs. mx_shape mx x = [p, h, d] \<longrightarrow> ixs \<noteq> [] \<longrightarrow>
        set ixs \<subseteq> {0..<int p} \<longrightarrow>
        mx_shape mx (mx_gather mx x (mx_array mx ixs)) = [length ixs, h, d] \<and>
        (\<forall>t < length ixs. \<forall>i < h. \<forall>j < d.
           elt (mx_gather mx x (mx_array mx ixs)) [t, i, j] = elt x [nat (ixs ! t), i, j])) \<and>
     (\<forall>x y p h d ixs. mx_shape mx x = [p, h, d] \<longrightarrow> mx_shape mx y = [length ixs, h, d] \<longrightarrow>
        ixs \<noteq> [] \<longrightarrow> set ixs \<subseteq> {0..<int p} \<longrightarrow> distinct ixs \<longrightarrow>
        (\<exists>z. mx_scatter mx x (mx_array mx ixs) y = Inr z \<and> mx_shape mx z = [p, h, d] \<and>
           (\<forall>t < length ixs. \<forall>i < h. \<forall>j < d. elt z [nat (ixs ! t), i, j] = elt y [t, i, j]) \<and>
           (\<forall>n < p. \<forall>i < h. \<forall>j < d. int n \<notin> set ixs \<longrightarrow> elt z [n, i, j] = elt x [n, i, j])))"

definition zeros_law :: "('a, 'd) mlx \<Rightarrow> bool" where
  "zeros_law mx \<longleftrightarrow>
     (\<forall>sh dt. (\<forall>n \<in> set sh. 0 \<le> n) \<longrightarrow>
        (\<exists>z. mx_zeros mx (map Some sh) dt = Inr z \<and> mx_shape mx z = map nat sh))"

definition mlx_laws :: "('a, 'd) mlx \<Rightarrow> ('a \<Rightarrow> nat list \<Rightarrow> 'e) \<Rightarrow> bool" where
  "mlx_laws mx elt \<longleftrightarrow> reshape_laws mx elt \<and> rows_laws mx elt \<and> zeros_law mx"

section \<open>MHATokenPool\<close>

text \<open>
  The dimensions come from a model's configuration, where one may be missing (\<open>None\<close>); the
  array package then raises an exception when it is asked for an array of that shape.
\<close>

record ('a, 'd) token_pool =
  tp_pool_size :: int
  tp_num_layers :: "int option"
  tp_n_kv_heads :: "int option"
  tp_head_dim :: "int option"
  tp_dtype :: 'd
  tp_k_buffer :: "'a list"
  tp_v_buffer :: "'a list"

definition zero_buffers :: "('a, 'd) mlx \<Rightarrow> int option list \<Rightarrow> 'd \<Rightarrow> int \<Rightarrow> py_exn + 'a list" where
  "zero_buffers mx shape dtype num_layers =
     (if num_layers \<le> 0 then Inr []
      else case mx_zeros mx shape dtype of
        Inl e \<Rightarrow> Inl e
      | Inr z \<Rightarrow> Inr (replicate (nat num_layers) z))"

definition pool_init ::
  "('a, 'd) mlx \<Rightarrow> int \<Rightarrow> int option \<Rightarrow> int option \<Rightarrow> int option \<Rightarrow> 'd \<Rightarrow>
     py_exn + ('a, 'd) token_pool" where
  "pool_init mx pool_size num_layers n_kv_heads head_dim dtype =
     (let shape = [Some (pool_size + 1), n_kv_heads, head_dim] in
      case num_layers of
        None \<Rightarrow> Inl TypeError
      | Some l \<Rightarrow>
          (case zero_buffers mx shape dtype l of
             Inl e \<Rightarrow> Inl e
           | Inr kb \<Rightarrow>
               (case zero_buffers mx shape dtype l of
                  Inl e \<Rightarrow> Inl e
                | Inr vb \<Rightarrow>
                    Inr \<lparr>tp_pool_size = pool_size, tp_num_layers = num_layers,
                         tp_n_kv_heads = n_kv_heads, tp_head_dim = head_dim, tp_dtype = dtype,
                         tp_k_buffer = kb, tp_v_buffer = vb\<rparr>)))"

text \<open>The position a Python list index means; negative ones count from the end.\<close>

definition py_index :: "nat \<Rightarrow> int \<Rightarrow> nat option" where
  "py_index len i =
     (if 0 \<le> i \<and> i < int len then Some (nat i)
      else if - int len \<le> i \<and> i < 0 then Some (nat (int len + i))
      else None)"

definition store ::
  "('a, 'd) mlx \<Rightarrow> int \<Rightarrow> int list \<Rightarrow> 'a \<Rightarrow> 'a \<Rightarrow> ('a, 'd) token_pool \<Rightarrow>
     (unit, ('a, 'd) token_pool) outcome" where
  "store mx layer_idx indices keys vals p =
     (let k = mx_transpose mx [1, 0, 2] (mx_first mx keys);
          v = mx_transpose mx [1, 0, 2] (mx_first mx vals);
          idx = mx_array mx indices
      in
      case py_index (length (tp_k_buffer p)) layer_idx of
        None \<Rightarrow> Raise IndexError p
      | Some l \<Rightarrow>
          (case mx_scatter mx (tp_k_buffer p ! l) idx k of
             Inl e \<Rightarrow> Raise e p
           | Inr kb \<Rightarrow>
               (let p1 = p\<lparr>tp_k_buffer := (tp_k_buffer p)[l := kb]\<rparr> in
                case py_index (length (tp_v_buffer p1)) layer_idx of
                  None \<Rightarrow> Raise IndexError p1
                | Some m \<Rightarrow>
                    (case mx_scatter mx (tp_v_buffer p1 ! m) idx v of
                       Inl e \<Rightarrow> Raise e p1
                     | Inr vb \<Rightarrow>
                         Return () (p1\<lparr>tp_v_buffer := (tp_v_buffer p1)[m := vb]\<rparr>)))))"

definition fetch ::
  "('a, 'd) mlx \<Rightarrow> int \<Rightarrow> int list \<Rightarrow> ('a, 'd) token_pool \<Rightarrow>
     ('a \<times> 'a, ('a, 'd) token_pool) outcome" where
  "fetch mx layer_idx indices p =
     (let idx = mx_array mx indices in
      case (py_index (length (tp_k_buffer p)) layer_idx, py_index (length (tp_v_buffer p)) layer_idx) of
        (Some l, Some m) \<Rightarrow>
          (let k = mx_gather mx (tp_k_buffer p ! l) idx;
               v = mx_gather mx (tp_v_buffer p ! m) idx;
               k = mx_transpose mx [1, 0, 2] k;
               v = mx_transpose mx [1, 0, 2] v;
               k = mx_expand_dims mx 0 k;
               v = mx_expand_dims mx 0 v
           in Return (k, v) p)
      | _ \<Rightarrow> Raise IndexError p)"

section \<open>PooledKVCache\<close>

record pooled_kv_cache =
  pk_layer_idx :: int
  pk_prefix_indices :: "int list"
  pk_new_indices :: "int list"
  pk_store_offset :: nat

definition kv_init :: "int \<Rightarrow> pooled_kv_cache" where
  "kv_init layer_idx =
     \<lparr>pk_layer_idx = layer_idx, pk_prefix_indices = [], pk_new_indices = [], pk_store_offset = 0\<rparr>"

definition set_indices :: "int list \<Rightarrow> int list \<Rightarrow> pooled_kv_cache \<Rightarrow> pooled_kv_cache" where
  "set_indices prefix_indices new_indices c =
     c\<lparr>pk_prefix_indices := prefix_indices, pk_new_indices := new_indices, pk_store_offset := 0\<rparr>"

definition kv_offset :: "pooled_kv_cache \<Rightarrow> nat" where
  "kv_offset c = length (pk_prefix_indices c)"

definition all_indices :: "pooled_kv_cache \<Rightarrow> int list" where
  "all_indices c = pk_prefix_indices c @ take (pk_store_offset c) (pk_new_indices c)"

text \<open>The state of the two methods that touch the pool is the cache with the pool it refers to.\<close>

definition with_cache ::
  "pooled_kv_cache \<Rightarrow> ('r, 'p) outcome \<Rightarrow> ('r, pooled_kv_cache \<times> 'p) outcome" where
  "with_cache c r =
     (case r of Return x p \<Rightarrow> Return x (c, p) | Raise e p \<Rightarrow> Raise e (c, p) | Diverge \<Rightarrow> Diverge)"

definition update_and_fetch ::
  "('a, 'd) mlx \<Rightarrow> 'a \<Rightarrow> 'a \<Rightarrow> pooled_kv_cache \<times> ('a, 'd) token_pool \<Rightarrow>
     ('a \<times> 'a, pooled_kv_cache \<times> ('a, 'd) token_pool) outcome" where
  "update_and_fetch mx keys vals s =
     (case s of (c, p) \<Rightarrow>
        if length (mx_shape mx keys) \<le> 2 then Raise IndexError (c, p)
        else
          let n_new = mx_shape mx keys ! 2;
              store_indices = take n_new (drop (pk_store_offset c) (pk_new_indices c));
              c1 = c\<lparr>pk_store_offset := pk_store_offset c + n_new\<rparr>
          in bind_outcome
               (with_cache c1 (store mx (pk_layer_idx c1) store_indices keys vals p))
               (\<lambda>_ (c2, p2). with_cache c2 (fetch mx (pk_layer_idx c2) (all_indices c2) p2)))"

text \<open>\<open>state\<close> is \<open>None, None\<close> when nothing is stored.\<close>

definition kv_state ::
  "('a, 'd) mlx \<Rightarrow> pooled_kv_cache \<times> ('a, 'd) token_pool \<Rightarrow>
     (('a \<times> 'a) option, pooled_kv_cache \<times> ('a, 'd) token_pool) outcome" where
  "kv_state mx s =
     (case s of (c, p) \<Rightarrow>
        if all_indices c = [] then Return None (c, p)
        else bind_outcome (with_cache c (fetch mx (pk_layer_idx c) (all_indices c) p))
               (\<lambda>kv s'. Return (Some kv) s'))"

text \<open>\<open>create_attention_mask\<close> of \<open>mlx_lm\<close> is a parameter.\<close>

definition make_mask ::
  "(int \<Rightarrow> nat \<Rightarrow> bool \<Rightarrow> int option \<Rightarrow> 'm) \<Rightarrow> int \<Rightarrow> bool \<Rightarrow> int option \<Rightarrow> pooled_kv_cache \<Rightarrow> 'm"
where
  "make_mask create_attention_mask N return_array window_size c =
     create_attention_mask N (kv_offset c) return_array window_size"

section \<open>Lemmas on the pool\<close>

lemma py_index_nonneg: "0 \<le> i \<Longrightarrow> i < int n \<Longrightarrow> py_index n i = Some (nat i)"
  by (simp add: py_index_def)

text \<open>A pool with \<open>h\<close> heads, head dimension \<open>d\<close> and \<open>l\<close> layers.\<close>

definition pool_ok :: "('a, 'd) mlx \<Rightarrow> nat \<Rightarrow> nat \<Rightarrow> nat \<Rightarrow> ('a, 'd) token_pool \<Rightarrow> bool" where
  "pool_ok mx l h d p \<longleftrightarrow>
     0 \<le> tp_pool_size p \<and> length (tp_k_buffer p) = l \<and> length (tp_v_buffer p) = l \<and>
     (\<forall>x \<in> set (tp_k_buffer p) \<union> set (tp_v_buffer p).
        mx_shape mx x = [nat (tp_pool_size p + 1), h, d])"

lemma pool_init_ok:
  assumes "mlx_laws mx elt" "0 \<le> sz" "0 \<le> l" "0 \<le> h" "0 \<le> d"
  shows "\<exists>p. pool_init mx sz (Some l) (Some h) (Some d) dt = Inr p \<and> tp_pool_size p = sz \<and>
    pool_ok mx (nat l) (nat h) (nat d) p"
proof -
  have "\<forall>n \<in> set [sz + 1, h, d]. 0 \<le> n" using assms by simp
  then obtain z where z: "mx_zeros mx [Some (sz + 1), Some h, Some d] dt = Inr z"
    "mx_shape mx z = [nat (sz + 1), nat h, nat d]"
    using assms(1) unfolding mlx_laws_def zeros_law_def by fastforce
  show ?thesis
    using assms(2,3) z by (auto simp: pool_init_def zero_buffers_def pool_ok_def Let_def)
qed

text \<open>The laws, one by one.\<close>

lemma mx_firstD:
  assumes "mlx_laws mx elt" "mx_shape mx x = b # sh" "0 < b"
  shows "mx_shape mx (mx_first mx x) = sh"
    "list_all2 (<) ixs sh \<Longrightarrow> elt (mx_first mx x) ixs = elt x (0 # ixs)"
proof -
  note r = assms(1) [unfolded mlx_laws_def reshape_laws_def, THEN conjunct1, THEN conjunct1,
      rule_format, OF assms(2,3)]
  from r show "mx_shape mx (mx_first mx x) = sh"
    "list_all2 (<) ixs sh \<Longrightarrow> elt (mx_first mx x) ixs = elt x (0 # ixs)"
    by simp_all
qed

lemma mx_transposeD:
  assumes "mlx_laws mx elt" "mx_shape mx x = [a, b, c]"
  shows "mx_shape mx (mx_transpose mx [1, 0, 2] x) = [b, a, c]"
    "i < b \<Longrightarrow> j < a \<Longrightarrow> k < c \<Longrightarrow> elt (mx_transpose mx [1, 0, 2] x) [i, j, k] = elt x [j, i, k]"
proof -
  note r = assms(1) [unfolded mlx_laws_def reshape_laws_def, THEN conjunct1, THEN conjunct2,
      THEN conjunct1, rule_format, OF assms(2)]
  from r show "mx_shape mx (mx_transpose mx [1, 0, 2] x) = [b, a, c]" by (rule conjunct1)
  from r show "i < b \<Longrightarrow> j < a \<Longrightarrow> k < c \<Longrightarrow>
      elt (mx_transpose mx [1, 0, 2] x) [i, j, k] = elt x [j, i, k]" by (simp only:)
qed

lemma mx_expandD:
  assumes "mlx_laws mx elt"
  shows "mx_shape mx (mx_expand_dims mx 0 x) = 1 # mx_shape mx x"
    "list_all2 (<) ixs (mx_shape mx x) \<Longrightarrow> elt (mx_expand_dims mx 0 x) (0 # ixs) = elt x ixs"
  using assms [unfolded mlx_laws_def reshape_laws_def, THEN conjunct1, THEN conjunct2,
      THEN conjunct2, THEN spec [of _ x]] by simp_all

lemma mx_gatherD:
  assumes "mlx_laws mx elt" "mx_shape mx x = [p, h, d]" "ixs \<noteq> []" "set ixs \<subseteq> {0..<int p}"
  shows "mx_shape mx (mx_gather mx x (mx_array mx ixs)) = [length ixs, h, d]"
    "t < length ixs \<Longrightarrow> i < h \<Longrightarrow> j < d \<Longrightarrow>
      elt (mx_gather mx x (mx_array mx ixs)) [t, i, j] = elt x [nat (ixs ! t), i, j]"
proof -
  note r = assms(1) [unfolded mlx_laws_def rows_laws_def, THEN conjunct2, THEN conjunct1,
      THEN conjunct1, THEN spec [of _ x], THEN spec [of _ p], THEN spec [of _ h],
      THEN spec [of _ d], THEN spec [of _ ixs], THEN mp, OF assms(2), THEN mp, OF assms(3), THEN mp, OF assms(4)]
  from r show "mx_shape mx (mx_gather mx x (mx_array mx ixs)) = [length ixs, h, d]" by (rule conjunct1)
  from r show "t < length ixs \<Longrightarrow> i < h \<Longrightarrow> j < d \<Longrightarrow>
      elt (mx_gather mx x (mx_array mx ixs)) [t, i, j] = elt x [nat (ixs ! t), i, j]"
    by (simp only:)
qed

lemma mx_scatterE:
  assumes "mlx_laws mx elt" "mx_shape mx x = [p, h, d]" "mx_shape mx y = [length ixs, h, d]"
    "ixs \<noteq> []" "set ixs \<subseteq> {0..<int p}" "distinct ixs"
  obtains z where "mx_scatter mx x (mx_array mx ixs) y = Inr z" "mx_shape mx z = [p, h, d]"
    "\<And>t i j. t < length ixs \<Longrightarrow> i < h \<Longrightarrow> j < d \<Longrightarrow> elt z [nat (ixs ! t), i, j] = elt y [t, i, j]"
    "\<And>n i j. n < p \<Longrightarrow> i < h \<Longrightarrow> j < d \<Longrightarrow> int n \<notin> set ixs \<Longrightarrow> elt z [n, i, j] = elt x [n, i, j]"
proof -
  note r = assms(1) [unfolded mlx_laws_def rows_laws_def, THEN conjunct2, THEN conjunct1,
      THEN conjunct2, THEN spec [of _ x], THEN spec [of _ y], THEN spec [of _ p], THEN spec [of _ h],
      THEN spec [of _ d], THEN spec [of _ ixs], THEN mp, OF assms(2), THEN mp, OF assms(3),
      THEN mp, OF assms(4), THEN mp, OF assms(5), THEN mp, OF assms(6)]
  then obtain z where z: "mx_scatter mx x (mx_array mx ixs) y = Inr z" "mx_shape mx z = [p, h, d]"
    "\<forall>t < length ixs. \<forall>i < h. \<forall>j < d. elt z [nat (ixs ! t), i, j] = elt y [t, i, j]"
    "\<forall>n < p. \<forall>i < h. \<forall>j < d. int n \<notin> set ixs \<longrightarrow> elt z [n, i, j] = elt x [n, i, j]"
    by (elim exE conjE)
  show thesis by (rule that [OF z(1,2)]) (use z(3,4) in simp_all)
qed

section \<open>Rows and columns\<close>

text \<open>Row \<open>n\<close> of a buffer has the data of position \<open>t\<close> of an array in the model's format.\<close>

definition same_rows ::
  "('a \<Rightarrow> nat list \<Rightarrow> 'e) \<Rightarrow> nat \<Rightarrow> nat \<Rightarrow> 'a \<Rightarrow> nat \<Rightarrow> 'a \<Rightarrow> nat \<Rightarrow> bool" where
  "same_rows elt h d buf n x t \<longleftrightarrow> (\<forall>i < h. \<forall>j < d. elt buf [n, i, j] = elt x [0, i, t, j])"

lemma same_rowsI:
  "(\<And>i j. i < h \<Longrightarrow> j < d \<Longrightarrow> elt buf [n, i, j] = elt x [0, i, t, j]) \<Longrightarrow> same_rows elt h d buf n x t"
  by (simp add: same_rows_def)

lemma to_rows:
  assumes laws: "mlx_laws mx elt" and sh: "mx_shape mx x = [1, h, n, d]"
  shows "mx_shape mx (mx_transpose mx [1, 0, 2] (mx_first mx x)) = [n, h, d]"
    and "t < n \<Longrightarrow> i < h \<Longrightarrow> j < d \<Longrightarrow>
      elt (mx_transpose mx [1, 0, 2] (mx_first mx x)) [t, i, j] = elt x [0, i, t, j]"
proof -
  note f = mx_firstD [OF laws sh zero_less_one]
  show "mx_shape mx (mx_transpose mx [1, 0, 2] (mx_first mx x)) = [n, h, d]"
    by (rule mx_transposeD(1) [OF laws f(1)])
  show "elt (mx_transpose mx [1, 0, 2] (mx_first mx x)) [t, i, j] = elt x [0, i, t, j]"
    if "t < n" "i < h" "j < d"
    using mx_transposeD(2) [OF laws f(1) that] f(2) [of "[i, t, j]"] that by simp
qed

lemma from_rows:
  assumes laws: "mlx_laws mx elt" and sh: "mx_shape mx x = [n, h, d]"
  defines "y \<equiv> mx_expand_dims mx 0 (mx_transpose mx [1, 0, 2] x)"
  shows "mx_shape mx y = [1, h, n, d]"
    and "t < n \<Longrightarrow> i < h \<Longrightarrow> j < d \<Longrightarrow> elt y [0, i, t, j] = elt x [t, i, j]"
proof -
  note t = mx_transposeD [OF laws sh]
  show "mx_shape mx y = [1, h, n, d]"
    unfolding y_def by (simp only: mx_expandD(1) [OF laws] t(1))
  show "elt y [0, i, t, j] = elt x [t, i, j]" if "t < n" "i < h" "j < d"
    using mx_expandD(2) [OF laws, of "[i, t, j]" "mx_transpose mx [1, 0, 2] x"] t(1)
      t(2) [OF that(2,1,3)] that unfolding y_def by simp
qed

text \<open>Writing a batch into one buffer, and reading rows of it back.\<close>

lemma scatter_rows:
  assumes laws: "mlx_laws mx elt" and buf: "mx_shape mx buf = [p, h, d]"
    and x: "mx_shape mx x = [1, h, length ixs, d]" and ixs: "ixs \<noteq> []" "set ixs \<subseteq> {0..<int p}" "distinct ixs"
  obtains z where "mx_scatter mx buf (mx_array mx ixs) (mx_transpose mx [1, 0, 2] (mx_first mx x)) = Inr z"
    "mx_shape mx z = [p, h, d]"
    "\<And>t. t < length ixs \<Longrightarrow> same_rows elt h d z (nat (ixs ! t)) x t"
    "\<And>n y t. n < p \<Longrightarrow> int n \<notin> set ixs \<Longrightarrow> same_rows elt h d z n y t \<longleftrightarrow> same_rows elt h d buf n y t"
proof -
  note tr = to_rows [OF laws x]
  obtain z where z: "mx_scatter mx buf (mx_array mx ixs) (mx_transpose mx [1, 0, 2] (mx_first mx x)) = Inr z"
    "mx_shape mx z = [p, h, d]"
    "\<And>t i j. t < length ixs \<Longrightarrow> i < h \<Longrightarrow> j < d \<Longrightarrow> elt z [nat (ixs ! t), i, j] =
       elt (mx_transpose mx [1, 0, 2] (mx_first mx x)) [t, i, j]"
    "\<And>n i j. n < p \<Longrightarrow> i < h \<Longrightarrow> j < d \<Longrightarrow> int n \<notin> set ixs \<Longrightarrow> elt z [n, i, j] = elt buf [n, i, j]"
    using mx_scatterE [OF laws buf tr(1) ixs] by blast
  show thesis
  proof (rule that [OF z(1,2)])
    show "same_rows elt h d z (nat (ixs ! t)) x t" if "t < length ixs" for t
      using z(3) [OF that] tr(2) [OF that] by (intro same_rowsI) simp
    show "same_rows elt h d z n y t \<longleftrightarrow> same_rows elt h d buf n y t"
      if "n < p" "int n \<notin> set ixs" for n y t
      using z(4) [OF that(1) _ _ that(2)] by (simp add: same_rows_def)
  qed
qed

lemma gather_rows:
  assumes laws: "mlx_laws mx elt" and buf: "mx_shape mx buf = [p, h, d]"
    and ixs: "ixs \<noteq> []" "set ixs \<subseteq> {0..<int p}"
  defines "y \<equiv> mx_expand_dims mx 0 (mx_transpose mx [1, 0, 2] (mx_gather mx buf (mx_array mx ixs)))"
  shows "mx_shape mx y = [1, h, length ixs, d]"
    and "t < length ixs \<Longrightarrow> same_rows elt h d buf (nat (ixs ! t)) y t"
proof -
  note g = mx_gatherD [OF laws buf ixs]
  note f = from_rows [OF laws g(1), folded y_def]
  show "mx_shape mx y = [1, h, length ixs, d]" by (rule f(1))
  show "same_rows elt h d buf (nat (ixs ! t)) y t" if "t < length ixs"
    using f(2) [OF that] g(2) [OF that] by (intro same_rowsI) simp
qed

section \<open>store and fetch\<close>

definition slots_ok :: "('a, 'd) token_pool \<Rightarrow> int list \<Rightarrow> bool" where
  "slots_ok p ixs \<longleftrightarrow> ixs \<noteq> [] \<and> set ixs \<subseteq> {0..tp_pool_size p}"

text \<open>The key and the value data of a slot, in one layer.\<close>

definition slot_has ::
  "('a \<Rightarrow> nat list \<Rightarrow> 'e) \<Rightarrow> nat \<Rightarrow> nat \<Rightarrow> ('a, 'd) token_pool \<Rightarrow> nat \<Rightarrow> int \<Rightarrow> 'a \<Rightarrow> 'a \<Rightarrow> nat \<Rightarrow> bool"
where
  "slot_has elt h d p l i x y t \<longleftrightarrow>
     same_rows elt h d (tp_k_buffer p ! l) (nat i) x t \<and> same_rows elt h d (tp_v_buffer p ! l) (nat i) y t"

text \<open>The slot has the same key and value entries in two pools, in one layer.\<close>

definition same_slot ::
  "('a \<Rightarrow> nat list \<Rightarrow> 'e) \<Rightarrow> nat \<Rightarrow> nat \<Rightarrow> ('a, 'd) token_pool \<Rightarrow> ('a, 'd) token_pool \<Rightarrow> nat \<Rightarrow> int \<Rightarrow> bool"
where
  "same_slot elt h d p q l i \<longleftrightarrow> (\<forall>n < h. \<forall>j < d.
     elt (tp_k_buffer p ! l) [nat i, n, j] = elt (tp_k_buffer q ! l) [nat i, n, j] \<and>
     elt (tp_v_buffer p ! l) [nat i, n, j] = elt (tp_v_buffer q ! l) [nat i, n, j])"

lemma same_slot_sym: "same_slot elt h d p q l i \<Longrightarrow> same_slot elt h d q p l i"
  by (simp add: same_slot_def)

lemma same_slot_trans:
  "same_slot elt h d p q l i \<Longrightarrow> same_slot elt h d q r l i \<Longrightarrow> same_slot elt h d p r l i"
  by (simp add: same_slot_def)

text \<open>Two slots that have the data of two positions are the same if and only if the positions are.\<close>

lemma same_slot_iff:
  assumes "slot_has elt h d p l i x y t" "slot_has elt h d q l i u v w"
  shows "same_slot elt h d p q l i \<longleftrightarrow> (\<forall>n < h. \<forall>j < d.
    elt x [0, n, t, j] = elt u [0, n, w, j] \<and> elt y [0, n, t, j] = elt v [0, n, w, j])"
  using assms by (simp add: same_slot_def slot_has_def same_rows_def)

lemma pool_okD:
  assumes "pool_ok mx n h d p" "l < n"
  shows "mx_shape mx (tp_k_buffer p ! l) = [nat (tp_pool_size p + 1), h, d]"
    "mx_shape mx (tp_v_buffer p ! l) = [nat (tp_pool_size p + 1), h, d]"
    "length (tp_k_buffer p) = n" "length (tp_v_buffer p) = n"
  using assms unfolding pool_ok_def by auto

lemma slots_okD:
  assumes "pool_ok mx n h d p" "slots_ok p ixs"
  shows "ixs \<noteq> []" "set ixs \<subseteq> {0..<int (nat (tp_pool_size p + 1))}"
  using assms by (auto simp: pool_ok_def slots_ok_def)

lemma store_spec:
  assumes laws: "mlx_laws mx elt" and p: "pool_ok mx n h d p" and l: "l < n"
    and ixs: "slots_ok p ixs" "distinct ixs"
    and x: "mx_shape mx x = [1, h, length ixs, d]" and y: "mx_shape mx y = [1, h, length ixs, d]"
  obtains q where "store mx (int l) ixs x y p = Return () q"
    "pool_ok mx n h d q" "tp_pool_size q = tp_pool_size p"
    "\<And>t. t < length ixs \<Longrightarrow> slot_has elt h d q l (ixs ! t) x y t"
    "\<And>i u v t. i \<in> {0..tp_pool_size p} \<Longrightarrow> i \<notin> set ixs \<Longrightarrow>
       slot_has elt h d q l i u v t \<longleftrightarrow> slot_has elt h d p l i u v t"
    "\<And>m. m \<noteq> l \<Longrightarrow> tp_k_buffer q ! m = tp_k_buffer p ! m \<and> tp_v_buffer q ! m = tp_v_buffer p ! m"
proof -
  note P = pool_okD [OF p l] and I = slots_okD [OF p ixs(1)]
  obtain kb where kb: "mx_scatter mx (tp_k_buffer p ! l) (mx_array mx ixs)
      (mx_transpose mx [1, 0, 2] (mx_first mx x)) = Inr kb"
    "mx_shape mx kb = [nat (tp_pool_size p + 1), h, d]"
    "\<And>t. t < length ixs \<Longrightarrow> same_rows elt h d kb (nat (ixs ! t)) x t"
    "\<And>i u t. i < nat (tp_pool_size p + 1) \<Longrightarrow> int i \<notin> set ixs \<Longrightarrow>
       same_rows elt h d kb i u t \<longleftrightarrow> same_rows elt h d (tp_k_buffer p ! l) i u t"
    by (rule scatter_rows [OF laws P(1) x I ixs(2)]) metis
  obtain vb where vb: "mx_scatter mx (tp_v_buffer p ! l) (mx_array mx ixs)
      (mx_transpose mx [1, 0, 2] (mx_first mx y)) = Inr vb"
    "mx_shape mx vb = [nat (tp_pool_size p + 1), h, d]"
    "\<And>t. t < length ixs \<Longrightarrow> same_rows elt h d vb (nat (ixs ! t)) y t"
    "\<And>i u t. i < nat (tp_pool_size p + 1) \<Longrightarrow> int i \<notin> set ixs \<Longrightarrow>
       same_rows elt h d vb i u t \<longleftrightarrow> same_rows elt h d (tp_v_buffer p ! l) i u t"
    by (rule scatter_rows [OF laws P(2) y I ixs(2)]) metis
  let ?q = "p\<lparr>tp_k_buffer := (tp_k_buffer p)[l := kb], tp_v_buffer := (tp_v_buffer p)[l := vb]\<rparr>"
  have "store mx (int l) ixs x y p = Return () ?q"
    using l P kb(1) vb(1) by (simp add: store_def py_index_nonneg)
  moreover have "pool_ok mx n h d ?q"
    using p kb(2) vb(2) unfolding pool_ok_def by (auto dest: set_update_subset_insert [THEN subsetD])
  ultimately show thesis
    using l P(3,4) kb(3,4) vb(3,4) by (intro that [of ?q]) (auto simp: slot_has_def)
qed

lemma fetch_spec:
  assumes laws: "mlx_laws mx elt" and p: "pool_ok mx n h d p" and l: "l < n" and ixs: "slots_ok p ixs"
  obtains x y where "fetch mx (int l) ixs p = Return (x, y) p"
    "mx_shape mx x = [1, h, length ixs, d]" "mx_shape mx y = [1, h, length ixs, d]"
    "\<And>t. t < length ixs \<Longrightarrow> slot_has elt h d p l (ixs ! t) x y t"
proof -
  note P = pool_okD [OF p l] and I = slots_okD [OF p ixs]
  note gk = gather_rows [OF laws P(1) I] and gv = gather_rows [OF laws P(2) I]
  let ?g = "\<lambda>b. mx_expand_dims mx 0 (mx_transpose mx [1, 0, 2] (mx_gather mx b (mx_array mx ixs)))"
  have "fetch mx (int l) ixs p = Return (?g (tp_k_buffer p ! l), ?g (tp_v_buffer p ! l)) p"
    using l P(3,4) by (simp add: fetch_def py_index_nonneg Let_def)
  then show thesis
    by (rule that [OF _ gk(1) gv(1)]) (use gk(2) gv(2) in \<open>simp add: slot_has_def\<close>)
qed

lemma slot_has_entries:
  assumes "slot_has elt h d p l i x y t" "slot_has elt h d p l i u v w" "n < h" "j < d"
  shows "elt x [0, n, t, j] = elt u [0, n, w, j] \<and> elt y [0, n, t, j] = elt v [0, n, w, j]"
  using same_slot_iff [OF assms(1,2)] assms(3,4) by (simp add: same_slot_def)

text \<open>What a slot has can be fetched, so that slots which have the same have the same entries.\<close>

lemma same_slotI:
  assumes laws: "mlx_laws mx elt" and p: "pool_ok mx n h d p" and l: "l < n" and i: "i \<in> {0..tp_pool_size p}"
    and same: "\<And>u v t. slot_has elt h d q l i u v t \<longleftrightarrow> slot_has elt h d p l i u v t"
  shows "same_slot elt h d q p l i"
proof -
  have "slots_ok p [i]" using i by (simp add: slots_ok_def)
  then obtain x y where "\<And>t. t < length [i] \<Longrightarrow> slot_has elt h d p l ([i] ! t) x y t"
    by (rule fetch_spec [OF laws p l]) metis
  from this [of 0] have "slot_has elt h d p l i x y 0" by simp
  moreover from this have "slot_has elt h d q l i x y 0" by (simp add: same)
  ultimately show ?thesis by (simp add: same_slot_iff)
qed

section \<open>update_and_fetch\<close>

text \<open>
  What the data of a position of the result is: for a position before the new tokens, what the
  pool had in its slot; for a new token, what the caller passed for it.
\<close>

lemma update_and_fetch_spec:
  assumes laws: "mlx_laws mx elt" and p: "pool_ok mx n h d p" and l: "pk_layer_idx c = int l" "l < n"
    and ixs: "set (pk_prefix_indices c @ pk_new_indices c) \<subseteq> {0..tp_pool_size p}"
      "distinct (pk_prefix_indices c @ pk_new_indices c)"
    and x: "mx_shape mx x = [1, h, k, d]" and y: "mx_shape mx y = [1, h, k, d]"
    and k: "0 < k" "pk_store_offset c + k \<le> length (pk_new_indices c)"
  defines "old \<equiv> length (all_indices c)" and "c' \<equiv> c\<lparr>pk_store_offset := pk_store_offset c + k\<rparr>"
  obtains xs ys q where "update_and_fetch mx x y (c, p) = Return (xs, ys) (c', q)"
    "pool_ok mx n h d q" "tp_pool_size q = tp_pool_size p"
    "mx_shape mx xs = [1, h, old + k, d]" "mx_shape mx ys = [1, h, old + k, d]"
    "\<And>t. t < old + k \<Longrightarrow> slot_has elt h d q l (all_indices c' ! t) xs ys t"
    "\<And>t u v w. t < old \<Longrightarrow> slot_has elt h d q l (all_indices c ! t) u v w \<longleftrightarrow>
       slot_has elt h d p l (all_indices c ! t) u v w"
    "\<And>t. t < k \<Longrightarrow> slot_has elt h d q l (all_indices c' ! (old + t)) x y t"
    "\<And>m. m \<noteq> l \<Longrightarrow> tp_k_buffer q ! m = tp_k_buffer p ! m \<and> tp_v_buffer q ! m = tp_v_buffer p ! m"
    "\<And>i u v t. i \<in> {0..tp_pool_size p} \<Longrightarrow> i \<notin> set (pk_new_indices c) \<Longrightarrow>
       slot_has elt h d q l i u v t \<longleftrightarrow> slot_has elt h d p l i u v t"
    "\<And>i. i \<in> {0..tp_pool_size p} \<Longrightarrow> i \<notin> set (take k (drop (pk_store_offset c) (pk_new_indices c))) \<Longrightarrow>
       same_slot elt h d q p l i"
proof -
  let ?new = "take k (drop (pk_store_offset c) (pk_new_indices c))"
  have all: "all_indices c' = all_indices c @ ?new"
    by (simp add: all_indices_def c'_def take_add)
  have len: "length ?new = k" using k by simp
  have sub: "set (all_indices c @ ?new) \<subseteq> {0..tp_pool_size p}"
  proof -
    have "set (all_indices c @ ?new) \<subseteq> set (pk_prefix_indices c @ pk_new_indices c)"
      by (auto simp: all_indices_def dest: in_set_takeD in_set_dropD)
    with ixs(1) show ?thesis by (rule order.trans [rotated])
  qed
  have dist: "distinct (all_indices c @ ?new)"
  proof -
    have "all_indices c @ ?new = pk_prefix_indices c @ take (pk_store_offset c + k) (pk_new_indices c)"
      by (simp add: all_indices_def take_add)
    moreover have "set (take (pk_store_offset c + k) (pk_new_indices c)) \<subseteq> set (pk_new_indices c)"
      by (rule set_take_subset)
    ultimately show ?thesis using ixs(2) by auto
  qed
  have new: "slots_ok p ?new" "distinct ?new"
    using sub dist len k(1) by (auto simp: slots_ok_def)
  obtain q where q: "store mx (int l) ?new x y p = Return () q" "pool_ok mx n h d q"
    "tp_pool_size q = tp_pool_size p"
    "\<And>t. t < k \<Longrightarrow> slot_has elt h d q l (?new ! t) x y t"
    "\<And>i u v t. i \<in> {0..tp_pool_size p} \<Longrightarrow> i \<notin> set ?new \<Longrightarrow>
       slot_has elt h d q l i u v t \<longleftrightarrow> slot_has elt h d p l i u v t"
    "\<And>m. m \<noteq> l \<Longrightarrow> tp_k_buffer q ! m = tp_k_buffer p ! m \<and> tp_v_buffer q ! m = tp_v_buffer p ! m"
    by (rule store_spec [OF laws p l(2) new, unfolded len, OF x y]) metis
  have slots: "slots_ok q (all_indices c')"
    using sub q(3) len k(1) unfolding slots_ok_def all by auto
  have lens: "length (all_indices c') = old + k"
    by (simp only: all old_def length_append len)
  obtain xs ys where f: "fetch mx (int l) (all_indices c') q = Return (xs, ys) q"
    "mx_shape mx xs = [1, h, old + k, d]" "mx_shape mx ys = [1, h, old + k, d]"
    "\<And>t. t < old + k \<Longrightarrow> slot_has elt h d q l (all_indices c' ! t) xs ys t"
    by (rule fetch_spec [OF laws q(2) l(2) slots, unfolded lens]) metis
  have "update_and_fetch mx x y (c, p) = Return (xs, ys) (c', q)"
    using x l(1) q(1) f(1) by (simp add: update_and_fetch_def with_cache_def Let_def c'_def)
  note upd = this
  have old_slots: "slot_has elt h d q l (all_indices c ! t) u v w \<longleftrightarrow>
      slot_has elt h d p l (all_indices c ! t) u v w" if "t < old" for t u v w
  proof -
    have "all_indices c ! t \<in> set (all_indices c)" using that by (simp add: old_def)
    then show ?thesis using sub dist by (intro q(5)) auto
  qed
  have new_slots: "slot_has elt h d q l (all_indices c' ! (old + t)) x y t" if "t < k" for t
    using q(4) [of t] that len unfolding all old_def by (simp add: nth_append)
  have other: "slot_has elt h d q l i u v t \<longleftrightarrow> slot_has elt h d p l i u v t"
    if "i \<in> {0..tp_pool_size p}" "i \<notin> set (pk_new_indices c)" for i u v t
    using that by (intro q(5)) (auto dest: in_set_takeD in_set_dropD)
  have rest: "same_slot elt h d q p l i" if "i \<in> {0..tp_pool_size p}" "i \<notin> set ?new" for i
    using q(5) [OF that] by (rule same_slotI [OF laws p l(2) that(1)])
  show thesis
    by (rule that [OF upd q(2,3) f(2,3,4) old_slots new_slots q(6) other rest])
qed

end
