(* ===== verification/Model_Runner.thy ===== *)
theory Model_Runner
  imports Radix_Cache Token_Pool
begin

text \<open>
  \<open>model_runner.py\<close>: the runner that owns the pool, its allocator and the radix cache, and runs a
  language model for requests.

  The language model itself is no part of this repository. It is an object with attributes
  \<open>args\<close> and \<open>layers\<close> that can be called on token identifiers and one \<open>PooledKVCache\<close> per
  layer; a call may store into the pool, through these caches, and may raise. It is a value of the
  record \<open>language_model\<close>, and what the runner calls of the array package beside the pool's
  operations is the record \<open>array_calls\<close>. Samplers, and the function of \<open>mlx_lm\<close> that loads a
  model, are arguments of the definitions that use them.

  Request states are objects that the runner hands to its caller and keeps in its dictionary of
  active requests: they live in a store, and a reference is an index into it. The allocator object
  is shared with the radix cache; the copy of it in the cache's state is the only one.
\<close>

section \<open>Enumeration and data classes\<close>

datatype forward_mode = PREFILL | DECODE

fun forward_mode_value :: "forward_mode \<Rightarrow> string" where
  "forward_mode_value PREFILL = ''prefill''"
| "forward_mode_value DECODE = ''decode''"

text \<open>The fields come from a configuration that may lack any of them.\<close>

record model_config =
  mc_num_layers :: "int option"
  mc_n_kv_heads :: "int option"
  mc_head_dim :: "int option"
  mc_vocab_size :: "int option"
  mc_hidden_size :: "int option"
  mc_num_attention_heads :: "int option"
  mc_sliding_window :: "int option"

record request_state =
  rq_request_id :: string
  rq_prompt_tokens :: "token list"
  rq_output_tokens :: "token list"
  rq_all_slot_indices :: "slot list"
  rq_radix_node :: node_id
  rq_prefix_len :: nat
  rq_kv_caches :: "pooled_kv_cache list"

definition seq_len :: "request_state \<Rightarrow> nat" where
  "seq_len st = length (rq_prompt_tokens st) + length (rq_output_tokens st)"

definition total_cached_len :: "request_state \<Rightarrow> nat" where
  "total_cached_len st = length (rq_all_slot_indices st)"

record 'a forward_result =
  fr_logits :: 'a
  fr_forward_mode :: forward_mode

section \<open>The model and its configuration\<close>

type_synonym attributes = "string \<Rightarrow> int option option"

record ('a, 'd) language_model =
  lm_args :: "attributes option"
  lm_layers :: "nat option"
  lm_call :: "'a \<Rightarrow> pooled_kv_cache list \<times> ('a, 'd) token_pool \<Rightarrow>
    ('a, pooled_kv_cache list \<times> ('a, 'd) token_pool) outcome"

record 'a array_calls =
  ac_tokens :: "token list list \<Rightarrow> 'a"
  ac_last_row :: "'a \<Rightarrow> py_exn + 'a"
  ac_argmax :: "'a \<Rightarrow> 'a"
  ac_item :: "'a \<Rightarrow> py_exn + token"

text \<open>\<open>_get\<close>: an attribute of \<open>args\<close>, or else an entry of the dictionary, or else \<open>None\<close>.\<close>

definition config_get :: "attributes option \<Rightarrow> attributes \<Rightarrow> string \<Rightarrow> int option" where
  "config_get args config_dict name =
     (let default = (case config_dict name of Some v \<Rightarrow> v | None \<Rightarrow> None) in
      case args of
        None \<Rightarrow> default
      | Some as \<Rightarrow> (case as name of Some v \<Rightarrow> v | None \<Rightarrow> default))"

text \<open>The truth value of an optional integer.\<close>

definition truthy :: "int option \<Rightarrow> bool" where
  "truthy v \<longleftrightarrow> v \<noteq> None \<and> v \<noteq> Some 0"

definition extract_model_config ::
  "('a, 'd) language_model \<Rightarrow> attributes option \<Rightarrow> model_config" where
  "extract_model_config model config_dict =
     (let get = config_get (lm_args model) (case config_dict of None \<Rightarrow> \<lambda>_. None | Some d \<Rightarrow> d);
          num_layers = (case lm_layers model of
              Some n \<Rightarrow> Some (int n)
            | None \<Rightarrow> get ''num_hidden_layers'');
          num_attention_heads = get ''num_attention_heads'';
          hidden_size = get ''hidden_size'';
          head_dim = get ''head_dim'';
          head_dim = (if head_dim = None \<and> truthy hidden_size \<and> truthy num_attention_heads
            then Some (the hidden_size div the num_attention_heads)
            else head_dim);
          kv_heads = get ''num_key_value_heads'';
          n_kv_heads = (if truthy kv_heads then kv_heads else num_attention_heads)
      in \<lparr>mc_num_layers = num_layers, mc_n_kv_heads = n_kv_heads, mc_head_dim = head_dim,
          mc_vocab_size = get ''vocab_size'', mc_hidden_size = hidden_size,
          mc_num_attention_heads = num_attention_heads,
          mc_sliding_window = get ''sliding_window''\<rparr>)"

section \<open>The runner\<close>

record ('a, 'd, 'k) model_runner =
  mr_model :: "('a, 'd) language_model"
  mr_tokenizer :: 'k
  mr_config :: model_config
  mr_pool_size :: int
  mr_dtype :: 'd
  mr_pool :: "('a, 'd) token_pool"
  mr_radix_cache :: radix_cache
  mr_active_requests :: "(string \<times> nat) list"
  mr_states :: "request_state list"

definition runner_init ::
  "('a, 'd) mlx \<Rightarrow> ('a, 'd) language_model \<Rightarrow> 'k \<Rightarrow> model_config \<Rightarrow> int \<Rightarrow> 'd \<Rightarrow> py_world \<Rightarrow>
     py_exn + ('a, 'd, 'k) model_runner" where
  "runner_init mx model tokenizer config pool_size dtype w =
     (case alloc_init pool_size of
        Inl e \<Rightarrow> Inl e
      | Inr allocator \<Rightarrow>
          (case pool_init mx pool_size (mc_num_layers config) (mc_n_kv_heads config)
                  (mc_head_dim config) dtype of
             Inl e \<Rightarrow> Inl e
           | Inr pool \<Rightarrow>
               (case radix_init None w of
                  Inl e \<Rightarrow> Inl e
                | Inr cache \<Rightarrow>
                    Inr \<lparr>mr_model = model, mr_tokenizer = tokenizer, mr_config = config,
                         mr_pool_size = pool_size, mr_dtype = dtype, mr_pool = pool,
                         mr_radix_cache = set_allocator allocator cache,
                         mr_active_requests = [], mr_states = []\<rparr>)))"

definition load ::
  "(string \<Rightarrow> py_exn + (('a, 'd) language_model \<times> 'k)) \<Rightarrow> ('a, 'd) mlx \<Rightarrow> string \<Rightarrow> int \<Rightarrow> 'd \<Rightarrow>
     py_world \<Rightarrow> py_exn + ('a, 'd, 'k) model_runner" where
  "load mlx_load mx model_path pool_size dtype w =
     (case mlx_load model_path of
        Inl e \<Rightarrow> Inl e
      | Inr (model, tokenizer) \<Rightarrow>
          runner_init mx model tokenizer (extract_model_config model None) pool_size dtype w)"

text \<open>Calls of the radix cache, the allocator and the model on the state of the runner.\<close>

definition on_cache ::
  "(radix_cache \<Rightarrow> ('r, radix_cache) outcome) \<Rightarrow> ('a, 'd, 'k) model_runner \<Rightarrow>
     ('r, ('a, 'd, 'k) model_runner) outcome" where
  "on_cache f r =
     (case f (mr_radix_cache r) of
        Return x c \<Rightarrow> Return x (r\<lparr>mr_radix_cache := c\<rparr>)
      | Raise e c \<Rightarrow> Raise e (r\<lparr>mr_radix_cache := c\<rparr>)
      | Diverge \<Rightarrow> Diverge)"

definition cache_alloc :: "int \<Rightarrow> radix_cache \<Rightarrow> (slot list, radix_cache) outcome" where
  "cache_alloc n c =
     (case rc_allocator c of
        None \<Rightarrow> Raise AttributeError c
      | Some a \<Rightarrow>
          (case alloc n a of
             Return xs b \<Rightarrow> Return xs (set_allocator b c)
           | Raise e b \<Rightarrow> Raise e (set_allocator b c)
           | Diverge \<Rightarrow> Diverge))"

definition call_model ::
  "'a array_calls \<Rightarrow> token list \<Rightarrow> pooled_kv_cache list \<Rightarrow> ('a, 'd, 'k) model_runner \<Rightarrow>
     ('a, pooled_kv_cache list \<times> ('a, 'd, 'k) model_runner) outcome" where
  "call_model ac tokens caches r =
     (case lm_call (mr_model r) (ac_tokens ac [tokens]) (caches, mr_pool r) of
        Return logits (caches', p) \<Rightarrow> Return logits (caches', r\<lparr>mr_pool := p\<rparr>)
      | Raise e (caches', p) \<Rightarrow> Raise e (caches', r\<lparr>mr_pool := p\<rparr>)
      | Diverge \<Rightarrow> Diverge)"

definition upd_request ::
  "nat \<Rightarrow> (request_state \<Rightarrow> request_state) \<Rightarrow> ('a, 'd, 'k) model_runner \<Rightarrow> ('a, 'd, 'k) model_runner"
where
  "upd_request i f r = r\<lparr>mr_states := (mr_states r)[i := f (mr_states r ! i)]\<rparr>"

definition last_logits ::
  "'a array_calls \<Rightarrow> forward_mode \<Rightarrow> 'a \<Rightarrow> 's \<Rightarrow> ('a forward_result, 's) outcome" where
  "last_logits ac mode logits s =
     (case ac_last_row ac logits of
        Inl e \<Rightarrow> Raise e s
      | Inr row \<Rightarrow> Return \<lparr>fr_logits = row, fr_forward_mode = mode\<rparr> s)"

section \<open>forward_prefill\<close>

text \<open>
  Steps 1 and 2: the slots of the cached prefix, its length, the tokens to process, and the slots
  for them. When the whole prompt is cached, its last token is processed again, into its slot.
\<close>

definition prefill_slots ::
  "token list \<Rightarrow> ('a, 'd, 'k) model_runner \<Rightarrow>
     (slot list \<times> nat \<times> token list \<times> slot list, ('a, 'd, 'k) model_runner) outcome" where
  "prefill_slots prompt_tokens r =
     bind_outcome (on_cache (match_prefix prompt_tokens) r) (\<lambda>m r1.
       let prefix_indices = mr_device_indices m;
           prefix_len = length prefix_indices
       in
       if length prompt_tokens \<le> prefix_len \<and> 0 < prefix_len then
         let prefix_len = prefix_len - 1;
             reused_slot = [prefix_indices ! prefix_len]
         in Return (take prefix_len prefix_indices, prefix_len, drop prefix_len prompt_tokens,
              reused_slot) r1
       else
         let new_tokens = drop prefix_len prompt_tokens
         in bind_outcome (on_cache (cache_alloc (int (length new_tokens))) r1)
              (\<lambda>new_slot_indices r2.
                Return (prefix_indices, prefix_len, new_tokens, new_slot_indices) r2))"

text \<open>Step 3.\<close>

definition make_caches :: "int \<Rightarrow> slot list \<Rightarrow> slot list \<Rightarrow> pooled_kv_cache list" where
  "make_caches num_layers prefix_indices new_slot_indices =
     map (\<lambda>i. set_indices prefix_indices new_slot_indices (kv_init i)) [0..num_layers - 1]"

text \<open>Steps 5 to 7, with the reference to the new request state.\<close>

definition prefill_register ::
  "string \<Rightarrow> token list \<Rightarrow> slot list \<Rightarrow> nat \<Rightarrow> pooled_kv_cache list \<Rightarrow> ('a, 'd, 'k) model_runner \<Rightarrow>
     (nat, ('a, 'd, 'k) model_runner) outcome" where
  "prefill_register request_id prompt_tokens all_slot_indices prefix_len kv_caches r =
     bind_outcome (on_cache (radix_insert (InsertParams prompt_tokens (Some all_slot_indices))) r)
       (\<lambda>_ r1. bind_outcome (on_cache (match_prefix prompt_tokens) r1)
         (\<lambda>match_after r2. let radix_node = mr_last_node match_after in
           bind_outcome (on_cache (inc_lock_ref radix_node) r2)
             (\<lambda>_ r3.
               let state = \<lparr>rq_request_id = request_id, rq_prompt_tokens = prompt_tokens,
                     rq_output_tokens = [], rq_all_slot_indices = all_slot_indices,
                     rq_radix_node = radix_node, rq_prefix_len = prefix_len,
                     rq_kv_caches = kv_caches\<rparr>;
                   i = length (mr_states r3)
               in Return i (r3\<lparr>mr_states := mr_states r3 @ [state],
                     mr_active_requests := AList.update request_id i (mr_active_requests r3)\<rparr>))))"

definition forward_prefill ::
  "'a array_calls \<Rightarrow> string \<Rightarrow> token list \<Rightarrow> ('a, 'd, 'k) model_runner \<Rightarrow>
     (nat \<times> 'a forward_result, ('a, 'd, 'k) model_runner) outcome" where
  "forward_prefill ac request_id prompt_tokens r =
     bind_outcome (prefill_slots prompt_tokens r)
       (\<lambda>(prefix_indices, prefix_len, new_tokens, new_slot_indices) r1.
         case mc_num_layers (mr_config r1) of
           None \<Rightarrow> Raise TypeError r1
         | Some num_layers \<Rightarrow>
             (case call_model ac new_tokens
                     (make_caches num_layers prefix_indices new_slot_indices) r1 of
                Diverge \<Rightarrow> Diverge
              | Raise e (kv_caches, r2) \<Rightarrow> Raise e r2
              | Return logits (kv_caches, r2) \<Rightarrow>
                  bind_outcome
                    (prefill_register request_id prompt_tokens (prefix_indices @ new_slot_indices)
                       prefix_len kv_caches r2)
                    (\<lambda>i r3. bind_outcome (last_logits ac PREFILL logits r3)
                       (\<lambda>result r4. Return (i, result) r4))))"

section \<open>forward_decode and finish_request\<close>

definition forward_decode ::
  "'a array_calls \<Rightarrow> nat \<Rightarrow> token \<Rightarrow> ('a, 'd, 'k) model_runner \<Rightarrow>
     ('a forward_result, ('a, 'd, 'k) model_runner) outcome" where
  "forward_decode ac i token_id r =
     bind_outcome (on_cache (cache_alloc 1) r) (\<lambda>new_slot r1.
       let state = mr_states r1 ! i;
           caches = map (set_indices (rq_all_slot_indices state) new_slot) (rq_kv_caches state)
       in
       case call_model ac [token_id] caches (upd_request i (\<lambda>st. st\<lparr>rq_kv_caches := caches\<rparr>) r1) of
         Diverge \<Rightarrow> Diverge
       | Raise e (caches', r2) \<Rightarrow> Raise e (upd_request i (\<lambda>st. st\<lparr>rq_kv_caches := caches'\<rparr>) r2)
       | Return logits (caches', r2) \<Rightarrow>
           let r3 = upd_request i (\<lambda>st. st\<lparr>rq_kv_caches := caches',
                      rq_output_tokens := rq_output_tokens st @ [token_id],
                      rq_all_slot_indices := rq_all_slot_indices st @ new_slot\<rparr>) r2;
               state' = mr_states r3 ! i;
               all_tokens = rq_prompt_tokens state' @ rq_output_tokens state'
           in bind_outcome
                (on_cache (radix_insert (InsertParams all_tokens (Some (rq_all_slot_indices state')))) r3)
                (\<lambda>_ r4. last_logits ac DECODE logits r4))"

definition finish_request ::
  "nat \<Rightarrow> ('a, 'd, 'k) model_runner \<Rightarrow> (unit, ('a, 'd, 'k) model_runner) outcome" where
  "finish_request i r =
     bind_outcome (on_cache (dec_lock_ref (rq_radix_node (mr_states r ! i))) r)
       (\<lambda>_ r1. Return () (r1\<lparr>mr_active_requests :=
          AList.delete (rq_request_id (mr_states r1 ! i)) (mr_active_requests r1)\<rparr>))"

section \<open>generate\<close>

definition argmax_sampler :: "'a array_calls \<Rightarrow> 'a \<Rightarrow> py_exn + token" where
  "argmax_sampler ac logits = ac_item ac (ac_argmax ac logits)"

text \<open>The loop over \<open>range(max_tokens)\<close>; its number of rounds is the first argument.\<close>

fun generate_loop ::
  "'a array_calls \<Rightarrow> nat \<Rightarrow> ('a \<Rightarrow> py_exn + token) \<Rightarrow> token set \<Rightarrow> nat \<Rightarrow> 'a forward_result \<Rightarrow>
     token list \<Rightarrow> ('a, 'd, 'k) model_runner \<Rightarrow> (token list, ('a, 'd, 'k) model_runner) outcome" where
  "generate_loop ac 0 sampler stop_tokens i result generated r = Return generated r"
| "generate_loop ac (Suc k) sampler stop_tokens i result generated r =
     (case sampler (fr_logits result) of
        Inl e \<Rightarrow> Raise e r
      | Inr token \<Rightarrow>
          (let generated' = generated @ [token] in
           if token \<in> stop_tokens then Return generated' r
           else bind_outcome (forward_decode ac i token r)
                  (\<lambda>result' r1. generate_loop ac k sampler stop_tokens i result' generated' r1)))"

text \<open>The first argument after the array package is the identifier \<open>uuid.uuid4().hex\<close>.\<close>

definition generate ::
  "'a array_calls \<Rightarrow> string \<Rightarrow> token list \<Rightarrow> int \<Rightarrow> ('a \<Rightarrow> py_exn + token) option \<Rightarrow> token set option \<Rightarrow>
     ('a, 'd, 'k) model_runner \<Rightarrow> (token list, ('a, 'd, 'k) model_runner) outcome" where
  "generate ac request_id prompt_tokens max_tokens sampler_opt stop_opt r =
     (let sampler = (case sampler_opt of None \<Rightarrow> argmax_sampler ac | Some f \<Rightarrow> f);
          stop_tokens = (case stop_opt of None \<Rightarrow> {} | Some S \<Rightarrow> S)
      in
      bind_outcome (forward_prefill ac request_id prompt_tokens r) (\<lambda>(i, result) r1.
        bind_outcome (generate_loop ac (nat max_tokens) sampler stop_tokens i result [] r1)
          (\<lambda>generated r2. bind_outcome (finish_request i r2) (\<lambda>_ r3. Return generated r3))))"

end
