(* ===== verification/Runner_Inv.thy ===== *)
theory Runner_Inv
  imports Pooled_Cache Model_Runner
begin

text \<open>
  What the model runner keeps true. The reference is a \<open>network\<close>: for every token sequence the
  key/value data of its last token in every layer (\<open>nw_kv\<close>) and the logits after it
  (\<open>nw_logits\<close>). A language model implements the network (\<open>model_law\<close>) when, called on some
  tokens with caches whose prefix slots hold the data of a context, it stores the data of the new
  tokens in the new slots, touches no other slot, and returns the logits after the whole sequence.

  The invariant says that every cached slot holds the data of the prefix it is cached for, that the
  slots of a live request hold the data of its tokens, and that every slot of the pool is exactly
  one of: free, in use (cached, or of a live request), or lost.
\<close>

section \<open>The reference network\<close>

record ('a, 'd, 'e) network =
  nw_mx :: "('a, 'd) mlx"
  nw_calls :: "'a array_calls"
  nw_elt :: "'a \<Rightarrow> nat list \<Rightarrow> 'e"
  nw_layers :: nat
  nw_heads :: nat
  nw_dim :: nat
  nw_kv :: "token list \<Rightarrow> nat \<Rightarrow> nat \<Rightarrow> nat \<Rightarrow> 'e \<times> 'e"
  nw_logits :: "token list \<Rightarrow> 'a"

text \<open>The slot \<open>x\<close> holds, in every layer, the data of the last token of \<open>ks\<close>.\<close>

definition holds :: "('a, 'd, 'e) network \<Rightarrow> ('a, 'd) token_pool \<Rightarrow> slot \<Rightarrow> token list \<Rightarrow> bool" where
  "holds nw p x ks \<longleftrightarrow>
     (\<forall>l < nw_layers nw. \<forall>i < nw_heads nw. \<forall>j < nw_dim nw.
        nw_elt nw (tp_k_buffer p ! l) [nat x, i, j] = fst (nw_kv nw ks l i j) \<and>
        nw_elt nw (tp_v_buffer p ! l) [nat x, i, j] = snd (nw_kv nw ks l i j))"

definition pool_fits :: "('a, 'd, 'e) network \<Rightarrow> ('a, 'd) token_pool \<Rightarrow> bool" where
  "pool_fits nw p \<longleftrightarrow> pool_ok (nw_mx nw) (nw_layers nw) (nw_heads nw) (nw_dim nw) p"

definition layers_ok :: "('a, 'd, 'e) network \<Rightarrow> pooled_kv_cache list \<Rightarrow> bool" where
  "layers_ok nw cs \<longleftrightarrow>
     length cs = nw_layers nw \<and> (\<forall>l < nw_layers nw. pk_layer_idx (cs ! l) = int l)"

text \<open>A call on \<open>toks\<close> after \<open>ctx\<close>, whose data is in the slots \<open>pre\<close>, with the slots \<open>new\<close>.\<close>

definition valid_call ::
  "('a, 'd, 'e) network \<Rightarrow> token list \<Rightarrow> token list \<Rightarrow> slot list \<Rightarrow> slot list \<Rightarrow>
     pooled_kv_cache list \<times> ('a, 'd) token_pool \<Rightarrow> bool" where
  "valid_call nw ctx toks pre new s \<longleftrightarrow>
     toks \<noteq> [] \<and> length pre = length ctx \<and> length new = length toks \<and> distinct (pre @ new) \<and>
     pool_fits nw (snd s) \<and> set (pre @ new) \<subseteq> {1..tp_pool_size (snd s)} \<and>
     layers_ok nw (fst s) \<and> (\<forall>c \<in> set (fst s). set_indices pre new c = c) \<and>
     (\<forall>t < length ctx. holds nw (snd s) (pre ! t) (take (Suc t) ctx))"

text \<open>Nothing but the new slots changes, and a new slot that held its token's data still does.\<close>

definition model_frame ::
  "('a, 'd, 'e) network \<Rightarrow> token list \<Rightarrow> token list \<Rightarrow> slot list \<Rightarrow>
     pooled_kv_cache list \<times> ('a, 'd) token_pool \<Rightarrow> pooled_kv_cache list \<times> ('a, 'd) token_pool \<Rightarrow> bool"
where
  "model_frame nw ctx toks new s t \<longleftrightarrow>
     pool_fits nw (snd t) \<and> tp_pool_size (snd t) = tp_pool_size (snd s) \<and> layers_ok nw (fst t) \<and>
     (\<forall>x ks. x \<in> {1..tp_pool_size (snd s)} - set new \<longrightarrow> holds nw (snd s) x ks \<longrightarrow> holds nw (snd t) x ks) \<and>
     (\<forall>i < length toks. holds nw (snd s) (new ! i) (ctx @ take (Suc i) toks) \<longrightarrow>
        holds nw (snd t) (new ! i) (ctx @ take (Suc i) toks))"

definition model_law :: "('a, 'd, 'e) network \<Rightarrow> ('a, 'd) language_model \<Rightarrow> bool" where
  "model_law nw lm \<longleftrightarrow>
     (\<forall>ctx toks pre new s. valid_call nw ctx toks pre new s \<longrightarrow>
        (case lm_call lm (ac_tokens (nw_calls nw) [toks]) s of
           Diverge \<Rightarrow> False
         | Raise e t \<Rightarrow> model_frame nw ctx toks new s t
         | Return y t \<Rightarrow> model_frame nw ctx toks new s t \<and>
             (\<forall>i < length toks. holds nw (snd t) (new ! i) (ctx @ take (Suc i) toks)) \<and>
             ac_last_row (nw_calls nw) y = Inr (nw_logits nw (ctx @ toks))))"

text \<open>A model that never fails on such a call.\<close>

definition model_total :: "('a, 'd, 'e) network \<Rightarrow> ('a, 'd) language_model \<Rightarrow> bool" where
  "model_total nw lm \<longleftrightarrow>
     (\<forall>ctx toks pre new s. valid_call nw ctx toks pre new s \<longrightarrow>
        (\<exists>y t. lm_call lm (ac_tokens (nw_calls nw) [toks]) s = Return y t))"

section \<open>The invariant\<close>

text \<open>\<open>L\<close> are the references of the requests that have not been finished.\<close>

definition live_locks :: "request_state list \<Rightarrow> nat set \<Rightarrow> locks" where
  "live_locks sts L n = card {i \<in> L. rq_radix_node (sts ! i) = n}"

definition live_slots :: "request_state list \<Rightarrow> nat set \<Rightarrow> slot set" where
  "live_slots sts L = (\<Union>i \<in> L. set (rq_all_slot_indices (sts ! i)))"

definition used_slots :: "radix_cache \<Rightarrow> request_state list \<Rightarrow> nat set \<Rightarrow> slot set" where
  "used_slots c sts L = cached_slots (cached c) \<union> live_slots sts L"

text \<open>The tokens of a request that have been processed.\<close>

definition rq_tokens :: "request_state \<Rightarrow> token list" where
  "rq_tokens st = rq_prompt_tokens st @ rq_output_tokens st"

definition request_inv ::
  "('a, 'd, 'e) network \<Rightarrow> radix_cache \<Rightarrow> ('a, 'd) token_pool \<Rightarrow> request_state \<Rightarrow> bool" where
  "request_inv nw c p st \<longleftrightarrow>
     path_of c (rq_radix_node st) (rq_prompt_tokens st) \<and> cached c (rq_tokens st) \<noteq> None \<and>
     length (rq_all_slot_indices st) = length (rq_tokens st) \<and> distinct (rq_all_slot_indices st) \<and>
     layers_ok nw (rq_kv_caches st) \<and>
     (\<forall>t < length (rq_tokens st).
        holds nw p (rq_all_slot_indices st ! t) (take (Suc t) (rq_tokens st)) \<and>
        (\<forall>ks. owns (cached c) ks (rq_all_slot_indices st ! t) \<longrightarrow> ks = take (Suc t) (rq_tokens st)))"

text \<open>Every slot of the pool is free, or in \<open>U\<close> (in use), or in \<open>R\<close> (lost).\<close>

definition slots_inv :: "token_allocator option \<Rightarrow> int \<Rightarrow> slot set \<Rightarrow> slot set \<Rightarrow> bool" where
  "slots_inv a sz U R \<longleftrightarrow>
     finite U \<and> finite R \<and> U \<inter> R = {} \<and>
     (case a of None \<Rightarrow> False | Some b \<Rightarrow> al_pool_size b = sz \<and> alloc_inv b (mset_set (U \<union> R)))"

definition core_inv ::
  "('a, 'd, 'e) network \<Rightarrow> radix_cache \<Rightarrow> ('a, 'd) token_pool \<Rightarrow> request_state list \<Rightarrow> nat set \<Rightarrow>
     slot set \<Rightarrow> bool" where
  "core_inv nw c p sts L R \<longleftrightarrow>
     pool_fits nw p \<and> healthy c (live_locks sts L) \<and> L \<subseteq> {..<length sts} \<and>
     unique_owner (cached c) \<and> slots_inv (rc_allocator c) (tp_pool_size p) (used_slots c sts L) R \<and>
     (\<forall>ks x. owns (cached c) ks x \<longrightarrow> holds nw p x ks) \<and> (\<forall>i \<in> L. request_inv nw c p (sts ! i))"

definition runner_inv ::
  "('a, 'd, 'e) network \<Rightarrow> ('a, 'd, 'k) model_runner \<Rightarrow> nat set \<Rightarrow> slot set \<Rightarrow> bool" where
  "runner_inv nw r L R \<longleftrightarrow>
     model_law nw (mr_model r) \<and> mc_num_layers (mr_config r) = Some (int (nw_layers nw)) \<and>
     core_inv nw (mr_radix_cache r) (mr_pool r) (mr_states r) L R"

lemma core_invD:
  assumes "core_inv nw c p sts L R"
  shows "pool_fits nw p" "healthy c (live_locks sts L)" "L \<subseteq> {..<length sts}" "unique_owner (cached c)"
    "slots_inv (rc_allocator c) (tp_pool_size p) (used_slots c sts L) R"
    "owns (cached c) ks x \<Longrightarrow> holds nw p x ks" "i \<in> L \<Longrightarrow> request_inv nw c p (sts ! i)"
  using assms by (auto simp: core_inv_def)

lemma slots_invD:
  assumes "slots_inv a sz U R"
  obtains b where "a = Some b" "al_pool_size b = sz" "alloc_inv b (mset_set (U \<union> R))"
    "finite U" "finite R" "U \<inter> R = {}"
  using assms by (auto simp: slots_inv_def split: option.splits)

lemma slots_inv_range:
  assumes "slots_inv a sz U R"
  shows "U \<union> R \<subseteq> {1..sz}"
proof -
  obtain b where b: "al_pool_size b = sz" "alloc_inv b (mset_set (U \<union> R))" "finite (U \<union> R)"
    using assms by (rule slots_invD) auto
  from b(2) have "mset_set (U \<union> R) \<subseteq># mset_set {1..sz}"
    unfolding alloc_inv_def b(1) by (metis mset_subset_eq_add_right)
  then show ?thesis using b(3) by (metis finite_atLeastAtMost_int finite_set_mset_mset_set set_mset_mono)
qed

lemma slots_inv_free:
  assumes "slots_inv (Some a) sz U R"
  shows "(U \<union> R) \<inter> set (al_free_slots a) = {}" "distinct (al_free_slots a)"
proof -
  have i: "alloc_inv a (mset_set (U \<union> R))" "finite (U \<union> R)" using assms by (auto simp: slots_inv_def)
  obtain xs where xs: "mset xs = mset_set (U \<union> R)" by (metis ex_mset)
  then have "set xs = U \<union> R" using i(2) by (metis finite_set_mset_mset_set set_mset_mset)
  moreover have "alloc_inv a (mset xs + mset [])" using i(1) xs by simp
  ultimately show "(U \<union> R) \<inter> set (al_free_slots a) = {}" "distinct (al_free_slots a)"
    using alloc_inv_disjoint [of a xs "[]"] by auto
qed

text \<open>Moving slots between the two classes.\<close>

lemma slots_inv_move:
  assumes "slots_inv a sz U R" "U' \<union> R' = U \<union> R" "U' \<inter> R' = {}"
  shows "slots_inv a sz U' R'"
proof -
  have "finite (U \<union> R)" using assms(1) by (simp add: slots_inv_def)
  then have "finite U'" "finite R'" unfolding assms(2) [symmetric] by simp_all
  then show ?thesis using assms by (auto simp: slots_inv_def split: option.splits)
qed

lemma slots_inv_alloc:
  assumes inv: "slots_inv (Some a) sz U R" and al: "alloc n a = Return xs b"
  shows "slots_inv (Some b) sz U (R \<union> set xs)" "distinct xs" "set xs \<inter> (U \<union> R) = {}" "set xs \<subseteq> {1..sz}"
proof -
  have i: "alloc_inv a (mset_set (U \<union> R))" "finite (U \<union> R)" "al_pool_size a = sz"
    using inv by (auto simp: slots_inv_def)
  have f: "distinct xs" "set xs \<inter> (U \<union> R) = {}" "set xs \<subseteq> {1..sz}"
    using pool_alloc.get_fresh [OF i(1) al] i(2,3) by auto
  then show "distinct xs" "set xs \<inter> (U \<union> R) = {}" "set xs \<subseteq> {1..sz}" by blast+
  have "mset_set (U \<union> R) + mset xs = mset_set (U \<union> (R \<union> set xs))"
    using f(1,2) i(2) by (subst Un_assoc [symmetric], subst mset_set_Union) (auto simp: mset_set_set)
  then have "alloc_inv b (mset_set (U \<union> (R \<union> set xs)))"
    using pool_alloc.get_inv [OF i(1) al] by simp
  then show "slots_inv (Some b) sz U (R \<union> set xs)"
    using inv f(2) alloc_pool_size [OF al] by (auto simp: slots_inv_def)
qed

section \<open>Steps on the cache\<close>

lemma cached_slots_mono:
  "(\<And>ks ws. c ks = Some ws \<Longrightarrow> c' ks = Some ws) \<Longrightarrow> cached_slots c \<subseteq> cached_slots c'"
  by (auto simp: cached_slots_def owns_def)

lemma request_inv_cache:
  assumes "request_inv nw c p st"
    and "\<And>n q. path_of c n q \<Longrightarrow> path_of c' n q" "\<And>ks ws. cached c ks = Some ws \<Longrightarrow> cached c' ks = Some ws"
    and "\<And>ks x. owns (cached c') ks x \<Longrightarrow> x \<in> set (rq_all_slot_indices st) \<Longrightarrow> owns (cached c) ks x"
  shows "request_inv nw c' p st"
proof -
  note r = assms(1) [unfolded request_inv_def]
  have "cached c' (rq_tokens st) \<noteq> None" using r assms(3) by blast
  moreover have "ks = take (Suc t) (rq_tokens st)"
    if "t < length (rq_tokens st)" "owns (cached c') ks (rq_all_slot_indices st ! t)" for t ks
    using assms(4) [OF that(2)] r that(1) by auto
  ultimately show ?thesis
    using r assms(2) unfolding request_inv_def by blast
qed

text \<open>A step that keeps the content and the allocator.\<close>

lemma core_same:
  assumes inv: "core_inv nw c p sts L R" and "healthy c' (live_locks sts L)"
    and "\<And>n q. path_of c n q \<Longrightarrow> path_of c' n q" and "cached c' = cached c"
    and "rc_allocator c' = rc_allocator c"
  shows "core_inv nw c' p sts L R"
  using inv assms(2,4,5) unfolding core_inv_def used_slots_def
  by (auto intro!: request_inv_cache [of nw c p _ c'] assms(3))

lemma core_match:
  assumes inv: "core_inv nw c p sts L R"
  obtains m c' q where "match_prefix key c = Return m c'" "core_inv nw c' p sts L R"
    "cached c' = cached c" "prefix q key" "cached c q = Some (mr_device_indices m)"
    "\<And>ks. prefix ks key \<Longrightarrow> length q < length ks \<Longrightarrow> cached c ks = None"
    "path_of c' (mr_last_node m) q" "length (mr_device_indices m) = length q"
    "rc_allocator c' = rc_allocator c"
proof -
  note ok = core_invD(2) [OF inv]
  obtain m c' q where m: "match_prefix key c = Return m c'" "healthy c' (live_locks sts L)"
    "cached c' = cached c" "prefix q key" "cached c q = Some (mr_device_indices m)"
    "\<forall>ks. prefix ks key \<longrightarrow> length q < length ks \<longrightarrow> cached c ks = None"
    "path_of c' (mr_last_node m) q" "\<forall>n p. path_of c n p \<longrightarrow> path_of c' n p"
    using match_law [OF ok, of key] by blast
  note al = match_pool [OF ok m(1)]
  have "core_inv nw c' p sts L R"
    by (rule core_same [OF inv m(2) _ m(3) al]) (use m(8) in blast)
  then show thesis
    using that [OF m(1) _ m(3-5) _ m(7) healthy_cached_length [OF ok m(5)] al] m(6) by blast
qed

lemma core_alloc:
  assumes inv: "core_inv nw c p sts L R" and n: "0 \<le> n" and a: "rc_allocator c = Some a"
  shows "available_size a < n \<Longrightarrow> cache_alloc n c = Raise MemoryError c"
    and "n \<le> available_size a \<Longrightarrow> \<exists>xs c' b. cache_alloc n c = Return xs c' \<and>
      core_inv nw c' p sts L (R \<union> set xs) \<and> int (length xs) = n \<and> distinct xs \<and>
      set xs \<inter> (used_slots c sts L \<union> R) = {} \<and> set xs \<subseteq> {1..tp_pool_size p} \<and>
      cached c' = cached c \<and> path_of c' = path_of c \<and>
      rc_allocator c' = Some b \<and> available_size b = available_size a - n"
proof -
  have same: "set_allocator a c = c" using a by (cases c) (simp add: set_allocator_def)
  show "cache_alloc n c = Raise MemoryError c" if "available_size a < n"
  proof -
    have "alloc n a = Raise MemoryError a"
      using that n by (intro pool_alloc.get_full) (simp_all add: available_size_def)
    then show ?thesis by (simp add: cache_alloc_def a same)
  qed
  assume "n \<le> available_size a"
  then obtain xs b where al: "alloc n a = Return xs b"
    using pool_alloc.get_ok [OF n] by blast
  let ?c = "set_allocator b c"
  note s = slots_inv_alloc [OF core_invD(5) [OF inv, unfolded a] al]
  note k = attach_law [OF core_invD(2) [OF inv], of b]
  have k': "healthy ?c (live_locks sts L)" "cached ?c = cached c" "path_of ?c = path_of c"
    "rc_allocator ?c = Some b" using k by simp_all
  have "request_inv nw ?c p st \<longleftrightarrow> request_inv nw c p st" for st
    by (simp add: request_inv_def k'(2,3))
  then have "core_inv nw ?c p sts L (R \<union> set xs)"
    using inv s(1) k' unfolding core_inv_def used_slots_def by simp
  moreover have "cache_alloc n c = Return xs ?c" by (simp add: cache_alloc_def a al)
  moreover have "available_size b = available_size a - n" by (rule pool_alloc.get_avail [OF n al])
  ultimately show "\<exists>xs c' b. cache_alloc n c = Return xs c' \<and>
      core_inv nw c' p sts L (R \<union> set xs) \<and> int (length xs) = n \<and> distinct xs \<and>
      set xs \<inter> (used_slots c sts L \<union> R) = {} \<and> set xs \<subseteq> {1..tp_pool_size p} \<and>
      cached c' = cached c \<and> path_of c' = path_of c \<and>
      rc_allocator c' = Some b \<and> available_size b = available_size a - n"
    using s(2-4) k'(2,3,4) alloc_length [OF al n] by blast
qed

text \<open>Storing a sequence whose slots beyond the cached prefix belong to no one.\<close>

lemma core_insert:
  assumes inv: "core_inv nw c p sts L R" and len: "length vals = length key"
    and ins: "radix_insert (InsertParams key (Some vals)) c = Return i c'"
    and new: "set (drop (ir_prefix_len i) vals) \<subseteq> R" "distinct (drop (ir_prefix_len i) vals)"
    and data: "\<And>j. ir_prefix_len i \<le> j \<Longrightarrow> j < length key \<Longrightarrow> holds nw p (vals ! j) (take (Suc j) key)"
  shows "core_inv nw c' p sts L (R - set (drop (ir_prefix_len i) vals))"
    and "rc_allocator c' = rc_allocator c"
proof -
  let ?p = "InsertParams key (Some vals)" and ?new = "set (drop (ir_prefix_len i) vals)"
  have p: "ip_key ?p = key" "param_value ?p = vals" "length (param_value ?p) = length (ip_key ?p)"
    using len by (simp_all add: InsertParams_def param_value_def)
  note ok = core_invD(2) [OF inv]
  note i = healthy_insert [OF ok p(3) ins] insert_pool [OF ok p(3) ins]
  note own = radix_pool.store_owns [OF ok p(3) ins, unfolded p(1,2)]
  note slots = radix_pool.store_cached_slots [OF ok p(3) ins, unfolded p(2)]
  have disj: "used_slots c sts L \<inter> R = {}" using core_invD(5) [OF inv] by (simp add: slots_inv_def)
  have uniq: "unique_owner (cached c')"
    using radix_pool.store_unique [OF ok p(3) ins core_invD(4) [OF inv], unfolded p(2), OF new(2)]
      new(1) disj unfolding used_slots_def by blast
  have mono: "cached c ks = Some ws \<Longrightarrow> cached c' ks = Some ws" "path_of c n q \<Longrightarrow> path_of c' n q" for ks ws n q
    using insert_law [OF ok p(3)] ins by auto
  have "slots_inv (rc_allocator c') (tp_pool_size p) (used_slots c' sts L) (R - ?new)"
    unfolding i(2) by (rule slots_inv_move [OF core_invD(5) [OF inv]])
      (use new(1) disj in \<open>auto simp: used_slots_def slots\<close>)
  moreover have "holds nw p x ks" if "owns (cached c') ks x" for ks x
    using that core_invD(6) [OF inv] data unfolding own by auto
  moreover have "request_inv nw c' p (sts ! k)" if k: "k \<in> L" for k
  proof (rule request_inv_cache [OF core_invD(7) [OF inv k] mono(2,1)])
    fix ks x assume x: "owns (cached c') ks x" "x \<in> set (rq_all_slot_indices (sts ! k))"
    then have "x \<notin> R" using k disj by (auto simp: used_slots_def live_slots_def)
    then have "x \<notin> ?new" using new(1) by blast
    then have "\<not> (ir_prefix_len i \<le> j \<and> j < length key \<and> x = vals ! j)" for j
      unfolding set_drop_iff using len by auto
    then show "owns (cached c) ks x" using x(1) unfolding own by blast
  qed
  ultimately show "core_inv nw c' p sts L (R - ?new)"
    using core_invD(1,3) [OF inv] i(1) uniq by (simp add: core_inv_def)
  show "rc_allocator c' = rc_allocator c" by (rule i(2))
qed

end
