(* ===== verification/Runner_Steps.thy ===== *)
theory Runner_Steps
  imports Runner_Inv
begin

text \<open>
  The steps of the runner on its invariant: what a call of the model does, how a request is
  registered, extended and finished, and then what \<open>forward_prefill\<close>, \<open>forward_decode\<close> and
  \<open>finish_request\<close> do on every branch.
\<close>

section \<open>Calls of the model\<close>

lemma request_inv_pool:
  assumes "request_inv nw c p st"
    and "\<And>t. t < length (rq_tokens st) \<Longrightarrow> holds nw q (rq_all_slot_indices st ! t) (take (Suc t) (rq_tokens st))"
  shows "request_inv nw c q st"
  using assms unfolding request_inv_def by blast

text \<open>
  The pool may change in slots no one uses, and in a cached slot that keeps the data of its owner.
\<close>

lemma core_pool:
  assumes inv: "core_inv nw c p sts L R" and q: "pool_fits nw q" "tp_pool_size q = tp_pool_size p"
    and frame: "\<And>x ks. x \<in> {1..tp_pool_size p} - N \<Longrightarrow> holds nw p x ks \<Longrightarrow> holds nw q x ks"
    and N: "\<And>x. x \<in> N \<Longrightarrow> x \<in> used_slots c sts L \<Longrightarrow> \<exists>ks. owns (cached c) ks x \<and> holds nw q x ks"
  shows "core_inv nw c q sts L R"
proof -
  have range: "used_slots c sts L \<subseteq> {1..tp_pool_size p}"
    using slots_inv_range [OF core_invD(5) [OF inv]] by simp
  have keep: "holds nw q x ks"
    if x: "holds nw p x ks" "x \<in> used_slots c sts L" "\<And>js. owns (cached c) js x \<Longrightarrow> js = ks" for x ks
  proof (cases "x \<in> N")
    case True
    then show ?thesis using N x by blast
  next
    case False
    then show ?thesis using frame x range by blast
  qed
  have "holds nw q x ks" if "owns (cached c) ks x" for ks x
    using keep [OF core_invD(6) [OF inv that]] unique_ownerD [OF core_invD(4) [OF inv] _ that]
      owns_cached [OF that] by (auto simp: used_slots_def)
  moreover have "request_inv nw c q (sts ! i)" if i: "i \<in> L" for i
  proof (rule request_inv_pool [OF core_invD(7) [OF inv i]])
    fix t assume t: "t < length (rq_tokens (sts ! i))"
    note r = core_invD(7) [OF inv i, unfolded request_inv_def]
    have "rq_all_slot_indices (sts ! i) ! t \<in> set (rq_all_slot_indices (sts ! i))"
      using t r by simp
    then have "rq_all_slot_indices (sts ! i) ! t \<in> used_slots c sts L"
      using i unfolding used_slots_def live_slots_def by blast
    with r t show "holds nw q (rq_all_slot_indices (sts ! i) ! t) (take (Suc t) (rq_tokens (sts ! i)))"
      by (intro keep) auto
  qed
  ultimately show ?thesis
    using inv q unfolding core_inv_def by simp
qed

text \<open>The caches a prefill makes, and those a decode step sets up, are those of a valid call.\<close>

lemma make_caches_ok:
  "layers_ok nw (make_caches (int (nw_layers nw)) pre new)"
  "\<forall>c \<in> set (make_caches n pre new). set_indices pre new c = c"
  by (auto simp: layers_ok_def make_caches_def set_indices_def kv_init_def)

lemma map_set_indices_ok:
  assumes "layers_ok nw cs"
  shows "layers_ok nw (map (set_indices pre new) cs)"
    "\<forall>c \<in> set (map (set_indices pre new) cs). set_indices pre new c = c"
  using assms by (auto simp: layers_ok_def set_indices_def)

lemma core_call:
  assumes inv: "core_inv nw c p sts L R" and law: "model_law nw lm"
    and call: "valid_call nw ctx toks pre new (cs, p)"
    and new: "\<And>x. x \<in> set new \<Longrightarrow> x \<in> used_slots c sts L \<Longrightarrow>
      toks = [last (ctx @ toks)] \<and> owns (cached c) (ctx @ toks) x"
  shows "case lm_call lm (ac_tokens (nw_calls nw) [toks]) (cs, p) of
      Diverge \<Rightarrow> False
    | Raise e (cs', q) \<Rightarrow> core_inv nw c q sts L R \<and> layers_ok nw cs' \<and> tp_pool_size q = tp_pool_size p
    | Return y (cs', q) \<Rightarrow> core_inv nw c q sts L R \<and> layers_ok nw cs' \<and> tp_pool_size q = tp_pool_size p \<and>
        (\<forall>i < length toks. holds nw q (new ! i) (ctx @ take (Suc i) toks)) \<and>
        (\<forall>t < length ctx. holds nw q (pre ! t) (take (Suc t) ctx)) \<and>
        ac_last_row (nw_calls nw) y = Inr (nw_logits nw (ctx @ toks))"
proof -
  note v = call [unfolded valid_call_def]
  have frame: "core_inv nw c q sts L R \<and> layers_ok nw cs' \<and> tp_pool_size q = tp_pool_size p \<and>
      (\<forall>t < length ctx. holds nw q (pre ! t) (take (Suc t) ctx))"
    if f: "model_frame nw ctx toks new (cs, p) (cs', q)" for cs' q
  proof -
    note f' = f [unfolded model_frame_def]
    have "core_inv nw c q sts L R"
    proof (rule core_pool [OF inv])
      fix x assume x: "x \<in> set new" "x \<in> used_slots c sts L"
      note o = new [OF x]
      from o obtain y where y: "toks = [y]" by blast
      with v x(1) have "new = [x]" by (cases new) auto
      moreover have "holds nw p x (ctx @ toks)" using o core_invD(6) [OF inv] by blast
      ultimately have "holds nw q x (ctx @ toks)" using f' y by auto
      with o show "\<exists>ks. owns (cached c) ks x \<and> holds nw q x ks" by blast
    qed (use f' in auto)
    moreover have "holds nw q (pre ! t) (take (Suc t) ctx)" if "t < length ctx" for t
    proof -
      have "pre ! t \<in> set pre" using that v by simp
      then have "pre ! t \<in> {1..tp_pool_size p} - set new" using v by auto
      then show ?thesis using f' v that by auto
    qed
    ultimately show ?thesis using f' by simp
  qed
  have law': "case lm_call lm (ac_tokens (nw_calls nw) [toks]) (cs, p) of
           Diverge \<Rightarrow> False
         | Raise e t \<Rightarrow> model_frame nw ctx toks new (cs, p) t
         | Return y t \<Rightarrow> model_frame nw ctx toks new (cs, p) t \<and>
             (\<forall>i < length toks. holds nw (snd t) (new ! i) (ctx @ take (Suc i) toks)) \<and>
             ac_last_row (nw_calls nw) y = Inr (nw_logits nw (ctx @ toks))"
    using law call unfolding model_law_def by blast
  show ?thesis
  proof (cases "lm_call lm (ac_tokens (nw_calls nw) [toks]) (cs, p)")
    case (Return y t)
    then show ?thesis using law' frame by (cases t) auto
  next
    case (Raise e t)
    then show ?thesis using law' frame by (cases t) auto
  next
    case Diverge
    then show ?thesis using law' by simp
  qed
qed

section \<open>Registering, extending and finishing a request\<close>

lemma live_locks_snoc:
  assumes "L \<subseteq> {..<length sts}"
  shows "live_locks (sts @ [st]) (insert (length sts) L) =
    (live_locks sts L)(rq_radix_node st := live_locks sts L (rq_radix_node st) + 1)"
proof
  fix n
  let ?A = "{i \<in> L. rq_radix_node (sts ! i) = n}"
  have fin: "finite ?A" using assms finite_subset by fastforce
  have old: "(sts @ [st]) ! i = sts ! i" if "i \<in> L" for i
    using that assms by (auto simp: nth_append)
  then have "{i \<in> insert (length sts) L. rq_radix_node ((sts @ [st]) ! i) = n} =
      (if rq_radix_node st = n then insert (length sts) ?A else ?A)"
    by auto
  moreover have "card (insert (length sts) ?A) = Suc (card ?A)"
    using fin assms by (intro card_insert_disjoint) auto
  ultimately show "live_locks (sts @ [st]) (insert (length sts) L) n =
      ((live_locks sts L)(rq_radix_node st := live_locks sts L (rq_radix_node st) + 1)) n"
    by (cases "rq_radix_node st = n") (auto simp: live_locks_def)
qed

lemma live_locks_remove:
  assumes "L \<subseteq> {..<length sts}" "i \<in> L"
  shows "live_locks sts (L - {i}) =
    (live_locks sts L)(rq_radix_node (sts ! i) := live_locks sts L (rq_radix_node (sts ! i)) - 1)"
    and "0 < live_locks sts L (rq_radix_node (sts ! i))"
proof -
  have fin: "finite {j \<in> L. rq_radix_node (sts ! j) = n}" for n
    using assms(1) finite_subset by fastforce
  have "{j \<in> L - {i}. rq_radix_node (sts ! j) = n} = {j \<in> L. rq_radix_node (sts ! j) = n} - {i}" for n
    by blast
  then show "live_locks sts (L - {i}) =
    (live_locks sts L)(rq_radix_node (sts ! i) := live_locks sts L (rq_radix_node (sts ! i)) - 1)"
    using assms(2) fin by (auto simp: live_locks_def fun_eq_iff)
  show "0 < live_locks sts L (rq_radix_node (sts ! i))"
    using assms(2) fin by (auto simp: live_locks_def card_gt_0_iff)
qed

lemma live_locks_update:
  assumes "\<And>st. rq_radix_node (f st) = rq_radix_node st" "i < length sts"
  shows "live_locks (sts[i := f (sts ! i)]) L = live_locks sts L"
proof -
  have "rq_radix_node (sts[i := f (sts ! i)] ! j) = rq_radix_node (sts ! j)" for j
    using assms by (cases "i = j") auto
  then show ?thesis by (simp add: live_locks_def fun_eq_iff)
qed

lemma live_slots_update:
  assumes "i \<in> L" "i < length sts" "set (rq_all_slot_indices st) = set (rq_all_slot_indices (sts ! i)) \<union> X"
  shows "live_slots (sts[i := st]) L = live_slots sts L \<union> X"
proof -
  have "set (rq_all_slot_indices (sts[i := st] ! j)) =
      set (rq_all_slot_indices (sts ! j)) \<union> (if j = i then X else {})" for j
    using assms(2,3) by (cases "j = i") auto
  then show ?thesis using assms(1) by (auto simp: live_slots_def split: if_splits)
qed

lemma core_register:
  assumes inv: "core_inv nw c p sts L R" and st: "request_inv nw c p st"
    and slots: "set (rq_all_slot_indices st) \<subseteq> cached_slots (cached c)"
  obtains d c' where "inc_lock_ref (rq_radix_node st) c = Return d c'" "cached c' = cached c"
    "core_inv nw c' p (sts @ [st]) (insert (length sts) L) R" "rc_allocator c' = rc_allocator c"
proof -
  let ?n = "rq_radix_node st" and ?L = "insert (length sts) L" and ?sts = "sts @ [st]"
  note ok = core_invD(2) [OF inv] and L = core_invD(3) [OF inv]
  have path: "path_of c ?n (rq_prompt_tokens st)" using st by (simp add: request_inv_def)
  obtain d c' where l: "inc_lock_ref ?n c = Return d c'"
    "healthy c' ((live_locks sts L)(?n := live_locks sts L ?n + 1))" "cached c' = cached c"
    "\<forall>m p. path_of c m p \<longrightarrow> path_of c' m p"
    using lock_law [OF ok path] by blast
  note al = lock_pool [OF ok path l(1)]
  have mono: "request_inv nw c' p s" if "request_inv nw c p s" for s
    by (rule request_inv_cache [OF that]) (use l(3,4) in auto)
  have nth: "?sts ! i = sts ! i" if "i \<in> L" for i using that L by (auto simp: nth_append)
  have "used_slots c' ?sts ?L = used_slots c sts L"
    using slots nth l(3) by (auto simp: used_slots_def live_slots_def)
  moreover have "request_inv nw c' p (?sts ! i)" if "i \<in> ?L" for i
    using that mono [OF st] mono [OF core_invD(7) [OF inv]] nth by auto
  ultimately have "core_inv nw c' p ?sts ?L R"
    using inv l(2,3) al L unfolding core_inv_def live_locks_snoc [OF L] by auto
  then show thesis using that l(1,3) al by blast
qed

lemma core_update:
  assumes inv: "core_inv nw c p sts L R" and i: "i \<in> L"
    and st: "request_inv nw c p (f (sts ! i))" "\<And>st. rq_radix_node (f st) = rq_radix_node st"
    and slots: "slots_inv (rc_allocator c) (tp_pool_size p) (used_slots c (sts[i := f (sts ! i)]) L) R'"
  shows "core_inv nw c p (sts[i := f (sts ! i)]) L R'"
proof -
  have len: "i < length sts" using i core_invD(3) [OF inv] by auto
  have "request_inv nw c p (sts[i := f (sts ! i)] ! j)" if "j \<in> L" for j
    using core_invD(7) [OF inv that] st(1) len by (cases "i = j") auto
  then show ?thesis
    using inv slots unfolding core_inv_def live_locks_update [of f, OF st(2) len] by auto
qed

text \<open>Only the caches of a request change.\<close>

lemma core_kv:
  assumes inv: "core_inv nw c p sts L R" and i: "i \<in> L" and cs: "layers_ok nw cs"
  shows "core_inv nw c p (sts[i := (sts ! i)\<lparr>rq_kv_caches := cs\<rparr>]) L R"
proof (rule core_update [OF inv i])
  show "request_inv nw c p ((sts ! i)\<lparr>rq_kv_caches := cs\<rparr>)"
    using core_invD(7) [OF inv i] cs by (simp add: request_inv_def rq_tokens_def)
  have "live_slots (sts[i := (sts ! i)\<lparr>rq_kv_caches := cs\<rparr>]) L = live_slots sts L"
    using live_slots_update [OF i, where X = "{}"] i core_invD(3) [OF inv] by auto
  then show "slots_inv (rc_allocator c) (tp_pool_size p)
      (used_slots c (sts[i := (sts ! i)\<lparr>rq_kv_caches := cs\<rparr>]) L) R"
    using core_invD(5) [OF inv] by (simp add: used_slots_def)
qed simp

text \<open>A request gets one more token and its slot, which it owns alone or the cache owns too.\<close>

definition extended :: "request_state \<Rightarrow> token \<Rightarrow> slot \<Rightarrow> pooled_kv_cache list \<Rightarrow> request_state" where
  "extended st tok x cs = st\<lparr>rq_kv_caches := cs, rq_output_tokens := rq_output_tokens st @ [tok],
     rq_all_slot_indices := rq_all_slot_indices st @ [x]\<rparr>"

lemma core_extend:
  assumes inv: "core_inv nw c p sts L R" and i: "i \<in> L" and cs: "layers_ok nw cs"
    and x: "x \<notin> live_slots sts L" "x \<in> R \<or> owns (cached c) (rq_tokens (sts ! i) @ [tok]) x"
    and cached: "cached c (rq_tokens (sts ! i) @ [tok]) \<noteq> None"
    and data: "holds nw p x (rq_tokens (sts ! i) @ [tok])"
  shows "core_inv nw c p (sts[i := extended (sts ! i) tok x cs]) L (R - {x})"
proof (rule core_update [OF inv i, where f = "\<lambda>st. extended st tok x cs"])
  let ?st = "sts ! i"
  note r = core_invD(7) [OF inv i, unfolded request_inv_def]
  have x': "x \<notin> set (rq_all_slot_indices ?st)" using x(1) i by (auto simp: live_slots_def)
  have toks: "rq_tokens (extended ?st tok x cs) = rq_tokens ?st @ [tok]"
    by (simp add: extended_def rq_tokens_def)
  have own: "ks = rq_tokens ?st @ [tok]" if "owns (cached c) ks x" for ks
    using x(2)
  proof
    assume "x \<in> R"
    then show ?thesis
      using core_invD(5) [OF inv] owns_cached [OF that] by (auto simp: slots_inv_def used_slots_def)
  qed (rule unique_ownerD [OF core_invD(4) [OF inv] that])
  show "request_inv nw c p (extended ?st tok x cs)"
    using r x' cs cached data own unfolding request_inv_def toks
    by (auto simp: extended_def nth_append less_Suc_eq)
  show "rq_radix_node (extended st tok x cs) = rq_radix_node st" for st
    by (simp add: extended_def)
  have "live_slots (sts[i := extended ?st tok x cs]) L = insert x (live_slots sts L)"
    using live_slots_update [OF i, where X = "{x}"] i core_invD(3) [OF inv]
    by (auto simp: extended_def)
  then show "slots_inv (rc_allocator c) (tp_pool_size p)
      (used_slots c (sts[i := extended ?st tok x cs]) L) (R - {x})"
    using x(2) owns_cached core_invD(5) [OF inv]
    by (intro slots_inv_move [OF core_invD(5) [OF inv]]) (auto simp: used_slots_def slots_inv_def)
qed

text \<open>The slots of a request that nobody else uses are lost when it is finished.\<close>

lemma core_finish:
  assumes inv: "core_inv nw c p sts L R" and i: "i \<in> L"
  obtains d c' where "dec_lock_ref (rq_radix_node (sts ! i)) c = Return d c'" "cached c' = cached c"
    "core_inv nw c' p sts (L - {i}) (R \<union> (set (rq_all_slot_indices (sts ! i)) - used_slots c sts (L - {i})))"
    "rc_allocator c' = rc_allocator c"
proof -
  let ?n = "rq_radix_node (sts ! i)"
  note ok = core_invD(2) [OF inv] and k = live_locks_remove [OF core_invD(3) [OF inv] i]
  obtain d c' where l: "dec_lock_ref ?n c = Return d c'"
    "healthy c' ((live_locks sts L)(?n := live_locks sts L ?n - 1))" "cached c' = cached c"
    "\<forall>m p. path_of c m p \<longrightarrow> path_of c' m p"
    using unlock_law [OF ok k(2)] by blast
  note al = unlock_pool [OF ok k(2) l(1)]
  have same: "used_slots c' sts (L - {i}) = used_slots c sts (L - {i})"
    by (simp add: used_slots_def l(3))
  have "slots_inv (rc_allocator c') (tp_pool_size p) (used_slots c' sts (L - {i}))
      (R \<union> (set (rq_all_slot_indices (sts ! i)) - used_slots c sts (L - {i})))"
    using i core_invD(5) [OF inv] unfolding same al
    by (intro slots_inv_move [OF core_invD(5) [OF inv]])
       (auto simp: used_slots_def live_slots_def slots_inv_def)
  moreover have "request_inv nw c' p s" if "request_inv nw c p s" for s
    by (rule request_inv_cache [OF that]) (use l(3,4) in auto)
  ultimately have "core_inv nw c' p sts (L - {i})
      (R \<union> (set (rq_all_slot_indices (sts ! i)) - used_slots c sts (L - {i})))"
    using inv l(2,3) unfolding core_inv_def k(1) by auto
  then show thesis using that l(1,3) al by blast
qed

end
