(* ===== verification/Runner_Forward.thy ===== *)
theory Runner_Forward
  imports Runner_Steps
begin

text \<open>
  What \<open>forward_prefill\<close>, \<open>forward_decode\<close> and \<open>finish_request\<close> do on every branch, from a state
  that satisfies the invariant: out of slots, a model that raises, and success.
\<close>

section \<open>Views of the state\<close>

definition free_count :: "('a, 'd, 'k) model_runner \<Rightarrow> int" where
  "free_count r = (case rc_allocator (mr_radix_cache r) of None \<Rightarrow> 0 | Some a \<Rightarrow> available_size a)"

text \<open>The length of the longest cached prefix.\<close>

definition cached_len :: "radix_cache \<Rightarrow> token list \<Rightarrow> nat" where
  "cached_len c key = Max {n. n \<le> length key \<and> cached c (take n key) \<noteq> None}"

lemma cached_len_eq:
  assumes "prefix q key" "cached c q \<noteq> None"
    and "\<And>ks. prefix ks key \<Longrightarrow> length q < length ks \<Longrightarrow> cached c ks = None"
  shows "cached_len c key = length q"
  unfolding cached_len_def
proof (rule Max_eqI)
  show "length q \<in> {n. n \<le> length key \<and> cached c (take n key) \<noteq> None}"
    using assms(1,2) unfolding prefix_take_iff by simp
  show "n \<le> length q" if "n \<in> {n. n \<le> length key \<and> cached c (take n key) \<noteq> None}" for n
    using that assms(3) [of "take n key"] by (auto simp: take_is_prefix not_less [symmetric])
qed simp

lemma cached_len_cached: "cached c (take (cached_len c key) key) \<noteq> None"
  and cached_len_le: "cached_len c key \<le> length key"
proof -
  let ?S = "{n. n \<le> length key \<and> cached c (take n key) \<noteq> None}"
  have "finite ?S" by simp
  moreover have "0 \<in> ?S" by simp
  ultimately have "Max ?S \<in> ?S" by (intro Max_in) blast+
  then show "cached c (take (cached_len c key) key) \<noteq> None" "cached_len c key \<le> length key"
    unfolding cached_len_def by blast+
qed

lemma on_cache_simps:
  "f (mr_radix_cache r) = Return x c \<Longrightarrow> on_cache f r = Return x (r\<lparr>mr_radix_cache := c\<rparr>)"
  "f (mr_radix_cache r) = Raise e c \<Longrightarrow> on_cache f r = Raise e (r\<lparr>mr_radix_cache := c\<rparr>)"
  by (simp_all add: on_cache_def)

lemma InsertParams_simps [simp]:
  "ip_key (InsertParams key v) = key" "param_value (InsertParams key (Some vals)) = vals"
  by (simp_all add: InsertParams_def param_value_def)

section \<open>forward_prefill\<close>

text \<open>
  The slots a prefill works with: \<open>pre\<close> for the context it reuses, \<open>slots\<close> for the tokens it
  processes; those beyond the cached prefix are fresh.
\<close>

definition prefill_ready ::
  "('a, 'd, 'e) network \<Rightarrow> radix_cache \<Rightarrow> ('a, 'd) token_pool \<Rightarrow> request_state list \<Rightarrow> nat set \<Rightarrow> slot set \<Rightarrow>
     token list \<Rightarrow> slot list \<Rightarrow> slot list \<Rightarrow> radix_cache \<Rightarrow> bool" where
  "prefill_ready nw c p sts L R prompt pre slots c1 \<longleftrightarrow>
     (let m = cached_len c prompt; fresh = set (drop m (pre @ slots)) in
      core_inv nw c1 p sts L (R \<union> fresh) \<and> fresh \<inter> (used_slots c sts L \<union> R) = {} \<and>
      cached c1 = cached c \<and> length pre = min m (length prompt - 1) \<and>
      length (pre @ slots) = length prompt \<and> distinct (pre @ slots) \<and>
      set (pre @ slots) \<subseteq> {1..tp_pool_size p} \<and>
      cached c (take m prompt) = Some (take m (pre @ slots)))"

lemma prefill_slots_spec:
  assumes inv: "core_inv nw (mr_radix_cache r) (mr_pool r) (mr_states r) L R" and ne: "prompt \<noteq> []"
  shows "free_count r < int (length prompt - cached_len (mr_radix_cache r) prompt) \<Longrightarrow>
      \<exists>c1. prefill_slots prompt r = Raise MemoryError (r\<lparr>mr_radix_cache := c1\<rparr>) \<and>
        core_inv nw c1 (mr_pool r) (mr_states r) L R \<and>
        cached c1 = cached (mr_radix_cache r) \<and> rc_allocator c1 = rc_allocator (mr_radix_cache r)"
    and "int (length prompt - cached_len (mr_radix_cache r) prompt) \<le> free_count r \<Longrightarrow>
      \<exists>pre slots c1. prefill_slots prompt r =
          Return (pre, length pre, drop (length pre) prompt, slots) (r\<lparr>mr_radix_cache := c1\<rparr>) \<and>
        prefill_ready nw (mr_radix_cache r) (mr_pool r) (mr_states r) L R prompt pre slots c1 \<and>
        free_count (r\<lparr>mr_radix_cache := c1\<rparr>) =
          free_count r - int (length prompt - cached_len (mr_radix_cache r) prompt)"
proof -
  let ?c = "mr_radix_cache r" and ?p = "mr_pool r" and ?sts = "mr_states r"
  let ?m = "cached_len ?c prompt"
  obtain a where a: "rc_allocator ?c = Some a"
    using core_invD(5) [OF inv] by (rule slots_invD)
  obtain mt c0 q where mt: "match_prefix prompt ?c = Return mt c0" "core_inv nw c0 ?p ?sts L R"
    "cached c0 = cached ?c" "prefix q prompt" "cached ?c q = Some (mr_device_indices mt)"
    "\<And>ks. prefix ks prompt \<Longrightarrow> length q < length ks \<Longrightarrow> cached ?c ks = None"
    "length (mr_device_indices mt) = length q" "rc_allocator c0 = rc_allocator ?c"
    by (rule core_match [OF inv, of prompt]) metis
  let ?ws = "mr_device_indices mt"
  have m: "?m = length q" by (rule cached_len_eq [OF mt(4) _ mt(6)]) (use mt(5) in auto)
  have q: "take ?m prompt = q" "length q \<le> length prompt"
    using mt(4) unfolding m prefix_take_iff by simp_all
  have ws: "distinct ?ws" "set ?ws \<subseteq> cached_slots (cached ?c)"
    using radix_pool.content_distinct [OF core_invD(2) [OF inv] mt(5) core_invD(4) [OF inv]]
      radix_pool.content_in_cached_slots [OF core_invD(2) [OF inv] mt(5)] by simp_all
  have range: "used_slots ?c ?sts L \<subseteq> {1..tp_pool_size ?p}"
    using slots_inv_range [OF core_invD(5) [OF inv]] by simp
  have a0: "rc_allocator c0 = Some a" using mt(8) a by simp
  have used: "used_slots c0 ?sts L = used_slots ?c ?sts L" by (simp add: used_slots_def mt(3))
  let ?need = "int (length (drop (length ?ws) prompt))"
  note al = core_alloc [OF mt(2) _ a0, of ?need]
  have full: "prefill_slots prompt r =
      (if length prompt \<le> length ?ws then Return (take (length ?ws - 1) ?ws, length ?ws - 1,
          drop (length ?ws - 1) prompt, [?ws ! (length ?ws - 1)]) (r\<lparr>mr_radix_cache := c0\<rparr>)
       else bind_outcome (on_cache (cache_alloc ?need) (r\<lparr>mr_radix_cache := c0\<rparr>))
         (\<lambda>new r2. Return (?ws, length ?ws, drop (length ?ws) prompt, new) r2))"
    using ne by (auto simp: prefill_slots_def on_cache_simps(1) [where f = "match_prefix prompt", OF mt(1)] Let_def)
  show "\<exists>c1. prefill_slots prompt r = Raise MemoryError (r\<lparr>mr_radix_cache := c1\<rparr>) \<and>
        core_inv nw c1 ?p ?sts L R \<and> cached c1 = cached ?c \<and> rc_allocator c1 = rc_allocator ?c"
    if f: "free_count r < int (length prompt - ?m)"
  proof -
    have "0 \<le> free_count r" by (simp add: free_count_def a available_size_def)
    then have lt: "\<not> length prompt \<le> length ?ws" using f m mt(7) by simp
    have "cache_alloc ?need c0 = Raise MemoryError c0"
      using al(1) f m mt(7) a by (simp add: free_count_def)
    then show ?thesis
      using lt mt(2,3,8) unfolding full by (intro exI [of _ c0]) (simp add: on_cache_def)
  qed
  assume f: "int (length prompt - ?m) \<le> free_count r"
  show "\<exists>pre slots c1. prefill_slots prompt r =
          Return (pre, length pre, drop (length pre) prompt, slots) (r\<lparr>mr_radix_cache := c1\<rparr>) \<and>
        prefill_ready nw ?c ?p ?sts L R prompt pre slots c1 \<and>
        free_count (r\<lparr>mr_radix_cache := c1\<rparr>) = free_count r - int (length prompt - ?m)"
  proof (cases "length prompt \<le> length ?ws")
    case True
    then have eq: "length ?ws = length prompt" "?m = length prompt" "?ws \<noteq> []"
      using q(2) m mt(7) ne by auto
    let ?pre = "take (length ?ws - 1) ?ws" and ?slots = "[?ws ! (length ?ws - 1)]"
    have app: "?pre @ ?slots = ?ws"
      using eq(3) by (metis append_butlast_last_id butlast_conv_take last_conv_nth)
    have "prefill_ready nw ?c ?p ?sts L R prompt ?pre ?slots c0"
      using eq app mt(2,3,5) ws range q(1) by (auto simp: prefill_ready_def Let_def used_slots_def)
    then show ?thesis
      using True eq mt(8) unfolding full
      by (intro exI [of _ ?pre] exI [of _ ?slots] exI [of _ c0]) (simp add: free_count_def)
  next
    case False
    have "?need \<le> available_size a" using f m mt(7) a by (simp add: free_count_def)
    then obtain xs c1 b where x: "cache_alloc ?need c0 = Return xs c1"
      "core_inv nw c1 ?p ?sts L (R \<union> set xs)" "int (length xs) = ?need" "distinct xs"
      "set xs \<inter> (used_slots ?c ?sts L \<union> R) = {}" "set xs \<subseteq> {1..tp_pool_size ?p}"
      "cached c1 = cached c0" "rc_allocator c1 = Some b" "available_size b = available_size a - ?need"
      using al(2) unfolding used by auto
    have "length xs = length prompt - length ?ws" using x(3) by simp
    then have "prefill_ready nw ?c ?p ?sts L R prompt ?ws xs c1"
      using False x m mt(3,5,7) ws range q by (auto simp: prefill_ready_def Let_def used_slots_def)
    then show ?thesis
      using False x m mt(7) a unfolding full
      by (intro exI [of _ ?ws] exI [of _ xs] exI [of _ c1]) (simp add: on_cache_def free_count_def)
  qed
qed

text \<open>Steps 5 to 7.\<close>

lemma prefill_register_spec:
  fixes r :: "('a, 'd, 'k) model_runner"
  assumes inv: "core_inv nw (mr_radix_cache r) (mr_pool r) (mr_states r) L (R \<union> set (drop m slots))"
    and R: "set (drop m slots) \<inter> R = {}" and m: "m = cached_len (mr_radix_cache r) prompt" 
    and ms: "cached (mr_radix_cache r) (take m prompt) = Some (take m slots)"
    and len: "length slots = length prompt" and d: "distinct slots" and cs: "layers_ok nw cs"
    and data: "\<And>j. j < length prompt \<Longrightarrow> holds nw (mr_pool r) (slots ! j) (take (Suc j) prompt)"
  shows "\<exists>c' node. let st = \<lparr>rq_request_id = rid, rq_prompt_tokens = prompt, rq_output_tokens = [],
        rq_all_slot_indices = slots, rq_radix_node = node, rq_prefix_len = plen, rq_kv_caches = cs\<rparr> in
      prefill_register rid prompt slots plen cs r = Return (length (mr_states r))
        (r\<lparr>mr_radix_cache := c', mr_states := mr_states r @ [st],
           mr_active_requests := AList.update rid (length (mr_states r)) (mr_active_requests r)\<rparr>) \<and>
      core_inv nw c' (mr_pool r) (mr_states r @ [st]) (insert (length (mr_states r)) L) R \<and>
      rc_allocator c' = rc_allocator (mr_radix_cache r) \<and>
      (\<forall>ks ws. cached c' ks = Some ws \<longleftrightarrow> cached (mr_radix_cache r) ks = Some ws \<or>
         (prefix ks prompt \<and> ws = take (length ks) slots))"
proof -
  let ?c = "mr_radix_cache r" and ?p = "mr_pool r" and ?sts = "mr_states r"
  let ?ip = "InsertParams prompt (Some slots)"
  note ok = core_invD(2) [OF inv]
  have plen: "length (param_value ?ip) = length (ip_key ?ip)" using len by simp
  obtain n c1 vs where i: "radix_insert ?ip ?c = Return \<lparr>ir_prefix_len = n\<rparr> c1" "n \<le> length prompt"
    "cached ?c (take n prompt) = Some vs" "\<forall>ks. prefix ks prompt \<longrightarrow> n < length ks \<longrightarrow> cached ?c ks = None"
    "\<forall>ks ws. cached c1 ks = Some ws \<longleftrightarrow> cached ?c ks = Some ws \<or>
       (prefix ks prompt \<and> ws = take (length ks) (vs @ drop n slots))"
    using insert_law [OF ok plen] by auto
  have "cached_len ?c prompt = length (take n prompt)"
    by (rule cached_len_eq) (use i(2-4) take_is_prefix in auto)
  then have n: "n = m" using m i(2) by simp
  have "vs = take n slots" using i(3) ms n by simp
  then have vs: "vs @ drop n slots = slots" by simp
  have fresh: "set (drop m slots) \<subseteq> R \<union> set (drop m slots)" "distinct (drop m slots)"
    using d by simp_all
  have "core_inv nw c1 ?p ?sts L (R \<union> set (drop m slots) - set (drop m slots))"
    and al1: "rc_allocator c1 = rc_allocator ?c"
    using core_insert [OF inv len i(1)] fresh data n by simp_all
  moreover have "R \<union> set (drop m slots) - set (drop m slots) = R" using R by blast
  ultimately have c1: "core_inv nw c1 ?p ?sts L R" by simp
  have full: "cached c1 prompt = Some slots" using i(5) vs len by auto
  obtain mt c2 q where mt: "match_prefix prompt c1 = Return mt c2" "core_inv nw c2 ?p ?sts L R"
    "cached c2 = cached c1" "prefix q prompt"
    "\<And>ks. prefix ks prompt \<Longrightarrow> length q < length ks \<Longrightarrow> cached c1 ks = None"
    "path_of c2 (mr_last_node mt) q" "rc_allocator c2 = rc_allocator c1"
    by (rule core_match [OF c1, of prompt]) metis
  have "\<not> length q < length prompt" using mt(5) full by force
  then have q: "q = prompt" using mt(4) by (metis prefix_take_iff take_all not_less)
  let ?st = "\<lparr>rq_request_id = rid, rq_prompt_tokens = prompt, rq_output_tokens = [],
        rq_all_slot_indices = slots, rq_radix_node = mr_last_node mt, rq_prefix_len = plen,
        rq_kv_caches = cs\<rparr>"
  note ok2 = core_invD(2) [OF mt(2)]
  have full2: "cached c2 prompt = Some slots" using full mt(3) by simp
  have st: "request_inv nw c2 ?p ?st"
    using mt(6) q full2 len d cs data
      unique_ownerD [OF core_invD(4) [OF mt(2)] _ radix_pool.owns_nth [OF ok2 full2]]
    by (auto simp: request_inv_def rq_tokens_def)
  have "set (rq_all_slot_indices ?st) \<subseteq> cached_slots (cached c2)"
    using radix_pool.content_in_cached_slots [OF ok2 full2] by simp
  from core_register [OF mt(2) st this] obtain dd c3 where
    c3: "inc_lock_ref (mr_last_node mt) c2 = Return dd c3" "cached c3 = cached c2"
    "core_inv nw c3 ?p (?sts @ [?st]) (insert (length ?sts) L) R" "rc_allocator c3 = rc_allocator c2"
    by auto
  have "prefill_register rid prompt slots plen cs r = Return (length ?sts)
        (r\<lparr>mr_radix_cache := c3, mr_states := ?sts @ [?st],
           mr_active_requests := AList.update rid (length ?sts) (mr_active_requests r)\<rparr>)"
    by (simp add: prefill_register_def on_cache_def i(1) mt(1) c3(1) Let_def)
  then show ?thesis
    using c3 mt(3,7) al1 i(5) vs
    by (intro exI [of _ c3] exI [of _ "mr_last_node mt"]) (simp add: Let_def)
qed

text \<open>What no step of the runner changes.\<close>

definition same_runner :: "('a, 'd, 'k) model_runner \<Rightarrow> ('a, 'd, 'k) model_runner \<Rightarrow> bool" where
  "same_runner r t \<longleftrightarrow>
     mr_model t = mr_model r \<and> mr_tokenizer t = mr_tokenizer r \<and> mr_config t = mr_config r \<and>
     mr_pool_size t = mr_pool_size r \<and> mr_dtype t = mr_dtype r"

lemma same_runner_trans: "same_runner r s \<Longrightarrow> same_runner s t \<Longrightarrow> same_runner r t"
  by (simp add: same_runner_def)

text \<open>The number of slots a prefill takes from the allocator.\<close>

definition prefill_need :: "token list \<Rightarrow> ('a, 'd, 'k) model_runner \<Rightarrow> int" where
  "prefill_need prompt r = int (length prompt - cached_len (mr_radix_cache r) prompt)"

text \<open>The state after a successful prefill.\<close>

definition prefilled ::
  "string \<Rightarrow> token list \<Rightarrow> ('a, 'd, 'k) model_runner \<Rightarrow> request_state \<Rightarrow> ('a, 'd, 'k) model_runner \<Rightarrow> bool"
where
  "prefilled rid prompt r st t \<longleftrightarrow>
     same_runner r t \<and> mr_states t = mr_states r @ [st] \<and>
     mr_active_requests t = AList.update rid (length (mr_states r)) (mr_active_requests r) \<and>
     rq_request_id st = rid \<and> rq_prompt_tokens st = prompt \<and> rq_output_tokens st = [] \<and>
     rq_prefix_len st = min (cached_len (mr_radix_cache r) prompt) (length prompt - 1) \<and>
     length (rq_all_slot_indices st) = length prompt \<and>
     (\<forall>ks ws. cached (mr_radix_cache t) ks = Some ws \<longleftrightarrow> cached (mr_radix_cache r) ks = Some ws \<or>
        (prefix ks prompt \<and> ws = take (length ks) (rq_all_slot_indices st))) \<and>
     free_count t = free_count r - prefill_need prompt r"

lemma prefill_readyD:
  assumes "prefill_ready nw c p sts L R prompt pre slots c1"
  defines "m \<equiv> cached_len c prompt"
  shows "core_inv nw c1 p sts L (R \<union> set (drop m (pre @ slots)))"
    "set (drop m (pre @ slots)) \<inter> (used_slots c sts L \<union> R) = {}" "set (drop m (pre @ slots)) \<inter> R = {}"
    "cached c1 = cached c" "length pre = min m (length prompt - 1)" "length (pre @ slots) = length prompt"
    "distinct (pre @ slots)" "set (pre @ slots) \<subseteq> {1..tp_pool_size p}"
    "cached c (take m prompt) = Some (take m (pre @ slots))"
  using assms(1) unfolding prefill_ready_def Let_def m_def by blast+

lemma prefill_call:
  fixes r :: "('a, 'd, 'k) model_runner"
  assumes inv: "core_inv nw (mr_radix_cache r) (mr_pool r) (mr_states r) L R" and ne: "prompt \<noteq> []"
    and ready: "prefill_ready nw (mr_radix_cache r) (mr_pool r) (mr_states r) L R prompt pre slots c1"
  defines "k \<equiv> length pre"
  shows "valid_call nw (take k prompt) (drop k prompt) pre slots
      (make_caches (int (nw_layers nw)) pre slots, mr_pool r)"
    and "x \<in> set slots \<Longrightarrow> x \<in> used_slots c1 (mr_states r) L \<Longrightarrow>
      drop k prompt = [last (take k prompt @ drop k prompt)] \<and>
      owns (cached c1) (take k prompt @ drop k prompt) x"
    and "k < length prompt"
proof -
  let ?c = "mr_radix_cache r" and ?m = "cached_len (mr_radix_cache r) prompt"
  note rd = prefill_readyD [OF ready]
  have k: "k = min ?m (length prompt - 1)" using rd(5) by (simp add: k_def)
  then show "k < length prompt" using ne by (cases prompt) auto
  then have ctx: "length (take k prompt) = k" "drop k prompt \<noteq> []" by simp_all
  note ms = rd(9)
  have owner: "owns (cached ?c) (take (Suc t) prompt) ((pre @ slots) ! t)" if "t < ?m" "t < length prompt" for t
  proof -
    have "take (Suc t) (take ?m prompt) = take (Suc t) prompt" "t < length (take ?m prompt)"
      using that by simp_all
    moreover have "take ?m (pre @ slots) ! t = (pre @ slots) ! t" using that(1) by (rule nth_take)
    ultimately show ?thesis
      using radix_pool.owns_nth [OF core_invD(2) [OF inv] ms, of t] by (simp only:)
  qed
  have hold: "holds nw (mr_pool r) (pre ! t) (take (Suc t) (take k prompt))" if t: "t < k" for t
  proof -
    have "owns (cached ?c) (take (Suc t) prompt) (pre ! t)"
    proof -
      have "t < ?m" "t < length prompt" using t k by linarith+
      moreover have "(pre @ slots) ! t = pre ! t" using t by (simp add: nth_append k_def)
      ultimately show ?thesis using owner [of t] by metis
    qed
    then show ?thesis
      using core_invD(6) [OF inv] t by (simp add: min_def)
  qed
  show "valid_call nw (take k prompt) (drop k prompt) pre slots
      (make_caches (int (nw_layers nw)) pre slots, mr_pool r)"
    using rd ctx hold make_caches_ok core_invD(1) [OF inv] by (auto simp: valid_call_def k_def)
  assume x: "x \<in> set slots" "x \<in> used_slots c1 (mr_states r) L"
  have "x \<in> used_slots ?c (mr_states r) L" using x(2) rd(4) by (simp add: used_slots_def)
  then have "x \<notin> set (drop ?m (pre @ slots))" using rd(2) by blast
  moreover obtain t where t: "t < length slots" "x = slots ! t" using x(1) by (auto simp: in_set_conv_nth)
  then have xt: "(pre @ slots) ! (k + t) = x" "k + t < length (pre @ slots)" by (simp_all add: k_def)
  ultimately have lt: "k + t < ?m" using set_drop_iff [of x ?m "pre @ slots"] by (metis not_less)
  have len: "k + t < length prompt" using xt(2) rd(6) by simp
  have eq: "k = length prompt - 1" "length prompt \<le> Suc (k + t)"
    using k lt by linarith+
  have "owns (cached ?c) prompt x"
    using owner [OF lt len] eq(2) xt(1) by simp
  moreover have "drop k prompt = [last prompt]"
    using eq(1) ne by (cases prompt rule: rev_cases) auto
  ultimately show "drop k prompt = [last (take k prompt @ drop k prompt)] \<and>
      owns (cached c1) (take k prompt @ drop k prompt) x"
    using rd(4) unfolding append_take_drop_id by simp
qed

lemma runner_inv_cache:
  "runner_inv nw r L R \<Longrightarrow> core_inv nw c (mr_pool r) (mr_states r) L' R' \<Longrightarrow>
    runner_inv nw (r\<lparr>mr_radix_cache := c\<rparr>) L' R'"
  by (simp add: runner_inv_def)

lemma runner_invD:
  assumes "runner_inv nw r L R"
  shows "model_law nw (mr_model r)" "mc_num_layers (mr_config r) = Some (int (nw_layers nw))"
    "core_inv nw (mr_radix_cache r) (mr_pool r) (mr_states r) L R"
  using assms by (simp_all add: runner_inv_def)

lemma forward_prefill_full:
  fixes r :: "('a, 'd, 'k) model_runner"
  assumes inv: "runner_inv nw r L R" and ne: "prompt \<noteq> []" and f: "free_count r < prefill_need prompt r"
  shows "\<exists>c1. forward_prefill (nw_calls nw) rid prompt r = Raise MemoryError (r\<lparr>mr_radix_cache := c1\<rparr>) \<and>
    runner_inv nw (r\<lparr>mr_radix_cache := c1\<rparr>) L R \<and> cached c1 = cached (mr_radix_cache r) \<and>
    rc_allocator c1 = rc_allocator (mr_radix_cache r)"
proof -
  obtain c1 where c1: "prefill_slots prompt r = Raise MemoryError (r\<lparr>mr_radix_cache := c1\<rparr>)"
    "core_inv nw c1 (mr_pool r) (mr_states r) L R" "cached c1 = cached (mr_radix_cache r)"
    "rc_allocator c1 = rc_allocator (mr_radix_cache r)"
    using prefill_slots_spec(1) [OF runner_invD(3) [OF inv] ne] f unfolding prefill_need_def by blast
  then show ?thesis
    using runner_inv_cache [OF inv c1(2)] by (auto simp: forward_prefill_def)
qed

lemma forward_prefill_ok:
  fixes r :: "('a, 'd, 'k) model_runner"
  assumes inv: "runner_inv nw r L R" and ne: "prompt \<noteq> []" and f: "prefill_need prompt r \<le> free_count r"
  shows "(\<exists>st t. forward_prefill (nw_calls nw) rid prompt r =
        Return (length (mr_states r), \<lparr>fr_logits = nw_logits nw prompt, fr_forward_mode = PREFILL\<rparr>) t \<and>
        prefilled rid prompt r st t \<and> runner_inv nw t (insert (length (mr_states r)) L) R \<and>
        set (drop (cached_len (mr_radix_cache r) prompt) (rq_all_slot_indices st)) \<inter>
          (used_slots (mr_radix_cache r) (mr_states r) L \<union> R) = {}) \<or>
    (\<exists>e t X. forward_prefill (nw_calls nw) rid prompt r = Raise e t \<and> \<not> model_total nw (mr_model r) \<and>
        same_runner r t \<and> mr_states t = mr_states r \<and> mr_active_requests t = mr_active_requests r \<and>
        cached (mr_radix_cache t) = cached (mr_radix_cache r) \<and>
        free_count t = free_count r - prefill_need prompt r \<and> runner_inv nw t L (R \<union> X))"
proof -
  let ?c = "mr_radix_cache r" and ?m = "cached_len (mr_radix_cache r) prompt" and ?sts = "mr_states r"
  note I = runner_invD [OF inv]
  obtain pre slots c1 where s: "prefill_slots prompt r =
      Return (pre, length pre, drop (length pre) prompt, slots) (r\<lparr>mr_radix_cache := c1\<rparr>)"
    "prefill_ready nw ?c (mr_pool r) ?sts L R prompt pre slots c1"
    "free_count (r\<lparr>mr_radix_cache := c1\<rparr>) = free_count r - prefill_need prompt r"
    using prefill_slots_spec(2) [OF I(3) ne] f unfolding prefill_need_def by blast
  let ?k = "length pre" and ?all = "pre @ slots" and ?r1 = "r\<lparr>mr_radix_cache := c1\<rparr>"
  let ?fresh = "set (drop ?m ?all)" and ?cs = "make_caches (int (nw_layers nw)) pre slots"
  note rd = prefill_readyD [OF s(2)]
  note call = prefill_call [OF I(3) ne s(2)]
  note out = core_call [OF rd(1) I(1) call(1,2), unfolded append_take_drop_id]
  let ?call = "lm_call (mr_model r) (ac_tokens (nw_calls nw) [drop ?k prompt]) (?cs, mr_pool r)"
  have head: "forward_prefill (nw_calls nw) rid prompt r =
      (case call_model (nw_calls nw) (drop ?k prompt) ?cs ?r1 of
         Diverge \<Rightarrow> Diverge
       | Raise e (kv_caches, r2) \<Rightarrow> Raise e r2
       | Return logits (kv_caches, r2) \<Rightarrow>
           bind_outcome (prefill_register rid prompt ?all ?k kv_caches r2)
             (\<lambda>i r3. bind_outcome (last_logits (nw_calls nw) PREFILL logits r3)
               (\<lambda>result r4. Return (i, result) r4)))"
    by (simp add: forward_prefill_def s(1) I(2))
  have free1: "free_count (?r1\<lparr>mr_pool := q\<rparr>) = free_count r - prefill_need prompt r" for q
    using s(3) by (simp add: free_count_def)
  show ?thesis
  proof (cases ?call)
    case (Return y t)
    then obtain cs q where t: "?call = Return y (cs, q)" by (cases t) auto
    let ?r2 = "?r1\<lparr>mr_pool := q\<rparr>"
    note o = out [unfolded t outcome.case prod.case]
    have data: "holds nw q (?all ! j) (take (Suc j) prompt)" if j: "j < length prompt" for j
    proof (cases "j < ?k")
      case True
      then show ?thesis using o j call(3) by (auto simp: nth_append min_def)
    next
      case False
      then have "holds nw q (slots ! (j - ?k)) (take ?k prompt @ take (Suc (j - ?k)) (drop ?k prompt))"
        using o j call(3) by simp
      moreover have "take ?k prompt @ take (Suc (j - ?k)) (drop ?k prompt) = take (Suc j) prompt"
        using False by (simp add: take_add [symmetric])
      ultimately show ?thesis using False by (simp add: nth_append)
    qed
    have reg: "core_inv nw (mr_radix_cache ?r2) (mr_pool ?r2) (mr_states ?r2) L (R \<union> ?fresh)"
      "?fresh \<inter> R = {}" "?m = cached_len (mr_radix_cache ?r2) prompt"
      "cached (mr_radix_cache ?r2) (take ?m prompt) = Some (take ?m ?all)"
      "length ?all = length prompt" "distinct ?all" "layers_ok nw cs"
      using o rd(3,4,6,7,9) by (simp_all add: cached_len_def del: drop_append take_append)
    obtain c' node where reg': "prefill_register rid prompt ?all ?k cs ?r2 = Return (length ?sts)
        (?r2\<lparr>mr_radix_cache := c', mr_states := ?sts @ [\<lparr>rq_request_id = rid, rq_prompt_tokens = prompt,
           rq_output_tokens = [], rq_all_slot_indices = ?all, rq_radix_node = node, rq_prefix_len = ?k,
           rq_kv_caches = cs\<rparr>],
           mr_active_requests := AList.update rid (length ?sts) (mr_active_requests r)\<rparr>)"
      "core_inv nw c' q (?sts @ [\<lparr>rq_request_id = rid, rq_prompt_tokens = prompt,
           rq_output_tokens = [], rq_all_slot_indices = ?all, rq_radix_node = node, rq_prefix_len = ?k,
           rq_kv_caches = cs\<rparr>]) (insert (length ?sts) L) R" "rc_allocator c' = rc_allocator c1"
      "\<forall>ks ws. cached c' ks = Some ws \<longleftrightarrow> cached ?c ks = Some ws \<or>
         (prefix ks prompt \<and> ws = take (length ks) ?all)"
      using prefill_register_spec [OF reg, of rid ?k] data rd(4)
      by (auto simp: Let_def simp del: drop_append take_append)
    let ?st = "\<lparr>rq_request_id = rid, rq_prompt_tokens = prompt,
           rq_output_tokens = [], rq_all_slot_indices = ?all, rq_radix_node = node, rq_prefix_len = ?k,
           rq_kv_caches = cs\<rparr>"
    let ?t = "?r2\<lparr>mr_radix_cache := c', mr_states := ?sts @ [?st],
           mr_active_requests := AList.update rid (length ?sts) (mr_active_requests r)\<rparr>"
    have res: "forward_prefill (nw_calls nw) rid prompt r =
        Return (length ?sts, \<lparr>fr_logits = nw_logits nw prompt, fr_forward_mode = PREFILL\<rparr>) ?t"
      unfolding head using o by (simp add: call_model_def t reg'(1) last_logits_def)
    have fc: "free_count ?t = free_count r - prefill_need prompt r"
      using s(3) reg'(3) by (simp add: free_count_def)
    have "prefilled rid prompt r ?st ?t"
      using rd(5,6) reg'(4) fc by (simp add: prefilled_def same_runner_def del: take_append)
    moreover have "runner_inv nw ?t (insert (length ?sts) L) R"
      using I reg'(2) by (simp add: runner_inv_def)
    moreover have "set (drop ?m (rq_all_slot_indices ?st)) \<inter> (used_slots ?c ?sts L \<union> R) = {}"
      using rd(2) by simp
    ultimately show ?thesis using res by blast
  next
    case (Raise e t)
    then obtain cs q where t: "?call = Raise e (cs, q)" by (cases t) auto
    note o = out [unfolded t outcome.case prod.case]
    have "forward_prefill (nw_calls nw) rid prompt r = Raise e (?r1\<lparr>mr_pool := q\<rparr>)"
      unfolding head by (simp add: call_model_def t)
    moreover have "\<not> model_total nw (mr_model r)"
      using t call(1) unfolding model_total_def by fastforce
    moreover have "runner_inv nw (?r1\<lparr>mr_pool := q\<rparr>) L (R \<union> ?fresh)"
      using I o by (simp add: runner_inv_def)
    ultimately show ?thesis
      using free1 [of q] rd(4)
      by (intro disjI2 exI [of _ e] exI [of _ "?r1\<lparr>mr_pool := q\<rparr>"] exI [of _ ?fresh])
         (simp add: same_runner_def)
  next
    case Diverge
    then show ?thesis using out by simp
  qed
qed

section \<open>forward_decode\<close>

lemma forward_decode_full:
  fixes r :: "('a, 'd, 'k) model_runner"
  assumes inv: "runner_inv nw r L R" and f: "free_count r < 1"
  shows "forward_decode (nw_calls nw) i tok r = Raise MemoryError r"
proof -
  note I = runner_invD(3) [OF inv]
  obtain a where a: "rc_allocator (mr_radix_cache r) = Some a"
    using core_invD(5) [OF I] by (rule slots_invD)
  have "cache_alloc 1 (mr_radix_cache r) = Raise MemoryError (mr_radix_cache r)"
    using core_alloc(1) [OF I _ a, of 1] f by (simp add: free_count_def a)
  then show ?thesis by (simp add: forward_decode_def on_cache_def)
qed

text \<open>Storing a cached sequence with one more token.\<close>

lemma core_insert_one:
  assumes inv: "core_inv nw c p sts L R" and x: "x \<in> R" "holds nw p x (ctx @ [tok])"
    and ctx: "cached c ctx = Some vs" and len: "length ws = length ctx"
  obtains n c' where
    "radix_insert (InsertParams (ctx @ [tok]) (Some (ws @ [x]))) c = Return \<lparr>ir_prefix_len = n\<rparr> c'"
    "rc_allocator c' = rc_allocator c"
    "core_inv nw c' p sts L (if cached c (ctx @ [tok]) = None then R - {x} else R)"
    "cached c' = (if cached c (ctx @ [tok]) = None then (cached c)(ctx @ [tok] \<mapsto> vs @ [x]) else cached c)"
proof -
  let ?key = "ctx @ [tok]" and ?vals = "ws @ [x]"
  note ok = core_invD(2) [OF inv]
  have plen: "length ?vals = length ?key" using len by simp
  obtain n c' ms where i: "radix_insert (InsertParams ?key (Some ?vals)) c = Return \<lparr>ir_prefix_len = n\<rparr> c'"
    "n \<le> length ?key" "cached c (take n ?key) = Some ms"
    "\<forall>ks. prefix ks ?key \<longrightarrow> n < length ks \<longrightarrow> cached c ks = None"
    "\<forall>ks us. cached c' ks = Some us \<longleftrightarrow> cached c ks = Some us \<or>
       (prefix ks ?key \<and> us = take (length ks) (ms @ drop n ?vals))"
    using insert_law [OF ok, of "InsertParams ?key (Some ?vals)"] plen by auto
  have "\<not> n < length ctx" using i(4) ctx by auto
  then consider (new) "n = length ctx" | (all) "n = length ?key" using i(2) by force
  then show thesis
  proof cases
    case new
    then have none: "cached c ?key = None" using i(4) by simp
    have ms: "ms = vs" using i(3) ctx new by simp
    have vs: "length vs = length ctx" by (rule healthy_cached_length [OF ok ctx])
    have drop: "drop n ?vals = [x]" using new len by simp
    have inv': "core_inv nw c' p sts L (R - set (drop n ?vals))" "rc_allocator c' = rc_allocator c"
      using core_insert [OF inv plen i(1)] x new len drop by (simp_all add: nth_append)
    note content = i(5) [unfolded ms drop]
    have "cached c' ks = ((cached c)(?key \<mapsto> vs @ [x])) ks" for ks
    proof (cases "ks = ?key")
      case True
      then show ?thesis using content vs by (simp add: none)
    next
      case False
      have "prefix ks ?key \<and> us = take (length ks) (vs @ [x]) \<Longrightarrow> cached c ks = Some us" for us
        using False healthy_cached_closed [OF ok ctx, of ks] vs prefix_length_le [of ks ctx] by auto
      then have "cached c' ks = Some us \<longleftrightarrow> cached c ks = Some us" for us
        using content by blast
      then have "cached c' ks = cached c ks" by (metis option.exhaust)
      with False show ?thesis by simp
    qed
    then have "cached c' = (cached c)(?key \<mapsto> vs @ [x])" by blast
    then show thesis using that [OF i(1) inv'(2)] inv'(1) [unfolded drop] none by simp
  next
    case all
    then have some: "cached c ?key = Some ms" using i(3) by simp
    have inv': "core_inv nw c' p sts L (R - set (drop n ?vals))" "rc_allocator c' = rc_allocator c"
      using core_insert [OF inv plen i(1)] all len by simp_all
    have "cached c' ks = Some us \<longleftrightarrow> cached c ks = Some us" for ks us
      using i(5) all len healthy_cached_closed [OF ok some, of ks] by auto
    then have "cached c' = cached c" by (intro ext) (metis option.exhaust)
    then show thesis using that [OF i(1) inv'(2)] inv'(1) some all len by simp
  qed
qed

text \<open>
  The state after a successful decode step: \<open>x\<close> is the slot of the new token. When the sequence
  was cached already, the cache keeps its own slot for the token.
\<close>

definition decoded ::
  "nat \<Rightarrow> token \<Rightarrow> ('a, 'd, 'k) model_runner \<Rightarrow> slot \<Rightarrow> ('a, 'd, 'k) model_runner \<Rightarrow> bool" where
  "decoded i tok r x t \<longleftrightarrow>
     (let c = cached (mr_radix_cache r); ctx = rq_tokens (mr_states r ! i) in
      same_runner r t \<and> mr_active_requests t = mr_active_requests r \<and>
      (\<exists>cs. mr_states t = (mr_states r)[i := extended (mr_states r ! i) tok x cs]) \<and>
      free_count t = free_count r - 1 \<and>
      cached (mr_radix_cache t) =
        (if c (ctx @ [tok]) = None then c(ctx @ [tok] \<mapsto> the (c ctx) @ [x]) else c))"

lemma decode_call:
  assumes inv: "core_inv nw c p sts L R" and i: "i \<in> L"
    and x: "x \<notin> used_slots c sts L" "x \<in> {1..tp_pool_size p}"
  shows "valid_call nw (rq_tokens (sts ! i)) [tok] (rq_all_slot_indices (sts ! i)) [x]
    (map (set_indices (rq_all_slot_indices (sts ! i)) [x]) (rq_kv_caches (sts ! i)), p)"
proof -
  let ?all = "rq_all_slot_indices (sts ! i)"
  note r = core_invD(7) [OF inv i, unfolded request_inv_def]
  have "set ?all \<subseteq> used_slots c sts L" using i by (auto simp: used_slots_def live_slots_def)
  moreover have "used_slots c sts L \<subseteq> {1..tp_pool_size p}"
    using slots_inv_range [OF core_invD(5) [OF inv]] by simp
  ultimately show ?thesis
    using r x core_invD(1) [OF inv] map_set_indices_ok
    unfolding valid_call_def fst_conv snd_conv by (auto simp: set_indices_def)
qed

lemma forward_decode_ok:
  fixes r :: "('a, 'd, 'k) model_runner"
  assumes inv: "runner_inv nw r L R" and i: "i \<in> L" and f: "1 \<le> free_count r"
  defines "st \<equiv> mr_states r ! i"
  shows "\<exists>x. x \<notin> used_slots (mr_radix_cache r) (mr_states r) L \<union> R \<and>
    ((\<exists>t. forward_decode (nw_calls nw) i tok r =
        Return \<lparr>fr_logits = nw_logits nw (rq_tokens st @ [tok]), fr_forward_mode = DECODE\<rparr> t \<and>
        decoded i tok r x t \<and> runner_inv nw t L R) \<or>
     (\<exists>e t cs. forward_decode (nw_calls nw) i tok r = Raise e t \<and> \<not> model_total nw (mr_model r) \<and>
        same_runner r t \<and> mr_states t = (mr_states r)[i := st\<lparr>rq_kv_caches := cs\<rparr>] \<and>
        mr_active_requests t = mr_active_requests r \<and>
        cached (mr_radix_cache t) = cached (mr_radix_cache r) \<and>
        free_count t = free_count r - 1 \<and> runner_inv nw t L (R \<union> {x})))"
proof -
  let ?c = "mr_radix_cache r" and ?p = "mr_pool r" and ?sts = "mr_states r"
  let ?ctx = "rq_tokens st" and ?all = "rq_all_slot_indices st"
  note I = runner_invD [OF inv]
  obtain a where a: "rc_allocator ?c = Some a"
    using core_invD(5) [OF I(3)] by (rule slots_invD)
  obtain xs c1 b where al: "cache_alloc 1 ?c = Return xs c1" "core_inv nw c1 ?p ?sts L (R \<union> set xs)"
    "int (length xs) = 1" "set xs \<inter> (used_slots ?c ?sts L \<union> R) = {}" "set xs \<subseteq> {1..tp_pool_size ?p}"
    "cached c1 = cached ?c" "rc_allocator c1 = Some b" "available_size b = available_size a - 1"
    using core_alloc(2) [OF I(3) _ a, of 1] f by (auto simp: free_count_def a)
  have "length xs = 1" using al(3) by simp
  then obtain x where xs: "xs = [x]" by (cases xs) auto
  note al' = al [unfolded xs, simplified list.set]
  have len: "i < length ?sts" using i core_invD(3) [OF I(3)] by auto
  have fresh: "x \<notin> used_slots c1 ?sts L" "x \<notin> R" "x \<in> {1..tp_pool_size ?p}"
    using al(4,5) by (simp_all add: xs used_slots_def al(6))
  have c1: "core_inv nw c1 ?p ?sts L (insert x R)" using al(2) by (simp add: xs)
  let ?cs = "map (set_indices ?all [x]) (rq_kv_caches st)"
  let ?r2 = "upd_request i (\<lambda>st. st\<lparr>rq_kv_caches := ?cs\<rparr>) (r\<lparr>mr_radix_cache := c1\<rparr>)"
  note call = decode_call [OF c1 i fresh(1,3), of tok, folded st_def]
  have "\<And>y. y \<in> set [x] \<Longrightarrow> y \<in> used_slots c1 ?sts L \<Longrightarrow>
      [tok] = [last (?ctx @ [tok])] \<and> owns (cached c1) (?ctx @ [tok]) y"
    using fresh(1) by simp
  note out = core_call [OF c1 I(1) call this]
  let ?call = "lm_call (mr_model r) (ac_tokens (nw_calls nw) [[tok]]) (?cs, ?p)"
  note dec = forward_decode_def [of "nw_calls nw" i tok r, unfolded on_cache_def al(1) xs, simplified]
  have used: "x \<notin> used_slots ?c ?sts L \<union> R" using al(4) by (simp add: xs)
  have r2: "mr_model ?r2 = mr_model r" "mr_pool ?r2 = ?p" by (simp_all add: upd_request_def)
  show ?thesis
  proof (cases ?call)
    case (Return y t)
    then obtain cs q where t: "?call = Return y (cs, q)" by (cases t) auto
    note o = out [unfolded t outcome.case prod.case]
    have req: "cached c1 ?ctx \<noteq> None" "length ?all = length ?ctx" "layers_ok nw cs"
      using core_invD(7) [OF c1 i] o by (simp_all add: request_inv_def st_def)
    then obtain vs where vs: "cached c1 ?ctx = Some vs" by blast
    have q: "core_inv nw c1 q ?sts L (insert x R)" "holds nw q x (?ctx @ [tok])" using o by simp_all
    obtain n c2 where ins:
      "radix_insert (InsertParams (?ctx @ [tok]) (Some (?all @ [x]))) c1 = Return \<lparr>ir_prefix_len = n\<rparr> c2"
      "rc_allocator c2 = rc_allocator c1"
      "core_inv nw c2 q ?sts L (if cached c1 (?ctx @ [tok]) = None then insert x R - {x} else insert x R)"
      "cached c2 = (if cached c1 (?ctx @ [tok]) = None then (cached c1)(?ctx @ [tok] \<mapsto> vs @ [x])
         else cached c1)"
      by (rule core_insert_one [OF q(1) _ q(2) vs req(2)]) simp_all
    let ?sts' = "?sts[i := extended st tok x cs]"
    let ?t = "r\<lparr>mr_radix_cache := c2, mr_pool := q, mr_states := ?sts'\<rparr>"
    have own: "owns (cached c2) (?ctx @ [tok]) x" if "cached c1 (?ctx @ [tok]) = None"
      using that ins(4) by (simp add: owns_def)
    have "core_inv nw c2 q ?sts' L ((if cached c1 (?ctx @ [tok]) = None then insert x R - {x}
        else insert x R) - {x})"
    proof (rule core_extend [OF ins(3) i req(3), folded st_def])
      show "x \<notin> live_slots ?sts L" using fresh(1) by (simp add: used_slots_def)
      show "x \<in> (if cached c1 (?ctx @ [tok]) = None then insert x R - {x} else insert x R) \<or>
          owns (cached c2) (?ctx @ [tok]) x" using own by simp
      show "cached c2 (?ctx @ [tok]) \<noteq> None" using ins(4) by auto
    qed (rule q(2))
    then have inv': "core_inv nw c2 q ?sts' L R" using fresh(2) by (simp split: if_splits)
    have "forward_decode (nw_calls nw) i tok r =
        Return \<lparr>fr_logits = nw_logits nw (?ctx @ [tok]), fr_forward_mode = DECODE\<rparr> ?t"
      using len o ins(1) unfolding dec
      by (simp add: Let_def call_model_def upd_request_def flip: st_def)
         (simp add: t on_cache_def last_logits_def extended_def rq_tokens_def Let_def
           upd_request_def)
    moreover have "decoded i tok r x ?t"
      using ins(2,4) al(6-8) vs a by (auto simp: decoded_def Let_def same_runner_def free_count_def st_def)
    moreover have "runner_inv nw ?t L R" using I inv' by (simp add: runner_inv_def)
    ultimately show ?thesis using used by blast
  next
    case (Raise e t)
    then obtain cs q where t: "?call = Raise e (cs, q)" by (cases t) auto
    note o = out [unfolded t outcome.case prod.case]
    let ?t = "r\<lparr>mr_radix_cache := c1, mr_pool := q, mr_states := ?sts[i := st\<lparr>rq_kv_caches := cs\<rparr>]\<rparr>"
    have "core_inv nw c1 q (?sts[i := st\<lparr>rq_kv_caches := cs\<rparr>]) L (insert x R)"
      unfolding st_def by (rule core_kv [OF _ i]) (use o in simp_all)
    then have "runner_inv nw ?t L (R \<union> {x})" using I by (simp add: runner_inv_def)
    moreover have "forward_decode (nw_calls nw) i tok r = Raise e ?t"
      using len unfolding dec
      by (simp add: Let_def call_model_def upd_request_def flip: st_def)
         (simp add: t upd_request_def)
    moreover have "\<not> model_total nw (mr_model r)"
      using t call unfolding model_total_def by fastforce
    ultimately show ?thesis
      using used al(6-8) a
      by (intro exI [of _ x] conjI disjI2 exI [of _ e] exI [of _ ?t] exI [of _ cs])
         (simp_all add: same_runner_def free_count_def)
  next
    case Diverge
    then show ?thesis using out by simp
  qed
qed

section \<open>finish_request\<close>

text \<open>The slots of a request that neither the cache nor another live request uses.\<close>

definition private_slots :: "nat \<Rightarrow> nat set \<Rightarrow> ('a, 'd, 'k) model_runner \<Rightarrow> slot set" where
  "private_slots i L r =
     set (rq_all_slot_indices (mr_states r ! i)) - used_slots (mr_radix_cache r) (mr_states r) (L - {i})"

lemma finish_request_ok:
  assumes inv: "runner_inv nw r L R" and i: "i \<in> L"
  shows "\<exists>c. finish_request i r = Return () (r\<lparr>mr_radix_cache := c,
      mr_active_requests := AList.delete (rq_request_id (mr_states r ! i)) (mr_active_requests r)\<rparr>) \<and>
    runner_inv nw (r\<lparr>mr_radix_cache := c,
      mr_active_requests := AList.delete (rq_request_id (mr_states r ! i)) (mr_active_requests r)\<rparr>)
      (L - {i}) (R \<union> private_slots i L r) \<and>
    cached c = cached (mr_radix_cache r) \<and> rc_allocator c = rc_allocator (mr_radix_cache r)"
proof -
  obtain d c where c: "dec_lock_ref (rq_radix_node (mr_states r ! i)) (mr_radix_cache r) = Return d c"
    "cached c = cached (mr_radix_cache r)"
    "core_inv nw c (mr_pool r) (mr_states r) (L - {i}) (R \<union> private_slots i L r)"
    "rc_allocator c = rc_allocator (mr_radix_cache r)"
    by (rule core_finish [OF runner_invD(3) [OF inv] i]) (simp add: private_slots_def)
  then show ?thesis
    using runner_invD(1,2) [OF inv]
    by (intro exI [of _ c]) (simp add: finish_request_def on_cache_def runner_inv_def)
qed

end
