(* ===== verification/Runner_Generate.thy ===== *)
theory Runner_Generate
  imports Runner_Forward
begin

text \<open>
  \<open>generate\<close> against its reference: the tokens one gets by sampling from the network's logits of
  the whole sequence so far, with no cache at all. Also the slots a call of \<open>generate\<close> loses, and
  what it does when the pool runs out of slots.
\<close>

section \<open>The reference\<close>

text \<open>\<open>nxt ks\<close> is the token sampled after \<open>ks\<close>.\<close>

fun ref_tokens :: "(token list \<Rightarrow> token) \<Rightarrow> token set \<Rightarrow> nat \<Rightarrow> token list \<Rightarrow> token list" where
  "ref_tokens nxt stop 0 ctx = []"
| "ref_tokens nxt stop (Suc k) ctx =
     (let t = nxt ctx in if t \<in> stop then [t] else t # ref_tokens nxt stop k (ctx @ [t]))"

text \<open>The tokens that are processed by \<open>forward_decode\<close>: all but a stop token.\<close>

definition decoded_tokens :: "token set \<Rightarrow> token list \<Rightarrow> token list" where
  "decoded_tokens stop ts = filter (\<lambda>t. t \<notin> stop) ts"

lemma ref_tokens_Suc:
  "ref_tokens nxt stop (Suc k) ctx =
     (if nxt ctx \<in> stop then [nxt ctx] else nxt ctx # ref_tokens nxt stop k (ctx @ [nxt ctx]))"
  by (simp add: Let_def)

declare ref_tokens.simps(2) [simp del]

lemma decoded_tokens_Suc:
  "decoded_tokens stop (ref_tokens nxt stop (Suc k) ctx) =
     (if nxt ctx \<in> stop then []
      else nxt ctx # decoded_tokens stop (ref_tokens nxt stop k (ctx @ [nxt ctx])))"
  by (simp add: decoded_tokens_def ref_tokens_Suc)

lemma length_ref_tokens: "length (ref_tokens nxt stop k ctx) \<le> k"
  by (induction k arbitrary: ctx) (auto simp: ref_tokens_Suc)

lemma length_decoded_tokens: "length (decoded_tokens stop (ref_tokens nxt stop k ctx)) \<le> k"
  unfolding decoded_tokens_def using length_filter_le length_ref_tokens order.trans by blast

text \<open>How many of the extensions of \<open>ctx\<close> by the tokens \<open>ts\<close> are cached already.\<close>

fun already :: "(token list \<Rightarrow> slot list option) \<Rightarrow> token list \<Rightarrow> token list \<Rightarrow> nat" where
  "already c ctx [] = 0"
| "already c ctx (t # ts) = (if c (ctx @ [t]) \<noteq> None then 1 else 0) + already c (ctx @ [t]) ts"

lemma already_cong:
  assumes "\<And>us. us \<noteq> [] \<Longrightarrow> c (ctx @ us) = None \<longleftrightarrow> c' (ctx @ us) = None"
  shows "already c ctx ts = already c' ctx ts"
  using assms
proof (induction ts arbitrary: ctx)
  case (Cons t ts)
  have "already c (ctx @ [t]) ts = already c' (ctx @ [t]) ts"
    using Cons.prems [of "t # us" for us] by (intro Cons.IH) simp
  then show ?case using Cons.prems [of "[t]"] by simp
qed simp

lemma already_all:
  assumes "\<And>us. prefix us ts \<Longrightarrow> c (ctx @ us) \<noteq> None"
  shows "already c ctx ts = length ts"
  using assms
proof (induction ts arbitrary: ctx)
  case (Cons t ts)
  have "already c (ctx @ [t]) ts = length ts"
    using Cons.prems [of "t # us" for us] by (intro Cons.IH) simp
  then show ?case using Cons.prems [of "[t]"] by simp
qed simp

section \<open>A decode step of the loop\<close>

definition advanced ::
  "nat \<Rightarrow> nat set \<Rightarrow> token list \<Rightarrow> ('a, 'd, 'k) model_runner \<Rightarrow> ('a, 'd, 'k) model_runner \<Rightarrow> bool" where
  "advanced i L ts r t \<longleftrightarrow>
     same_runner r t \<and> mr_active_requests t = mr_active_requests r \<and>
     length (mr_states t) = length (mr_states r) \<and>
     (\<forall>j. j \<noteq> i \<longrightarrow> mr_states t ! j = mr_states r ! j) \<and>
     rq_request_id (mr_states t ! i) = rq_request_id (mr_states r ! i) \<and>
     rq_prompt_tokens (mr_states t ! i) = rq_prompt_tokens (mr_states r ! i) \<and>
     rq_output_tokens (mr_states t ! i) = rq_output_tokens (mr_states r ! i) @ ts \<and>
     free_count t = free_count r - int (length ts) \<and>
     card (private_slots i L t) =
       card (private_slots i L r) + already (cached (mr_radix_cache r)) (rq_tokens (mr_states r ! i)) ts \<and>
     (\<forall>ks ws. cached (mr_radix_cache r) ks = Some ws \<longrightarrow> cached (mr_radix_cache t) ks = Some ws)"

lemma advanced_refl: "advanced i L [] r r"
  by (simp add: advanced_def same_runner_def)

lemma cached_slots_upd:
  assumes "c k = None"
  shows "cached_slots (c(k \<mapsto> ws @ [x])) = insert x (cached_slots c)"
proof -
  have "owns (c(k \<mapsto> ws @ [x])) ks y \<longleftrightarrow> (if ks = k then y = x else owns c ks y)" for ks y
    by (auto simp: owns_def)
  moreover have "\<not> owns c k y" for y using assms by (simp add: owns_def)
  ultimately show ?thesis unfolding cached_slots_def by auto metis
qed

lemma private_slots_decoded:
  assumes inv: "runner_inv nw r L R" and i: "i \<in> L" and inv': "runner_inv nw t L R"
    and d: "decoded i tok r x t" and x: "x \<notin> used_slots (mr_radix_cache r) (mr_states r) L"
  shows "private_slots i L t = private_slots i L r \<union>
    (if cached (mr_radix_cache r) (rq_tokens (mr_states r ! i) @ [tok]) = None then {} else {x})"
proof -
  let ?c = "cached (mr_radix_cache r)" and ?st = "mr_states r ! i"
  let ?ctx = "rq_tokens (mr_states r ! i)"
  note core = runner_invD(3) [OF inv]
  have len: "i < length (mr_states r)" using i core_invD(3) [OF core] by auto
  obtain cs where sts: "mr_states t = (mr_states r)[i := extended ?st tok x cs]"
    using d by (auto simp: decoded_def Let_def)
  have others: "live_slots (mr_states t) (L - {i}) = live_slots (mr_states r) (L - {i})"
    by (simp add: live_slots_def sts)
  have mine: "set (rq_all_slot_indices (mr_states t ! i)) = insert x (set (rq_all_slot_indices ?st))"
    using len by (simp add: sts extended_def)
  have all: "set (rq_all_slot_indices ?st) \<subseteq> used_slots (mr_radix_cache r) (mr_states r) L"
    using i by (auto simp: used_slots_def live_slots_def)
  have sub: "used_slots (mr_radix_cache r) (mr_states r) (L - {i}) \<subseteq>
      used_slots (mr_radix_cache r) (mr_states r) L"
    by (auto simp: used_slots_def live_slots_def)
  obtain vs where vs: "?c ?ctx = Some vs"
    using core_invD(7) [OF core i] by (auto simp: request_inv_def)
  show ?thesis
  proof (cases "?c (?ctx @ [tok]) = None")
    case True
    then have c: "cached (mr_radix_cache t) = ?c(?ctx @ [tok] \<mapsto> vs @ [x])"
      using d vs by (simp add: decoded_def Let_def)
    have "cached_slots (cached (mr_radix_cache t)) = insert x (cached_slots ?c)"
      unfolding c by (rule cached_slots_upd) (rule True)
    then show ?thesis
      using True others mine all x by (auto simp: private_slots_def used_slots_def)
  next
    case False
    then have c: "cached (mr_radix_cache t) = ?c" using d by (auto simp: decoded_def Let_def)
    then show ?thesis
      using False others mine x sub by (auto simp: private_slots_def used_slots_def)
  qed
qed

lemma advanced_decoded:
  assumes inv: "runner_inv nw r L R" and i: "i \<in> L" and inv': "runner_inv nw t L R"
    and d: "decoded i tok r x t" and x: "x \<notin> used_slots (mr_radix_cache r) (mr_states r) L"
  shows "advanced i L [tok] r t"
proof -
  have len: "i < length (mr_states r)" using i core_invD(3) [OF runner_invD(3) [OF inv]] by auto
  have fin: "finite (private_slots i L r)" by (simp add: private_slots_def)
  have "x \<notin> private_slots i L r"
    using x i by (auto simp: private_slots_def used_slots_def live_slots_def)
  then have "card (private_slots i L t) = card (private_slots i L r) +
      already (cached (mr_radix_cache r)) (rq_tokens (mr_states r ! i)) [tok]"
    using fin unfolding private_slots_decoded [OF assms] by simp
  then show ?thesis
    using d len by (auto simp: advanced_def decoded_def Let_def extended_def)
qed

lemma advanced_trans:
  assumes "advanced i L ts r s" "advanced i L us s t"
    and keys: "\<And>us. us \<noteq> [] \<Longrightarrow>
      cached (mr_radix_cache s) (rq_tokens (mr_states s ! i) @ us) = None \<longleftrightarrow>
      cached (mr_radix_cache r) (rq_tokens (mr_states s ! i) @ us) = None"
    and snoc: "already (cached (mr_radix_cache r)) (rq_tokens (mr_states r ! i)) (ts @ us) =
      already (cached (mr_radix_cache r)) (rq_tokens (mr_states r ! i)) ts +
      already (cached (mr_radix_cache r)) (rq_tokens (mr_states s ! i)) us"
  shows "advanced i L (ts @ us) r t"
  using assms(1,2) snoc already_cong [of "cached (mr_radix_cache s)" _ "cached (mr_radix_cache r)" us, OF keys]
  unfolding advanced_def by (auto intro: same_runner_trans)

lemma advanced_tokens:
  "advanced i L ts r t \<Longrightarrow> rq_tokens (mr_states t ! i) = rq_tokens (mr_states r ! i) @ ts"
  by (simp add: advanced_def rq_tokens_def)

lemma advanced_step:
  assumes inv: "runner_inv nw r L R" and i: "i \<in> L" and inv': "runner_inv nw s L R"
    and d: "decoded i tok r x s" and x: "x \<notin> used_slots (mr_radix_cache r) (mr_states r) L"
    and rest: "advanced i L us s t"
  shows "advanced i L (tok # us) r t"
proof -
  note one = advanced_decoded [OF assms(1-5)]
  have "advanced i L ([tok] @ us) r t"
  proof (rule advanced_trans [OF one rest])
    fix vs :: "token list" assume "vs \<noteq> []"
    then show "cached (mr_radix_cache s) (rq_tokens (mr_states s ! i) @ vs) = None \<longleftrightarrow>
        cached (mr_radix_cache r) (rq_tokens (mr_states s ! i) @ vs) = None"
      using d by (auto simp: decoded_def Let_def advanced_tokens [OF one])
  qed (simp add: advanced_tokens [OF one])
  then show ?thesis by simp
qed

section \<open>The loop\<close>

lemma generate_loop_ok:
  assumes "runner_inv nw r L R" "i \<in> L" "model_total nw (mr_model r)"
    and sampler: "\<And>ks. sampler (nw_logits nw ks) = Inr (nxt ks)"
    and "fr_logits result = nw_logits nw (rq_tokens (mr_states r ! i))"
    and "int (length (decoded_tokens stop (ref_tokens nxt stop k (rq_tokens (mr_states r ! i))))) \<le> free_count r"
  shows "\<exists>t. generate_loop (nw_calls nw) k sampler stop i result gen r =
      Return (gen @ ref_tokens nxt stop k (rq_tokens (mr_states r ! i))) t \<and>
    runner_inv nw t L R \<and>
    advanced i L (decoded_tokens stop (ref_tokens nxt stop k (rq_tokens (mr_states r ! i)))) r t"
  using assms(1-3,5,6)
proof (induction k arbitrary: r result gen)
  case 0
  then show ?case using advanced_refl by (auto simp: decoded_tokens_def)
next
  case (Suc k)
  note inv = Suc.prems(1) and i = Suc.prems(2)
  let ?ctx = "rq_tokens (mr_states r ! i)"
  let ?tok = "nxt ?ctx"
  show ?case
  proof (cases "?tok \<in> stop")
    case True
    then show ?thesis
      using Suc.prems sampler advanced_refl by (auto simp: decoded_tokens_def ref_tokens_Suc Let_def)
  next
    case False
    then have "1 \<le> free_count r" using Suc.prems(5) by (simp add: decoded_tokens_Suc)
    from forward_decode_ok [OF inv i this, of ?tok] Suc.prems(3) obtain x s where
      x: "x \<notin> used_slots (mr_radix_cache r) (mr_states r) L" and
      s: "forward_decode (nw_calls nw) i ?tok r =
        Return \<lparr>fr_logits = nw_logits nw (?ctx @ [?tok]), fr_forward_mode = DECODE\<rparr> s"
        "decoded i ?tok r x s" "runner_inv nw s L R"
      by blast
    note one = advanced_decoded [OF inv i s(3,2) x]
    have toks: "rq_tokens (mr_states s ! i) = ?ctx @ [?tok]" by (rule advanced_tokens [OF one])
    have "mr_model s = mr_model r" "free_count s = free_count r - 1"
      using one by (simp_all add: advanced_def same_runner_def)
    then have "\<exists>t. generate_loop (nw_calls nw) k sampler stop i
          \<lparr>fr_logits = nw_logits nw (?ctx @ [?tok]), fr_forward_mode = DECODE\<rparr> (gen @ [?tok]) s =
        Return ((gen @ [?tok]) @ ref_tokens nxt stop k (rq_tokens (mr_states s ! i))) t \<and>
      runner_inv nw t L R \<and>
      advanced i L (decoded_tokens stop (ref_tokens nxt stop k (rq_tokens (mr_states s ! i)))) s t"
      using Suc.prems(3,5) False toks by (intro Suc.IH s(3) i) (simp_all add: decoded_tokens_Suc)
    then obtain t where t: "generate_loop (nw_calls nw) k sampler stop i
          \<lparr>fr_logits = nw_logits nw (?ctx @ [?tok]), fr_forward_mode = DECODE\<rparr> (gen @ [?tok]) s =
        Return ((gen @ [?tok]) @ ref_tokens nxt stop k (?ctx @ [?tok])) t"
      "runner_inv nw t L R" "advanced i L (decoded_tokens stop (ref_tokens nxt stop k (?ctx @ [?tok]))) s t"
      unfolding toks by blast
    have "advanced i L (decoded_tokens stop (ref_tokens nxt stop (Suc k) ?ctx)) r t"
      using advanced_step [OF inv i s(3,2) x t(3)] False by (simp add: decoded_tokens_Suc)
    then show ?thesis
      using t(1,2) s(1) False Suc.prems(4) by (auto simp: sampler ref_tokens_Suc Let_def)
  qed
qed

text \<open>The loop stops with a \<open>MemoryError\<close> when the pool has fewer slots than tokens to decode.\<close>

lemma generate_loop_full:
  assumes "runner_inv nw r L R" "i \<in> L" "model_total nw (mr_model r)"
    and sampler: "\<And>ks. sampler (nw_logits nw ks) = Inr (nxt ks)"
    and "fr_logits result = nw_logits nw (rq_tokens (mr_states r ! i))" "0 \<le> free_count r"
    and "free_count r < int (length (decoded_tokens stop (ref_tokens nxt stop k (rq_tokens (mr_states r ! i)))))"
  shows "\<exists>t ts. generate_loop (nw_calls nw) k sampler stop i result gen r = Raise MemoryError t \<and>
    runner_inv nw t L R \<and> advanced i L ts r t \<and> free_count t = 0"
  using assms(1-3,5-7)
proof (induction k arbitrary: r result gen)
  case 0
  then show ?case by (simp add: decoded_tokens_def)
next
  case (Suc k)
  note inv = Suc.prems(1) and i = Suc.prems(2)
  let ?ctx = "rq_tokens (mr_states r ! i)"
  let ?tok = "nxt ?ctx"
  have tok: "?tok \<notin> stop" using Suc.prems(5,6) by (auto simp: decoded_tokens_Suc split: if_splits)
  show ?case
  proof (cases "1 \<le> free_count r")
    case False
    then have "forward_decode (nw_calls nw) i ?tok r = Raise MemoryError r"
      by (intro forward_decode_full [OF inv]) simp
    then show ?thesis
      using Suc.prems(4,5) tok inv False advanced_refl by (auto simp: sampler ref_tokens_Suc Let_def)
  next
    case True
    from forward_decode_ok [OF inv i this, of ?tok] Suc.prems(3) obtain x s where
      x: "x \<notin> used_slots (mr_radix_cache r) (mr_states r) L" and
      s: "forward_decode (nw_calls nw) i ?tok r =
        Return \<lparr>fr_logits = nw_logits nw (?ctx @ [?tok]), fr_forward_mode = DECODE\<rparr> s"
        "decoded i ?tok r x s" "runner_inv nw s L R"
      by blast
    note one = advanced_decoded [OF inv i s(3,2) x]
    have toks: "rq_tokens (mr_states s ! i) = ?ctx @ [?tok]" by (rule advanced_tokens [OF one])
    have "mr_model s = mr_model r" "free_count s = free_count r - 1"
      using one by (simp_all add: advanced_def same_runner_def)
    then have "\<exists>t ts. generate_loop (nw_calls nw) k sampler stop i
          \<lparr>fr_logits = nw_logits nw (?ctx @ [?tok]), fr_forward_mode = DECODE\<rparr> (gen @ [?tok]) s =
        Raise MemoryError t \<and> runner_inv nw t L R \<and> advanced i L ts s t \<and> free_count t = 0"
      using Suc.prems(3,6) tok toks True by (intro Suc.IH s(3) i) (simp_all add: decoded_tokens_Suc)
    then obtain t ts where t: "generate_loop (nw_calls nw) k sampler stop i
          \<lparr>fr_logits = nw_logits nw (?ctx @ [?tok]), fr_forward_mode = DECODE\<rparr> (gen @ [?tok]) s =
        Raise MemoryError t" "runner_inv nw t L R" "advanced i L ts s t" "free_count t = 0" by blast
    have "advanced i L (?tok # ts) r t" by (rule advanced_step [OF inv i s(3,2) x t(3)])
    then show ?thesis
      using t(1,2,4) s(1) tok Suc.prems(4) by (auto simp: sampler ref_tokens_Suc Let_def)
  qed
qed

section \<open>generate\<close>

definition sampler_of :: "'a array_calls \<Rightarrow> ('a \<Rightarrow> py_exn + token) option \<Rightarrow> 'a \<Rightarrow> py_exn + token" where
  "sampler_of ac so = (case so of None \<Rightarrow> argmax_sampler ac | Some f \<Rightarrow> f)"

definition stop_of :: "token set option \<Rightarrow> token set" where
  "stop_of so = (case so of None \<Rightarrow> {} | Some S \<Rightarrow> S)"

lemma prefilled_facts:
  assumes inv: "runner_inv nw t (insert (length (mr_states r)) L) R" and p: "prefilled rid prompt r st t"
    and L: "length (mr_states r) \<notin> L"
  shows "mr_states t ! length (mr_states r) = st" "rq_tokens st = prompt"
    "private_slots (length (mr_states r)) (insert (length (mr_states r)) L) t = {}"
    "us \<noteq> [] \<Longrightarrow> cached (mr_radix_cache t) (prompt @ us) = None \<longleftrightarrow>
      cached (mr_radix_cache r) (prompt @ us) = None"
proof -
  note p' = p [unfolded prefilled_def]
  show st: "mr_states t ! length (mr_states r) = st" "rq_tokens st = prompt"
    using p' by (simp_all add: rq_tokens_def)
  have "cached (mr_radix_cache t) prompt = Some (rq_all_slot_indices st)" using p' by auto
  then have "set (rq_all_slot_indices st) \<subseteq> cached_slots (cached (mr_radix_cache t))"
    using radix_pool.content_in_cached_slots [OF core_invD(2) [OF runner_invD(3) [OF inv]]] by blast
  then show "private_slots (length (mr_states r)) (insert (length (mr_states r)) L) t = {}"
    using L by (auto simp: private_slots_def used_slots_def st)
  show "cached (mr_radix_cache t) (prompt @ us) = None \<longleftrightarrow>
      cached (mr_radix_cache r) (prompt @ us) = None" if "us \<noteq> []"
  proof -
    have "\<not> prefix (prompt @ us) prompt" using that by (auto dest: prefix_length_le)
    then have "cached (mr_radix_cache t) (prompt @ us) = Some ws \<longleftrightarrow>
        cached (mr_radix_cache r) (prompt @ us) = Some ws" for ws
      using p' by blast
    then show ?thesis by (metis option.exhaust option.distinct(1))
  qed
qed

lemma generate_ok:
  fixes r :: "('a, 'd, 'k) model_runner" and max_tokens :: int and st :: "token set option"
    and nxt :: "token list \<Rightarrow> token" and prompt :: "token list"
  assumes inv: "runner_inv nw r L R" and total: "model_total nw (mr_model r)" and ne: "prompt \<noteq> []"
    and sampler: "\<And>ks. sampler_of (nw_calls nw) so (nw_logits nw ks) = Inr (nxt ks)"
  defines "ts \<equiv> ref_tokens nxt (stop_of st) (nat max_tokens) prompt"
  defines "dec \<equiv> decoded_tokens (stop_of st) ts"
  assumes room: "prefill_need prompt r + int (length dec) \<le> free_count r"
  shows "\<exists>t X. generate (nw_calls nw) rid prompt max_tokens so st r = Return ts t \<and>
    runner_inv nw t L (R \<union> X) \<and> X \<inter> R = {} \<and> card X = already (cached (mr_radix_cache r)) prompt dec \<and>
    same_runner r t \<and> mr_active_requests t = AList.delete rid (mr_active_requests r) \<and>
    free_count t = free_count r - prefill_need prompt r - int (length dec) \<and>
    (\<forall>ks ws. cached (mr_radix_cache r) ks = Some ws \<longrightarrow> cached (mr_radix_cache t) ks = Some ws) \<and>
    cached (mr_radix_cache t) (prompt @ dec) \<noteq> None"
proof -
  let ?i = "length (mr_states r)" and ?ac = "nw_calls nw"
  let ?L = "insert (length (mr_states r)) L"
  have L: "?i \<notin> L" using core_invD(3) [OF runner_invD(3) [OF inv]] by auto
  have "prefill_need prompt r \<le> free_count r" using room by linarith
  from forward_prefill_ok [OF inv ne this, of rid] total obtain rs u where
    u: "forward_prefill ?ac rid prompt r =
        Return (?i, \<lparr>fr_logits = nw_logits nw prompt, fr_forward_mode = PREFILL\<rparr>) u"
      "prefilled rid prompt r rs u" "runner_inv nw u ?L R" by blast
  note f = prefilled_facts [OF u(3,2) L] and p = u(2) [unfolded prefilled_def]
  have tot: "model_total nw (mr_model u)" using p total by (simp add: same_runner_def)
  obtain v where v: "generate_loop ?ac (nat max_tokens) (sampler_of ?ac so) (stop_of st) ?i
        \<lparr>fr_logits = nw_logits nw prompt, fr_forward_mode = PREFILL\<rparr> [] u = Return ts v"
      "runner_inv nw v ?L R" "advanced ?i ?L dec u v"
    using generate_loop_ok [where nw = nw and nxt = nxt and sampler = "sampler_of (nw_calls nw) so",
        OF u(3) insertI1 tot sampler, of
        "\<lparr>fr_logits = nw_logits nw prompt, fr_forward_mode = PREFILL\<rparr>" "stop_of st" "nat max_tokens" "[]"]
      f(1,2) p room by (auto simp: ts_def dec_def)
  note a = v(3) [unfolded advanced_def]
  obtain c where c: "finish_request ?i v = Return () (v\<lparr>mr_radix_cache := c,
      mr_active_requests := AList.delete (rq_request_id (mr_states v ! ?i)) (mr_active_requests v)\<rparr>)"
    "runner_inv nw (v\<lparr>mr_radix_cache := c,
      mr_active_requests := AList.delete (rq_request_id (mr_states v ! ?i)) (mr_active_requests v)\<rparr>)
      (?L - {?i}) (R \<union> private_slots ?i ?L v)"
    "cached c = cached (mr_radix_cache v)" "rc_allocator c = rc_allocator (mr_radix_cache v)"
    using finish_request_ok [OF v(2) insertI1] by blast
  let ?t = "v\<lparr>mr_radix_cache := c,
      mr_active_requests := AList.delete (rq_request_id (mr_states v ! ?i)) (mr_active_requests v)\<rparr>"
  have id: "rq_request_id (mr_states v ! ?i) = rid" using a f(1) p by simp
  have "generate ?ac rid prompt max_tokens so st r = Return ts ?t"
    using u(1) v(1) c(1) by (simp add: generate_def sampler_of_def stop_of_def)
  moreover have "runner_inv nw ?t L (R \<union> private_slots ?i ?L v)" using c(2) L by simp
  moreover have "private_slots ?i ?L v \<inter> R = {}"
    using core_invD(5) [OF runner_invD(3) [OF v(2)]]
    by (auto simp: slots_inv_def private_slots_def used_slots_def live_slots_def)
  moreover have "card (private_slots ?i ?L v) = already (cached (mr_radix_cache r)) prompt dec"
  proof -
    have "already (cached (mr_radix_cache u)) prompt dec = already (cached (mr_radix_cache r)) prompt dec"
      by (rule already_cong) (rule f(4))
    then show ?thesis using a f(1,2,3) by simp
  qed
  moreover have "same_runner r ?t" using p a by (simp add: same_runner_def)
  moreover have "mr_active_requests ?t = AList.delete rid (mr_active_requests r)"
    using a p id by (simp add: AList.delete_update_same)
  moreover have "free_count ?t = free_count r - prefill_need prompt r - int (length dec)"
    using a p c(4) by (simp add: free_count_def)
  moreover have "\<forall>ks ws. cached (mr_radix_cache r) ks = Some ws \<longrightarrow> cached (mr_radix_cache ?t) ks = Some ws"
    using a p c(3) by auto
  moreover have "cached (mr_radix_cache ?t) (prompt @ dec) \<noteq> None"
  proof -
    have "rq_tokens (mr_states v ! ?i) = prompt @ dec" using advanced_tokens [OF v(3)] f(1,2) by simp
    then show ?thesis
      using core_invD(7) [OF runner_invD(3) [OF v(2)] insertI1] c(3) by (simp add: request_inv_def)
  qed
  ultimately show ?thesis by blast
qed

lemma generate_full:
  fixes r :: "('a, 'd, 'k) model_runner" and max_tokens :: int and st :: "token set option"
    and nxt :: "token list \<Rightarrow> token" and prompt :: "token list"
  assumes inv: "runner_inv nw r L R" and total: "model_total nw (mr_model r)" and ne: "prompt \<noteq> []"
    and sampler: "\<And>ks. sampler_of (nw_calls nw) so (nw_logits nw ks) = Inr (nxt ks)"
  defines "dec \<equiv> decoded_tokens (stop_of st) (ref_tokens nxt (stop_of st) (nat max_tokens) prompt)"
  assumes room: "prefill_need prompt r \<le> free_count r" "free_count r < prefill_need prompt r + int (length dec)"
  shows "\<exists>t. generate (nw_calls nw) rid prompt max_tokens so st r = Raise MemoryError t \<and>
    runner_inv nw t (insert (length (mr_states r)) L) R \<and> free_count t = 0 \<and>
    mr_active_requests t = AList.update rid (length (mr_states r)) (mr_active_requests r)"
proof -
  let ?i = "length (mr_states r)" and ?ac = "nw_calls nw"
  let ?L = "insert (length (mr_states r)) L"
  have L: "?i \<notin> L" using core_invD(3) [OF runner_invD(3) [OF inv]] by auto
  from forward_prefill_ok [OF inv ne room(1), of rid] total obtain rs u where
    u: "forward_prefill ?ac rid prompt r =
        Return (?i, \<lparr>fr_logits = nw_logits nw prompt, fr_forward_mode = PREFILL\<rparr>) u"
      "prefilled rid prompt r rs u" "runner_inv nw u ?L R" by blast
  note f = prefilled_facts [OF u(3,2) L] and p = u(2) [unfolded prefilled_def]
  have tot: "model_total nw (mr_model u)" using p total by (simp add: same_runner_def)
  have "0 \<le> free_count u" using p room(1) by simp
  then obtain t us where t: "generate_loop ?ac (nat max_tokens) (sampler_of ?ac so) (stop_of st) ?i
        \<lparr>fr_logits = nw_logits nw prompt, fr_forward_mode = PREFILL\<rparr> [] u = Raise MemoryError t"
      "runner_inv nw t ?L R" "advanced ?i ?L us u t" "free_count t = 0"
    using generate_loop_full [where nw = nw and nxt = nxt and sampler = "sampler_of (nw_calls nw) so",
        OF u(3) insertI1 tot sampler, of
        "\<lparr>fr_logits = nw_logits nw prompt, fr_forward_mode = PREFILL\<rparr>" "stop_of st" "nat max_tokens" "[]"]
      f(1,2) p room(2) by (auto simp: dec_def)
  have "generate ?ac rid prompt max_tokens so st r = Raise MemoryError t"
    using u(1) t(1) by (simp add: generate_def sampler_of_def stop_of_def)
  moreover have "mr_active_requests t = AList.update rid ?i (mr_active_requests r)"
    using t(3) p by (simp add: advanced_def)
  ultimately show ?thesis using t(2,4) by blast
qed

end
