(* ===== verification/Runner_Reach.thy ===== *)
theory Runner_Reach
  imports Runner_Generate
begin

text \<open>
  The runner as a state machine: construction establishes the invariant with nothing in use, and
  every call of \<open>forward_prefill\<close>, \<open>forward_decode\<close> and \<open>finish_request\<close>, whether it returns or
  raises, keeps it.
\<close>

section \<open>Construction\<close>

text \<open>The dimensions of a configuration and those of the network agree.\<close>

definition config_fits :: "('a, 'd, 'e) network \<Rightarrow> model_config \<Rightarrow> bool" where
  "config_fits nw config \<longleftrightarrow>
     mc_num_layers config = Some (int (nw_layers nw)) \<and>
     mc_n_kv_heads config = Some (int (nw_heads nw)) \<and> mc_head_dim config = Some (int (nw_dim nw))"

lemma reset_cached:
  assumes "set_order_ok s"
  shows "cached (reset s) = (\<lambda>ks. if ks = [] then Some [] else None)"
proof
  fix ks
  have "cached (reset s) ks = Some ws \<longleftrightarrow> ks = [] \<and> ws = []" for ws
    using cached_iff [OF reset_inv [OF assms]] by (auto split: if_splits)
  then show "cached (reset s) ks = (if ks = [] then Some [] else None)"
    by (metis option.exhaust)
qed

lemma radix_init_empty:
  assumes "radix_init None w = Inr c" "set_order_ok w"
  shows "healthy c (\<lambda>_. 0)" "cached c = (\<lambda>ks. if ks = [] then Some [] else None)"
proof -
  obtain u where u: "c = reset u" "w_set_order u = w_set_order w" "\<not> rc_disable u"
    using assms(1)
    by (auto simp: radix_init_def CacheInitParams_default_def Let_def py_world.defs radix_cache.defs
        split: option.splits)
  have ok: "set_order_ok u" using u(2) assms(2) by (simp add: set_order_ok_def)
  show "healthy c (\<lambda>_. 0)"
    using reset_inv [OF ok] u(1,3) reset_fields(7) [of u] by (auto simp: healthy_def)
  show "cached c = (\<lambda>ks. if ks = [] then Some [] else None)"
    unfolding u(1) by (rule reset_cached [OF ok])
qed

lemma runner_init_inv:
  assumes laws: "mlx_laws (nw_mx nw) (nw_elt nw)" and fits: "config_fits nw config"
    and law: "model_law nw model" and w: "set_order_ok w"
    and init: "runner_init (nw_mx nw) model tokenizer config sz dtype w = Inr r"
  shows "runner_inv nw r {} {}" "free_count r = sz" "mr_active_requests r = []" "mr_model r = model"
    "cached (mr_radix_cache r) = (\<lambda>ks. if ks = [] then Some [] else None)"
proof -
  obtain a p c where i: "alloc_init sz = Inr a"
    "pool_init (nw_mx nw) sz (Some (int (nw_layers nw))) (Some (int (nw_heads nw)))
       (Some (int (nw_dim nw))) dtype = Inr p"
    "radix_init None w = Inr c"
    "r = \<lparr>mr_model = model, mr_tokenizer = tokenizer, mr_config = config, mr_pool_size = sz,
       mr_dtype = dtype, mr_pool = p, mr_radix_cache = set_allocator a c, mr_active_requests = [],
       mr_states = []\<rparr>"
    using init fits by (auto simp: runner_init_def config_fits_def split: sum.splits)
  have a: "0 < sz" "al_pool_size a = sz" "alloc_inv a {#}" "available_size a = sz"
    using i(1) alloc_init_inv [OF i(1)] by (auto simp: alloc_init_def available_size_def split: if_splits)
  have p: "tp_pool_size p = sz" "pool_fits nw p"
    using pool_init_ok [OF laws, of sz "int (nw_layers nw)" "int (nw_heads nw)" "int (nw_dim nw)" dtype]
      a(1) i(2) by (auto simp: pool_fits_def)
  note e = radix_init_empty [OF i(3) w]
  let ?c = "set_allocator a c"
  have c: "healthy ?c (\<lambda>_. 0)" "cached ?c = cached c" "rc_allocator ?c = Some a"
    using attach_law [OF e(1), of a] by simp_all
  have none: "\<not> owns (cached ?c) ks x" for ks x by (simp add: c(2) e(2) owns_def)
  have used: "used_slots ?c [] {} = {}" using none by (auto simp: used_slots_def cached_slots_def live_slots_def)
  have locks: "live_locks [] {} = (\<lambda>_. 0)" by (simp add: live_locks_def fun_eq_iff)
  have "core_inv nw ?c p [] {} {}"
    unfolding core_inv_def used using p c(1) a(2,3) none
    by (auto simp: locks unique_owner_def slots_inv_def c(3))
  then show "runner_inv nw r {} {}" using law fits i(4) by (simp add: runner_inv_def config_fits_def)
  show "free_count r = sz" "mr_active_requests r = []" "mr_model r = model"
    "cached (mr_radix_cache r) = (\<lambda>ks. if ks = [] then Some [] else None)"
    using i(4) c(2,3) a(4) e(2) by (simp_all add: free_count_def)
qed

section \<open>The reachable states\<close>

inductive runner_reachable ::
  "('a, 'd, 'e) network \<Rightarrow> ('a, 'd, 'k) model_runner \<Rightarrow> nat set \<Rightarrow> bool" for nw where
  start: "runner_init (nw_mx nw) model tokenizer config sz dtype w = Inr r \<Longrightarrow>
    config_fits nw config \<Longrightarrow> model_law nw model \<Longrightarrow> set_order_ok w \<Longrightarrow> runner_reachable nw r {}"
| prefilled: "runner_reachable nw r L \<Longrightarrow> prompt \<noteq> [] \<Longrightarrow>
    forward_prefill (nw_calls nw) rid prompt r = Return (i, result) t \<Longrightarrow> runner_reachable nw t (insert i L)"
| prefill_failed: "runner_reachable nw r L \<Longrightarrow> prompt \<noteq> [] \<Longrightarrow>
    forward_prefill (nw_calls nw) rid prompt r = Raise e t \<Longrightarrow> runner_reachable nw t L"
| decoded: "runner_reachable nw r L \<Longrightarrow> i \<in> L \<Longrightarrow>
    forward_decode (nw_calls nw) i tok r = Return result t \<Longrightarrow> runner_reachable nw t L"
| decode_failed: "runner_reachable nw r L \<Longrightarrow> i \<in> L \<Longrightarrow>
    forward_decode (nw_calls nw) i tok r = Raise e t \<Longrightarrow> runner_reachable nw t L"
| finished: "runner_reachable nw r L \<Longrightarrow> i \<in> L \<Longrightarrow> finish_request i r = Return u t \<Longrightarrow>
    runner_reachable nw t (L - {i})"

lemma prefill_cases:
  assumes inv: "runner_inv nw r L R" and ne: "prompt \<noteq> []"
  shows "case forward_prefill (nw_calls nw) rid prompt r of
      Return (i, result) t \<Rightarrow> runner_inv nw t (insert i L) R
    | Raise e t \<Rightarrow> \<exists>R'. runner_inv nw t L R'
    | Diverge \<Rightarrow> False"
proof (cases "prefill_need prompt r \<le> free_count r")
  case True
  then show ?thesis using forward_prefill_ok [OF inv ne True, of rid] by auto
next
  case False
  then show ?thesis using forward_prefill_full [OF inv ne, of rid] by auto
qed

lemma decode_cases:
  assumes inv: "runner_inv nw r L R" and i: "i \<in> L"
  shows "case forward_decode (nw_calls nw) i tok r of
      Return result t \<Rightarrow> runner_inv nw t L R
    | Raise e t \<Rightarrow> \<exists>R'. runner_inv nw t L R'
    | Diverge \<Rightarrow> False"
proof (cases "1 \<le> free_count r")
  case True
  then show ?thesis using forward_decode_ok [OF inv i True, of tok] by auto
next
  case False
  then show ?thesis using forward_decode_full [OF inv, of i tok] inv by auto
qed

lemma runner_reachable_inv:
  assumes "runner_reachable nw r L" "mlx_laws (nw_mx nw) (nw_elt nw)"
  shows "\<exists>R. runner_inv nw r L R"
  using assms
proof (induction rule: runner_reachable.induct)
  case (start model tokenizer config sz dtype w r)
  show ?case using runner_init_inv(1) [OF start.prems start.hyps(2-4,1)] by blast
next
  case (prefilled r L prompt rid i result t)
  then obtain R where "runner_inv nw r L R" by blast
  from prefill_cases [OF this prefilled.hyps(2), of rid] show ?case
    unfolding prefilled.hyps(3) by auto
next
  case (prefill_failed r L prompt rid e t)
  then obtain R where "runner_inv nw r L R" by blast
  from prefill_cases [OF this prefill_failed.hyps(2), of rid] show ?case
    unfolding prefill_failed.hyps(3) by auto
next
  case (decoded r L i tok result t)
  then obtain R where "runner_inv nw r L R" by blast
  from decode_cases [OF this decoded.hyps(2), of tok] show ?case
    unfolding decoded.hyps(3) by auto
next
  case (decode_failed r L i tok e t)
  then obtain R where "runner_inv nw r L R" by blast
  from decode_cases [OF this decode_failed.hyps(2), of tok] show ?case
    unfolding decode_failed.hyps(3) by auto
next
  case (finished r L i u t)
  then obtain R where "runner_inv nw r L R" by blast
  from finish_request_ok [OF this finished.hyps(2)] show ?case
    unfolding finished.hyps(3) by auto
qed

section \<open>Accounting\<close>

lemma slots_accounted:
  assumes "runner_inv nw r L R"
  shows "free_count r + int (card (used_slots (mr_radix_cache r) (mr_states r) L)) + int (card R) =
    tp_pool_size (mr_pool r)"
proof -
  let ?U = "used_slots (mr_radix_cache r) (mr_states r) L"
  obtain b where b: "rc_allocator (mr_radix_cache r) = Some b" "al_pool_size b = tp_pool_size (mr_pool r)"
    "alloc_inv b (mset_set (?U \<union> R))" "finite ?U" "finite R" "?U \<inter> R = {}"
    using core_invD(5) [OF runner_invD(3) [OF assms]] by (rule slots_invD)
  have "available_size b + int (card (?U \<union> R)) = tp_pool_size (mr_pool r)"
    using pool_alloc.inv_size [OF b(3)] b(2) by simp
  then show ?thesis using b by (simp add: free_count_def card_Un_disjoint)
qed

end
