(* ===== verification/Radix_Main.thy ===== *)
theory Radix_Main
  imports Runner_Reach Radix_Sizes
begin

text \<open>
  The demonstration at the end of \<open>radix_cache.py\<close>: keys inserted without values, so that the slots
  of a key are the key itself, the printed tree, and a lookup.
\<close>

fun insert_keys :: "token list list \<Rightarrow> radix_cache \<Rightarrow> (unit, radix_cache) outcome" where
  "insert_keys [] s = Return () s"
| "insert_keys (key # keys) s = bind_outcome (radix_insert (InsertParams key None) s) (\<lambda>_. insert_keys keys)"

definition main_keys :: "token list list" where
  "main_keys = [[1, 2, 3], [1, 2, 3], [1, 2, 4, 5], [1, 2, 4, 5, 6, 7], [8, 9, 10, 11, 12]]"

text \<open>What is printed: the lines of the tree, its size, and the slots of the lookup.\<close>

definition main :: "py_world \<Rightarrow> ((print_line list \<times> int) \<times> slot list) option" where
  "main w = (case radix_init None w of Inl e \<Rightarrow> None
     | Inr tree \<Rightarrow> (case insert_keys main_keys tree of
         Return _ t \<Rightarrow> (case pretty_print t of None \<Rightarrow> None
           | Some printed \<Rightarrow> (case match_prefix [1, 2, 3, 13, 14] t of
               Return result _ \<Rightarrow> Some (printed, mr_device_indices result) | _ \<Rightarrow> None))
       | _ \<Rightarrow> None))"

text \<open>The prefixes of keys, each its own slots.\<close>

definition own_slots :: "token list list \<Rightarrow> token list \<Rightarrow> slot list option" where
  "own_slots keys ks = (if ks = [] \<or> (\<exists>key \<in> set keys. prefix ks key) then Some ks else None)"

definition common :: "token list list \<Rightarrow> token list \<Rightarrow> nat" where
  "common keys key = length (takeWhile (\<lambda>n. own_slots keys (take (Suc n) key) \<noteq> None) [0..<length key])"

lemma insert_own:
  assumes "healthy s D" "cached s = own_slots keys"
  shows "\<exists>i t. radix_insert (InsertParams key None) s = Return i t \<and> healthy t D \<and>
    cached t = own_slots (key # keys) \<and>
    rc_evictable_size t + rc_protected_size t =
      rc_evictable_size s + rc_protected_size s + int (length key - common keys key)"
proof -
  let ?p = "InsertParams key None"
  have p: "ip_key ?p = key" "param_value ?p = key" by (simp_all add: InsertParams_def param_value_def)
  obtain n t ms where i: "radix_insert ?p s = Return \<lparr>ir_prefix_len = n\<rparr> t" "healthy t D" "n \<le> length key"
    "cached s (take n key) = Some ms" "\<forall>ks. prefix ks key \<longrightarrow> n < length ks \<longrightarrow> cached s ks = None"
    "\<forall>ks ws. cached t ks = Some ws \<longleftrightarrow> cached s ks = Some ws \<or>
       (prefix ks key \<and> ws = take (length ks) (ms @ drop n key))"
    "rc_evictable_size t = rc_evictable_size s + int (length key - n)" "rc_protected_size t = rc_protected_size s"
    using insert_law [OF assms(1), of ?p] unfolding p by (auto simp: InsertParams_def)
  have "ms = take n key" using i(4) by (auto simp: assms(2) own_slots_def split: if_splits)
  then have all_slots: "take (length ks) (ms @ drop n key) = ks" if "prefix ks key" for ks
    using that by (auto simp: prefix_def)
  have "cached t ks = own_slots (key # keys) ks" for ks
  proof (cases "cached t ks")
    case None
    then have "\<not> prefix ks key" "cached s ks = None" using i(6) by (metis option.distinct(1), metis not_None_eq)
    then show ?thesis using None by (auto simp: assms(2) own_slots_def split: if_splits)
  next
    case (Some ws)
    then show ?thesis using i(6) all_slots by (auto simp: assms(2) own_slots_def split: if_splits)
  qed
  moreover have "common keys key = n"
  proof -
    have "own_slots keys (take (Suc m) key) \<noteq> None \<longleftrightarrow> m < n" if "m < length key" for m
    proof (cases "m < n")
      case True
      have "prefix (take (Suc m) key) (take n key)" using True by (metis Suc_leI min.absorb1 take_is_prefix take_take)
      then have "own_slots keys (take (Suc m) key) \<noteq> None"
        using i(4) unfolding assms(2) own_slots_def by (auto split: if_splits dest: prefix_order.trans)
      then show ?thesis using True by simp
    next
      case False
      have "cached s (take (Suc m) key) = None"
        using i(5) [rule_format, of "take (Suc m) key"] False that by (simp add: take_is_prefix)
      then show ?thesis using False by (simp add: assms(2))
    qed
    then have "takeWhile (\<lambda>m. own_slots keys (take (Suc m) key) \<noteq> None) [0..<length key] =
        takeWhile (\<lambda>m. m < n) [0..<length key]"
      by (intro takeWhile_cong) simp_all
    also have "\<dots> = takeWhile (\<lambda>m. m < n) ([0..<n] @ [n..<length key])"
      using i(3) upt_add_eq_append [of 0 n "length key - n"] by simp
    also have "\<dots> = [0..<n]"
      by (cases "n < length key") (simp_all add: upt_conv_Cons takeWhile_append)
    finally show ?thesis by (simp add: common_def)
  qed
  ultimately show ?thesis using i by auto
qed

fun new_tokens :: "token list list \<Rightarrow> token list list \<Rightarrow> int" where
  "new_tokens [] old = 0"
| "new_tokens (key # keys) old = int (length key - common old key) + new_tokens keys (key # old)"

lemma insert_keys_own:
  assumes "healthy s D" "cached s = own_slots old"
  shows "\<exists>t. insert_keys keys s = Return () t \<and> healthy t D \<and> cached t = own_slots (rev keys @ old) \<and>
    rc_evictable_size t + rc_protected_size t = rc_evictable_size s + rc_protected_size s + new_tokens keys old"
  using assms
proof (induction keys arbitrary: s old)
  case (Cons key keys)
  obtain i t where i: "radix_insert (InsertParams key None) s = Return i t" "healthy t D"
    "cached t = own_slots (key # old)" "rc_evictable_size t + rc_protected_size t =
      rc_evictable_size s + rc_protected_size s + int (length key - common old key)"
    using insert_own [OF Cons.prems] by blast
  from Cons.IH [OF i(2,3)] i(1,4) show ?case by auto
qed simp

lemma main_tokens: "new_tokens main_keys [] = 12"
  by (simp add: main_keys_def common_def own_slots_def upt_rec)

text \<open>
  The demonstration prints a tree of 12 tokens and finds the slots of the first three tokens, whatever
  the clock reads.
\<close>

lemma main_prints:
  assumes "set_order_ok w"
  shows "\<exists>lines. main w = Some ((lines, 12), [1, 2, 3])"
proof -
  have "\<exists>tree. radix_init None w = Inr tree"
    by (simp add: radix_init_def CacheInitParams_default_def Let_def strategy_of_policy_def py_lower_def py_lower_char_def)
  then obtain c where c: "radix_init None w = Inr c" by blast
  note e = radix_init_empty [OF c assms]
  have own: "cached c = own_slots []" unfolding e(2) by (rule ext) (simp add: own_slots_def)
  obtain t where t: "insert_keys main_keys c = Return () t" "healthy t (\<lambda>_. 0)"
    "cached t = own_slots (rev main_keys)"
    "rc_evictable_size t + rc_protected_size t = rc_evictable_size c + rc_protected_size c + 12"
    using insert_keys_own [OF e(1) own, of main_keys] unfolding main_tokens by auto
  have "rc_evictable_size c + rc_protected_size c = 0"
    using c by (auto simp: radix_init_def Let_def reset_fields split: option.splits)
  with t(4) have size: "rc_evictable_size t + rc_protected_size t = 12" by simp
  obtain P where "cache_inv t P (\<lambda>_. 0)" by (rule healthyE [OF t(2)])
  then obtain lines where print: "pretty_print t = Some (lines, 12)" using pretty_print_spec size by metis
  let ?key = "[1, 2, 3, 13, 14] :: token list"
  obtain r u q where r: "match_prefix ?key t = Return r u" "prefix q ?key" "cached t q = Some (mr_device_indices r)"
    "\<forall>ks. prefix ks ?key \<longrightarrow> length q < length ks \<longrightarrow> cached t ks = None"
    using match_law [OF t(2), of ?key] by blast
  have three: "cached t [1, 2, 3] = Some [1, 2, 3]" "cached t [1, 2, 3, 13] = None" "cached t ?key = None"
    unfolding t(3) by (simp_all add: own_slots_def main_keys_def)
  have "\<not> length q < 3" using r(4) [rule_format, of "[1, 2, 3]"] three(1) by auto
  moreover have "q \<in> {[], [1], [1, 2], [1, 2, 3], [1, 2, 3, 13], ?key}"
    using r(2) by (auto simp: prefix_Cons)
  ultimately have "q = [1, 2, 3]" using r(3) three by auto
  with r(3) three(1) have "mr_device_indices r = [1, 2, 3]" by simp
  with c t(1) print r(1) show ?thesis by (simp add: main_def)
qed

end
