(* ===== verification/Node_Repr.thy ===== *)
theory Node_Repr
  imports Tree_Node
begin

text \<open>
  \<open>TreeNode.__repr__\<close>, with the decimal notation of \<open>int\<close> and the notation of lists that the
  f-string uses.
\<close>

section \<open>Decimal notation\<close>

definition digits :: string where
  "digits = ''0123456789''"

fun str_nat :: "nat \<Rightarrow> string" where
  "str_nat n = (if n < 10 then [digits ! n] else str_nat (n div 10) @ [digits ! (n mod 10)])"

declare str_nat.simps [simp del]

definition str_int :: "int \<Rightarrow> string" where
  "str_int k = (if k < 0 then ''-'' @ str_nat (nat (- k)) else str_nat (nat k))"

fun join_comma :: "string list \<Rightarrow> string" where
  "join_comma [] = ''''"
| "join_comma [s] = s"
| "join_comma (s # ss) = s @ '', '' @ join_comma ss"

definition str_list :: "int list \<Rightarrow> string" where
  "str_list xs = ''['' @ join_comma (map str_int xs) @ '']''"

section \<open>The method\<close>

definition tree_node_repr :: "node_id \<Rightarrow> tree_node \<Rightarrow> string" where
  "tree_node_repr n nd =
     (let preview = take 10 (tn_key nd);
          suffix = (if length (tn_key nd) > 10 then ''...'' else '''')
      in ''TreeNode(id='' @ str_int (int n) @ '', key='' @ str_list preview @ suffix @
         '', lock_ref='' @ str_int (tn_lock_ref nd) @ '')'')"

section \<open>Reading the numbers back\<close>

text \<open>The value of a decimal notation; the notation of a number determines it.\<close>

definition digit_value :: "char \<Rightarrow> nat" where
  "digit_value c = length (takeWhile (\<lambda>d. d \<noteq> c) digits)"

definition decimal_value :: "string \<Rightarrow> nat" where
  "decimal_value s = foldl (\<lambda>v c. 10 * v + digit_value c) 0 s"

lemma digit_value_nth: "n < 10 \<Longrightarrow> digit_value (digits ! n) = n"
proof -
  assume "n < 10"
  moreover have "\<forall>k \<in> set [0..<10]. digit_value (digits ! k) = k"
    by (simp add: digit_value_def digits_def upt_rec)
  ultimately show ?thesis by (metis atLeastLessThan_iff le0 set_upt)
qed

lemma decimal_value_str_nat: "decimal_value (str_nat n) = n"
proof (induction n rule: str_nat.induct)
  case (1 n)
  then show ?case
    by (subst str_nat.simps) (simp add: decimal_value_def digit_value_nth)
qed

lemma str_nat_digits: "set (str_nat n) \<subseteq> set digits"
proof (induction n rule: str_nat.induct)
  case (1 n)
  have "digits ! k \<in> set digits" if "k < 10" for k
    by (rule nth_mem) (use that in \<open>simp add: digits_def\<close>)
  then have "n < 10 \<Longrightarrow> digits ! n \<in> set digits" "digits ! (n mod 10) \<in> set digits" by simp_all
  with 1 show ?case by (subst str_nat.simps) simp
qed

lemma digits_signs: "CHR ''-'' \<notin> set digits" "CHR '','' \<notin> set digits"
  by (simp_all add: digits_def)

lemma str_int_chars: "CHR '','' \<notin> set (str_int k)" "CHR ''-'' \<in> set (str_int k) \<longleftrightarrow> k < 0"
  using str_nat_digits [of "nat k"] str_nat_digits [of "nat (- k)"] digits_signs
  by (auto simp: str_int_def)

lemma str_int_inject: "str_int a = str_int b \<longleftrightarrow> a = b"
proof
  assume e: "str_int a = str_int b"
  have signs: "a < 0 \<longleftrightarrow> b < 0"
    using e str_int_chars(2) by metis
  then have "str_nat (nat \<bar>a\<bar>) = str_nat (nat \<bar>b\<bar>)" using e by (simp add: str_int_def split: if_splits)
  then have "nat \<bar>a\<bar> = nat \<bar>b\<bar>" using decimal_value_str_nat by metis
  then show "a = b" using signs by (cases "a < 0") simp_all
qed simp

text \<open>The text of a node names it: other nodes have another text.\<close>

lemma tree_node_repr_id: "tree_node_repr n a = tree_node_repr n' b \<Longrightarrow> n = n'"
proof -
  assume e: "tree_node_repr n a = tree_node_repr n' b"
  have "takeWhile (\<lambda>c. c \<noteq> CHR '','') (drop 12 (tree_node_repr k nd)) = str_int (int k)" for k nd
  proof -
    have "\<forall>c \<in> set (str_int (int k)). c \<noteq> CHR '',''" using str_int_chars(1) by metis
    then show ?thesis by (simp add: tree_node_repr_def Let_def takeWhile_append)
  qed
  from this [of n a] this [of n' b] e show ?thesis by (simp add: str_int_inject)
qed

end
