(* ===== verification/Pool_Props.thy ===== *)
theory Pool_Props
  imports Token_Pool
begin

text \<open>
  The properties of the token pool, over any array package that obeys \<open>mlx_laws\<close>, and a
  package that does: an array is its shape with the function that reads its entries.
\<close>

section \<open>An array package\<close>

type_synonym arr = "nat list \<times> (nat list \<Rightarrow> int)"

definition arr_mlx :: "(arr, unit) mlx" where
  "arr_mlx =
     \<lparr>mx_zeros = (\<lambda>sh _. if list_all (\<lambda>n. case n of None \<Rightarrow> False | Some i \<Rightarrow> 0 \<le> i) sh
         then Inr (map (\<lambda>n. case n of None \<Rightarrow> 0 | Some i \<Rightarrow> nat i) sh, \<lambda>_. 0) else Inl ValueError),
      mx_first = (\<lambda>(sh, f). (tl sh, \<lambda>is. f (0 # is))),
      mx_transpose = (\<lambda>axes (sh, f). (map ((!) sh) axes, \<lambda>is. f (map ((!) is) axes))),
      mx_array = (\<lambda>xs. ([length xs], \<lambda>is. xs ! hd is)),
      mx_gather = (\<lambda>(sh, f) (ish, g). (hd ish # tl sh, \<lambda>is. f (nat (g [hd is]) # tl is))),
      mx_scatter = (\<lambda>(sh, f) (ish, g) (ysh, y).
         Inr (sh, \<lambda>is. case find (\<lambda>t. nat (g [t]) = hd is) [0..<hd ish] of
                None \<Rightarrow> f is | Some t \<Rightarrow> y (t # tl is))),
      mx_expand_dims = (\<lambda>n (sh, f). (take n sh @ 1 # drop n sh, \<lambda>is. f (take n is @ drop (Suc n) is))),
      mx_shape = fst\<rparr>"

lemma arr_reshape: "reshape_laws arr_mlx snd"
  by (auto simp: reshape_laws_def arr_mlx_def numeral_2_eq_2)

lemma arr_zeros: "zeros_law arr_mlx"
  by (auto simp: zeros_law_def arr_mlx_def list_all_iff)

lemma find_index:
  assumes "distinct ixs" "t < length ixs" "set ixs \<subseteq> {0..}"
  shows "find (\<lambda>u. nat (ixs ! u) = nat (ixs ! t)) [0..<length ixs] = Some t"
proof -
  have "u = t" if "u < length ixs" "nat (ixs ! u) = nat (ixs ! t)" for u
  proof -
    have "0 \<le> ixs ! u" "0 \<le> ixs ! t"
      using assms(3) nth_mem [OF that(1)] nth_mem [OF assms(2)] by auto
    with that(2) have "ixs ! u = ixs ! t" by simp
    then show "u = t" using assms(1,2) that(1) by (simp add: nth_eq_iff_index_eq)
  qed
  then show ?thesis
    using assms(2) by (auto simp: find_Some_iff intro!: exI [of _ t]) (metis less_irrefl less_trans)
qed

lemma arr_rows: "rows_laws arr_mlx snd"
proof -
  have none: "find (\<lambda>u. nat (ixs ! u) = m) [0..<length ixs] = None"
    if "int m \<notin> set ixs" "set ixs \<subseteq> {0..<int p}" for ixs m p
    unfolding find_None_iff
  proof
    assume "\<exists>u. u \<in> set [0..<length ixs] \<and> nat (ixs ! u) = m"
    then obtain u where u: "u < length ixs" "nat (ixs ! u) = m" by auto
    have "0 \<le> ixs ! u" using that(2) nth_mem [OF u(1)] by auto
    with u that(1) show False by (metis int_nat_eq nth_mem)
  qed
  have some: "find (\<lambda>u. nat (ixs ! u) = nat (ixs ! t)) [0..<length ixs] = Some t"
    if "distinct ixs" "t < length ixs" "set ixs \<subseteq> {0..<int p}" for ixs t p
    using find_index [OF that(1,2)] that(3) by (meson atLeastLessThan_iff atLeast_iff subset_iff)
  show ?thesis
    unfolding rows_laws_def by (auto simp: arr_mlx_def some none)
qed

lemma arr_laws: "mlx_laws arr_mlx snd"
  by (simp add: mlx_laws_def arr_reshape arr_rows arr_zeros)

section \<open>A small pool\<close>

text \<open>Four slots beside the padding, two layers, one head, two entries per head.\<close>

definition demo_pool :: "(arr, unit) token_pool" where
  "demo_pool = (case pool_init arr_mlx 4 (Some 2) (Some 1) (Some 2) () of Inr p \<Rightarrow> p)"

definition demo_kv :: pooled_kv_cache where
  "demo_kv = set_indices [3] [1, 4] (kv_init 0)"

definition demo_batch :: "nat \<Rightarrow> int \<Rightarrow> arr" where
  "demo_batch k b = ([1, 1, k, 2], \<lambda>is. b + 10 * int (is ! 2) + int (is ! 3))"

lemma demo_pool_ok: "pool_ok arr_mlx 2 1 2 demo_pool" "tp_pool_size demo_pool = 4"
proof -
  obtain p where "pool_init arr_mlx 4 (Some 2) (Some 1) (Some 2) () = Inr p" "tp_pool_size p = 4"
    "pool_ok arr_mlx (nat 2) (nat 1) (nat 2) p"
    using pool_init_ok [OF arr_laws, of 4 2 1 2 "()"] by auto
  then show "pool_ok arr_mlx 2 1 2 demo_pool" "tp_pool_size demo_pool = 4"
    by (simp_all add: demo_pool_def)
qed

lemma demo_batch_shape: "mx_shape arr_mlx (demo_batch k b) = [1, 1, k, 2]"
  by (simp add: arr_mlx_def demo_batch_def)

lemma all_indices_new:
  assumes "pk_store_offset c + k \<le> length (pk_new_indices c)" "t < k"
  shows "all_indices (c\<lparr>pk_store_offset := pk_store_offset c + k\<rparr>) ! (length (all_indices c) + t) =
    pk_new_indices c ! (pk_store_offset c + t)"
  using assms by (simp add: all_indices_def nth_append)

lemma all_indices_range:
  assumes "set (pk_prefix_indices c @ pk_new_indices c) \<subseteq> {0..tp_pool_size p}"
    and "pk_store_offset c + k \<le> length (pk_new_indices c)" "t < length (all_indices c) + k"
  shows "all_indices (c\<lparr>pk_store_offset := pk_store_offset c + k\<rparr>) ! t \<in> {0..tp_pool_size p}"
proof -
  let ?ixs = "all_indices (c\<lparr>pk_store_offset := pk_store_offset c + k\<rparr>)"
  have "?ixs ! t \<in> set ?ixs"
    by (rule nth_mem) (use assms(2,3) in \<open>simp add: all_indices_def\<close>)
  moreover have "set ?ixs \<subseteq> set (pk_prefix_indices c @ pk_new_indices c)"
    by (auto simp: all_indices_def dest: in_set_takeD)
  ultimately show ?thesis using assms(1) by blast
qed

section \<open>Properties\<close>

text \<open>
  C12. What \<open>MHATokenPool.store\<close> writes, \<open>fetch\<close> of the same slots returns, entry by entry
  and in the same order; the other slots of the layer and all other layers keep their data.
\<close>

theorem store_fetch_roundtrip:
  assumes "mlx_laws mx elt" "pool_ok mx n h d p" "l < n"
    and "slots_ok p ixs" "distinct ixs"
    and "mx_shape mx keys = [1, h, length ixs, d]" "mx_shape mx vals = [1, h, length ixs, d]"
  shows "\<exists>q ks vs. store mx (int l) ixs keys vals p = Return () q \<and> pool_ok mx n h d q \<and>
    fetch mx (int l) ixs q = Return (ks, vs) q \<and>
    mx_shape mx ks = mx_shape mx keys \<and> mx_shape mx vs = mx_shape mx vals \<and>
    (\<forall>i < h. \<forall>t < length ixs. \<forall>j < d.
       elt ks [0, i, t, j] = elt keys [0, i, t, j] \<and> elt vs [0, i, t, j] = elt vals [0, i, t, j]) \<and>
    (\<forall>i \<in> {0..tp_pool_size p} - set ixs. \<forall>u v t.
       slot_has elt h d q l i u v t \<longleftrightarrow> slot_has elt h d p l i u v t) \<and>
    (\<forall>m. m \<noteq> l \<longrightarrow> tp_k_buffer q ! m = tp_k_buffer p ! m \<and> tp_v_buffer q ! m = tp_v_buffer p ! m)"
proof -
  obtain q where q: "store mx (int l) ixs keys vals p = Return () q" "pool_ok mx n h d q"
    "tp_pool_size q = tp_pool_size p"
    "\<And>t. t < length ixs \<Longrightarrow> slot_has elt h d q l (ixs ! t) keys vals t"
    "\<And>i u v t. i \<in> {0..tp_pool_size p} \<Longrightarrow> i \<notin> set ixs \<Longrightarrow>
       slot_has elt h d q l i u v t \<longleftrightarrow> slot_has elt h d p l i u v t"
    "\<And>m. m \<noteq> l \<Longrightarrow> tp_k_buffer q ! m = tp_k_buffer p ! m \<and> tp_v_buffer q ! m = tp_v_buffer p ! m"
    by (rule store_spec [OF assms]) metis
  have ok: "slots_ok q ixs" using assms(4) q(3) by (simp add: slots_ok_def)
  obtain ks vs where f: "fetch mx (int l) ixs q = Return (ks, vs) q"
    "mx_shape mx ks = [1, h, length ixs, d]" "mx_shape mx vs = [1, h, length ixs, d]"
    "\<And>t. t < length ixs \<Longrightarrow> slot_has elt h d q l (ixs ! t) ks vs t"
    by (rule fetch_spec [OF assms(1) q(2) assms(3) ok]) metis
  have "elt ks [0, i, t, j] = elt keys [0, i, t, j] \<and> elt vs [0, i, t, j] = elt vals [0, i, t, j]"
    if "i < h" "t < length ixs" "j < d" for i t j
    by (rule slot_has_entries [OF f(4) q(4) that(1,3)]) (rule that(2))+
  note data = this
  show ?thesis
    by (rule exI [of _ q], rule exI [of _ ks], rule exI [of _ vs])
       (use data q(1,2,5,6) f(1-3) assms(6,7) in auto)
qed

theorem store_fetch_roundtrip_witness:
  "\<exists>q ks vs. store arr_mlx (int 1) [4, 2] (demo_batch 2 5) (demo_batch 2 7) demo_pool = Return () q \<and>
     fetch arr_mlx (int 1) [4, 2] q = Return (ks, vs) q \<and> snd ks [0, 0, 1, 1] = 16"
proof -
  have "slots_ok demo_pool [4, 2]" by (simp add: slots_ok_def demo_pool_ok)
  moreover have "mx_shape arr_mlx (demo_batch 2 b) = [1, 1, length [4, 2 :: int], 2]" for b
    by (simp add: demo_batch_shape)
  ultimately obtain q ks vs where w:
    "store arr_mlx (int 1) [4, 2] (demo_batch 2 5) (demo_batch 2 7) demo_pool = Return () q"
    "fetch arr_mlx (int 1) [4, 2] q = Return (ks, vs) q"
    "\<forall>i < 1. \<forall>t < 2. \<forall>j < 2. snd ks [0, i, t, j] = snd (demo_batch 2 5) [0, i, t, j]"
    using store_fetch_roundtrip [OF arr_laws demo_pool_ok(1), of 1 "[4, 2]" "demo_batch 2 5" "demo_batch 2 7"]
    by auto
  from w(3) have "snd ks [0, 0, 1, 1] = snd (demo_batch 2 5) [0, 0, 1, 1]" by force
  moreover have "snd (demo_batch 2 5) [0, 0, 1, 1] = 16"
    by (simp add: demo_batch_def)
  ultimately have "snd ks [0, 0, 1, 1] = 16" by (rule trans)
  with w(1,2) show ?thesis by metis
qed

text \<open>
  C10. \<open>update_and_fetch\<close> returns the whole sequence so far: for every position before the new
  tokens the data the pool has in its slot, and then the data of the new tokens. Afterwards the
  data of the new tokens is in the pool under the slots set aside for them; every other slot of
  the layer and all other layers are as before.
\<close>

theorem update_and_fetch_whole:
  assumes "mlx_laws mx elt" "pool_ok mx n h d p" "pk_layer_idx c = int l" "l < n"
    and "set (pk_prefix_indices c @ pk_new_indices c) \<subseteq> {0..tp_pool_size p}"
    and "distinct (pk_prefix_indices c @ pk_new_indices c)"
    and "mx_shape mx keys = [1, h, k, d]" "mx_shape mx vals = [1, h, k, d]"
    and "0 < k" "pk_store_offset c + k \<le> length (pk_new_indices c)"
  shows "\<exists>ks vs c' q. update_and_fetch mx keys vals (c, p) = Return (ks, vs) (c', q) \<and>
    all_indices c' = all_indices c @ take k (drop (pk_store_offset c) (pk_new_indices c)) \<and>
    kv_offset c' = kv_offset c \<and> pool_ok mx n h d q \<and> tp_pool_size q = tp_pool_size p \<and>
    (\<forall>t < k. slot_has elt h d q l (pk_new_indices c ! (pk_store_offset c + t)) keys vals t) \<and>
    (\<forall>i \<in> {0..tp_pool_size p} - set (take k (drop (pk_store_offset c) (pk_new_indices c))).
       same_slot elt h d q p l i) \<and>
    (\<forall>m. m \<noteq> l \<longrightarrow> tp_k_buffer q ! m = tp_k_buffer p ! m \<and> tp_v_buffer q ! m = tp_v_buffer p ! m) \<and>
    mx_shape mx ks = [1, h, length (all_indices c) + k, d] \<and>
    mx_shape mx vs = [1, h, length (all_indices c) + k, d] \<and>
    (\<forall>t < length (all_indices c). slot_has elt h d p l (all_indices c ! t) ks vs t) \<and>
    (\<forall>i < h. \<forall>t < k. \<forall>j < d.
       elt ks [0, i, length (all_indices c) + t, j] = elt keys [0, i, t, j] \<and>
       elt vs [0, i, length (all_indices c) + t, j] = elt vals [0, i, t, j])"
proof -
  let ?o = "length (all_indices c)" and ?c = "c\<lparr>pk_store_offset := pk_store_offset c + k\<rparr>"
  have all: "all_indices ?c = all_indices c @ take k (drop (pk_store_offset c) (pk_new_indices c))"
    by (simp add: all_indices_def take_add)
  obtain ks vs q where u: "update_and_fetch mx keys vals (c, p) = Return (ks, vs) (?c, q)"
    "pool_ok mx n h d q" "tp_pool_size q = tp_pool_size p"
    "mx_shape mx ks = [1, h, ?o + k, d]" "mx_shape mx vs = [1, h, ?o + k, d]"
    "\<And>t. t < ?o + k \<Longrightarrow> slot_has elt h d q l (all_indices ?c ! t) ks vs t"
    "\<And>t u v w. t < ?o \<Longrightarrow> slot_has elt h d q l (all_indices c ! t) u v w \<longleftrightarrow>
       slot_has elt h d p l (all_indices c ! t) u v w"
    "\<And>t. t < k \<Longrightarrow> slot_has elt h d q l (all_indices ?c ! (?o + t)) keys vals t"
    "\<And>m. m \<noteq> l \<Longrightarrow> tp_k_buffer q ! m = tp_k_buffer p ! m \<and> tp_v_buffer q ! m = tp_v_buffer p ! m"
    "\<And>i. i \<in> {0..tp_pool_size p} \<Longrightarrow>
       i \<notin> set (take k (drop (pk_store_offset c) (pk_new_indices c))) \<Longrightarrow> same_slot elt h d q p l i"
    by (rule update_and_fetch_spec [OF assms]) (rule that; assumption)
  have old: "slot_has elt h d p l (all_indices c ! t) ks vs t" if "t < ?o" for t
    using u(6) [of t] u(7) [OF that] that by (simp add: all nth_append)
  have stored: "slot_has elt h d q l (pk_new_indices c ! (pk_store_offset c + t)) keys vals t"
    if "t < k" for t
    using u(8) [OF that] by (simp add: all_indices_new [OF assms(10) that])
  have new: "elt ks [0, i, ?o + t, j] = elt keys [0, i, t, j] \<and>
      elt vs [0, i, ?o + t, j] = elt vals [0, i, t, j]" if "i < h" "t < k" "j < d" for i t j
    by (rule slot_has_entries [OF u(6,8) that(1,3)]) (use that(2) in simp_all)
  show ?thesis
    by (rule exI [of _ ks], rule exI [of _ vs], rule exI [of _ ?c], rule exI [of _ q])
       (use u(1-5,9,10) all old stored new in \<open>simp add: kv_offset_def\<close>)
qed

theorem update_and_fetch_whole_witness:
  "\<exists>ks vs c' q. update_and_fetch arr_mlx (demo_batch 2 5) (demo_batch 2 7) (demo_kv, demo_pool) =
      Return (ks, vs) (c', q) \<and> mx_shape arr_mlx ks = [1, 1, 3, 2] \<and> snd ks [0, 0, 2, 1] = 16 \<and>
      snd (tp_v_buffer q ! 0) [4, 0, 1] = 18 \<and> same_slot snd 1 2 q demo_pool 0 2"
proof -
  have one_less_numeral: "1 < (2 :: nat)" by simp
  have pre: "set (pk_prefix_indices demo_kv @ pk_new_indices demo_kv) \<subseteq> {0..tp_pool_size demo_pool}"
    "distinct (pk_prefix_indices demo_kv @ pk_new_indices demo_kv)" "pk_layer_idx demo_kv = int 0"
    "pk_store_offset demo_kv + 2 \<le> length (pk_new_indices demo_kv)"
    by (simp_all add: demo_kv_def set_indices_def kv_init_def demo_pool_ok)
  have kv: "length (all_indices demo_kv) = 1" "pk_new_indices demo_kv = [1, 4]" "pk_store_offset demo_kv = 0"
    by (simp_all add: demo_kv_def set_indices_def kv_init_def all_indices_def)
  obtain ks vs c' q where w:
    "update_and_fetch arr_mlx (demo_batch 2 5) (demo_batch 2 7) (demo_kv, demo_pool) = Return (ks, vs) (c', q)"
    "\<forall>t < 2. slot_has snd 1 2 q 0 ([1, 4] ! (0 + t)) (demo_batch 2 5) (demo_batch 2 7) t"
    "\<forall>i \<in> {0..4} - set (take 2 (drop 0 [1, 4])). same_slot snd 1 2 q demo_pool 0 i"
    "mx_shape arr_mlx ks = [1, 1, 1 + 2, 2]"
    "\<forall>i < 1. \<forall>t < 2. \<forall>j < 2. snd ks [0, i, 1 + t, j] = snd (demo_batch 2 5) [0, i, t, j] \<and>
       snd vs [0, i, 1 + t, j] = snd (demo_batch 2 7) [0, i, t, j]"
    using update_and_fetch_whole [OF arr_laws demo_pool_ok(1) pre(3) zero_less_numeral pre(1,2)
        demo_batch_shape demo_batch_shape zero_less_numeral pre(4), of 5 7]
    unfolding kv demo_pool_ok(2) by (elim exE conjE) (rule that; assumption)
  have "snd ks [0, 0, 1 + 1, 1] = snd (demo_batch 2 5) [0, 0, 1, 1]"
    using w(5) [rule_format, OF zero_less_one one_less_numeral one_less_numeral] by (rule conjunct1)
  then have "snd ks [0, 0, 2, 1] = 16" by (simp add: demo_batch_def numeral_2_eq_2)
  moreover have "slot_has snd 1 2 q 0 ([1, 4] ! (0 + 1)) (demo_batch 2 5) (demo_batch 2 7) 1"
    by (rule w(2) [rule_format, OF one_less_numeral])
  then have "snd (tp_v_buffer q ! 0) [4, 0, 1] = 18"
    by (simp add: slot_has_def same_rows_def demo_batch_def)
  moreover have "same_slot snd 1 2 q demo_pool 0 2" using w(3) by simp
  moreover have "mx_shape arr_mlx ks = [1, 1, 3, 2]" using w(4) by simp
  ultimately show ?thesis using w(1) by blast
qed

text \<open>An array of \<open>a + b\<close> positions that are the \<open>a\<close> of one array and then the \<open>b\<close> of another.\<close>

definition joined ::
  "('a \<Rightarrow> nat list \<Rightarrow> 'e) \<Rightarrow> nat \<Rightarrow> nat \<Rightarrow> nat \<Rightarrow> nat \<Rightarrow> 'a \<Rightarrow> 'a \<Rightarrow> 'a \<Rightarrow> bool" where
  "joined elt h d a b x1 x2 x \<longleftrightarrow>
     (\<forall>i < h. \<forall>j < d. (\<forall>t < a. elt x [0, i, t, j] = elt x1 [0, i, t, j]) \<and>
                     (\<forall>t < b. elt x [0, i, a + t, j] = elt x2 [0, i, t, j]))"

lemma same_slot_joined:
  assumes "joined elt h d a b k1 k2 keys" "joined elt h d a b v1 v2 vals"
    and "\<And>t. t < a \<Longrightarrow> slot_has elt h d p l (ixs ! (n + t)) k1 v1 t"
    and "\<And>t. t < b \<Longrightarrow> slot_has elt h d p l (ixs ! (n + (a + t))) k2 v2 t"
    and "slot_has elt h d q l (ixs ! (n + t)) keys vals t" "t < a + b"
  shows "same_slot elt h d p q l (ixs ! (n + t))"
proof (cases "t < a")
  case True
  show ?thesis unfolding same_slot_iff [OF assms(3) [OF True] assms(5)]
    using True assms(1,2) by (simp add: joined_def)
next
  case False
  then have t: "t = a + (t - a)" "t - a < b" using assms(6) by simp_all
  have "slot_has elt h d p l (ixs ! (n + t)) k2 v2 (t - a)" using assms(4) [OF t(2)] t(1) by simp
  from same_slot_iff [OF this assms(5)] t assms(1,2) show ?thesis
    unfolding joined_def by metis
qed

text \<open>What two calls, one after the other, leave in the pool.\<close>

lemma two_updates:
  assumes laws: "mlx_laws mx elt" and p: "pool_ok mx n h d p" and l: "pk_layer_idx c = int l" "l < n"
    and ixs: "set (pk_prefix_indices c @ pk_new_indices c) \<subseteq> {0..tp_pool_size p}"
      "distinct (pk_prefix_indices c @ pk_new_indices c)"
    and sh: "mx_shape mx k1 = [1, h, a, d]" "mx_shape mx v1 = [1, h, a, d]"
      "mx_shape mx k2 = [1, h, b, d]" "mx_shape mx v2 = [1, h, b, d]"
    and ab: "0 < a" "0 < b" "pk_store_offset c + (a + b) \<le> length (pk_new_indices c)"
  defines "old \<equiv> length (all_indices c)" and "c' \<equiv> c\<lparr>pk_store_offset := pk_store_offset c + (a + b)\<rparr>"
  obtains r c1 p1 ks vs p2 where "update_and_fetch mx k1 v1 (c, p) = Return r (c1, p1)"
    "update_and_fetch mx k2 v2 (c1, p1) = Return (ks, vs) (c', p2)"
    "pool_ok mx n h d p2" "tp_pool_size p2 = tp_pool_size p"
    "mx_shape mx ks = [1, h, old + (a + b), d]" "mx_shape mx vs = [1, h, old + (a + b), d]"
    "\<And>t. t < old + (a + b) \<Longrightarrow> slot_has elt h d p2 l (all_indices c' ! t) ks vs t"
    "\<And>t. t < a \<Longrightarrow> slot_has elt h d p2 l (all_indices c' ! (old + t)) k1 v1 t"
    "\<And>t. t < b \<Longrightarrow> slot_has elt h d p2 l (all_indices c' ! (old + (a + t))) k2 v2 t"
    "\<And>m. m \<noteq> l \<Longrightarrow> tp_k_buffer p2 ! m = tp_k_buffer p ! m \<and> tp_v_buffer p2 ! m = tp_v_buffer p ! m"
    "\<And>i. i \<in> {0..tp_pool_size p} \<Longrightarrow> i \<notin> set (take (a + b) (drop (pk_store_offset c) (pk_new_indices c))) \<Longrightarrow>
       same_slot elt h d p2 p l i"
proof -
  let ?c1 = "c\<lparr>pk_store_offset := pk_store_offset c + a\<rparr>"
  have c': "?c1\<lparr>pk_store_offset := pk_store_offset ?c1 + b\<rparr> = c'" by (simp add: c'_def)
  have room: "pk_store_offset c + a \<le> length (pk_new_indices c)"
    "pk_store_offset ?c1 + b \<le> length (pk_new_indices ?c1)"
    using ab(3) by simp_all
  have len1: "length (all_indices ?c1) = old + a"
    using room(1) by (simp add: all_indices_def old_def)
  have all: "all_indices c' = all_indices ?c1 @ take b (drop (pk_store_offset ?c1) (pk_new_indices c))"
    by (simp add: all_indices_def c'_def take_add [symmetric] add.assoc)
  obtain ks1 vs1 p1 where u: "update_and_fetch mx k1 v1 (c, p) = Return (ks1, vs1) (?c1, p1)"
    "pool_ok mx n h d p1" "tp_pool_size p1 = tp_pool_size p"
    "\<And>t. t < a \<Longrightarrow> slot_has elt h d p1 l (all_indices ?c1 ! (old + t)) k1 v1 t"
    "\<And>m. m \<noteq> l \<Longrightarrow> tp_k_buffer p1 ! m = tp_k_buffer p ! m \<and> tp_v_buffer p1 ! m = tp_v_buffer p ! m"
    "\<And>i. i \<in> {0..tp_pool_size p} \<Longrightarrow> i \<notin> set (take a (drop (pk_store_offset c) (pk_new_indices c))) \<Longrightarrow>
       same_slot elt h d p1 p l i"
    by (rule update_and_fetch_spec [OF laws p l ixs sh(1,2) ab(1) room(1), folded old_def])
       (rule that; assumption)
  have c1: "pk_layer_idx ?c1 = int l"
    "set (pk_prefix_indices ?c1 @ pk_new_indices ?c1) \<subseteq> {0..tp_pool_size p1}"
    "distinct (pk_prefix_indices ?c1 @ pk_new_indices ?c1)"
    using l(1) ixs u(3) by simp_all
  obtain ks vs p2 where w: "update_and_fetch mx k2 v2 (?c1, p1) = Return (ks, vs) (c', p2)"
    "pool_ok mx n h d p2" "tp_pool_size p2 = tp_pool_size p1"
    "mx_shape mx ks = [1, h, old + a + b, d]" "mx_shape mx vs = [1, h, old + a + b, d]"
    "\<And>t. t < old + a + b \<Longrightarrow> slot_has elt h d p2 l (all_indices c' ! t) ks vs t"
    "\<And>t u v w. t < old + a \<Longrightarrow> slot_has elt h d p2 l (all_indices ?c1 ! t) u v w \<longleftrightarrow>
       slot_has elt h d p1 l (all_indices ?c1 ! t) u v w"
    "\<And>t. t < b \<Longrightarrow> slot_has elt h d p2 l (all_indices c' ! (old + a + t)) k2 v2 t"
    "\<And>m. m \<noteq> l \<Longrightarrow> tp_k_buffer p2 ! m = tp_k_buffer p1 ! m \<and> tp_v_buffer p2 ! m = tp_v_buffer p1 ! m"
    "\<And>i. i \<in> {0..tp_pool_size p1} \<Longrightarrow>
       i \<notin> set (take b (drop (pk_store_offset ?c1) (pk_new_indices ?c1))) \<Longrightarrow> same_slot elt h d p2 p1 l i"
    by (rule update_and_fetch_spec [OF laws u(2) c1(1) l(2) c1(2,3) sh(3,4) ab(2) room(2),
          unfolded len1 c']) (rule that; assumption)
  have first: "slot_has elt h d p2 l (all_indices c' ! (old + t)) k1 v1 t" if "t < a" for t
    using u(4) [OF that] w(7) [of "old + t"] that len1 by (simp add: all nth_append)
  have rest: "same_slot elt h d p2 p l i" if i: "i \<in> {0..tp_pool_size p}"
    "i \<notin> set (take (a + b) (drop (pk_store_offset c) (pk_new_indices c)))" for i
  proof -
    have "i \<notin> set (take a (drop (pk_store_offset c) (pk_new_indices c)))"
      "i \<notin> set (take b (drop (pk_store_offset ?c1) (pk_new_indices ?c1)))"
      using i(2) by (simp_all add: take_add add.commute)
    then show ?thesis
      using same_slot_trans [OF w(10) u(6)] i(1) u(3) by simp
  qed
  show thesis
    by (rule that [OF u(1) w(1,2)])
       (use u(3,5) w(3-6,8,9) first rest in \<open>simp_all add: add.assoc\<close>)
qed

text \<open>
  C20. Feeding a prompt in two chunks stores and returns the same as feeding it at once: after the
  two calls the slots of the new tokens hold, in order, the data of the first chunk and then that
  of the second; a single call with the two chunks joined leaves the same cache object, the same
  data in every slot of the layer and the same other layers, and it returns arrays of the same
  shape with the same entries as the second call.
\<close>

theorem update_and_fetch_chunks:
  assumes "mlx_laws mx elt" "pool_ok mx n h d p" "pk_layer_idx c = int l" "l < n"
    and "set (pk_prefix_indices c @ pk_new_indices c) \<subseteq> {0..tp_pool_size p}"
    and "distinct (pk_prefix_indices c @ pk_new_indices c)"
    and "mx_shape mx k1 = [1, h, a, d]" "mx_shape mx v1 = [1, h, a, d]"
    and "mx_shape mx k2 = [1, h, b, d]" "mx_shape mx v2 = [1, h, b, d]"
    and "0 < a" "0 < b" "pk_store_offset c + (a + b) \<le> length (pk_new_indices c)"
    and "mx_shape mx keys = [1, h, a + b, d]" "mx_shape mx vals = [1, h, a + b, d]"
    and "joined elt h d a b k1 k2 keys" "joined elt h d a b v1 v2 vals"
  shows "\<exists>r c1 p1 ks vs c2 p2 ks' vs' q. update_and_fetch mx k1 v1 (c, p) = Return r (c1, p1) \<and>
    update_and_fetch mx k2 v2 (c1, p1) = Return (ks, vs) (c2, p2) \<and>
    update_and_fetch mx keys vals (c, p) = Return (ks', vs') (c2, q) \<and>
    pool_ok mx n h d p2 \<and> pool_ok mx n h d q \<and>
    tp_pool_size p2 = tp_pool_size p \<and> tp_pool_size q = tp_pool_size p \<and>
    (\<forall>t < a. slot_has elt h d p2 l (pk_new_indices c ! (pk_store_offset c + t)) k1 v1 t) \<and>
    (\<forall>t < b. slot_has elt h d p2 l (pk_new_indices c ! (pk_store_offset c + (a + t))) k2 v2 t) \<and>
    (\<forall>i \<in> {0..tp_pool_size p}. same_slot elt h d p2 q l i) \<and>
    (\<forall>m. m \<noteq> l \<longrightarrow> tp_k_buffer p2 ! m = tp_k_buffer q ! m \<and> tp_v_buffer p2 ! m = tp_v_buffer q ! m) \<and>
    mx_shape mx ks = [1, h, length (all_indices c) + (a + b), d] \<and>
    mx_shape mx vs = [1, h, length (all_indices c) + (a + b), d] \<and>
    mx_shape mx ks' = mx_shape mx ks \<and> mx_shape mx vs' = mx_shape mx vs \<and>
    (\<forall>i < h. \<forall>t < length (all_indices c) + (a + b). \<forall>j < d.
       elt ks [0, i, t, j] = elt ks' [0, i, t, j] \<and> elt vs [0, i, t, j] = elt vs' [0, i, t, j]) \<and>
    (\<forall>i < h. \<forall>j < d.
       (\<forall>t < a. elt ks [0, i, length (all_indices c) + t, j] = elt k1 [0, i, t, j] \<and>
                elt vs [0, i, length (all_indices c) + t, j] = elt v1 [0, i, t, j]) \<and>
       (\<forall>t < b. elt ks [0, i, length (all_indices c) + a + t, j] = elt k2 [0, i, t, j] \<and>
                elt vs [0, i, length (all_indices c) + a + t, j] = elt v2 [0, i, t, j]))"
proof -
  let ?o = "length (all_indices c)" and ?new = "take (a + b) (drop (pk_store_offset c) (pk_new_indices c))"
  let ?c = "c\<lparr>pk_store_offset := pk_store_offset c + (a + b)\<rparr>"
  obtain r c1 p1 ks vs p2 where u: "update_and_fetch mx k1 v1 (c, p) = Return r (c1, p1)"
    "update_and_fetch mx k2 v2 (c1, p1) = Return (ks, vs) (?c, p2)"
    "pool_ok mx n h d p2" "tp_pool_size p2 = tp_pool_size p"
    "mx_shape mx ks = [1, h, ?o + (a + b), d]" "mx_shape mx vs = [1, h, ?o + (a + b), d]"
    "\<And>t. t < ?o + (a + b) \<Longrightarrow> slot_has elt h d p2 l (all_indices ?c ! t) ks vs t"
    "\<And>t. t < a \<Longrightarrow> slot_has elt h d p2 l (all_indices ?c ! (?o + t)) k1 v1 t"
    "\<And>t. t < b \<Longrightarrow> slot_has elt h d p2 l (all_indices ?c ! (?o + (a + t))) k2 v2 t"
    "\<And>m. m \<noteq> l \<Longrightarrow> tp_k_buffer p2 ! m = tp_k_buffer p ! m \<and> tp_v_buffer p2 ! m = tp_v_buffer p ! m"
    "\<And>i. i \<in> {0..tp_pool_size p} \<Longrightarrow> i \<notin> set ?new \<Longrightarrow> same_slot elt h d p2 p l i"
    by (rule two_updates [OF assms(1-13)]) (rule that; assumption)
  have "0 < a + b" using assms(11) by simp
  then obtain ks' vs' q where w: "update_and_fetch mx keys vals (c, p) = Return (ks', vs') (?c, q)"
    "pool_ok mx n h d q" "tp_pool_size q = tp_pool_size p"
    "mx_shape mx ks' = [1, h, ?o + (a + b), d]" "mx_shape mx vs' = [1, h, ?o + (a + b), d]"
    "\<And>t. t < ?o + (a + b) \<Longrightarrow> slot_has elt h d q l (all_indices ?c ! t) ks' vs' t"
    "\<And>t. t < a + b \<Longrightarrow> slot_has elt h d q l (all_indices ?c ! (?o + t)) keys vals t"
    "\<And>m. m \<noteq> l \<Longrightarrow> tp_k_buffer q ! m = tp_k_buffer p ! m \<and> tp_v_buffer q ! m = tp_v_buffer p ! m"
    "\<And>i. i \<in> {0..tp_pool_size p} \<Longrightarrow> i \<notin> set ?new \<Longrightarrow> same_slot elt h d q p l i"
    by (rule update_and_fetch_spec [OF assms(1-6) assms(14,15) _ assms(13)]) (rule that; assumption)
  note idx = all_indices_new [OF assms(13)]
  have new: "same_slot elt h d p2 q l i" if i: "i \<in> set ?new" for i
  proof -
    have "length ?new = a + b" using assms(13) by simp
    then obtain t where t: "t < a + b" "i = all_indices ?c ! (?o + t)"
      using i idx by (force simp: in_set_conv_nth)
    show ?thesis unfolding t(2) by (rule same_slot_joined [OF assms(16,17) u(8,9) w(7) [OF t(1)] t(1)])
  qed
  have same: "same_slot elt h d p2 q l i" if "i \<in> {0..tp_pool_size p}" for i
    using new [of i] same_slot_trans [OF u(11) same_slot_sym [OF w(9)]] that by blast
  have ret: "elt ks [0, i, t, j] = elt ks' [0, i, t, j] \<and> elt vs [0, i, t, j] = elt vs' [0, i, t, j]"
    if "i < h" "t < ?o + (a + b)" "j < d" for i t j
    using same [OF all_indices_range [OF assms(5,13) that(2)]] u(7) [OF that(2)] w(6) [OF that(2)] that
    by (simp add: same_slot_iff)
  have first: "elt ks [0, i, ?o + t, j] = elt k1 [0, i, t, j] \<and> elt vs [0, i, ?o + t, j] = elt v1 [0, i, t, j]"
    if "i < h" "j < d" "t < a" for i j t
    by (rule slot_has_entries [OF u(7,8) that(1,2)]) (use that(3) in simp_all)
  have second: "elt ks [0, i, ?o + a + t, j] = elt k2 [0, i, t, j] \<and>
      elt vs [0, i, ?o + a + t, j] = elt v2 [0, i, t, j]" if "i < h" "j < d" "t < b" for i j t
    using slot_has_entries [OF u(7) [of "?o + (a + t)"] u(9) [OF that(3)] that(1,2)] that(3)
    by (simp add: add.assoc)
  show ?thesis
    by (rule exI [of _ r], rule exI [of _ c1], rule exI [of _ p1], rule exI [of _ ks], rule exI [of _ vs],
        rule exI [of _ ?c], rule exI [of _ p2], rule exI [of _ ks'], rule exI [of _ vs'], rule exI [of _ q])
       (use u(1-6,8-10) w(1-5,8) idx same ret first second in simp)
qed

theorem update_and_fetch_chunks_witness:
  "\<exists>r c1 p1 ks vs c2 p2 ks' vs' q.
     update_and_fetch arr_mlx (demo_batch 1 5) (demo_batch 1 7) (demo_kv, demo_pool) = Return r (c1, p1) \<and>
     update_and_fetch arr_mlx (demo_batch 1 15) (demo_batch 1 17) (c1, p1) = Return (ks, vs) (c2, p2) \<and>
     update_and_fetch arr_mlx (demo_batch 2 5) (demo_batch 2 7) (demo_kv, demo_pool) = Return (ks', vs') (c2, q) \<and>
     mx_shape arr_mlx ks = [1, 1, 3, 2] \<and> same_slot snd 1 2 p2 q 0 4"
proof -
  have pre: "set (pk_prefix_indices demo_kv @ pk_new_indices demo_kv) \<subseteq> {0..tp_pool_size demo_pool}"
    "distinct (pk_prefix_indices demo_kv @ pk_new_indices demo_kv)" "pk_layer_idx demo_kv = int 0"
    "pk_store_offset demo_kv + (1 + 1) \<le> length (pk_new_indices demo_kv)"
    by (simp_all add: demo_kv_def set_indices_def kv_init_def demo_pool_ok)
  have len: "length (all_indices demo_kv) + (1 + 1) = 3"
    by (simp add: demo_kv_def set_indices_def kv_init_def all_indices_def)
  have join: "joined snd 1 2 1 1 (demo_batch 1 b) (demo_batch 1 (b + 10)) (demo_batch 2 b)" for b
    by (simp add: joined_def demo_batch_def)
  have shape: "mx_shape arr_mlx (demo_batch 2 b) = [1, 1, 1 + 1, 2]" for b
    by (simp add: demo_batch_shape)
  have "4 \<in> {0..tp_pool_size demo_pool}" by (simp add: demo_pool_ok)
  note slot = this
  obtain r c1 p1 ks vs c2 p2 ks' vs' q where
    "update_and_fetch arr_mlx (demo_batch 1 5) (demo_batch 1 7) (demo_kv, demo_pool) = Return r (c1, p1)"
    "update_and_fetch arr_mlx (demo_batch 1 (5 + 10)) (demo_batch 1 (7 + 10)) (c1, p1) = Return (ks, vs) (c2, p2)"
    "update_and_fetch arr_mlx (demo_batch 2 5) (demo_batch 2 7) (demo_kv, demo_pool) = Return (ks', vs') (c2, q)"
    "mx_shape arr_mlx ks = [1, 1, 3, 2]" "\<forall>i \<in> {0..tp_pool_size demo_pool}. same_slot snd 1 2 p2 q 0 i"
  using update_and_fetch_chunks [OF arr_laws demo_pool_ok(1) pre(3) zero_less_numeral pre(1,2)
      demo_batch_shape demo_batch_shape demo_batch_shape demo_batch_shape zero_less_one zero_less_one
      pre(4) shape shape join join, of 5 7]
    unfolding len by (elim exE conjE) (rule that; assumption)
  moreover from this(2) have
    "update_and_fetch arr_mlx (demo_batch 1 15) (demo_batch 1 17) (c1, p1) = Return (ks, vs) (c2, p2)" by simp
  ultimately show ?thesis using slot by blast
qed
end
