(* ===== verification/Runner_Demo.thy ===== *)
theory Runner_Demo
  imports Runner_Generate Pool_Props Radix_Demo
begin

text \<open>
  A concrete network with a language model that implements it, for the witnesses of the properties:
  one layer with one head of size one, whose keys are the tokens and whose values are their
  positions; the three logits are computed from all cached keys and values.
\<close>

section \<open>The network\<close>

definition toy_score :: "token list \<Rightarrow> int" where
  "toy_score ks = (\<Sum>t<length ks. ks ! t * (int t + 1))"

definition toy_row :: "int \<Rightarrow> arr" where
  "toy_row s = ([3], \<lambda>is. (s + int (is ! 0)) mod 3)"

definition toy_calls :: "arr array_calls" where
  "toy_calls =
     \<lparr>ac_tokens = (\<lambda>rows. ([length rows, length (hd rows)], \<lambda>is. rows ! (is ! 0) ! (is ! 1))),
      ac_last_row = (\<lambda>(sh, f). if length sh = 3 \<and> 0 < sh ! 1
         then Inr (drop 2 sh, \<lambda>is. f (0 # (sh ! 1 - 1) # is)) else Inl IndexError),
      ac_argmax = (\<lambda>(sh, f). ([], \<lambda>_. case find (\<lambda>i. list_all (\<lambda>j. f [j] \<le> f [i]) [0..<hd sh]) [0..<hd sh] of
         None \<Rightarrow> 0 | Some i \<Rightarrow> int i)),
      ac_item = (\<lambda>(sh, f). if sh = [] then Inr (f []) else Inl ValueError)\<rparr>"

definition toy_call ::
  "arr \<Rightarrow> pooled_kv_cache list \<times> (arr, unit) token_pool \<Rightarrow>
     (arr, pooled_kv_cache list \<times> (arr, unit) token_pool) outcome" where
  "toy_call x s = (case fst s of
     [c] \<Rightarrow>
       (let n = fst x ! 1; off = kv_offset c;
            keys = ([1, 1, n, 1], \<lambda>is. snd x [0, is ! 2]);
            vals = ([1, 1, n, 1], \<lambda>is. int off + int (is ! 2) + 1)
        in case update_and_fetch arr_mlx keys vals (c, snd s) of
             Return (ks, vs) (c', q) \<Rightarrow>
               Return ([1, n, 3], \<lambda>is. ((\<Sum>t<off + is ! 1 + 1. snd ks [0, 0, t, 0] * snd vs [0, 0, t, 0])
                 + int (is ! 2)) mod 3) ([c'], q)
           | Raise e (c', q) \<Rightarrow> Raise e ([c'], q)
           | Diverge \<Rightarrow> Diverge)
   | _ \<Rightarrow> Raise IndexError s)"

definition toy_network :: "(arr, unit, int) network" where
  "toy_network =
     \<lparr>nw_mx = arr_mlx, nw_calls = toy_calls, nw_elt = snd, nw_layers = 1, nw_heads = 1, nw_dim = 1,
      nw_kv = (\<lambda>ks _ _ _. (last ks, int (length ks))), nw_logits = (\<lambda>ks. toy_row (toy_score ks))\<rparr>"

definition toy_model :: "(arr, unit) language_model" where
  "toy_model = \<lparr>lm_args = Some [''num_attention_heads'' \<mapsto> Some 1, ''hidden_size'' \<mapsto> Some 1],
     lm_layers = Some 1, lm_call = toy_call\<rparr>"

lemmas toy_defs = toy_network_def toy_model_def toy_calls_def

lemma holds_toy:
  "holds toy_network p x ks \<longleftrightarrow>
     snd (tp_k_buffer p ! 0) [nat x, 0, 0] = last ks \<and> snd (tp_v_buffer p ! 0) [nat x, 0, 0] = int (length ks)"
  by (simp add: holds_def toy_network_def)

lemma slot_has_toy:
  "slot_has snd 1 1 p 0 x (u :: arr) v t \<longleftrightarrow>
     snd (tp_k_buffer p ! 0) [nat x, 0, 0] = snd u [0, 0, t, 0] \<and>
     snd (tp_v_buffer p ! 0) [nat x, 0, 0] = snd v [0, 0, t, 0]"
  by (simp add: slot_has_def same_rows_def)

text \<open>Data that is in a slot stays there if the pool keeps every array's match with the slot.\<close>

lemma holds_toy_frame:
  assumes "\<And>u v t. slot_has snd 1 1 q 0 x (u :: arr) v t \<longleftrightarrow> slot_has snd 1 1 p 0 x u v t"
    and "holds toy_network p x ks"
  shows "holds toy_network q x ks"
proof -
  let ?u = "([], \<lambda>_. last ks) :: arr" and ?v = "([], \<lambda>_. int (length ks)) :: arr"
  have "slot_has snd 1 1 p 0 x ?u ?v 0" using assms(2) unfolding slot_has_toy holds_toy by simp
  then have "slot_has snd 1 1 q 0 x ?u ?v 0" using assms(1) by blast
  then show ?thesis unfolding slot_has_toy holds_toy by simp
qed

lemma toy_score_slots:
  assumes "\<And>t. t < length ks \<Longrightarrow> f t = ks ! t \<and> g t = int t + 1"
  shows "(\<Sum>t<length ks. f t * g t) = toy_score ks"
  unfolding toy_score_def using assms by (intro sum.cong) auto

lemma toy_call_ok:
  assumes call: "valid_call toy_network ctx toks pre new (cs, p)"
  obtains y t where "toy_call (ac_tokens toy_calls [toks]) (cs, p) = Return y t"
    "model_frame toy_network ctx toks new (cs, p) t"
    "\<And>i. i < length toks \<Longrightarrow> holds toy_network (snd t) (new ! i) (ctx @ take (Suc i) toks)"
    "ac_last_row toy_calls y = Inr (toy_row (toy_score (ctx @ toks)))"
proof -
  note v = call [unfolded valid_call_def, simplified]
  obtain c where cs: "cs = [c]" "pk_layer_idx c = int 0"
    using v by (cases cs) (auto simp: layers_ok_def toy_network_def)
  have c: "pk_prefix_indices c = pre" "pk_new_indices c = new" "pk_store_offset c = 0"
    using v cs(1) by (cases c; simp add: set_indices_def)+
  let ?k = "length toks" and ?o = "length ctx"
  let ?keys = "([1, 1, ?k, 1], \<lambda>is. toks ! (is ! 2)) :: arr"
  let ?vals = "([1, 1, ?k, 1], \<lambda>is. int ?o + int (is ! 2) + 1) :: arr"
  have all: "all_indices c = pre" by (simp add: all_indices_def c)
  have len: "length pre = ?o" using v by simp
  have shape: "mx_shape arr_mlx ?keys = [1, 1, ?k, 1]" "mx_shape arr_mlx ?vals = [1, 1, ?k, 1]"
    by (simp_all add: arr_mlx_def)
  have pre: "pool_ok arr_mlx 1 1 1 p" "0 < ?k" "pk_store_offset c + ?k \<le> length (pk_new_indices c)"
    "set (pk_prefix_indices c @ pk_new_indices c) \<subseteq> {0..tp_pool_size p}"
    "distinct (pk_prefix_indices c @ pk_new_indices c)"
    using v by (auto simp: pool_fits_def toy_network_def c)
  let ?c = "c\<lparr>pk_store_offset := 0 + ?k\<rparr>"
  have all': "all_indices ?c = pre @ new" using v by (simp add: all_indices_def c)
  obtain xs ys q where u: "update_and_fetch arr_mlx ?keys ?vals (c, p) = Return (xs, ys) (?c, q)"
    "pool_ok arr_mlx 1 1 1 q" "tp_pool_size q = tp_pool_size p"
    "\<And>t. t < ?o + ?k \<Longrightarrow> slot_has snd 1 1 q 0 ((pre @ new) ! t) xs ys t"
    "\<And>t u v w. t < ?o \<Longrightarrow> slot_has snd 1 1 q 0 (pre ! t) (u :: arr) v w \<longleftrightarrow> slot_has snd 1 1 p 0 (pre ! t) u v w"
    "\<And>t. t < ?k \<Longrightarrow> slot_has snd 1 1 q 0 ((pre @ new) ! (?o + t)) ?keys ?vals t"
    "\<And>i u v t. i \<in> {0..tp_pool_size p} \<Longrightarrow> i \<notin> set new \<Longrightarrow>
       slot_has snd 1 1 q 0 i (u :: arr) v t \<longleftrightarrow> slot_has snd 1 1 p 0 i u v t"
    by (rule update_and_fetch_spec [OF arr_laws pre(1) cs(2) zero_less_one pre(4,5) shape pre(2,3),
        unfolded all' all len c]) (rule that; assumption)
  have new: "holds toy_network q (new ! i) (ctx @ take (Suc i) toks)" if i: "i < ?k" for i
    using u(6) [OF i] i v unfolding slot_has_toy holds_toy
    by (simp add: nth_append take_Suc_conv_app_nth)
  have frame: "holds toy_network q x ks"
    if "x \<in> {1..tp_pool_size p} - set new" "holds toy_network p x ks" for x ks
    by (rule holds_toy_frame [OF u(7) that(2)]) (use that(1) in auto)
  have data: "snd xs [0, 0, t, 0] = (ctx @ toks) ! t \<and> snd ys [0, 0, t, 0] = int t + 1"
    if t: "t < length (ctx @ toks)" for t
  proof (cases "t < ?o")
    case True
    have "pre ! t \<in> set pre" using True v by simp
    then have "pre ! t \<in> {1..tp_pool_size p} - set new" using v by blast
    then have "holds toy_network q (pre ! t) (take (Suc t) ctx)" using True v frame by blast
    with True show ?thesis
      using u(4) [of t] v unfolding slot_has_toy holds_toy
      by (simp add: nth_append take_Suc_conv_app_nth)
  next
    case False
    then have "holds toy_network q (new ! (t - ?o)) (ctx @ take (Suc (t - ?o)) toks)"
      using t by (intro new) auto
    with False t show ?thesis
      using u(4) [of t] v unfolding slot_has_toy holds_toy
      by (simp add: nth_append take_Suc_conv_app_nth)
  qed
  let ?y = "([1, ?k, 3], \<lambda>is. ((\<Sum>t<?o + is ! 1 + 1. snd xs [0, 0, t, 0] * snd ys [0, 0, t, 0])
    + int (is ! 2)) mod 3) :: arr"
  have "toy_call (ac_tokens toy_calls [toks]) (cs, p) = Return ?y ([?c], q)"
    using u(1) v cs(1) by (simp add: toy_call_def toy_calls_def kv_offset_def c Let_def numeral_2_eq_2)
  moreover have "model_frame toy_network ctx toks new (cs, p) ([?c], q)"
    using u(2,3) frame new cs(2)
    by (simp add: model_frame_def pool_fits_def toy_network_def layers_ok_def)
  moreover have "ac_last_row toy_calls ?y = Inr (toy_row (toy_score (ctx @ toks)))"
  proof -
    have "(\<Sum>t<length (ctx @ toks). snd xs [0, 0, t, 0] * snd ys [0, 0, t, 0]) = toy_score (ctx @ toks)"
      by (rule toy_score_slots) (rule data)
    moreover obtain k' where "?k = Suc k'" using pre(2) by (cases ?k) auto
    ultimately show ?thesis by (simp add: toy_calls_def toy_row_def numeral_2_eq_2)
  qed
  ultimately show thesis using that new by simp
qed

lemma toy_law: "model_law toy_network toy_model" "model_total toy_network toy_model"
proof -
  have nw: "nw_calls toy_network = toy_calls" "lm_call toy_model = toy_call"
    "nw_logits toy_network ks = toy_row (toy_score ks)" for ks
    by (simp_all add: toy_defs)
  have ok: "\<exists>y t. toy_call (ac_tokens toy_calls [toks]) s = Return y t \<and>
      model_frame toy_network ctx toks new s t \<and>
      (\<forall>i < length toks. holds toy_network (snd t) (new ! i) (ctx @ take (Suc i) toks)) \<and>
      ac_last_row toy_calls y = Inr (toy_row (toy_score (ctx @ toks)))"
    if "valid_call toy_network ctx toks pre new s" for ctx toks pre new s
    using that by (cases s) (auto elim: toy_call_ok)
  show "model_law toy_network toy_model" unfolding model_law_def nw using ok by fastforce
  show "model_total toy_network toy_model" unfolding model_total_def nw using ok by blast
qed

end
