(* ===== verification/Evict_Slots.thy ===== *)
theory Evict_Slots
  imports Pooled_Cache Radix_Sizes
begin

text \<open>
  Which slots eviction frees: exactly those of the prefixes that are no longer cached, each once.
  And what is left when everything that can be evicted has been: the prefixes of locked paths.
\<close>

section \<open>The node a slot is stored in\<close>

text \<open>The node on whose edge a key ends.\<close>

function cover :: "node_store \<Rightarrow> node_id \<Rightarrow> token list \<Rightarrow> node_id" where
  "cover h n ks =
     (if ks = [] then n
      else case map_of (tn_children (h n)) (hd ks) of
        None \<Rightarrow> n
      | Some c \<Rightarrow>
          (let i = key_match (tn_key (h c)) ks in
           if i = length (tn_key (h c)) \<and> 0 < i \<and> i < length ks then cover h c (drop i ks) else c))"
  by pat_completeness auto
termination
  by (relation "measure (\<lambda>(h, n, ks). length ks)") auto

declare cover.simps [simp del]

lemma cover_step:
  assumes "tn_key (h c) \<noteq> []" "map_of (tn_children (h p)) (hd (tn_key (h c))) = Some c" "ks \<noteq> []"
  shows "cover h p (tn_key (h c) @ ks) = cover h c ks"
  using assms by (subst cover.simps) (auto simp: Let_def)

lemma cover_partial:
  assumes "map_of (tn_children (h p)) (hd ks) = Some c" "ks \<noteq> []" "prefix ks (tn_key (h c))"
  shows "cover h p ks = c"
proof -
  have "key_match (tn_key (h c)) ks = length ks"
    using key_match_greatest [of "length ks" "tn_key (h c)" ks] key_match_le(2) [of "tn_key (h c)" ks]
      assms(3) by (simp add: prefix_take_iff)
  then show ?thesis using assms by (subst cover.simps) simp
qed

lemma cover_app:
  assumes "tree_ok h r P" "P n = Some (q, vs)" "ks \<noteq> []"
  shows "cover h r (q @ ks) = cover h n ks"
  using assms
proof (induction arbitrary: ks rule: path_induct)
  case (child n p q vs v)
  have "cover h r ((q @ tn_key (h n)) @ ks) = cover h p (tn_key (h n) @ ks)"
    using child.IH child.hyps by simp
  also have "\<dots> = cover h n ks" using child by (intro cover_step) auto
  finally show ?case .
qed simp

text \<open>\<open>x\<close> is the slot of the last token of \<open>js\<close>, which is stored in the node \<open>n\<close>.\<close>

definition slot_at :: "radix_cache \<Rightarrow> paths \<Rightarrow> node_id \<Rightarrow> token list \<Rightarrow> slot \<Rightarrow> bool" where
  "slot_at s P n js x \<longleftrightarrow>
     n \<noteq> rc_root s \<and>
     (\<exists>q vs. P n = Some (q, vs) \<and> prefix js q \<and> length q - length (tn_key (w_heap s n)) < length js \<and>
        x = vs ! (length js - 1))"

lemma slot_at_cover:
  assumes ok: "tree_ok (w_heap s) (rc_root s) P" and at: "slot_at s P n js x"
  shows "cover (w_heap s) (rc_root s) js = n"
proof -
  obtain q vs where n: "n \<noteq> rc_root s" "P n = Some (q, vs)" "prefix js q"
    "length q - length (tn_key (w_heap s n)) < length js" using at by (auto simp: slot_at_def)
  obtain p q' vs' where p: "P p = Some (q', vs')" "tn_key (w_heap s n) \<noteq> []" "q = q' @ tn_key (w_heap s n)"
    "map_of (tn_children (w_heap s p)) (hd (tn_key (w_heap s n))) = Some n"
    using tree_ok_upE [OF ok n(2,1)] by metis
  obtain ks where ks: "js = q' @ ks" "ks \<noteq> []" "prefix ks (tn_key (w_heap s n))"
    using n(3,4) prefix_length_le [of js q'] unfolding p(3) prefix_append by auto
  have "cover (w_heap s) (rc_root s) js = cover (w_heap s) p ks"
    unfolding ks(1) by (rule cover_app [OF ok p(1) ks(2)])
  also have "\<dots> = n"
    using ks(2,3) p(4) by (intro cover_partial) (auto simp: prefix_def)
  finally show ?thesis .
qed

lemma slot_at_exists:
  assumes "tree_ok (w_heap s) (rc_root s) P" "P m = Some (q, vs)" "prefix js q" "js \<noteq> []"
  shows "\<exists>n. slot_at s P n js (vs ! (length js - 1))"
  using assms
proof (induction rule: path_induct)
  case (child n p q vs v)
  show ?case
  proof (cases "prefix js q")
    case True
    have "length js - 1 < length vs"
      using prefix_length_le [OF True] path_lengths [OF assms(1) child.hyps(1)] child.prems(2)
      by (cases js) auto
    then show ?thesis using child.IH [OF True child.prems(2)] by (simp add: nth_append)
  next
    case False
    then have "length q < length js"
      using child.prems(1) by (metis linorder_not_less prefix_append prefix_length_prefix prefix_order.refl
          append_prefixD prefix_def)
    then show ?thesis
      using child.hyps child.prems(1) by (intro exI [of _ n]) (auto simp: slot_at_def)
  qed
qed simp

lemma owns_slot_at:
  assumes inv: "cache_inv s P D"
  shows "owns (cached s) js x \<longleftrightarrow> (\<exists>n. slot_at s P n js x)"
proof
  assume "owns (cached s) js x"
  then obtain ws where "cached s js = Some (ws @ [x])" by (auto simp: owns_def)
  then obtain m q vs where m: "P m = Some (q, vs)" "prefix js q" "ws @ [x] = take (length js) vs"
    using cached_iff [OF inv] by blast
  have len: "length js \<le> length vs"
    using prefix_length_le [OF m(2)] path_lengths [OF cache_invD(1) [OF inv] m(1)] by simp
  then have js: "length js = Suc (length ws)" using arg_cong [OF m(3), of length] by simp
  then have "vs ! (length js - 1) = x"
    using len arg_cong [OF m(3), of "\<lambda>l. l ! length ws"] by simp
  moreover have "js \<noteq> []" using js by auto
  ultimately show "\<exists>n. slot_at s P n js x"
    using slot_at_exists [OF cache_invD(1) [OF inv] m(1,2)] by auto
next
  assume "\<exists>n. slot_at s P n js x"
  then obtain n q vs where n: "P n = Some (q, vs)" "prefix js q" "x = vs ! (length js - 1)"
    "length q - length (tn_key (w_heap s n)) < length js"
    unfolding slot_at_def by blast
  then have ne: "js \<noteq> []" by auto
  have len: "length js \<le> length vs"
    using prefix_length_le [OF n(2)] path_lengths [OF cache_invD(1) [OF inv] n(1)] by simp
  have "cached s js = Some (take (length js) vs)" using cached_iff [OF inv] n(1,2) by blast
  moreover have "vs \<noteq> []" using ne len by auto
  then have "take (length js) vs \<noteq> []" "last (take (length js) vs) = x"
    using n(3) ne len by (simp_all add: last_conv_nth)
  ultimately show "owns (cached s) js x" by (rule ownsI)
qed

lemma node_slots_at:
  assumes inv: "cache_inv s P D" and n: "P n = Some (q, vs)" "n \<noteq> rc_root s"
  shows "x \<in> set (node_slots s n) \<longleftrightarrow> (\<exists>js. slot_at s P n js x)"
proof -
  note ok = cache_invD(1) [OF inv]
  obtain q' vs' v where p: "q = q' @ tn_key (w_heap s n)" "vs = vs' @ v" "tn_value (w_heap s n) = Some v"
    "length v = length (tn_key (w_heap s n))" "length q' = length vs'"
    using tree_ok_upE [OF ok n] path_lengths [OF ok] by metis
  have slots: "node_slots s n = v" by (simp add: node_slots_def p(3))
  have base: "length q - length (tn_key (w_heap s n)) = length q'" by (simp add: p(1))
  show ?thesis
  proof
    assume "x \<in> set (node_slots s n)"
    then obtain i where i: "i < length v" "x = v ! i" by (auto simp: slots in_set_conv_nth)
    let ?js = "take (Suc (length q' + i)) q"
    have "length ?js = Suc (length q' + i)" using i(1) p(1,4) by simp
    then have "slot_at s P n ?js x"
      using n i p base by (auto simp: slot_at_def take_is_prefix nth_append)
    then show "\<exists>js. slot_at s P n js x" by blast
  next
    assume "\<exists>js. slot_at s P n js x"
    then obtain js where js: "prefix js q" "length q' < length js" "x = vs ! (length js - 1)"
      using n(1) base by (auto simp: slot_at_def)
    have "length js \<le> length q" by (rule prefix_length_le [OF js(1)])
    then have "x = v ! (length js - 1 - length q')" "length js - 1 - length q' < length v"
      using js(2,3) p by (auto simp: nth_append)
    then show "x \<in> set (node_slots s n)" by (simp add: slots)
  qed
qed

lemma slot_at_live: "slot_at s P n js x \<Longrightarrow> P n \<noteq> None \<and> n \<noteq> rc_root s"
  by (auto simp: slot_at_def)

section \<open>What eviction frees\<close>

lemma slot_at_pruned:
  assumes "evict_ok s P D k xs t"
  shows "slot_at t (P |` (- set xs)) n js x \<longleftrightarrow> slot_at s P n js x \<and> n \<notin> set xs"
proof -
  have p: "pruned s t" using assms by (simp add: evict_ok_def)
  have "rc_root t = rc_root s" "tn_key (w_heap t n) = tn_key (w_heap s n)"
    using pruned_fields [OF p] by simp_all
  then show ?thesis by (auto simp: slot_at_def restrict_map_def)
qed

lemma evict_freed:
  assumes inv: "cache_inv s P D" and ok: "evict_ok s P D k xs t" and u: "unique_owner (cached s)"
    and en: "\<not> rc_disable s"
  defines "freed \<equiv> concat (map (node_slots s) xs)"
  shows "set freed = cached_slots (cached s) - cached_slots (cached t)" and "distinct freed"
proof -
  have inv': "cache_inv t (P |` (- set xs)) D" and d: "distinct xs"
    and live: "\<And>n. n \<in> set xs \<Longrightarrow> P n \<noteq> None \<and> n \<noteq> rc_root s"
    using ok by (auto simp: evict_ok_def)
  note tok = cache_invD(1) [OF inv]
  have one: "n = m" if "slot_at s P n js x" "slot_at s P m ks x" for n m js ks x
  proof -
    have "owns (cached s) js x" "owns (cached s) ks x" using that owns_slot_at [OF inv] by blast+
    then have "js = ks" by (rule unique_ownerD [OF u])
    then show ?thesis using slot_at_cover [OF tok] that by metis
  qed
  have sl: "x \<in> set (node_slots s n) \<longleftrightarrow> (\<exists>js. slot_at s P n js x)" if "n \<in> set xs" for n x
  proof -
    obtain q vs where "P n = Some (q, vs)" using live [OF \<open>n \<in> set xs\<close>] by fastforce
    then show ?thesis using node_slots_at [OF inv] live [OF \<open>n \<in> set xs\<close>] by blast
  qed
  have before: "x \<in> cached_slots (cached s) \<longleftrightarrow> (\<exists>js n. slot_at s P n js x)" for x
    by (simp add: cached_slots_def owns_slot_at [OF inv])
  have after: "x \<in> cached_slots (cached t) \<longleftrightarrow> (\<exists>js n. slot_at s P n js x \<and> n \<notin> set xs)" for x
    by (simp add: cached_slots_def owns_slot_at [OF inv'] slot_at_pruned [OF ok])
  have "x \<in> set freed \<longleftrightarrow> (\<exists>n js. n \<in> set xs \<and> slot_at s P n js x)" for x
    unfolding freed_def using sl by auto
  then show "set freed = cached_slots (cached s) - cached_slots (cached t)"
    using before after one by blast
  have dn: "distinct (node_slots s n)" if n: "n \<in> set xs" for n
  proof -
    obtain q vs where p: "P n = Some (q, vs)" using live [OF n] by fastforce
    then have "distinct vs"
      using radix_pool.content_distinct [OF _ cached_path [OF inv p] u, of D] inv en
      by (auto simp: healthy_def)
    moreover obtain vs' v where "vs = vs' @ v" "tn_value (w_heap s n) = Some v"
      using tree_ok_upE [OF tok p] live [OF n] by metis
    ultimately show ?thesis by (simp add: node_slots_def)
  qed
  show "distinct freed"
    unfolding freed_def
  proof (rule distinct_concat)
    have disj: "set (node_slots s n) \<inter> set (node_slots s m) = {}" if "n \<in> set xs" "m \<in> set xs" "n \<noteq> m" for n m
      using sl [OF that(1)] sl [OF that(2)] one that(3) by blast
    have "node_slots s n \<noteq> []" if "n \<in> set xs" for n
      using node_slots_length [OF tok] tree_ok_upE [OF tok] live [OF that]
      by (metis length_0_conv option.exhaust surj_pair)
    then have "inj_on (node_slots s) (set xs)"
      using disj by (intro inj_onI) (metis Int_absorb set_empty)
    then show "distinct (map (node_slots s) xs)" using d by (simp add: distinct_map)
    show "set ys \<inter> set zs = {}"
      if "ys \<in> set (map (node_slots s) xs)" "zs \<in> set (map (node_slots s) xs)" "ys \<noteq> zs" for ys zs
      using that disj by auto
  qed (use dn in auto)
qed

section \<open>What is left\<close>

text \<open>When no evictable token is left, every cached key is a prefix of a locked path.\<close>

lemma all_locked:
  assumes inv: "cache_inv t P D" and none: "rc_evictable_size t = 0"
    and n: "P n \<noteq> None" "n \<noteq> rc_root t"
  shows "0 < tn_lock_ref (w_heap t n)"
proof (rule ccontr)
  note i = cache_invD [OF inv]
  assume "\<not> 0 < tn_lock_ref (w_heap t n)"
  then have z: "tn_lock_ref (w_heap t n) = 0" using lock_ok_nonneg [OF i(3) n(1)] by simp
  let ?f = "\<lambda>n. if tn_lock_ref (w_heap t n) = 0 then int (length (tn_key (w_heap t n))) else 0"
  have "sum ?f (dom P - {rc_root t}) = 0"
    using i(4) none by (simp add: acct_ok_def unlocked_tokens_def)
  moreover have "finite (dom P - {rc_root t})" using fresh_ok_finite [OF i(2)] by simp
  ultimately have "\<forall>n \<in> dom P - {rc_root t}. ?f n = 0"
    by (subst (asm) sum_nonneg_eq_0_iff) auto
  then have "?f n = 0" using n by blast
  moreover obtain q vs where "P n = Some (q, vs)" using n(1) by fastforce
  then have "tn_key (w_heap t n) \<noteq> []" using tree_ok_upE [OF i(1) _ n(2)] by metis
  ultimately show False using z by simp
qed

lemma locked_below:
  assumes inv: "cache_inv t P D" and n: "P n = Some (q, vs)" "n \<noteq> rc_root t" "0 < tn_lock_ref (w_heap t n)"
  shows "\<exists>m q' vs'. 0 < D m \<and> P m = Some (q', vs') \<and> prefix q q'"
proof -
  note i = cache_invD [OF inv]
  have "P n \<noteq> None" using n(1) by simp
  with i(1) fresh_ok_finite [OF i(2)]
  have "\<forall>q vs. P n = Some (q, vs) \<longrightarrow> n \<noteq> rc_root t \<longrightarrow> 0 < tn_lock_ref (w_heap t n) \<longrightarrow>
      (\<exists>m q' vs'. 0 < D m \<and> P m = Some (q', vs') \<and> prefix q q')"
  proof (induction rule: tree_induct_down)
    case (node n)
    show ?case
    proof (intro allI impI)
      fix q vs assume a: "P n = Some (q, vs)" "n \<noteq> rc_root t" "0 < tn_lock_ref (w_heap t n)"
      show "\<exists>m q' vs'. 0 < D m \<and> P m = Some (q', vs') \<and> prefix q q'"
      proof (cases "D n = 0")
        case False
        with a(1) show ?thesis by blast
      next
        case True
        then have "kids_lock (w_heap t) n > 0"
          using lock_ok_eq [OF i(3) node(1) a(2)] a(3) by simp
        then obtain u c where c: "(u, c) \<in> set (tn_children (w_heap t n))" "0 < tn_lock_ref (w_heap t c)"
          unfolding kids_lock_def
          by (metis (no_types, lifting) sum_list_nonpos not_less imageE list.set_map surj_pair snd_conv)
        from tree_ok_childD [OF i(1) a(1) c(1)] obtain v where
          v: "P c = Some (q @ tn_key (w_heap t c), vs @ v)" "c \<noteq> rc_root t" by blast
        with node(2) [OF c(1)] c(2) obtain m q' vs' where
          "0 < D m" "P m = Some (q', vs')" "prefix (q @ tn_key (w_heap t c)) q'" by blast
        then show ?thesis by (metis append_prefixD)
      qed
    qed
  qed
  with n show ?thesis by blast
qed

lemma cached_locked:
  assumes h: "healthy t D" and none: "rc_evictable_size t = 0" and ks: "cached t ks = Some ws" "ks \<noteq> []"
  shows "\<exists>m q. 0 < D m \<and> path_of t m q \<and> prefix ks q"
proof -
  obtain P where inv: "cache_inv t P D" by (rule healthyE [OF h])
  obtain n q vs where n: "P n = Some (q, vs)" "prefix ks q" using cached_iff [OF inv] ks(1) by blast
  have "n \<noteq> rc_root t"
    using n ks(2) tree_ok_rootD(1) [OF cache_invD(1) [OF inv]] by auto
  moreover have "0 < tn_lock_ref (w_heap t n)"
    using all_locked [OF inv none] n(1) calculation by simp
  ultimately obtain m q' vs' where "0 < D m" "P m = Some (q', vs')" "prefix q q'"
    using locked_below [OF inv n(1)] by blast
  then show ?thesis using path_of_complete [OF inv] n(2) by (meson prefix_order.trans)
qed

end
