(* ===== verification/Runner_Props.thy ===== *)
theory Runner_Props
  imports Runner_Reach Runner_Demo Evict_Slots
begin

text \<open>
  The properties of the model runner, over its reachable states, with witnesses on the network of
  Runner_Demo. \<open>model_law\<close> is what the runner relies on of a language model, and \<open>mlx_laws\<close> what
  it relies on of the array package; the reachable states have both in their construction.
\<close>

section \<open>A concrete runner\<close>

definition demo_runner :: "(arr, unit, unit) model_runner" where
  "demo_runner = (case runner_init arr_mlx toy_model () (extract_model_config toy_model None) 8 ()
     demo_world of Inr r \<Rightarrow> r)"

definition toy_next :: "token list \<Rightarrow> token" where
  "toy_next ks = (2 - toy_score ks) mod 3"

lemma toy_config: "config_fits toy_network (extract_model_config toy_model None)"
  by (simp add: config_fits_def extract_model_config_def config_get_def truthy_def toy_defs Let_def)

lemma demo_runner_init:
  "runner_init (nw_mx toy_network) toy_model () (extract_model_config toy_model None) 8 () demo_world =
     Inr demo_runner"
proof -
  have mx: "nw_mx toy_network = arr_mlx" by (simp add: toy_network_def)
  obtain p where "pool_init arr_mlx 8 (Some 1) (Some 1) (Some 1) () = Inr p"
    using pool_init_ok [OF arr_laws, of 8 1 1 1 "()"] by auto
  then have "\<exists>r. runner_init arr_mlx toy_model () (extract_model_config toy_model None) 8 () demo_world = Inr r"
    using toy_config by (simp add: runner_init_def config_fits_def toy_network_def demo0_init alloc_init_def)
  then show ?thesis by (auto simp: demo_runner_def mx)
qed

lemma demo_laws: "mlx_laws (nw_mx toy_network) (nw_elt toy_network)"
  by (simp add: toy_network_def arr_laws)

lemma demo_runner_reachable: "runner_reachable toy_network demo_runner {}"
  by (rule runner_reachable.start [OF demo_runner_init toy_config toy_law(1) set_order_demo])

lemmas demo_runner_inv = runner_init_inv [OF demo_laws toy_config toy_law(1) set_order_demo demo_runner_init]

lemma demo_runner_total: "model_total toy_network (mr_model demo_runner)"
  using toy_law(2) demo_runner_inv(4) by simp

lemma demo_need: "prompt \<noteq> [] \<Longrightarrow> prefill_need prompt demo_runner = int (length prompt)"
proof -
  have "cached_len (mr_radix_cache demo_runner) prompt = length ([] :: token list)"
    by (rule cached_len_eq) (auto simp: demo_runner_inv(5))
  then show ?thesis by (simp add: prefill_need_def)
qed

lemma demo_sampler: "\<forall>ks. sampler_of (nw_calls toy_network) None (nw_logits toy_network ks) = Inr (toy_next ks)"
proof
  fix ks
  have "find (\<lambda>i. list_all (\<lambda>j. (s + int j) mod 3 \<le> (s + int i) mod 3) [0..<3]) [0..<3] =
      Some (nat ((2 - s) mod 3))" for s :: int
  proof -
    have u: "[0..<3] = [0, 1, 2 :: nat]" by (simp add: upt_rec)
    consider "s mod 3 = 0" | "s mod 3 = 1" | "s mod 3 = 2" by linarith
    then show ?thesis
      by cases (simp_all add: u mod_simps mod_add_left_eq [of s 3, symmetric]
          mod_diff_right_eq [of 2 s 3, symmetric] del: mod_add_left_eq mod_diff_right_eq)
  qed
  then show "sampler_of (nw_calls toy_network) None (nw_logits toy_network ks) = Inr (toy_next ks)"
    by (simp add: sampler_of_def argmax_sampler_def toy_network_def toy_calls_def toy_row_def toy_next_def)
qed

lemma demo_ref: "ref_tokens toy_next {} 2 [1, 2] = [0, 0]"
  by (simp add: numeral_2_eq_2 ref_tokens_Suc toy_next_def toy_score_def)

section \<open>generate\<close>

text \<open>
  C1. Prefix caching is transparent: whatever the runner has served before, \<open>generate\<close> returns
  exactly the tokens that sampling from the network's logits of the whole sequence gives, with no
  cache at all, provided the pool has room for the request.
\<close>

theorem generate_equals_reference:
  assumes "mlx_laws (nw_mx nw) (nw_elt nw)" "runner_reachable nw r L" "model_total nw (mr_model r)"
    and "prompt \<noteq> []" "\<forall>ks. sampler_of (nw_calls nw) so (nw_logits nw ks) = Inr (nxt ks)"
    and "prefill_need prompt r + max 0 max_tokens \<le> free_count r"
  shows "\<exists>t. generate (nw_calls nw) rid prompt max_tokens so stop r =
    Return (ref_tokens nxt (stop_of stop) (nat max_tokens) prompt) t"
proof -
  obtain R where inv: "runner_inv nw r L R" using runner_reachable_inv [OF assms(2,1)] by blast
  have "int (length (decoded_tokens (stop_of stop) (ref_tokens nxt (stop_of stop) (nat max_tokens) prompt))) \<le>
      max 0 max_tokens"
    using length_decoded_tokens [of "stop_of stop" nxt "nat max_tokens" prompt] by linarith
  then have "prefill_need prompt r + int (length (decoded_tokens (stop_of stop)
      (ref_tokens nxt (stop_of stop) (nat max_tokens) prompt))) \<le> free_count r"
    using assms(6) by linarith
  from generate_ok [OF inv assms(3,4) assms(5) [rule_format] this, of rid] show ?thesis by blast
qed

theorem generate_equals_reference_witness:
  "\<exists>t. generate toy_calls ''r0'' [1, 2] 2 None None demo_runner = Return [0, 0] t"
proof -
  have "prefill_need [1, 2] demo_runner + max 0 2 \<le> free_count demo_runner"
    by (simp add: demo_need demo_runner_inv(2))
  from generate_equals_reference [OF demo_laws demo_runner_reachable demo_runner_total _ demo_sampler this,
      where rid = "''r0''" and stop = None]
  show ?thesis by (simp add: stop_of_def demo_ref) (simp add: toy_network_def)
qed

text \<open>
  C11. \<open>generate\<close> returns and cleans up whenever the pool has as many free slots as the prompt
  and the decoded tokens need: the request is no longer active, its lock is released (the live
  requests are those of before), the slots taken are exactly those needed, and the sequence is
  cached for later requests.
\<close>

theorem generate_completes:
  assumes "mlx_laws (nw_mx nw) (nw_elt nw)" "runner_reachable nw r L" "model_total nw (mr_model r)"
    and "prompt \<noteq> []" "\<forall>ks. sampler_of (nw_calls nw) so (nw_logits nw ks) = Inr (nxt ks)"
    and "dec = decoded_tokens (stop_of stop) (ref_tokens nxt (stop_of stop) (nat max_tokens) prompt)"
    and "prefill_need prompt r + int (length dec) \<le> free_count r"
  shows "\<exists>ts t R. generate (nw_calls nw) rid prompt max_tokens so stop r = Return ts t \<and>
    runner_inv nw t L R \<and> mr_active_requests t = AList.delete rid (mr_active_requests r) \<and>
    free_count t = free_count r - prefill_need prompt r - int (length dec) \<and>
    cached (mr_radix_cache t) (prompt @ dec) \<noteq> None"
proof -
  obtain R where inv: "runner_inv nw r L R" using runner_reachable_inv [OF assms(2,1)] by blast
  from generate_ok [OF inv assms(3,4) assms(5) [rule_format] assms(7) [unfolded assms(6)], of rid]
  show ?thesis unfolding assms(6) by blast
qed

theorem generate_completes_witness:
  "\<exists>ts t R. generate toy_calls ''r0'' [1, 2] 2 None None demo_runner = Return ts t \<and>
     runner_inv toy_network t {} R \<and> mr_active_requests t = [] \<and> free_count t = 4 \<and>
     cached (mr_radix_cache t) [1, 2, 0, 0] \<noteq> None"
proof -
  have dec: "[0, 0] = decoded_tokens (stop_of None) (ref_tokens toy_next (stop_of None) (nat 2) [1, 2])"
    by (simp add: stop_of_def demo_ref decoded_tokens_def)
  have "prefill_need [1, 2] demo_runner + int (length [0, 0 :: token]) \<le> free_count demo_runner"
    by (simp add: demo_need demo_runner_inv(2))
  from generate_completes [OF demo_laws demo_runner_reachable demo_runner_total _ demo_sampler dec this,
      where rid = "''r0''"]
  show ?thesis
    by (simp add: demo_need demo_runner_inv(2,3)) (simp add: toy_network_def)
qed

text \<open>
  What \<open>generate\<close> returns has at most \<open>max_tokens\<close> tokens, none of them but the last is a stop
  token, and it is shorter only if it ends with one. This holds for every model, sampler and state.
\<close>

lemma generate_loop_bounds:
  assumes "generate_loop ac k sampler stop i result gen r = Return ts t"
  shows "\<exists>us. ts = gen @ us \<and> length us \<le> k \<and> (\<forall>x \<in> set (butlast us). x \<notin> stop) \<and>
    (length us < k \<longrightarrow> us \<noteq> [] \<and> last us \<in> stop)"
  using assms
proof (induction k arbitrary: result gen r)
  case (Suc k)
  obtain tok where tok: "sampler (fr_logits result) = Inr tok"
    using Suc.prems by (auto split: sum.splits)
  show ?case
  proof (cases "tok \<in> stop")
    case True
    then show ?thesis using Suc.prems tok by (intro exI [of _ "[tok]"]) simp
  next
    case False
    then obtain result' s where "generate_loop ac k sampler stop i result' (gen @ [tok]) s = Return ts t"
      using Suc.prems tok by (auto elim: bind_outcome_ReturnE)
    from Suc.IH [OF this] obtain us where us: "ts = (gen @ [tok]) @ us" "length us \<le> k"
      "\<forall>x \<in> set (butlast us). x \<notin> stop" "length us < k \<longrightarrow> us \<noteq> [] \<and> last us \<in> stop" by blast
    then show ?thesis using False by (intro exI [of _ "tok # us"]) auto
  qed
qed simp

theorem generate_bounds:
  fixes r :: "('a, 'd, 'k) model_runner"
  assumes "generate ac rid prompt max_tokens so stop r = Return ts t"
  shows "length ts \<le> nat max_tokens \<and> (\<forall>x \<in> set (butlast ts). x \<notin> stop_of stop) \<and>
    (length ts < nat max_tokens \<longrightarrow> ts \<noteq> [] \<and> last ts \<in> stop_of stop)"
proof -
  obtain i result and s u :: "('a, 'd, 'k) model_runner" where
    "generate_loop ac (nat max_tokens) (sampler_of ac so) (stop_of stop) i result [] s = Return ts u"
    using assms unfolding generate_def sampler_of_def stop_of_def Let_def
    by (elim bind_outcome_ReturnE case_prodE) (auto elim!: bind_outcome_ReturnE split: prod.splits)
  from generate_loop_bounds [OF this] show ?thesis by auto
qed

theorem generate_bounds_witness:
  "\<exists>ts t. generate toy_calls ''r0'' [1, 2] 2 None (Some {0}) demo_runner = Return ts t \<and>
     length ts \<le> 2 \<and> (length ts < 2 \<longrightarrow> last ts = 0)"
proof -
  have need: "prefill_need [1, 2] demo_runner + int (length (decoded_tokens (stop_of (Some {0}))
      (ref_tokens toy_next (stop_of (Some {0})) (nat 2) [1, 2]))) \<le> free_count demo_runner"
    using length_decoded_tokens [of "stop_of (Some {0})" toy_next "nat 2" "[1, 2]"]
    by (simp add: demo_need demo_runner_inv(2))
  obtain ts t where g: "generate toy_calls ''r0'' [1, 2] 2 None (Some {0}) demo_runner = Return ts t"
    using generate_ok [OF demo_runner_inv(1) demo_runner_total _ demo_sampler [rule_format] need, where rid = "''r0''"]
    by (auto simp: toy_network_def)
  from generate_bounds [OF g] have "length ts \<le> 2 \<and> (length ts < 2 \<longrightarrow> last ts = 0)"
    by (simp add: stop_of_def)
  with g show ?thesis by blast
qed

end
