(* ===== verification/Runner_Slots.thy ===== *)
theory Runner_Slots
  imports Runner_Props
begin

text \<open>
  What the properties about slots share: \<open>generate\<close> as a run of the state machine of
  Runner_Reach, the slots that eviction gives back to the allocator, and a few steps of the
  concrete runner of Runner_Props for their witnesses.
\<close>

section \<open>generate is a run of the state machine\<close>

lemma generate_loop_reachable:
  assumes "runner_reachable nw r L" "i \<in> L"
    and "generate_loop (nw_calls nw) k sampler stop i result gen r = Return ts t"
  shows "runner_reachable nw t L"
  using assms(1,3)
proof (induction k arbitrary: r result gen)
  case (Suc k)
  obtain tok where tok: "sampler (fr_logits result) = Inr tok"
    using Suc.prems(2) by (auto split: sum.splits)
  show ?case
  proof (cases "tok \<in> stop")
    case True
    then show ?thesis using Suc.prems tok by simp
  next
    case False
    then obtain result' s where s: "forward_decode (nw_calls nw) i tok r = Return result' s"
      "generate_loop (nw_calls nw) k sampler stop i result' (gen @ [tok]) s = Return ts t"
      using Suc.prems(2) tok by (auto elim: bind_outcome_ReturnE)
    have "runner_reachable nw s L" by (rule runner_reachable.decoded [OF Suc.prems(1) assms(2) s(1)])
    then show ?thesis by (rule Suc.IH [OF _ s(2)])
  qed
qed simp

lemma healthy_lock_ref:
  assumes h: "healthy c D" and n: "0 < D n" "path_of c n q"
  shows "0 < tn_lock_ref (w_heap c n)"
proof -
  obtain P where P: "cache_inv c P D" by (rule healthyE [OF h])
  have live: "P n \<noteq> None" using path_of_sound [OF n(2) P] by auto
  show ?thesis
  proof (cases "n = rc_root c")
    case True
    then show ?thesis using lock_ok_root [OF cache_invD(3) [OF P]] by simp
  next
    case False
    from lock_outstanding [OF cache_invD(1,3) [OF P] live this] n(1) show ?thesis by simp
  qed
qed

lemma prefill_returns:
  assumes inv: "runner_inv nw r L R" and ne: "prompt \<noteq> []"
    and "forward_prefill (nw_calls nw) rid prompt r = Return (i, result) t"
  obtains st where "i = length (mr_states r)" "i \<notin> L"
    "result = \<lparr>fr_logits = nw_logits nw prompt, fr_forward_mode = PREFILL\<rparr>"
    "prefilled rid prompt r st t" "runner_inv nw t (insert i L) R" "mr_states t ! i = st"
    "set (drop (cached_len (mr_radix_cache r) prompt) (rq_all_slot_indices st)) \<inter>
      (used_slots (mr_radix_cache r) (mr_states r) L \<union> R) = {}"
proof -
  have room: "prefill_need prompt r \<le> free_count r"
    using forward_prefill_full [OF inv ne, of rid] assms(3) by (metis not_less outcome.distinct(1))
  obtain st where st: "i = length (mr_states r)"
    "result = \<lparr>fr_logits = nw_logits nw prompt, fr_forward_mode = PREFILL\<rparr>"
    "prefilled rid prompt r st t" "runner_inv nw t (insert i L) R"
    "set (drop (cached_len (mr_radix_cache r) prompt) (rq_all_slot_indices st)) \<inter>
      (used_slots (mr_radix_cache r) (mr_states r) L \<union> R) = {}"
    using forward_prefill_ok [OF inv ne room, of rid] assms(3) by auto
  have "i \<notin> L" using core_invD(3) [OF runner_invD(3) [OF inv]] st(1) by auto
  with st that show thesis by (simp add: prefilled_def)
qed

text \<open>The slots of the prefix that was cached before, and the lock on the prompt's node.\<close>

lemma prefilled_reused:
  assumes inv: "runner_inv nw t L R" and p: "prefilled rid prompt r st t"
  defines "m \<equiv> cached_len (mr_radix_cache r) prompt"
  shows "cached (mr_radix_cache r) (take m prompt) = Some (take m (rq_all_slot_indices st))"
proof -
  note p' = p [unfolded prefilled_def] and c = runner_invD(3) [OF inv]
  have full: "cached (mr_radix_cache t) prompt = Some (rq_all_slot_indices st)" using p' by auto
  have m: "m \<le> length prompt" "cached (mr_radix_cache r) (take m prompt) \<noteq> None"
    unfolding m_def by (rule cached_len_le, rule cached_len_cached)
  obtain ws where ws: "cached (mr_radix_cache r) (take m prompt) = Some ws" using m(2) by blast
  then have "cached (mr_radix_cache t) (take m prompt) = Some ws" using p' by blast
  moreover have "cached (mr_radix_cache t) (take m prompt) = Some (take m (rq_all_slot_indices st))"
    using healthy_cached_closed [OF core_invD(2) [OF c] full take_is_prefix, of m] m(1)
    by (simp add: min_def)
  ultimately show ?thesis using ws by simp
qed

lemma prefilled_locked:
  assumes inv: "runner_inv nw t (insert (length (mr_states r)) L) R" and p: "prefilled rid prompt r st t"
  shows "path_of (mr_radix_cache t) (rq_radix_node st) prompt"
    "0 < tn_lock_ref (w_heap (mr_radix_cache t) (rq_radix_node st))"
proof -
  note p' = p [unfolded prefilled_def] and c = runner_invD(3) [OF inv]
  have st: "mr_states t ! length (mr_states r) = st" using p' by simp
  show path: "path_of (mr_radix_cache t) (rq_radix_node st) prompt"
    using core_invD(7) [OF c insertI1] p' st by (simp add: request_inv_def)
  have "0 < live_locks (mr_states t) (insert (length (mr_states r)) L) (rq_radix_node st)"
    using live_locks_remove(2) [OF core_invD(3) [OF c] insertI1] by (simp add: st)
  then show "0 < tn_lock_ref (w_heap (mr_radix_cache t) (rq_radix_node st))"
    using healthy_lock_ref [OF core_invD(2) [OF c]] path by blast
qed

text \<open>The slot of the last token of a request.\<close>

lemma request_last_slot:
  assumes r: "request_inv nw c p st" and ne: "rq_tokens st \<noteq> []"
  shows "holds nw p (last (rq_all_slot_indices st)) (rq_tokens st)"
    and "last (rq_all_slot_indices st) \<in> set (rq_all_slot_indices st)"
proof -
  let ?xs = "rq_all_slot_indices st"
  have len: "length ?xs = length (rq_tokens st)"
    and all: "\<And>t. t < length (rq_tokens st) \<Longrightarrow> holds nw p (?xs ! t) (take (Suc t) (rq_tokens st))"
    using r by (simp_all add: request_inv_def)
  have "?xs \<noteq> []" using len ne by auto
  then show "last ?xs \<in> set ?xs" by simp
  have "holds nw p (?xs ! (length ?xs - 1)) (take (Suc (length ?xs - 1)) (rq_tokens st))"
    by (rule all) (use len ne in simp)
  then show "holds nw p (last ?xs) (rq_tokens st)" using len ne \<open>?xs \<noteq> []\<close> by (simp add: last_conv_nth)
qed

lemma live_locksE:
  assumes "0 < live_locks sts L n"
  obtains j where "j \<in> L" "rq_radix_node (sts ! j) = n"
proof -
  have "{i \<in> L. rq_radix_node (sts ! i) = n} \<noteq> {}"
  proof
    assume "{i \<in> L. rq_radix_node (sts ! i) = n} = {}"
    then have "live_locks sts L n = 0" by (simp only: live_locks_def card.empty)
    then show False using assms by simp
  qed
  then show thesis using that by blast
qed

lemma decode_returns:
  assumes inv: "runner_inv nw r L R" and i: "i \<in> L"
    and "forward_decode (nw_calls nw) i tok r = Return result t"
  obtains x where "x \<notin> used_slots (mr_radix_cache r) (mr_states r) L \<union> R"
    "result = \<lparr>fr_logits = nw_logits nw (rq_tokens (mr_states r ! i) @ [tok]), fr_forward_mode = DECODE\<rparr>"
    "decoded i tok r x t" "runner_inv nw t L R"
proof -
  have "1 \<le> free_count r"
    using forward_decode_full [OF inv, of i tok] assms(3) by (metis not_less outcome.distinct(1))
  from forward_decode_ok [OF inv i this, of tok] assms(3) that show thesis by auto
qed

lemma generate_reachable:
  fixes r :: "('a, 'd, 'k) model_runner"
  assumes r: "runner_reachable nw r L" and laws: "mlx_laws (nw_mx nw) (nw_elt nw)" and ne: "prompt \<noteq> []"
    and g: "generate (nw_calls nw) rid prompt max_tokens so stop r = Return ts t"
  shows "runner_reachable nw t L"
proof -
  obtain R where inv: "runner_inv nw r L R" using runner_reachable_inv [OF r laws] by blast
  obtain i result and s u :: "('a, 'd, 'k) model_runner" where
    s: "forward_prefill (nw_calls nw) rid prompt r = Return (i, result) s"
    "generate_loop (nw_calls nw) (nat max_tokens) (sampler_of (nw_calls nw) so) (stop_of stop) i result [] s =
       Return ts u" "finish_request i u = Return () t"
    using g unfolding generate_def sampler_of_def stop_of_def Let_def
    by (elim bind_outcome_ReturnE case_prodE) (auto elim!: bind_outcome_ReturnE split: prod.splits)
  have "runner_reachable nw u (insert i L)"
    by (rule generate_loop_reachable [OF runner_reachable.prefilled [OF r ne s(1)] insertI1 s(2)])
  from runner_reachable.finished [OF this insertI1 s(3)]
  have "runner_reachable nw t (insert i L - {i})" .
  moreover have "i \<notin> L" by (rule prefill_returns [OF inv ne s(1)])
  ultimately show ?thesis by simp
qed

lemma runner_allocator:
  assumes "runner_inv nw r L R"
  obtains a where "rc_allocator (mr_radix_cache r) = Some a"
  using core_invD(5) [OF runner_invD(3) [OF assms]] by (rule slots_invD)

lemma ref_tokens_no_stop: "length (decoded_tokens {} (ref_tokens nxt {} k ctx)) = k"
  by (induction k arbitrary: ctx) (simp_all add: decoded_tokens_def ref_tokens_Suc)

section \<open>The slots that eviction gives back\<close>

lemma evict_releases:
  assumes h: "healthy c D" and u: "unique_owner (cached c)" and e: "evict p c = Return e c'"
    and a: "rc_allocator c = Some a"
  obtains xs where "rc_allocator c' = Some (free xs a)" "distinct xs"
    "set xs = cached_slots (cached c) - cached_slots (cached c')"
    "er_num_tokens_evicted e = int (length xs)"
proof -
  obtain P where inv: "cache_inv c P D" "\<not> rc_disable c" by (rule healthyE [OF h])
  obtain ns where ns: "e = \<lparr>er_num_tokens_evicted = int (length (concat (map (node_slots c) ns)))\<rparr>"
    "evict_ok c P D (ep_num_tokens p) ns c'"
    using evict_spec [OF inv, of p] e by auto
  have "rc_allocator c' = Some (free (concat (map (node_slots c) ns)) a)"
    using ns(2) a by (simp add: evict_ok_def)
  then show thesis
    using that evict_freed [OF inv(1) ns(2) u] inv(2) ns(1) by fastforce
qed

lemma healthy_evictable_nonneg:
  assumes "healthy c D"
  shows "0 \<le> rc_evictable_size c"
proof -
  obtain P where P: "cache_inv c P D" by (rule healthyE [OF assms])
  show ?thesis using cache_invD(4) [OF P] by (simp add: acct_ok_def unlocked_tokens_def sum_nonneg)
qed

text \<open>Evicting all that can be evicted leaves only prefixes of locked paths.\<close>

lemma evict_all:
  assumes h: "healthy c D" and e: "evict p c = Return e c'" and all: "rc_evictable_size c \<le> ep_num_tokens p"
    and ks: "ks \<noteq> []" "\<And>n q. 0 < D n \<Longrightarrow> path_of c n q \<Longrightarrow> \<not> prefix ks q"
  shows "cached c' ks = None"
proof (rule ccontr)
  assume "cached c' ks \<noteq> None"
  then obtain ws where ws: "cached c' ks = Some ws" by blast
  obtain k where k: "healthy c' D" "e = \<lparr>er_num_tokens_evicted = k\<rparr>"
    "\<And>n q. 0 < D n \<Longrightarrow> path_of c n q \<Longrightarrow> path_of c' n q" "ep_num_tokens p \<le> k \<or> rc_evictable_size c' = 0"
    "rc_evictable_size c' = rc_evictable_size c - k"
    using evict_law [OF h, of p] e by auto
  have "0 \<le> rc_evictable_size c'" by (rule healthy_evictable_nonneg [OF k(1)])
  then have "rc_evictable_size c' = 0" using k(4,5) all by linarith
  from cached_locked [OF k(1) this ws ks(1)] obtain m q where
    m: "0 < D m" "path_of c' m q" "prefix ks q" by blast
  obtain P where P: "cache_inv c P D" by (rule healthyE [OF h])
  have "P m \<noteq> None" using lock_ok_dead [OF cache_invD(3) [OF P], of m] m(1) by force
  then obtain q0 vs where "P m = Some (q0, vs)" by (metis option.exhaust surj_pair)
  then have q0: "path_of c m q0" by (rule path_of_complete [OF P])
  have "q0 = q"
  proof -
    obtain P' where P': "cache_inv c' P' D" by (rule healthyE [OF k(1)])
    show ?thesis
      using path_of_sound [OF m(2) P'] path_of_sound [OF k(3) [OF m(1) q0] P'] by auto
  qed
  then show False using ks(2) [OF m(1) q0] m(3) by simp
qed

section \<open>Steps of the concrete runner\<close>

lemma runner_init_states: "runner_init mx model tok config sz dtype w = Inr r \<Longrightarrow> mr_states r = []"
  by (auto simp: runner_init_def split: sum.splits)

lemmas demo_runner_states = runner_init_states [OF demo_runner_init]

lemma demo_cached: "cached (mr_radix_cache demo_runner) ks \<noteq> None \<longleftrightarrow> ks = []"
  by (simp add: demo_runner_inv(5))

lemma demo_cached_len: "cached_len (mr_radix_cache demo_runner) ks = 0"
  using cached_len_eq [where q = "[]" and c = "mr_radix_cache demo_runner" and key = ks]
  by (auto simp: demo_runner_inv(5))

text \<open>A prefill as the first request.\<close>

lemma demo_prefill:
  assumes "prompt \<noteq> []" "length prompt \<le> 8"
  obtains st and t :: "(arr, unit, unit) model_runner" where
    "forward_prefill toy_calls ''r0'' prompt demo_runner =
       Return (0, \<lparr>fr_logits = nw_logits toy_network prompt, fr_forward_mode = PREFILL\<rparr>) t"
    "runner_reachable toy_network t {0}" "runner_inv toy_network t {0} {}"
    "mr_states t = [st]" "rq_prompt_tokens st = prompt" "rq_output_tokens st = []"
    "rq_request_id st = ''r0''"
    "free_count t = 8 - int (length prompt)"
    "model_total toy_network (mr_model t)" "mr_active_requests t = [(''r0'', 0)]"
    "cached (mr_radix_cache t) prompt = Some (rq_all_slot_indices st)"
    "\<And>ks. cached (mr_radix_cache t) ks \<noteq> None \<longleftrightarrow> prefix ks prompt"
proof -
  have calls: "nw_calls toy_network = toy_calls" by (simp add: toy_network_def)
  note need = demo_need [OF assms(1)]
  have room: "prefill_need prompt demo_runner \<le> free_count demo_runner"
    using assms(2) by (simp add: need demo_runner_inv(2))
  obtain st t where t: "forward_prefill toy_calls ''r0'' prompt demo_runner =
       Return (0, \<lparr>fr_logits = nw_logits toy_network prompt, fr_forward_mode = PREFILL\<rparr>) t"
    "prefilled ''r0'' prompt demo_runner st t" "runner_inv toy_network t {0} {}"
    using forward_prefill_ok [OF demo_runner_inv(1) assms(1) room, of "''r0''"] demo_runner_total
    by (auto simp: demo_runner_states calls)
  note p = t(2) [unfolded prefilled_def demo_runner_states demo_runner_inv(2,3) need]
  have "cached (mr_radix_cache t) ks \<noteq> None \<longleftrightarrow> prefix ks prompt" for ks
    using p by (auto simp: demo_runner_inv(5))
  moreover have "runner_reachable toy_network t {0}"
    using runner_reachable.prefilled [OF demo_runner_reachable assms(1) t(1) [folded calls]] by simp
  moreover have "model_total toy_network (mr_model t)"
    using p demo_runner_total by (simp add: same_runner_def)
  ultimately show thesis using that [OF t(1)] t(3) p by auto
qed

text \<open>Then a decode step with the token \<open>0\<close>.\<close>

lemma demo_decode:
  obtains x st and t :: "(arr, unit, unit) model_runner" where
    "runner_reachable toy_network t {0}" "runner_inv toy_network t {0} {}" "mr_states t = [st]"
    "rq_prompt_tokens st = [1, 2]" "rq_output_tokens st = [0]" "last (rq_all_slot_indices st) = x"
    "owns (cached (mr_radix_cache t)) [1, 2, 0] x"
proof -
  obtain s0 :: request_state and s :: "(arr, unit, unit) model_runner" where s: "runner_reachable toy_network s {0}" "runner_inv toy_network s {0} {}"
    "mr_states s = [s0]" "rq_prompt_tokens s0 = [1, 2]" "rq_output_tokens s0 = []" "free_count s = 8 - int (length [1, 2 :: token])"
    "model_total toy_network (mr_model s)" "cached (mr_radix_cache s) [1, 2] = Some (rq_all_slot_indices s0)"
    "\<And>ks. cached (mr_radix_cache s) ks \<noteq> None \<longleftrightarrow> prefix ks [1, 2]"
    by (rule demo_prefill [of "[1, 2]"]) (simp, simp, (rule that; assumption))
  have room: "1 \<le> free_count s" by (simp add: s(6))
  obtain x result t where t: "forward_decode (nw_calls toy_network) 0 0 s = Return result t"
    "decoded 0 0 s x t" "runner_inv toy_network t {0} {}"
    using forward_decode_ok [OF s(2) singletonI room, of 0] s(7) by blast
  have none: "cached (mr_radix_cache s) [1, 2, 0] = None" using s(9) [of "[1, 2, 0]"] by simp
  obtain cs where d: "mr_states t = [extended s0 0 x cs]"
    "cached (mr_radix_cache t) [1, 2, 0] = Some (rq_all_slot_indices s0 @ [x])"
    using t(2) none by (auto simp: decoded_def Let_def s(3,4,5,8) rq_tokens_def)
  show thesis
    using that [OF runner_reachable.decoded [OF s(1) singletonI t(1)] t(3) d(1)] d(2) s(4,5)
    by (simp add: extended_def owns_def)
qed

text \<open>One \<open>generate\<close> of two tokens for \<open>[1, 2]\<close>; its whole sequence is cached.\<close>

lemma demo_generate:
  obtains t :: "(arr, unit, unit) model_runner" where "runner_reachable toy_network t {}" "model_total toy_network (mr_model t)"
    "cached (mr_radix_cache t) [1, 2, 0, 0] \<noteq> None" "free_count t = 4"
proof -
  have dec: "decoded_tokens {} (ref_tokens toy_next {} 2 [1, 2]) = [0, 0]"
    by (simp add: demo_ref decoded_tokens_def)
  have room: "prefill_need [1, 2] demo_runner +
      int (length (decoded_tokens (stop_of None) (ref_tokens toy_next (stop_of None) (nat 2) [1, 2]))) \<le>
      free_count demo_runner"
    by (simp add: demo_need demo_runner_inv(2) stop_of_def dec)
  obtain ts t where t: "generate (nw_calls toy_network) ''r0'' [1, 2] 2 None None demo_runner = Return ts t"
    "same_runner demo_runner t" "free_count t = 4" "cached (mr_radix_cache t) [1, 2, 0, 0] \<noteq> None"
    using generate_ok [OF demo_runner_inv(1) demo_runner_total _ demo_sampler [rule_format] room,
        where rid = "''r0''"]
    by (auto simp: dec stop_of_def demo_need demo_runner_inv(2))
  have "runner_reachable toy_network t {}"
    by (rule generate_reachable [OF demo_runner_reachable demo_laws _ t(1)]) simp
  moreover have "model_total toy_network (mr_model t)"
    using t(2) demo_runner_total by (simp add: same_runner_def)
  ultimately show thesis using that t(3,4) by blast
qed

text \<open>A runner whose model raises on every call.\<close>

lemma failing_runner:
  obtains r t :: "(arr, unit, unit) model_runner" where "runner_reachable toy_network r {}"
    "free_count r = 8" "prefill_need [1, 2] r = 2"
    "forward_prefill (nw_calls toy_network) ''r0'' [1, 2] r = Raise ValueError t"
proof -
  let ?model = "toy_model\<lparr>lm_call := \<lambda>_ s. Raise ValueError s\<rparr>"
  let ?config = "extract_model_config toy_model None"
  have law: "model_law toy_network ?model"
    by (auto simp: model_law_def model_frame_def valid_call_def)
  have mx: "nw_mx toy_network = arr_mlx" by (simp add: toy_network_def)
  obtain p where "pool_init arr_mlx 8 (Some 1) (Some 1) (Some 1) () = Inr p"
    using pool_init_ok [OF arr_laws, of 8 1 1 1 "()"] by auto
  then obtain r :: "(arr, unit, unit) model_runner" where
    r: "runner_init (nw_mx toy_network) ?model () ?config 8 () demo_world = Inr r"
    using toy_config by (auto simp: runner_init_def config_fits_def toy_network_def demo0_init alloc_init_def mx)
  note inv = runner_init_inv [OF demo_laws toy_config law set_order_demo r]
  have "cached_len (mr_radix_cache r) [1, 2] = length ([] :: token list)"
    by (rule cached_len_eq) (auto simp: inv(5))
  then have need: "prefill_need [1, 2] r = 2" by (simp add: prefill_need_def)
  obtain pre slots c1 where s: "prefill_slots [1, 2] r =
      Return (pre, length pre, drop (length pre) [1, 2], slots) (r\<lparr>mr_radix_cache := c1\<rparr>)"
    using prefill_slots_spec(2) [OF runner_invD(3) [OF inv(1)], of "[1, 2]"] need inv(2)
    by (auto simp: prefill_need_def)
  have "forward_prefill (nw_calls toy_network) ''r0'' [1, 2] r = Raise ValueError (r\<lparr>mr_radix_cache := c1\<rparr>)"
    by (simp add: forward_prefill_def s runner_invD(2) [OF inv(1)] call_model_def inv(4))
  with that [OF runner_reachable.start [OF r toy_config law set_order_demo] inv(2) need] show thesis by blast
qed

end
