(* ===== verification/Runner_Slot_Props.thy ===== *)
theory Runner_Slot_Props
  imports Runner_Slots
begin

text \<open>
  The properties of the model runner that are about the slots of the pool: what holds them, what
  the forward steps take, and the ways in which slots get lost or are freed too early.
\<close>

section \<open>The invariant\<close>

text \<open>
  C2. In every reachable state of the runner, every slot of the pool is free, in use or lost: the
  cached prefixes and the live requests have the data of their tokens in their slots, and the
  three classes add up to the size of the pool.
\<close>

theorem runner_invariant:
  assumes "mlx_laws (nw_mx nw) (nw_elt nw)" "runner_reachable nw r L"
  shows "\<exists>R. runner_inv nw r L R \<and>
    free_count r + int (card (used_slots (mr_radix_cache r) (mr_states r) L)) + int (card R) =
      tp_pool_size (mr_pool r)"
  using runner_reachable_inv [OF assms(2,1)] slots_accounted by blast

theorem runner_invariant_witness:
  "\<exists>R. runner_inv toy_network demo_runner {} R \<and>
     8 + int (card (used_slots (mr_radix_cache demo_runner) (mr_states demo_runner) {})) + int (card R) =
       tp_pool_size (mr_pool demo_runner)"
  using runner_invariant [OF demo_laws demo_runner_reachable] by (simp add: demo_runner_inv(2))

text \<open>
  C13. A cached slot is never free, and holds, in every layer, the key/value data of the prefix it
  is cached for: what \<open>match_prefix\<close> returns can be reused.
\<close>

theorem cached_slots_hold_data:
  assumes "mlx_laws (nw_mx nw) (nw_elt nw)" "runner_reachable nw r L"
    and "cached (mr_radix_cache r) ks = Some ws" "i < length ks"
    and "rc_allocator (mr_radix_cache r) = Some a"
  shows "holds nw (mr_pool r) (ws ! i) (take (Suc i) ks) \<and> ws ! i \<notin> set (al_free_slots a)"
proof -
  obtain R where inv: "runner_inv nw r L R" using runner_reachable_inv [OF assms(2,1)] by blast
  note c = runner_invD(3) [OF inv]
  have own: "owns (cached (mr_radix_cache r)) (take (Suc i) ks) (ws ! i)"
    by (rule radix_pool.owns_nth [OF core_invD(2) [OF c] assms(3,4)])
  have "ws ! i \<in> used_slots (mr_radix_cache r) (mr_states r) L"
    using owns_cached [OF own] by (simp add: used_slots_def)
  then have "ws ! i \<notin> set (al_free_slots a)"
    using slots_inv_free [OF core_invD(5) [OF c, unfolded assms(5)]] by blast
  with core_invD(6) [OF c own] show ?thesis by blast
qed

theorem cached_slots_hold_data_witness:
  "\<exists>(r :: (arr, unit, unit) model_runner) a ws. runner_reachable toy_network r {0} \<and>
     cached (mr_radix_cache r) [1, 2] = Some ws \<and> rc_allocator (mr_radix_cache r) = Some a \<and>
     holds toy_network (mr_pool r) (ws ! 1) [1, 2] \<and> ws ! 1 \<notin> set (al_free_slots a)"
proof -
  obtain st :: request_state and r :: "(arr, unit, unit) model_runner" where r: "runner_reachable toy_network r {0}"
    "runner_inv toy_network r {0} {}" "cached (mr_radix_cache r) [1, 2] = Some (rq_all_slot_indices st)"
    by (rule demo_prefill [of "[1, 2]"]) (simp, simp, (rule that; assumption))
  obtain a where a: "rc_allocator (mr_radix_cache r) = Some a" by (rule runner_allocator [OF r(2)])
  from cached_slots_hold_data [OF demo_laws r(1,3) _ a, of 1] r(1,3) a show ?thesis by auto
qed

text \<open>
  C18. The bookkeeping of a live request is consistent: one slot per token of the prompt and of the
  output, all different and none free, and one cache per layer.
\<close>

theorem request_shape:
  assumes "mlx_laws (nw_mx nw) (nw_elt nw)" "runner_reachable nw r L" "i \<in> L"
    and "st = mr_states r ! i" "rc_allocator (mr_radix_cache r) = Some a"
  shows "total_cached_len st = seq_len st \<and> distinct (rq_all_slot_indices st) \<and>
    set (rq_all_slot_indices st) \<inter> set (al_free_slots a) = {} \<and>
    map pk_layer_idx (rq_kv_caches st) = map int [0..<nw_layers nw]"
proof -
  obtain R where inv: "runner_inv nw r L R" using runner_reachable_inv [OF assms(2,1)] by blast
  note c = runner_invD(3) [OF inv]
  note rq = core_invD(7) [OF c assms(3), unfolded request_inv_def, folded assms(4)]
  have "set (rq_all_slot_indices st) \<subseteq> used_slots (mr_radix_cache r) (mr_states r) L"
    using assms(3,4) by (auto simp: used_slots_def live_slots_def)
  then have "set (rq_all_slot_indices st) \<inter> set (al_free_slots a) = {}"
    using slots_inv_free [OF core_invD(5) [OF c, unfolded assms(5)]] by blast
  moreover have "map pk_layer_idx (rq_kv_caches st) = map int [0..<nw_layers nw]"
    using rq by (intro nth_equalityI) (simp_all add: layers_ok_def)
  ultimately show ?thesis
    using rq by (simp add: total_cached_len_def seq_len_def rq_tokens_def)
qed

theorem request_shape_witness:
  "\<exists>(r :: (arr, unit, unit) model_runner) st. runner_reachable toy_network r {0} \<and> mr_states r = [st] \<and>
     total_cached_len st = 3 \<and> distinct (rq_all_slot_indices st)"
proof -
  obtain st :: request_state and r :: "(arr, unit, unit) model_runner" where r: "runner_reachable toy_network r {0}"
    "runner_inv toy_network r {0} {}" "mr_states r = [st]" "rq_prompt_tokens st = [1, 2]"
    "rq_output_tokens st = [0]"
    by (rule demo_decode) (rule that; assumption)
  obtain a where a: "rc_allocator (mr_radix_cache r) = Some a" by (rule runner_allocator [OF r(2)])
  from request_shape [OF demo_laws r(1) singletonI refl a] r(1,3-5) show ?thesis
    by (auto simp: seq_len_def)
qed

section \<open>The forward steps\<close>

text \<open>
  C5. A prefill returns the network's logits for the prompt if the pool has as many free slots as
  the prompt has tokens beyond its longest cached prefix, of length \<open>m\<close>, and raises
  \<open>MemoryError\<close> otherwise, with the cached content and the allocator unchanged. The slots of the
  request are the cached ones for the first \<open>m\<close> tokens, and slots nobody uses for the others; then
  the whole prompt is cached with these slots, and its node is locked.
\<close>

theorem prefill_step:
  fixes r :: "('a, 'd, 'k) model_runner"
  assumes "mlx_laws (nw_mx nw) (nw_elt nw)" "runner_reachable nw r L" "model_total nw (mr_model r)"
    and "prompt \<noteq> []" "m = cached_len (mr_radix_cache r) prompt"
  shows "if free_count r < int (length prompt - m)
    then \<exists>c. forward_prefill (nw_calls nw) rid prompt r = Raise MemoryError (r\<lparr>mr_radix_cache := c\<rparr>) \<and>
      cached c = cached (mr_radix_cache r) \<and> rc_allocator c = rc_allocator (mr_radix_cache r)
    else \<exists>st t. forward_prefill (nw_calls nw) rid prompt r =
        Return (length (mr_states r), \<lparr>fr_logits = nw_logits nw prompt, fr_forward_mode = PREFILL\<rparr>) t \<and>
      mr_states t = mr_states r @ [st] \<and> rq_prompt_tokens st = prompt \<and> rq_output_tokens st = [] \<and>
      length (rq_all_slot_indices st) = length prompt \<and>
      cached (mr_radix_cache r) (take m prompt) = Some (take m (rq_all_slot_indices st)) \<and>
      set (drop m (rq_all_slot_indices st)) \<inter> used_slots (mr_radix_cache r) (mr_states r) L = {} \<and>
      free_count t = free_count r - int (length prompt - m) \<and>
      cached (mr_radix_cache t) prompt = Some (rq_all_slot_indices st) \<and>
      path_of (mr_radix_cache t) (rq_radix_node st) prompt \<and>
      0 < tn_lock_ref (w_heap (mr_radix_cache t) (rq_radix_node st))"
proof -
  obtain R where inv: "runner_inv nw r L R" using runner_reachable_inv [OF assms(2,1)] by blast
  have need: "prefill_need prompt r = int (length prompt - m)" by (simp add: prefill_need_def assms(5))
  show ?thesis
  proof (cases "free_count r < prefill_need prompt r")
    case True
    then show ?thesis using forward_prefill_full [OF inv assms(4), of rid] need by auto
  next
    case False
    then obtain t where g: "forward_prefill (nw_calls nw) rid prompt r =
        Return (length (mr_states r), \<lparr>fr_logits = nw_logits nw prompt, fr_forward_mode = PREFILL\<rparr>) t"
      using forward_prefill_ok [OF inv assms(4), of rid] assms(3) by auto
    obtain st where t: "prefilled rid prompt r st t" "runner_inv nw t (insert (length (mr_states r)) L) R"
      "mr_states t ! length (mr_states r) = st"
      "set (drop m (rq_all_slot_indices st)) \<inter> (used_slots (mr_radix_cache r) (mr_states r) L \<union> R) = {}"
      by (rule prefill_returns [OF inv assms(4) g, folded assms(5)])
    note p = t(1) [unfolded prefilled_def]
    have "cached (mr_radix_cache t) prompt = Some (rq_all_slot_indices st)" using p by auto
    moreover have "cached (mr_radix_cache r) (take m prompt) = Some (take m (rq_all_slot_indices st))"
      unfolding assms(5) by (rule prefilled_reused [OF t(2,1)])
    moreover note prefilled_locked [OF t(2,1)]
    ultimately show ?thesis using g p t(4) need False by auto
  qed
qed

theorem prefill_step_witness:
  "\<exists>st t. forward_prefill toy_calls ''r0'' [1, 2] demo_runner =
     Return (0, \<lparr>fr_logits = nw_logits toy_network [1, 2], fr_forward_mode = PREFILL\<rparr>) t \<and>
   mr_states t = [st] \<and> free_count t = 6 \<and> cached (mr_radix_cache t) [1, 2] = Some (rq_all_slot_indices st)"
  using prefill_step [OF demo_laws demo_runner_reachable demo_runner_total _ refl, of "[1, 2]" "''r0''"]
  by (auto simp: demo_cached_len demo_runner_inv(2) demo_runner_states toy_network_def)

text \<open>
  C6. A decode step returns the network's logits for the request's tokens and the new one if the
  pool has a free slot, and otherwise raises \<open>MemoryError\<close> and changes nothing. The slot it takes
  is in no other use, it holds the new token's data afterwards, and the longer sequence is cached.
\<close>

theorem decode_step:
  fixes r :: "('a, 'd, 'k) model_runner"
  assumes "mlx_laws (nw_mx nw) (nw_elt nw)" "runner_reachable nw r L" "model_total nw (mr_model r)"
    and "i \<in> L" "st = mr_states r ! i"
  shows "if free_count r < 1 then forward_decode (nw_calls nw) i tok r = Raise MemoryError r
    else \<exists>x cs t. forward_decode (nw_calls nw) i tok r =
        Return \<lparr>fr_logits = nw_logits nw (rq_tokens st @ [tok]), fr_forward_mode = DECODE\<rparr> t \<and>
      x \<notin> used_slots (mr_radix_cache r) (mr_states r) L \<and>
      mr_states t = (mr_states r)[i := st\<lparr>rq_kv_caches := cs,
        rq_output_tokens := rq_output_tokens st @ [tok],
        rq_all_slot_indices := rq_all_slot_indices st @ [x]\<rparr>] \<and>
      free_count t = free_count r - 1 \<and> holds nw (mr_pool t) x (rq_tokens st @ [tok]) \<and>
      cached (mr_radix_cache t) (rq_tokens st @ [tok]) \<noteq> None"
proof (cases "free_count r < 1")
  case True
  obtain R where "runner_inv nw r L R" using runner_reachable_inv [OF assms(2,1)] by blast
  with True show ?thesis by (simp add: forward_decode_full)
next
  case False
  obtain R where inv: "runner_inv nw r L R" using runner_reachable_inv [OF assms(2,1)] by blast
  have i: "i < length (mr_states r)" using core_invD(3) [OF runner_invD(3) [OF inv]] assms(4) by auto
  obtain x t where t: "x \<notin> used_slots (mr_radix_cache r) (mr_states r) L"
    "forward_decode (nw_calls nw) i tok r =
       Return \<lparr>fr_logits = nw_logits nw (rq_tokens st @ [tok]), fr_forward_mode = DECODE\<rparr> t"
    "decoded i tok r x t" "runner_inv nw t L R"
    using forward_decode_ok [OF inv assms(4), of tok] False assms(3,5) by auto
  obtain cs where cs: "mr_states t = (mr_states r)[i := extended st tok x cs]"
    using t(3) assms(5) by (auto simp: decoded_def Let_def)
  note rq = core_invD(7) [OF runner_invD(3) [OF t(4)] assms(4), unfolded request_inv_def]
  have st: "mr_states t ! i = extended st tok x cs" using cs i by simp
  have toks: "rq_tokens (extended st tok x cs) = rq_tokens st @ [tok]"
    "last (rq_all_slot_indices (extended st tok x cs)) = x"
    by (simp_all add: extended_def rq_tokens_def)
  have "holds nw (mr_pool t) x (rq_tokens st @ [tok])"
    using request_last_slot(1) [OF core_invD(7) [OF runner_invD(3) [OF t(4)] assms(4)]]
    by (simp add: st toks)
  moreover have "cached (mr_radix_cache t) (rq_tokens st @ [tok]) \<noteq> None"
    using rq by (simp add: st toks)
  moreover have "free_count t = free_count r - 1" using t(3) by (simp add: decoded_def Let_def)
  ultimately show ?thesis using t(1,2) cs False by (auto simp: extended_def)
qed

theorem decode_step_witness:
  "\<exists>(r :: (arr, unit, unit) model_runner) t result. runner_reachable toy_network r {0} \<and>
     forward_decode (nw_calls toy_network) 0 0 r = Return result t \<and>
     fr_logits result = nw_logits toy_network [1, 2, 0] \<and>
     free_count t = 5 \<and> cached (mr_radix_cache t) [1, 2, 0] \<noteq> None"
proof -
  obtain st :: request_state and r :: "(arr, unit, unit) model_runner" where
    r: "runner_reachable toy_network r {0}" "mr_states r = [st]" "rq_prompt_tokens st = [1, 2]"
    "rq_output_tokens st = []" "free_count r = 8 - int (length [1, 2 :: token])"
    "model_total toy_network (mr_model r)"
    by (rule demo_prefill [of "[1, 2]"]) (simp, simp, (rule that; assumption))
  from decode_step [OF demo_laws r(1,6) singletonI refl, of 0] r(1,2-5) show ?thesis
    by (auto simp: rq_tokens_def)
qed

text \<open>
  C19. \<open>finish_request\<close> always returns; it releases the request's lock and its entry in
  \<open>active_requests\<close> and nothing else: the cached content and the allocator stay as they are, so
  the slots of the request that are not cached are in nobody's hands afterwards.
\<close>

theorem finish_releases_lock:
  fixes r :: "('a, 'd, 'k) model_runner"
  assumes "mlx_laws (nw_mx nw) (nw_elt nw)" "runner_reachable nw r L" "i \<in> L"
  shows "\<exists>t. finish_request i r = Return () t \<and> runner_reachable nw t (L - {i}) \<and>
    mr_active_requests t = AList.delete (rq_request_id (mr_states r ! i)) (mr_active_requests r) \<and>
    mr_states t = mr_states r \<and> mr_pool t = mr_pool r \<and>
    cached (mr_radix_cache t) = cached (mr_radix_cache r) \<and> free_count t = free_count r \<and>
    (\<exists>R. runner_inv nw t (L - {i}) R \<and> private_slots i L r \<subseteq> R)"
proof -
  obtain R where inv: "runner_inv nw r L R" using runner_reachable_inv [OF assms(2,1)] by blast
  from finish_request_ok [OF inv assms(3)] obtain c where
    c: "finish_request i r = Return () (r\<lparr>mr_radix_cache := c,
      mr_active_requests := AList.delete (rq_request_id (mr_states r ! i)) (mr_active_requests r)\<rparr>)"
    "runner_inv nw (r\<lparr>mr_radix_cache := c,
      mr_active_requests := AList.delete (rq_request_id (mr_states r ! i)) (mr_active_requests r)\<rparr>)
      (L - {i}) (R \<union> private_slots i L r)"
    "cached c = cached (mr_radix_cache r)" "rc_allocator c = rc_allocator (mr_radix_cache r)" by blast
  from runner_reachable.finished [OF assms(2,3) c(1)] c show ?thesis
    by (auto simp: free_count_def)
qed

theorem finish_releases_lock_witness:
  "\<exists>(r :: (arr, unit, unit) model_runner) t. runner_reachable toy_network r {0} \<and>
     finish_request 0 r = Return () t \<and> mr_active_requests t = [] \<and> free_count t = 6"
proof -
  obtain st :: request_state and r :: "(arr, unit, unit) model_runner" where
    r: "runner_reachable toy_network r {0}" "mr_states r = [st]" "rq_request_id st = ''r0''"
    "free_count r = 8 - int (length [1, 2 :: token])" "mr_active_requests r = [(''r0'', 0)]"
    by (rule demo_prefill [of "[1, 2]"]) (simp, simp, (rule that; assumption))
  from finish_releases_lock [OF demo_laws r(1) singletonI] r show ?thesis by auto
qed

section \<open>Slots that get lost\<close>

text \<open>
  C35. When the pool runs out of slots after the prefill, \<open>generate\<close> raises \<open>MemoryError\<close> without
  finishing the request: its entry in \<open>active_requests\<close> stays, and its node in the cache stays
  locked.
\<close>

theorem failed_generate_keeps_request:
  assumes "mlx_laws (nw_mx nw) (nw_elt nw)" "runner_reachable nw r L" "model_total nw (mr_model r)"
    and "prompt \<noteq> []" "\<forall>ks. sampler_of (nw_calls nw) so (nw_logits nw ks) = Inr (nxt ks)"
    and "dec = decoded_tokens (stop_of stop) (ref_tokens nxt (stop_of stop) (nat max_tokens) prompt)"
    and "prefill_need prompt r \<le> free_count r" "free_count r < prefill_need prompt r + int (length dec)"
  shows "\<exists>t. generate (nw_calls nw) rid prompt max_tokens so stop r = Raise MemoryError t \<and>
    free_count t = 0 \<and> map_of (mr_active_requests t) rid = Some (length (mr_states r)) \<and>
    0 < tn_lock_ref (w_heap (mr_radix_cache t) (rq_radix_node (mr_states t ! length (mr_states r))))"
proof -
  let ?i = "length (mr_states r)"
  obtain R where inv: "runner_inv nw r L R" using runner_reachable_inv [OF assms(2,1)] by blast
  obtain t where t: "generate (nw_calls nw) rid prompt max_tokens so stop r = Raise MemoryError t"
    "runner_inv nw t (insert ?i L) R" "free_count t = 0"
    "mr_active_requests t = AList.update rid ?i (mr_active_requests r)"
    using generate_full [OF inv assms(3,4) assms(5) [rule_format] assms(7,8) [unfolded assms(6)], of rid]
    by blast
  note c = runner_invD(3) [OF t(2)]
  have "path_of (mr_radix_cache t) (rq_radix_node (mr_states t ! ?i)) (rq_prompt_tokens (mr_states t ! ?i))"
    using core_invD(7) [OF c insertI1] by (simp add: request_inv_def)
  with healthy_lock_ref [OF core_invD(2) [OF c] live_locks_remove(2) [OF core_invD(3) [OF c] insertI1]]
  show ?thesis using t by (auto simp: update_conv)
qed

theorem failed_generate_keeps_request_witness:
  "\<exists>t. generate (nw_calls toy_network) ''r0'' [1, 2] 7 None None demo_runner = Raise MemoryError t \<and>
     free_count t = 0 \<and> map_of (mr_active_requests t) ''r0'' = Some 0"
proof -
  have len: "length (decoded_tokens (stop_of None) (ref_tokens toy_next (stop_of None) (nat 7) [1, 2])) = 7"
    by (simp add: stop_of_def ref_tokens_no_stop)
  have "prefill_need [1, 2] demo_runner \<le> free_count demo_runner"
    "free_count demo_runner < prefill_need [1, 2] demo_runner + int (length (decoded_tokens (stop_of None)
       (ref_tokens toy_next (stop_of None) (nat 7) [1, 2])))"
    unfolding len by (simp_all add: demo_need demo_runner_inv(2))
  from failed_generate_keeps_request [OF demo_laws demo_runner_reachable demo_runner_total _ demo_sampler
      refl this, where rid = "''r0''"]
  show ?thesis by (auto simp: demo_runner_states)
qed

text \<open>
  C33. Serving a request again loses slots: when a sequence is cached with its whole continuation,
  \<open>generate\<close> takes a slot for each decoded token although the cache keeps the slots it has, and
  \<open>finish_request\<close> does not give them back. They are neither free nor in use afterwards.
\<close>

theorem repeated_generate_loses_slots:
  assumes "mlx_laws (nw_mx nw) (nw_elt nw)" "runner_reachable nw r L" "model_total nw (mr_model r)"
    and "prompt \<noteq> []" "\<forall>ks. sampler_of (nw_calls nw) so (nw_logits nw ks) = Inr (nxt ks)"
    and "dec = decoded_tokens (stop_of stop) (ref_tokens nxt (stop_of stop) (nat max_tokens) prompt)"
    and "cached (mr_radix_cache r) (prompt @ dec) \<noteq> None" "int (length dec) \<le> free_count r"
  shows "\<exists>ts t R X. generate (nw_calls nw) rid prompt max_tokens so stop r = Return ts t \<and>
    free_count t = free_count r - int (length dec) \<and> runner_inv nw r L R \<and>
    runner_inv nw t L (R \<union> X) \<and> X \<inter> R = {} \<and> card X = length dec"
proof -
  obtain R where inv: "runner_inv nw r L R" using runner_reachable_inv [OF assms(2,1)] by blast
  obtain vs where vs: "cached (mr_radix_cache r) (prompt @ dec) = Some vs" using assms(7) by blast
  have all: "cached (mr_radix_cache r) (prompt @ us) \<noteq> None" if "prefix us dec" for us
    using healthy_cached_closed [OF core_invD(2) [OF runner_invD(3) [OF inv]] vs, of "prompt @ us"] that
    by simp
  have "cached_len (mr_radix_cache r) prompt = length prompt"
    by (rule cached_len_eq) (use all [of "[]"] in \<open>auto dest: prefix_length_le\<close>)
  then have need: "prefill_need prompt r = 0" by (simp add: prefill_need_def)
  have "already (cached (mr_radix_cache r)) prompt dec = length dec" by (rule already_all) (rule all)
  moreover have "prefill_need prompt r + int (length dec) \<le> free_count r" using assms(8) need by simp
  note generate_ok [OF inv assms(3,4) assms(5) [rule_format] this [unfolded assms(6)], of rid, folded assms(6)]
  ultimately show ?thesis using inv need by fastforce
qed

theorem repeated_generate_loses_slots_witness:
  "\<exists>(r :: (arr, unit, unit) model_runner) ts t R X. runner_reachable toy_network r {} \<and> free_count r = 4 \<and>
     generate (nw_calls toy_network) ''r1'' [1, 2] 2 None None r = Return ts t \<and> free_count t = 2 \<and>
     runner_inv toy_network t {} (R \<union> X) \<and> card X = 2"
proof -
  have dec: "[0, 0] = decoded_tokens (stop_of None) (ref_tokens toy_next (stop_of None) (nat 2) [1, 2])"
    by (simp add: stop_of_def demo_ref decoded_tokens_def)
  obtain r :: "(arr, unit, unit) model_runner" where r: "runner_reachable toy_network r {}"
    "model_total toy_network (mr_model r)" "cached (mr_radix_cache r) [1, 2, 0, 0] \<noteq> None" "free_count r = 4"
    by (rule demo_generate)
  have "cached (mr_radix_cache r) ([1, 2] @ [0, 0]) \<noteq> None" "int (length [0, 0 :: token]) \<le> free_count r"
    using r(3,4) by simp_all
  from repeated_generate_loses_slots [OF demo_laws r(1,2) _ demo_sampler dec this, where rid = "''r1''"]
  show ?thesis using r(1,4) by fastforce
qed

text \<open>
  C36. When the model raises during a prefill that the pool has room for, the slots taken for the
  prompt are lost: they are not given back to the allocator, no request has them, and the cached
  content is what it was.
\<close>

theorem failed_prefill_loses_slots:
  assumes "mlx_laws (nw_mx nw) (nw_elt nw)" "runner_reachable nw r L" "prompt \<noteq> []"
    and "prefill_need prompt r \<le> free_count r"
    and "forward_prefill (nw_calls nw) rid prompt r = Raise e t"
  shows "free_count t = free_count r - prefill_need prompt r \<and> runner_reachable nw t L \<and>
    used_slots (mr_radix_cache t) (mr_states t) L = used_slots (mr_radix_cache r) (mr_states r) L \<and>
    mr_active_requests t = mr_active_requests r \<and> prefill_need prompt t = prefill_need prompt r"
proof -
  obtain R where inv: "runner_inv nw r L R" using runner_reachable_inv [OF assms(2,1)] by blast
  have t: "mr_states t = mr_states r" "mr_active_requests t = mr_active_requests r"
    "cached (mr_radix_cache t) = cached (mr_radix_cache r)"
    "free_count t = free_count r - prefill_need prompt r"
    using forward_prefill_ok [OF inv assms(3,4), of rid] assms(5) by auto
  moreover have "prefill_need prompt t = prefill_need prompt r"
    by (simp add: prefill_need_def cached_len_def t(3))
  ultimately show ?thesis
    using runner_reachable.prefill_failed [OF assms(2,3,5)] by (simp add: used_slots_def)
qed

theorem failed_prefill_loses_slots_witness:
  "\<exists>(r :: (arr, unit, unit) model_runner) t. runner_reachable toy_network r {} \<and> free_count r = 8 \<and>
     forward_prefill (nw_calls toy_network) ''r0'' [1, 2] r = Raise ValueError t \<and> free_count t = 6"
proof -
  obtain r t :: "(arr, unit, unit) model_runner" where r: "runner_reachable toy_network r {}"
    "free_count r = 8" "prefill_need [1, 2] r = 2"
    "forward_prefill (nw_calls toy_network) ''r0'' [1, 2] r = Raise ValueError t"
    by (rule failing_runner)
  have "prefill_need [1, 2] r \<le> free_count r" using r(2,3) by simp
  from failed_prefill_loses_slots [OF demo_laws r(1) _ this r(4)] r show ?thesis by auto
qed

section \<open>Eviction under the runner\<close>

text \<open>
  C21. Eviction of the runner's cache gives back exactly the slots that are no longer cached, each
  once and none of them free before, and reports their number.
\<close>

theorem evict_returns_slots:
  assumes "mlx_laws (nw_mx nw) (nw_elt nw)" "runner_reachable nw r L"
    and "evict p (mr_radix_cache r) = Return e c" "rc_allocator (mr_radix_cache r) = Some a"
  shows "\<exists>xs. rc_allocator c = Some (free xs a) \<and> distinct xs \<and> set xs \<inter> set (al_free_slots a) = {} \<and>
    set xs = cached_slots (cached (mr_radix_cache r)) - cached_slots (cached c) \<and>
    er_num_tokens_evicted e = int (length xs)"
proof -
  obtain R where inv: "runner_inv nw r L R" using runner_reachable_inv [OF assms(2,1)] by blast
  note ci = runner_invD(3) [OF inv]
  obtain xs where xs: "rc_allocator c = Some (free xs a)" "distinct xs"
    "set xs = cached_slots (cached (mr_radix_cache r)) - cached_slots (cached c)"
    "er_num_tokens_evicted e = int (length xs)"
    by (rule evict_releases [OF core_invD(2,4) [OF ci] assms(3,4)])
  moreover have "set xs \<inter> set (al_free_slots a) = {}"
    using slots_inv_free(1) [OF core_invD(5) [OF ci, unfolded assms(4)]] xs(3)
    by (auto simp: used_slots_def)
  ultimately show ?thesis by blast
qed

theorem evict_returns_slots_witness:
  "\<exists>(r :: (arr, unit, unit) model_runner) e c a xs. runner_reachable toy_network r {} \<and>
     evict \<lparr>ep_num_tokens = 4\<rparr> (mr_radix_cache r) = Return e c \<and>
     rc_allocator c = Some (free xs a) \<and> er_num_tokens_evicted e = int (length xs)"
proof -
  obtain r :: "(arr, unit, unit) model_runner" where r: "runner_reachable toy_network r {}"
    by (rule demo_generate)
  then obtain R where inv: "runner_inv toy_network r {} R" using runner_reachable_inv demo_laws by blast
  obtain a where a: "rc_allocator (mr_radix_cache r) = Some a" by (rule runner_allocator [OF inv])
  obtain e c where e: "evict \<lparr>ep_num_tokens = 4\<rparr> (mr_radix_cache r) = Return e c"
    using evict_law [OF core_invD(2) [OF runner_invD(3) [OF inv]]] by blast
  from evict_returns_slots [OF demo_laws r e a] r e show ?thesis by blast
qed

text \<open>
  C34. Only the node of the prompt is locked, so eviction does not spare the decoded tokens of a
  live request: when everything evictable is evicted and no live prompt extends the request's
  tokens, the slot of its last token is free while the request still has it.
\<close>

theorem evict_frees_live_slots:
  assumes "mlx_laws (nw_mx nw) (nw_elt nw)" "runner_reachable nw r L" "i \<in> L" "st = mr_states r ! i"
    and "x = last (rq_all_slot_indices st)" "owns (cached (mr_radix_cache r)) (rq_tokens st) x"
    and "\<forall>j \<in> L. \<not> prefix (rq_tokens st) (rq_prompt_tokens (mr_states r ! j))"
    and "evict p (mr_radix_cache r) = Return e c" "rc_evictable_size (mr_radix_cache r) \<le> ep_num_tokens p"
  shows "\<exists>b. rc_allocator c = Some b \<and> x \<in> set (al_free_slots b) \<and> x \<in> set (rq_all_slot_indices st)"
proof -
  obtain R where inv: "runner_inv nw r L R" using runner_reachable_inv [OF assms(2,1)] by blast
  note ci = runner_invD(3) [OF inv]
  note h = core_invD(2) [OF ci] and u = core_invD(4) [OF ci]
  obtain P where P: "cache_inv (mr_radix_cache r) P (live_locks (mr_states r) L)" by (rule healthyE [OF h])
  have ne: "rq_tokens st \<noteq> []"
    by (rule radix_pool.owns_nonempty [OF h assms(6)])
  have "\<not> prefix (rq_tokens st) q"
    if n: "0 < live_locks (mr_states r) L n" "path_of (mr_radix_cache r) n q" for n q
  proof -
    obtain j where j: "j \<in> L" "rq_radix_node (mr_states r ! j) = n" using n(1) by (rule live_locksE)
    have "path_of (mr_radix_cache r) n (rq_prompt_tokens (mr_states r ! j))"
      using core_invD(7) [OF ci j(1)] j(2) by (simp add: request_inv_def)
    then have "q = rq_prompt_tokens (mr_states r ! j)"
      using path_of_sound [OF n(2) P] path_of_sound [OF _ P] by fastforce
    with assms(7) j(1) show ?thesis by blast
  qed
  from evict_all [OF h assms(8,9) ne this] have gone: "cached c (rq_tokens st) = None" .
  obtain a where a: "rc_allocator (mr_radix_cache r) = Some a" by (rule runner_allocator [OF inv])
  obtain xs where xs: "rc_allocator c = Some (free xs a)"
    "set xs = cached_slots (cached (mr_radix_cache r)) - cached_slots (cached c)"
    by (rule evict_releases [OF h u assms(8) a])
  have sub: "cached c ks = Some ws \<Longrightarrow> cached (mr_radix_cache r) ks = Some ws" for ks ws
    using evict_law [OF h, of p] assms(8) by auto
  have "x \<notin> cached_slots (cached c)"
  proof
    assume "x \<in> cached_slots (cached c)"
    then obtain ks where ks: "owns (cached c) ks x" by (auto simp: cached_slots_def)
    then have "owns (cached (mr_radix_cache r)) ks x" using sub by (auto simp: owns_def)
    then have "ks = rq_tokens st" using u assms(6) unfolding unique_owner_def by blast
    with ks gone show False by (simp add: owns_def)
  qed
  then have "x \<in> set xs" using xs(2) owns_cached [OF assms(6)] by simp
  moreover have "x \<in> set (rq_all_slot_indices st)"
    using request_last_slot(2) [OF core_invD(7) [OF ci assms(3), folded assms(4)] ne] assms(5) by simp
  ultimately show ?thesis using xs(1) by (simp add: free_def)
qed

theorem evict_frees_live_slots_witness:
  "\<exists>(r :: (arr, unit, unit) model_runner) e c b x. runner_reachable toy_network r {0} \<and>
     evict \<lparr>ep_num_tokens = rc_evictable_size (mr_radix_cache r)\<rparr> (mr_radix_cache r) = Return e c \<and>
     rc_allocator c = Some b \<and> x \<in> set (al_free_slots b) \<and>
     x \<in> set (rq_all_slot_indices (mr_states r ! 0))"
proof -
  obtain x :: slot and st :: request_state and r :: "(arr, unit, unit) model_runner" where
    r: "runner_reachable toy_network r {0}" "runner_inv toy_network r {0} {}" "mr_states r = [st]"
    "rq_prompt_tokens st = [1, 2]" "rq_output_tokens st = [0]" "last (rq_all_slot_indices st) = x"
    "owns (cached (mr_radix_cache r)) [1, 2, 0] x"
    by (rule demo_decode) (rule that; assumption)
  let ?p = "\<lparr>ep_num_tokens = rc_evictable_size (mr_radix_cache r)\<rparr>"
  obtain e c where e: "evict ?p (mr_radix_cache r) = Return e c"
    using evict_law [OF core_invD(2) [OF runner_invD(3) [OF r(2)]]] by blast
  have "\<exists>b. rc_allocator c = Some b \<and> x \<in> set (al_free_slots b) \<and> x \<in> set (rq_all_slot_indices st)"
    by (rule evict_frees_live_slots [OF demo_laws r(1) singletonI _ _ _ _ e])
      (use r(3-7) in \<open>simp_all add: rq_tokens_def\<close>)
  then obtain b where b: "rc_allocator c = Some b" "x \<in> set (al_free_slots b)"
    "x \<in> set (rq_all_slot_indices st)" by blast
  show ?thesis
    by (intro exI [of _ r] exI [of _ e] exI [of _ c] exI [of _ b] exI [of _ x])
      (simp add: r(1,3) e b)
qed

section \<open>Loading\<close>

text \<open>
  \<open>load\<close> of a model whose arguments lack \<open>head_dim\<close> and \<open>num_key_value_heads\<close> gives a runner
  whose pool has a buffer per layer with the dimensions derived from the other arguments, and whose
  slots are all free; a pool size that is not positive is a \<open>ValueError\<close>.
\<close>

theorem load_derives_dimensions:
  assumes "mlx_laws mx elt" "mlx_load path = Inr (model, tok)" "lm_layers model = Some n"
    and "lm_args model = Some args" "args ''head_dim'' \<in> {None, Some None}"
    and "args ''num_key_value_heads'' \<in> {None, Some None, Some (Some 0)}"
    and "args ''hidden_size'' = Some (Some d)" "args ''num_attention_heads'' = Some (Some h)"
    and "0 < d" "0 < h"
  shows "if sz \<le> 0 then load mlx_load mx path sz dtype w = Inl ValueError
    else \<exists>r. load mlx_load mx path sz dtype w = Inr r \<and> mr_model r = model \<and>
      tp_pool_size (mr_pool r) = sz \<and> pool_ok mx n (nat h) (nat (d div h)) (mr_pool r) \<and>
      free_count r = sz \<and> mr_active_requests r = []"
proof (cases "sz \<le> 0")
  case True
  then show ?thesis by (simp add: load_def assms(2) runner_init_def alloc_init_def)
next
  case False
  have config: "mc_num_layers (extract_model_config model None) = Some (int n)"
    "mc_n_kv_heads (extract_model_config model None) = Some h"
    "mc_head_dim (extract_model_config model None) = Some (d div h)"
    using assms(3-10) by (auto simp: extract_model_config_def config_get_def truthy_def Let_def)
  have "0 \<le> d div h" using assms(9,10) by (simp add: pos_imp_zdiv_nonneg_iff)
  then obtain p where p: "pool_init mx sz (Some (int n)) (Some h) (Some (d div h)) dtype = Inr p"
    "tp_pool_size p = sz" "pool_ok mx n (nat h) (nat (d div h)) p"
    using pool_init_ok [OF assms(1), of sz "int n" h "d div h" dtype] False assms(10) by auto
  obtain a where a: "alloc_init sz = Inr a" "available_size a = sz"
    using False by (simp add: alloc_init_def available_size_def all_slots_def)
  obtain c where c: "radix_init None w = Inr c"
    by (simp add: radix_init_def CacheInitParams_default_def strategy_of_policy_def py_lower_def
      py_lower_char_def Let_def)
  show ?thesis
    using False p a(2) by (simp add: load_def assms(2) runner_init_def config a(1) c free_count_def set_allocator_def)
qed

theorem load_derives_dimensions_witness:
  "\<exists>r. load (\<lambda>_. Inr (toy_model, ())) arr_mlx ''toy'' 8 () demo_world = Inr r \<and>
     pool_ok arr_mlx 1 1 1 (mr_pool r) \<and> free_count r = 8"
proof -
  let ?args = "[''num_attention_heads'' \<mapsto> Some 1, ''hidden_size'' \<mapsto> Some 1] :: attributes"
  have m: "lm_layers toy_model = Some 1" "lm_args toy_model = Some ?args" by (simp_all add: toy_model_def)
  have "if (8 :: int) \<le> 0 then load (\<lambda>_. Inr (toy_model, ())) arr_mlx ''toy'' 8 () demo_world = Inl ValueError
    else \<exists>r. load (\<lambda>_. Inr (toy_model, ())) arr_mlx ''toy'' 8 () demo_world = Inr r \<and>
      mr_model r = toy_model \<and> tp_pool_size (mr_pool r) = 8 \<and>
      pool_ok arr_mlx 1 (nat 1) (nat (1 div 1)) (mr_pool r) \<and> free_count r = 8 \<and> mr_active_requests r = []"
    by (rule load_derives_dimensions [OF arr_laws refl m]) simp_all
  then show ?thesis by auto
qed

end
