(* ===== verification/Runner_Lifetime.thy ===== *)
theory Runner_Lifetime
  imports Runner_Slots
begin

text \<open>
  The calls of a runner as a step relation, and what stays true along any sequence of them: no
  call gives a slot back to the allocator, so that the free slots only get fewer.
\<close>

inductive runner_step ::
  "('a, 'd, 'e) network \<Rightarrow> ('a, 'd, 'k) model_runner \<times> nat set \<Rightarrow> ('a, 'd, 'k) model_runner \<times> nat set \<Rightarrow> bool"
  for nw where
  step_prefill: "prompt \<noteq> [] \<Longrightarrow> forward_prefill (nw_calls nw) rid prompt r = Return (i, result) t \<Longrightarrow>
    runner_step nw (r, L) (t, insert i L)"
| step_prefill_fails: "prompt \<noteq> [] \<Longrightarrow> forward_prefill (nw_calls nw) rid prompt r = Raise e t \<Longrightarrow>
    runner_step nw (r, L) (t, L)"
| step_decode: "i \<in> L \<Longrightarrow> forward_decode (nw_calls nw) i tok r = Return result t \<Longrightarrow>
    runner_step nw (r, L) (t, L)"
| step_decode_fails: "i \<in> L \<Longrightarrow> forward_decode (nw_calls nw) i tok r = Raise e t \<Longrightarrow>
    runner_step nw (r, L) (t, L)"
| step_finish: "i \<in> L \<Longrightarrow> finish_request i r = Return u t \<Longrightarrow> runner_step nw (r, L) (t, L - {i})"

inductive_cases runner_stepE: "runner_step nw (r, L) (t, M)"

lemma runner_step_reachable:
  assumes "runner_step nw (r, L) (t, M)" "runner_reachable nw r L"
  shows "runner_reachable nw t M"
  using assms(1)
  by (rule runner_stepE) (use assms(2) in \<open>blast intro: runner_reachable.intros\<close>)+

text \<open>A call takes slots, or leaves the free slots alone.\<close>

lemma prefill_takes:
  assumes inv: "runner_inv nw r L R" and ne: "prompt \<noteq> []"
  shows "forward_prefill (nw_calls nw) rid prompt r = Return x t \<Longrightarrow> free_count t \<le> free_count r"
    and "forward_prefill (nw_calls nw) rid prompt r = Raise e t \<Longrightarrow> free_count t \<le> free_count r"
proof -
  have pos: "0 \<le> prefill_need prompt r" by (simp add: prefill_need_def)
  have "case forward_prefill (nw_calls nw) rid prompt r of Return x t \<Rightarrow> free_count t \<le> free_count r
    | Raise e t \<Rightarrow> free_count t \<le> free_count r | Diverge \<Rightarrow> True"
  proof (cases "prefill_need prompt r \<le> free_count r")
    case True
    then show ?thesis
      using forward_prefill_ok [OF inv ne True, of rid] pos by (auto simp: prefilled_def)
  next
    case False
    then show ?thesis
      using forward_prefill_full [OF inv ne, of rid] by (auto simp: free_count_def)
  qed
  then show "forward_prefill (nw_calls nw) rid prompt r = Return x t \<Longrightarrow> free_count t \<le> free_count r"
    "forward_prefill (nw_calls nw) rid prompt r = Raise e t \<Longrightarrow> free_count t \<le> free_count r"
    by simp_all
qed

lemma decode_takes:
  assumes inv: "runner_inv nw r L R" and i: "i \<in> L"
  shows "forward_decode (nw_calls nw) i tok r = Return x t \<Longrightarrow> free_count t \<le> free_count r"
    and "forward_decode (nw_calls nw) i tok r = Raise e t \<Longrightarrow> free_count t \<le> free_count r"
proof -
  have "case forward_decode (nw_calls nw) i tok r of Return x t \<Rightarrow> free_count t \<le> free_count r
    | Raise e t \<Rightarrow> free_count t \<le> free_count r | Diverge \<Rightarrow> True"
  proof (cases "1 \<le> free_count r")
    case True
    then show ?thesis
      using forward_decode_ok [OF inv i True, of tok] by (auto simp: decoded_def Let_def)
  next
    case False
    then show ?thesis using forward_decode_full [OF inv, of i tok] by simp
  qed
  then show "forward_decode (nw_calls nw) i tok r = Return x t \<Longrightarrow> free_count t \<le> free_count r"
    "forward_decode (nw_calls nw) i tok r = Raise e t \<Longrightarrow> free_count t \<le> free_count r"
    by simp_all
qed

lemma runner_step_takes:
  assumes "runner_step nw (r, L) (t, M)" and inv: "runner_inv nw r L R"
  shows "free_count t \<le> free_count r"
  using assms(1)
proof (rule runner_stepE)
  fix prompt rid i result
  assume "prompt \<noteq> []" "forward_prefill (nw_calls nw) rid prompt r = Return (i, result) t"
  then show ?thesis by (rule prefill_takes(1) [OF inv])
next
  fix prompt rid e
  assume "prompt \<noteq> []" "forward_prefill (nw_calls nw) rid prompt r = Raise e t"
  then show ?thesis by (rule prefill_takes(2) [OF inv])
next
  fix i tok result
  assume "i \<in> L" "forward_decode (nw_calls nw) i tok r = Return result t"
  then show ?thesis by (rule decode_takes(1) [OF inv])
next
  fix i tok e
  assume "i \<in> L" "forward_decode (nw_calls nw) i tok r = Raise e t"
  then show ?thesis by (rule decode_takes(2) [OF inv])
next
  fix i u
  assume "i \<in> L" "finish_request i r = Return u t"
  then show ?thesis using finish_request_ok [OF inv, of i] by (auto simp: free_count_def)
qed

lemma runner_steps_take:
  assumes "(runner_step nw)\<^sup>*\<^sup>* (r, L) (t, M)" "mlx_laws (nw_mx nw) (nw_elt nw)" "runner_reachable nw r L"
  shows "runner_reachable nw t M \<and> free_count t \<le> free_count r"
  using assms(1)
proof (induction "(t, M)" arbitrary: t M rule: rtranclp_induct)
  case base
  then show ?case using assms(3) by simp
next
  case (step y t M)
  obtain s N where y: "y = (s, N)" by (cases y)
  have s: "runner_reachable nw s N" "free_count s \<le> free_count r" using step.hyps(3) [OF y] by simp_all
  obtain R where R: "runner_inv nw s N R" using runner_reachable_inv [OF s(1) assms(2)] by blast
  have "runner_step nw (s, N) (t, M)" using step.hyps(2) y by simp
  from runner_step_reachable [OF this s(1)] runner_step_takes [OF this R] s(2) show ?case by auto
qed

lemma free_count_nonneg: "0 \<le> free_count r"
  by (simp add: free_count_def available_size_def split: option.split)

text \<open>Without live requests everything that is cached can be evicted.\<close>

lemma evict_idle:
  assumes inv: "runner_inv nw r {} R"
  shows "\<exists>e c. evict \<lparr>ep_num_tokens = rc_evictable_size (mr_radix_cache r)\<rparr> (mr_radix_cache r) = Return e c \<and>
    er_num_tokens_evicted e = int (card (cached_slots (cached (mr_radix_cache r))))"
proof -
  let ?c = "mr_radix_cache r" and ?p = "\<lparr>ep_num_tokens = rc_evictable_size (mr_radix_cache r)\<rparr>"
  note I = runner_invD(3) [OF inv]
  note h = core_invD(2) [OF I]
  obtain a where a: "rc_allocator ?c = Some a" by (rule runner_allocator [OF inv])
  obtain e c where e: "evict ?p ?c = Return e c" using evict_law [OF h, of ?p] by blast
  obtain xs where xs: "distinct xs" "set xs = cached_slots (cached ?c) - cached_slots (cached c)"
    "er_num_tokens_evicted e = int (length xs)"
    by (rule evict_releases [OF h core_invD(4) [OF I] e a])
  have "cached c ks = None" if "ks \<noteq> []" for ks
    by (rule evict_all [OF h e _ that]) (simp_all add: live_locks_def)
  then have "\<not> owns (cached c) ks x" for ks x by (cases "ks = []") (auto simp: owns_def)
  then have "cached_slots (cached c) = {}" by (auto simp: cached_slots_def)
  then have "length xs = card (cached_slots (cached ?c))" using xs(1,2) by (simp add: distinct_card [symmetric])
  with e xs(3) show ?thesis by (intro exI [of _ e] exI [of _ c]) simp
qed

text \<open>
  C37. No call of the runner ever gives a slot back: along any sequence of calls the free slots only
  get fewer. Once none is free, every decode step and every prefill of a prompt that is not cached
  completely raises \<open>MemoryError\<close> for ever, although, with no request live, evicting would free
  every cached slot: nothing in the package calls \<open>evict\<close>.
\<close>

theorem slots_never_return:
  fixes r t :: "('a, 'd, 'k) model_runner"
  assumes "mlx_laws (nw_mx nw) (nw_elt nw)" "runner_reachable nw r L" "(runner_step nw)\<^sup>*\<^sup>* (r, L) (t, M)"
  shows "free_count t \<le> free_count r \<and>
    (free_count r = 0 \<longrightarrow>
      (\<forall>i \<in> M. \<forall>tok. forward_decode (nw_calls nw) i tok t = Raise MemoryError t) \<and>
      (\<forall>rid prompt. cached (mr_radix_cache t) prompt = None \<longrightarrow>
        (\<exists>c. forward_prefill (nw_calls nw) rid prompt t = Raise MemoryError (t\<lparr>mr_radix_cache := c\<rparr>)))) \<and>
    (M = {} \<longrightarrow> (\<exists>e c. evict \<lparr>ep_num_tokens = rc_evictable_size (mr_radix_cache t)\<rparr> (mr_radix_cache t) = Return e c \<and>
      er_num_tokens_evicted e = int (card (cached_slots (cached (mr_radix_cache t))))))"
proof -
  have t: "runner_reachable nw t M" "free_count t \<le> free_count r"
    using runner_steps_take [OF assms(3,1,2)] by simp_all
  obtain R where inv: "runner_inv nw t M R" using runner_reachable_inv [OF t(1) assms(1)] by blast
  have "\<exists>c. forward_prefill (nw_calls nw) rid prompt t = Raise MemoryError (t\<lparr>mr_radix_cache := c\<rparr>)"
    if f: "free_count t = 0" and p: "cached (mr_radix_cache t) prompt = None" for rid prompt
  proof -
    have "cached (mr_radix_cache t) [] \<noteq> None" using cached_Nil by simp
    then have "prompt \<noteq> []" using p by auto
    moreover have "cached_len (mr_radix_cache t) prompt \<noteq> length prompt"
      using cached_len_cached [of "mr_radix_cache t" prompt] p by auto
    then have "free_count t < prefill_need prompt t"
      using cached_len_le [of "mr_radix_cache t" prompt] f by (simp add: prefill_need_def)
    ultimately show ?thesis using forward_prefill_full [OF inv, of prompt rid] by blast
  qed
  moreover have "forward_decode (nw_calls nw) i tok t = Raise MemoryError t" if "free_count t = 0" for i tok
    using forward_decode_full [OF inv, of i tok] that by simp
  moreover have "free_count t = 0" if "free_count r = 0" using t(2) free_count_nonneg [of t] that by simp
  ultimately show ?thesis using t(2) evict_idle [of nw t R] inv by blast
qed

theorem slots_never_return_witness:
  "\<exists>(r :: (arr, unit, unit) model_runner) t e d. (runner_step toy_network)\<^sup>*\<^sup>* (demo_runner, {}) (r, {}) \<and>
     free_count r = 0 \<and> forward_prefill (nw_calls toy_network) ''r1'' [9] r = Raise MemoryError t \<and>
     evict \<lparr>ep_num_tokens = rc_evictable_size (mr_radix_cache r)\<rparr> (mr_radix_cache r) = Return e d \<and>
     er_num_tokens_evicted e = 8"
proof -
  let ?p = "[1, 2, 3, 4, 5, 6, 7, 8] :: token list"
  obtain st :: request_state and s :: "(arr, unit, unit) model_runner" where
    s: "forward_prefill toy_calls ''r0'' ?p demo_runner =
       Return (0, \<lparr>fr_logits = nw_logits toy_network ?p, fr_forward_mode = PREFILL\<rparr>) s"
    "runner_reachable toy_network s {0}" "runner_inv toy_network s {0} {}" "free_count s = 8 - int (length ?p)"
    "cached (mr_radix_cache s) ?p = Some (rq_all_slot_indices st)"
    "\<And>ks. cached (mr_radix_cache s) ks \<noteq> None \<longleftrightarrow> prefix ks ?p" "mr_states s = [st]" "rq_prompt_tokens st = ?p"
     "rq_output_tokens st = []"
    by (rule demo_prefill [of ?p]) (simp, simp, (rule that; assumption))
  obtain u where u: "finish_request 0 s = Return () u" "free_count u = 0" "cached (mr_radix_cache u) = cached (mr_radix_cache s)"
    "runner_inv toy_network u {} (private_slots 0 {0} s)" "mr_pool u = mr_pool s"
    using finish_request_ok [OF s(3) singletonI] s(4) by (auto simp: free_count_def)
  let ?c = "mr_radix_cache s" and ?all = "rq_all_slot_indices st"
  note I = runner_invD(3) [OF s(3)]
  note h = core_invD(2) [OF I]
  have st: "mr_states s ! 0 = st" by (simp add: s(7))
  have all: "distinct ?all" "length ?all = 8"
    using core_invD(7) [OF I singletonI] s(8,9) by (simp_all add: st request_inv_def rq_tokens_def)
  have "cached_slots (cached ?c) = set ?all"
  proof
    show "cached_slots (cached ?c) \<subseteq> set ?all"
    proof
      fix x
      assume "x \<in> cached_slots (cached ?c)"
      then obtain ks where ks: "owns (cached ?c) ks x" by (auto simp: cached_slots_def)
      then obtain ws where ws: "cached ?c ks = Some (ws @ [x])" by (auto simp: owns_def)
      then have "prefix ks ?p" using s(6) [of ks] by simp
      then have "cached ?c ks = Some (take (length ks) ?all)" by (rule healthy_cached_closed [OF h s(5)])
      then have "take (length ks) ?all = ws @ [x]" using ws by simp
      then have "x \<in> set (take (length ks) ?all)" by simp
      then show "x \<in> set ?all" by (rule in_set_takeD)
    qed
    show "set ?all \<subseteq> cached_slots (cached ?c)"
    proof
      fix x
      assume "x \<in> set ?all"
      then obtain i where i: "i < length ?all" "x = ?all ! i" by (auto simp: in_set_conv_nth)
      then have "i < length ?p" using all(2) by simp
      from radix_pool.owns_nth [OF h s(5) this] i(2) show "x \<in> cached_slots (cached ?c)"
        using owns_cached by blast
    qed
  qed
  then have card: "card (cached_slots (cached (mr_radix_cache u))) = 8"
    using all by (simp add: u(3) distinct_card)
  have calls: "nw_calls toy_network = toy_calls" by (simp add: toy_network_def)
  have "runner_step toy_network (demo_runner, {}) (s, {0})"
    using step_prefill [where nw = toy_network and L = "{}", OF _ s(1) [folded calls]] by simp
  moreover have "runner_step toy_network (s, {0}) (u, {})"
    using step_finish [OF _ u(1), of "{0}"] by simp
  ultimately have run: "(runner_step toy_network)\<^sup>*\<^sup>* (demo_runner, {}) (u, {})"
    by (rule rtranclp.rtrancl_into_rtrancl [OF r_into_rtranclp])
  have reach: "runner_reachable toy_network u {}"
    using runner_steps_take [OF run demo_laws demo_runner_reachable] by simp
  have none: "cached (mr_radix_cache u) [9] = None" using s(6) [of "[9]"] by (simp add: u(3))
  note lost = slots_never_return [OF demo_laws reach rtranclp.rtrancl_refl]
  obtain c where "forward_prefill (nw_calls toy_network) ''r1'' [9] u = Raise MemoryError (u\<lparr>mr_radix_cache := c\<rparr>)"
    using lost u(2) none by blast
  moreover obtain e d where "evict \<lparr>ep_num_tokens = rc_evictable_size (mr_radix_cache u)\<rparr> (mr_radix_cache u) = Return e d"
    "er_num_tokens_evicted e = 8"
    using lost card by auto
  ultimately show ?thesis using run u(2) by blast
qed
end
