(* ===== verification/Kernel_Machine.thy ===== *)
theory Kernel_Machine
  imports Py_Prelude
begin

text \<open>
  The machine the compute kernels run on. A launch starts many threads at once and says nothing
  about their order: each thread has a list of moves, a move reads an entry of a buffer and later
  writes it, converted, to another, and the reads and writes of all threads interleave in any way.
  A launch is free of races when no entry is written from two different sources, and none that is
  written is also read; then every run ends, with the same memory.
\<close>

section \<open>Machine integers\<close>

text \<open>The values of the 32-bit and 64-bit signed integers, as integers.\<close>

definition i32 :: "int \<Rightarrow> int" where
  "i32 k = signed_take_bit 31 k"

definition i64 :: "int \<Rightarrow> int" where
  "i64 k = signed_take_bit 63 k"

lemma i32_id: "- (2 ^ 31) \<le> k \<Longrightarrow> k < 2 ^ 31 \<Longrightarrow> i32 k = k"
  unfolding i32_def by (rule signed_take_bit_int_eq_self)

lemma i64_id: "- (2 ^ 63) \<le> k \<Longrightarrow> k < 2 ^ 63 \<Longrightarrow> i64 k = k"
  unfolding i64_def by (rule signed_take_bit_int_eq_self)

section \<open>Threads\<close>

text \<open>
  \<open>'l\<close> are the entries of all buffers. A move is its target and its source; a thread is the value
  it has read and not yet written, and the moves it has left.
\<close>

type_synonym 'l move = "'l \<times> 'l"
type_synonym ('l, 'e) kthread = "('l \<times> 'e) option \<times> 'l move list"
type_synonym ('l, 'e) kstate = "('l \<Rightarrow> 'e) \<times> ('l, 'e) kthread list"

inductive kernel_step :: "('e \<Rightarrow> 'e) \<Rightarrow> ('l, 'e) kstate \<Rightarrow> ('l, 'e) kstate \<Rightarrow> bool"
  for conv where
  fetch: "i < length ts \<Longrightarrow> ts ! i = (None, (d, s) # ms) \<Longrightarrow>
    kernel_step conv (m, ts) (m, ts[i := (Some (d, conv (m s)), ms)])"
| commit: "i < length ts \<Longrightarrow> ts ! i = (Some (d, v), ms) \<Longrightarrow>
    kernel_step conv (m, ts) (m(d := v), ts[i := (None, ms)])"

inductive_cases kernel_stepE: "kernel_step conv (m, ts) c"

definition idle :: "('l, 'e) kthread list \<Rightarrow> bool" where
  "idle ts \<longleftrightarrow> (\<forall>t \<in> set ts. t = (None, []))"

text \<open>The launch of threads with the moves \<open>mss\<close> can turn the memory \<open>m\<close> into \<open>m'\<close>.\<close>

definition launch :: "('e \<Rightarrow> 'e) \<Rightarrow> 'l move list list \<Rightarrow> ('l \<Rightarrow> 'e) \<Rightarrow> ('l \<Rightarrow> 'e) \<Rightarrow> bool" where
  "launch conv mss m m' \<longleftrightarrow>
     (\<exists>ts. (kernel_step conv)\<^sup>*\<^sup>* (m, map (Pair None) mss) (m', ts) \<and> idle ts)"

section \<open>Every launch ends\<close>

definition work :: "('l, 'e) kthread list \<Rightarrow> nat" where
  "work ts = (\<Sum>(p, ms) \<leftarrow> ts. 2 * length ms + (if p = None then 0 else 1))"

lemma work_update:
  assumes "i < length ts"
  shows "work (ts[i := t]) + work [ts ! i] = work ts + work [t]"
  using assms
proof (induction ts arbitrary: i)
  case (Cons u ts)
  then show ?case by (cases i) (auto simp: work_def)
qed simp

lemma kernel_step_work:
  assumes "kernel_step conv (m, ts) (m', ts')"
  shows "work ts' < work ts"
  using assms
proof (cases rule: kernel_step.cases)
  case (fetch i d s ms)
  then show ?thesis using work_update [of i ts "(Some (d, conv (m s)), ms)"] by (simp add: work_def)
next
  case (commit i d v ms)
  then show ?thesis using work_update [of i ts "(None, ms)"] by (simp add: work_def)
qed

lemma kernel_progress:
  assumes "\<not> idle ts"
  shows "\<exists>c. kernel_step conv (m, ts) c"
proof -
  obtain i where i: "i < length ts" "ts ! i \<noteq> (None, [])"
    using assms by (metis idle_def in_set_conv_nth)
  obtain p ms where t: "ts ! i = (p, ms)" by fastforce
  show ?thesis
  proof (cases p)
    case None
    then obtain d s ms' where "ms = (d, s) # ms'" using i(2) t by (cases ms) auto
    with kernel_step.fetch [OF i(1)] t None show ?thesis by blast
  next
    case (Some w)
    then obtain d v where "p = Some (d, v)" by (cases w) simp
    with kernel_step.commit [OF i(1)] t show ?thesis by blast
  qed
qed

lemma kernel_ends: "\<exists>m' ts'. (kernel_step conv)\<^sup>*\<^sup>* (m, ts) (m', ts') \<and> idle ts'"
proof (induction "work ts" arbitrary: m ts rule: less_induct)
  case less
  show ?case
  proof (cases "idle ts")
    case False
    then obtain m1 ts1 where s: "kernel_step conv (m, ts) (m1, ts1)"
      using kernel_progress by (metis surj_pair)
    from less [OF kernel_step_work [OF s], of m1] s show ?thesis
      by (meson converse_rtranclp_into_rtranclp)
  qed blast
qed

lemma launch_ends: "\<exists>m'. launch conv mss m m'"
  using kernel_ends unfolding launch_def by blast

section \<open>Freedom of races\<close>

definition race_free :: "'l move list \<Rightarrow> bool" where
  "race_free ms \<longleftrightarrow>
     (\<forall>d s s'. (d, s) \<in> set ms \<longrightarrow> (d, s') \<in> set ms \<longrightarrow> s = s') \<and> fst ` set ms \<inter> snd ` set ms = {}"

text \<open>The memory after all moves, each from the memory before.\<close>

definition moved :: "('e \<Rightarrow> 'e) \<Rightarrow> 'l move list \<Rightarrow> ('l \<Rightarrow> 'e) \<Rightarrow> ('l \<Rightarrow> 'e)" where
  "moved conv ms m l = (case map_of ms l of None \<Rightarrow> m l | Some s \<Rightarrow> conv (m s))"

lemma moved_in: "race_free ms \<Longrightarrow> (d, s) \<in> set ms \<Longrightarrow> moved conv ms m d = conv (m s)"
  unfolding moved_def race_free_def
  by (metis (no_types, lifting) map_of_SomeD option.case(2) weak_map_of_SomeI)

lemma moved_out: "l \<notin> fst ` set ms \<Longrightarrow> moved conv ms m l = m l"
  by (simp add: moved_def map_of_eq_None_iff [THEN iffD2])

text \<open>A thread is sound if what it has read and what it has left come from the moves.\<close>

definition sound :: "('e \<Rightarrow> 'e) \<Rightarrow> 'l move list \<Rightarrow> ('l \<Rightarrow> 'e) \<Rightarrow> ('l, 'e) kthread \<Rightarrow> bool" where
  "sound conv ms m t \<longleftrightarrow> set (snd t) \<subseteq> set ms \<and>
     (\<forall>d v. fst t = Some (d, v) \<longrightarrow> (\<exists>s. (d, s) \<in> set ms \<and> v = conv (m s)))"

definition due :: "('e \<Rightarrow> 'e) \<Rightarrow> ('l \<Rightarrow> 'e) \<Rightarrow> 'l move \<Rightarrow> ('l, 'e) kthread \<Rightarrow> bool" where
  "due conv m x t \<longleftrightarrow> x \<in> set (snd t) \<or> fst t = Some (fst x, conv (m (snd x)))"

definition run_inv :: "('e \<Rightarrow> 'e) \<Rightarrow> 'l move list \<Rightarrow> ('l \<Rightarrow> 'e) \<Rightarrow> ('l, 'e) kstate \<Rightarrow> bool" where
  "run_inv conv ms m c \<longleftrightarrow>
     (\<forall>l. l \<notin> fst ` set ms \<longrightarrow> fst c l = m l) \<and>
     (\<forall>k < length (snd c). sound conv ms m (snd c ! k)) \<and>
     (\<forall>x \<in> set ms. fst c (fst x) = conv (m (snd x)) \<or> (\<exists>k < length (snd c). due conv m x (snd c ! k)))"

lemma run_invD:
  assumes "run_inv conv ms m (m', ts)"
  shows "l \<notin> fst ` set ms \<Longrightarrow> m' l = m l" "k < length ts \<Longrightarrow> sound conv ms m (ts ! k)"
    "x \<in> set ms \<Longrightarrow> m' (fst x) = conv (m (snd x)) \<or> (\<exists>k < length ts. due conv m x (ts ! k))"
  using assms unfolding run_inv_def fst_conv snd_conv by blast+

lemma run_inv_step:
  assumes rf: "race_free ms" and inv: "run_inv conv ms m c" and s: "kernel_step conv c c'"
  shows "run_inv conv ms m c'"
  using s
proof (cases rule: kernel_step.cases)
  case (fetch i ts d s us m1)
  have snd: "sound conv ms m (None, (d, s) # us)"
    using inv fetch by (auto simp: run_inv_def)
  then have ds: "(d, s) \<in> set ms" by (simp add: sound_def)
  then have "s \<in> snd ` set ms" by force
  then have "s \<notin> fst ` set ms" using rf unfolding race_free_def by blast
  then have m1: "m1 s = m s" by (rule run_invD(1) [OF inv [unfolded fetch(1)]])
  note inv' = run_invD [OF inv [unfolded fetch(1)]]
  let ?ts = "ts[i := (Some (d, conv (m1 s)), us)]"
  have "sound conv ms m (Some (d, conv (m1 s)), us)" using snd ds m1 by (auto simp: sound_def)
  then have "sound conv ms m (?ts ! k)" if "k < length ts" for k
    using inv'(2) that fetch(3) by (simp add: nth_list_update)
  moreover have keep: "due conv m x (?ts ! k)" if "due conv m x (ts ! k)" for k x
    using that m1 fetch(3,4) by (cases "i = k") (auto simp: due_def)
  have "m1 (fst x) = conv (m (snd x)) \<or> (\<exists>k < length ts. due conv m x (?ts ! k))" if "x \<in> set ms" for x
    using inv'(3) [OF that] keep by blast
  ultimately show ?thesis using inv'(1) unfolding fetch(2) run_inv_def by simp
next
  case (commit i ts d v us m1)
  have snd: "sound conv ms m (Some (d, v), us)"
    using inv commit by (auto simp: run_inv_def)
  then obtain s where ds: "(d, s) \<in> set ms" "v = conv (m s)" by (auto simp: sound_def)
  have ok: "(m1(d := v)) (fst x) = conv (m (snd x)) \<or>
      (\<exists>k < length ts. due conv m x (ts[i := (None, us)] ! k))" if x: "x \<in> set ms" for x
  proof (cases "fst x = d")
    case True
    then have "snd x = s" using rf ds(1) x unfolding race_free_def by (metis prod.collapse)
    with True ds(2) show ?thesis by simp
  next
    case False
    then have "due conv m x (None, us)" if "due conv m x (Some (d, v), us)"
      using that by (auto simp: due_def)
    moreover have "m1 (fst x) = conv (m (snd x)) \<or> (\<exists>k < length ts. due conv m x (ts ! k))"
      by (rule run_invD(3) [OF inv [unfolded commit(1)] x])
    ultimately show ?thesis using False commit by (auto simp: nth_list_update) metis
  qed
  have "sound conv ms m (None, us)" using snd by (simp add: sound_def)
  moreover have "d \<in> fst ` set ms" using ds(1) by force
  ultimately show ?thesis
    using inv commit ok by (auto simp: run_inv_def nth_list_update)
qed

lemma run_inv_start: "run_inv conv (concat mss) m (m, map (Pair None) mss)"
proof -
  have "\<exists>k < length mss. due conv m x (map (Pair None) mss ! k)" if "x \<in> set (concat mss)" for x
  proof -
    obtain ms where "ms \<in> set mss" "x \<in> set ms" using \<open>x \<in> set (concat mss)\<close> by auto
    then obtain k where "k < length mss" "x \<in> set (mss ! k)" by (metis in_set_conv_nth)
    then show ?thesis by (intro exI [of _ k]) (simp add: due_def)
  qed
  moreover have "set (mss ! k) \<subseteq> set (concat mss)" if "k < length mss" for k
    using nth_mem [OF that] by auto
  ultimately show ?thesis unfolding run_inv_def fst_conv snd_conv sound_def by simp
qed

lemma launch_moved:
  assumes rf: "race_free (concat mss)" and l: "launch conv mss m m'"
  shows "m' = moved conv (concat mss) m"
proof -
  let ?ms = "concat mss"
  obtain ts where ts: "(kernel_step conv)\<^sup>*\<^sup>* (m, map (Pair None) mss) (m', ts)" "idle ts"
    using l by (auto simp: launch_def)
  have "run_inv conv ?ms m (m, map (Pair None) mss)"
    by (rule run_inv_start)
  with ts(1) have inv: "run_inv conv ?ms m (m', ts)"
    by (induction rule: rtranclp_induct) (auto intro: run_inv_step [OF rf])
  have none: "\<not> due conv m x (ts ! k)" if "k < length ts" for x k
    using that ts(2) by (auto simp: idle_def due_def dest!: nth_mem)
  show ?thesis
  proof
    fix l
    show "m' l = moved conv ?ms m l"
    proof (cases "l \<in> fst ` set ?ms")
      case True
      then obtain s where s: "(l, s) \<in> set ?ms" by force
      then have "m' l = conv (m s)" using run_invD(3) [OF inv s] none by auto
      then show ?thesis using moved_in [OF rf s, of conv m] by simp
    next
      case False
      then show ?thesis using run_invD(1) [OF inv] moved_out by metis
    qed
  qed
qed

text \<open>A launch without races has exactly one outcome.\<close>

lemma race_free_launch: "race_free (concat mss) \<Longrightarrow> launch conv mss m m' \<longleftrightarrow> m' = moved conv (concat mss) m"
  using launch_moved launch_ends by metis

end
