(* ===== verification/Thread_Groups.thy ===== *)
theory Thread_Groups
  imports Kernel_Machine
begin

text \<open>
  Programs of thread groups. The threads of a group share memory, run in any order between two
  barriers, and the lanes of a warp exchange values in a shuffle, which they make together. A
  program is built from assignments by sequential and parallel composition: barriers and shuffles
  are sequential compositions of parallel parts. When the parts of every parallel composition have
  separate footprints, all runs end, and all with the memory of the sequential run.
\<close>

section \<open>Expressions and assignments\<close>

text \<open>\<open>'l\<close> are the locations (registers and entries of shared and device memory), \<open>'e\<close> their values.\<close>

datatype ('l, 'e) kexp =
    Load 'l
  | Const 'e
  | Unop "'e \<Rightarrow> 'e" "('l, 'e) kexp"
  | Binop "'e \<Rightarrow> 'e \<Rightarrow> 'e" "('l, 'e) kexp" "('l, 'e) kexp"

primrec value_of :: "('l, 'e) kexp \<Rightarrow> ('l \<Rightarrow> 'e) \<Rightarrow> 'e" where
  "value_of (Load l) m = m l"
| "value_of (Const v) m = v"
| "value_of (Unop f e) m = f (value_of e m)"
| "value_of (Binop f e e') m = f (value_of e m) (value_of e' m)"

primrec loads :: "('l, 'e) kexp \<Rightarrow> 'l set" where
  "loads (Load l) = {l}"
| "loads (Const v) = {}"
| "loads (Unop f e) = loads e"
| "loads (Binop f e e') = loads e \<union> loads e'"

lemma value_of_cong: "(\<And>l. l \<in> loads e \<Longrightarrow> m l = m' l) \<Longrightarrow> value_of e m = value_of e m'"
  by (induction e) auto

text \<open>An instruction assigns to several locations at once.\<close>

type_synonym ('l, 'e) instr = "('l \<times> ('l, 'e) kexp) list"

definition assign :: "('l, 'e) instr \<Rightarrow> ('l \<Rightarrow> 'e) \<Rightarrow> ('l \<Rightarrow> 'e)" where
  "assign a m l = (case map_of a l of None \<Rightarrow> m l | Some e \<Rightarrow> value_of e m)"

lemma assign_single: "assign [(r, e)] m = m(r := value_of e m)"
  by (auto simp: assign_def)

section \<open>Programs\<close>

datatype ('l, 'e) prog =
    Act "('l, 'e) instr"
  | Seq "('l, 'e) prog list"
  | Par "('l, 'e) prog list"

abbreviation set_to :: "'l \<Rightarrow> ('l, 'e) kexp \<Rightarrow> ('l, 'e) prog" where
  "set_to r e \<equiv> Act [(r, e)]"

fun finished :: "('l, 'e) prog \<Rightarrow> bool" where
  "finished (Act a) \<longleftrightarrow> False"
| "finished (Seq ps) \<longleftrightarrow> list_all finished ps"
| "finished (Par ps) \<longleftrightarrow> list_all finished ps"

text \<open>A step of a parallel composition is a step of any of its parts.\<close>

inductive prog_step :: "('l \<Rightarrow> 'e) \<times> ('l, 'e) prog \<Rightarrow> ('l \<Rightarrow> 'e) \<times> ('l, 'e) prog \<Rightarrow> bool" where
  act: "prog_step (m, Act a) (assign a m, Seq [])"
| first: "prog_step (m, p) (m', p') \<Longrightarrow> prog_step (m, Seq (p # ps)) (m', Seq (p' # ps))"
| rest: "finished p \<Longrightarrow> prog_step (m, Seq (p # ps)) (m, Seq ps)"
| part: "i < length ps \<Longrightarrow> prog_step (m, ps ! i) (m', p') \<Longrightarrow> prog_step (m, Par ps) (m', Par (ps[i := p']))"

definition runs_to :: "('l, 'e) prog \<Rightarrow> ('l \<Rightarrow> 'e) \<Rightarrow> ('l \<Rightarrow> 'e) \<Rightarrow> bool" where
  "runs_to p m m' \<longleftrightarrow> (\<exists>p'. prog_step\<^sup>*\<^sup>* (m, p) (m', p') \<and> finished p')"

section \<open>Every run ends\<close>

fun prog_size :: "('l, 'e) prog \<Rightarrow> nat" where
  "prog_size (Act a) = 2"
| "prog_size (Seq ps) = Suc (sum_list (map prog_size ps))"
| "prog_size (Par ps) = Suc (sum_list (map prog_size ps))"

lemma prog_size_pos: "0 < prog_size p"
  by (cases p) simp_all

lemma prog_step_size: "prog_step c c' \<Longrightarrow> prog_size (snd c') < prog_size (snd c)"
proof (induction rule: prog_step.induct)
  case (rest p m ps)
  then show ?case using prog_size_pos [of p] by simp
next
  case (part i ps m m' p')
  have "ps = take i ps @ ps ! i # drop (Suc i) ps" using part.hyps(1) by (rule id_take_nth_drop)
  then have "sum_list (map prog_size ps) =
      sum_list (map prog_size (take i ps)) + prog_size (ps ! i) + sum_list (map prog_size (drop (Suc i) ps))"
    by (metis (no_types, lifting) add.assoc list.simps(9) map_append sum_list.Cons sum_list.append)
  then show ?case
    using part by (simp add: upd_conv_take_nth_drop)
qed simp_all

lemma prog_progress: "\<not> finished p \<Longrightarrow> \<exists>c. prog_step (m, p) c"
proof (induction p rule: finished.induct)
  case (1 a)
  show ?case using prog_step.act by blast
next
  case (2 ps)
  then obtain p qs where ps: "ps = p # qs" by (cases ps) auto
  show ?case
  proof (cases "finished p")
    case False
    then obtain m' p' where "prog_step (m, p) (m', p')" using 2(1) ps by (metis list.set_intros(1) surj_pair)
    then show ?thesis unfolding ps using prog_step.first by blast
  qed (use ps prog_step.rest in blast)
next
  case (3 ps)
  then obtain i where i: "i < length ps" "\<not> finished (ps ! i)" by (auto simp: list_all_length)
  then obtain m' p' where "prog_step (m, ps ! i) (m', p')" using 3(1) by (metis nth_mem surj_pair)
  with i(1) show ?case using prog_step.part by blast
qed

lemma prog_ends: "\<exists>m'. runs_to p m m'"
proof (induction "prog_size p" arbitrary: p m rule: less_induct)
  case less
  show ?case
  proof (cases "finished p")
    case False
    then obtain m1 p1 where s: "prog_step (m, p) (m1, p1)" using prog_progress by (metis surj_pair)
    from less [of p1 m1] prog_step_size [OF s] s show ?thesis
      unfolding runs_to_def by (metis converse_rtranclp_into_rtranclp snd_conv)
  next
    case True
    then show ?thesis unfolding runs_to_def by blast
  qed
qed

section \<open>Footprints and the sequential run\<close>

fun den :: "('l, 'e) prog \<Rightarrow> ('l \<Rightarrow> 'e) \<Rightarrow> ('l \<Rightarrow> 'e)" where
  "den (Act a) m = assign a m"
| "den (Seq ps) m = fold den ps m"
| "den (Par ps) m = fold den ps m"

fun writes :: "('l, 'e) prog \<Rightarrow> 'l set" where
  "writes (Act a) = fst ` set a"
| "writes (Seq ps) = (\<Union>p \<in> set ps. writes p)"
| "writes (Par ps) = (\<Union>p \<in> set ps. writes p)"

fun reads :: "('l, 'e) prog \<Rightarrow> 'l set" where
  "reads (Act a) = (\<Union>(r, e) \<in> set a. loads e)"
| "reads (Seq ps) = (\<Union>p \<in> set ps. reads p)"
| "reads (Par ps) = (\<Union>p \<in> set ps. reads p)"

definition separate :: "('l, 'e) prog \<Rightarrow> ('l, 'e) prog \<Rightarrow> bool" where
  "separate p q \<longleftrightarrow> writes p \<inter> writes q = {} \<and> writes p \<inter> reads q = {} \<and> reads p \<inter> writes q = {}"

text \<open>
  Freedom of races: the parts of every parallel composition have separate footprints, so that it does
  not matter either that a step makes a whole assignment at once.
\<close>

fun apart :: "('l, 'e) prog \<Rightarrow> bool" where
  "apart (Act a) \<longleftrightarrow> True"
| "apart (Seq ps) \<longleftrightarrow> list_all apart ps"
| "apart (Par ps) \<longleftrightarrow> list_all apart ps \<and>
     (\<forall>i < length ps. \<forall>j < length ps. i \<noteq> j \<longrightarrow> separate (ps ! i) (ps ! j))"

text \<open>A transformation of memories changes only \<open>W\<close>, to values that depend only on \<open>R\<close>.\<close>

definition local_to :: "'l set \<Rightarrow> 'l set \<Rightarrow> (('l \<Rightarrow> 'e) \<Rightarrow> ('l \<Rightarrow> 'e)) \<Rightarrow> bool" where
  "local_to R W f \<longleftrightarrow> (\<forall>m l. l \<notin> W \<longrightarrow> f m l = m l) \<and>
     (\<forall>m m' l. (\<forall>r \<in> R. m r = m' r) \<longrightarrow> l \<in> W \<longrightarrow> f m l = f m' l)"

lemma local_toD:
  assumes "local_to R W f"
  shows "l \<notin> W \<Longrightarrow> f m l = m l" "(\<And>r. r \<in> R \<Longrightarrow> m r = m' r) \<Longrightarrow> l \<in> W \<Longrightarrow> f m l = f m' l"
  using assms unfolding local_to_def by blast+

lemma local_to_comp:
  assumes "local_to R W f" "local_to R' W' g"
  shows "local_to (R \<union> R') (W \<union> W') (\<lambda>m. g (f m))"
  unfolding local_to_def
proof (intro conjI allI impI)
  fix m m' :: "'a \<Rightarrow> 'b" and l
  show "g (f m) l = m l" if "l \<notin> W \<union> W'"
    using that local_toD(1) [OF assms(1)] local_toD(1) [OF assms(2)] by simp
  assume eq: "\<forall>r \<in> R \<union> R'. m r = m' r" and l: "l \<in> W \<union> W'"
  have same: "f m r = f m' r" if "r \<in> W \<or> r \<in> R \<union> R'" for r
  proof (cases "r \<in> W")
    case True
    show ?thesis by (rule local_toD(2) [OF assms(1) _ True]) (use eq in blast)
  next
    case False
    then have "r \<in> R \<union> R'" using that by blast
    then show ?thesis using eq local_toD(1) [OF assms(1) False] by simp
  qed
  show "g (f m) l = g (f m') l"
  proof (cases "l \<in> W'")
    case True
    show ?thesis by (rule local_toD(2) [OF assms(2) _ True]) (use same in blast)
  qed (use l same local_toD(1) [OF assms(2)] in auto)
qed

lemma local_commute:
  assumes "local_to R W f" "local_to R' W' g" "W \<inter> W' = {}" "W \<inter> R' = {}" "R \<inter> W' = {}"
  shows "g (f m) = f (g m)"
proof
  fix l
  note f = local_toD [OF assms(1)] and g = local_toD [OF assms(2)]
  consider "l \<in> W" | "l \<in> W'" "l \<notin> W" | "l \<notin> W" "l \<notin> W'" by blast
  then show "g (f m) l = f (g m) l"
  proof cases
    case 1
    have "f m l = f (g m) l"
    proof (rule f(2) [OF _ 1])
      fix r assume "r \<in> R"
      then have "r \<notin> W'" using assms(5) by blast
      then show "m r = g m r" using g(1) by simp
    qed
    moreover have "l \<notin> W'" using 1 assms(3) by blast
    ultimately show ?thesis using g(1) by simp
  next
    case 2
    have "g m l = g (f m) l"
    proof (rule g(2) [OF _ 2(1)])
      fix r assume "r \<in> R'"
      then have "r \<notin> W" using assms(4) by blast
      then show "m r = f m r" using f(1) by simp
    qed
    then show ?thesis using 2(2) f(1) by simp
  qed (simp add: f(1) g(1))
qed

lemma local_assign: "local_to (reads (Act a)) (writes (Act a)) (assign a)"
proof -
  have "value_of e m = value_of e m'"
    if "\<forall>r \<in> reads (Act a). m r = m' r" "map_of a l = Some e" for m m' l e
    by (rule value_of_cong) (use that map_of_SomeD [OF that(2)] in auto)
  moreover have "\<exists>e. map_of a l = Some e" if "l \<in> writes (Act a)" for l
    using that by (metis map_of_eq_None_iff not_None_eq writes.simps(1))
  moreover have "map_of a l = None" if "l \<notin> writes (Act a)" for l
    using that by (simp add: map_of_eq_None_iff)
  ultimately show ?thesis
    unfolding local_to_def assign_def by (fastforce split: option.splits)
qed

lemma local_den: "local_to (reads p) (writes p) (den p)"
proof -
  have seq: "local_to (\<Union>p \<in> set ps. reads p) (\<Union>p \<in> set ps. writes p) (fold den ps)"
    if "\<And>p. p \<in> set ps \<Longrightarrow> local_to (reads p) (writes p) (den p)" for ps :: "('a, 'b) prog list"
    using that
  proof (induction ps)
    case (Cons p ps)
    from local_to_comp [OF Cons.prems [of p] Cons.IH [OF Cons.prems]] show ?case by (simp add: comp_def)
  qed (simp add: local_to_def)
  have ext: "den (Seq ps) = fold den ps" "den (Par ps) = fold den ps" "den (Act a) = assign a"
    for ps :: "('a, 'b) prog list" and a
    by auto
  show ?thesis
    by (induction p rule: writes.induct) (simp_all only: ext local_assign seq writes.simps(2,3) reads.simps(2,3))
qed

lemmas den_frame = local_toD(1) [OF local_den]
lemmas den_cong = local_toD(2) [OF local_den]

lemma separate_commute: "separate p q \<Longrightarrow> den q (den p m) = den p (den q m)"
  unfolding separate_def by (intro local_commute [OF local_den local_den]) auto

lemma fold_commute:
  assumes "\<And>q. q \<in> set ps \<Longrightarrow> separate q p"
  shows "fold den ps (den p m) = den p (fold den ps m)"
  using assms
proof (induction ps arbitrary: m)
  case (Cons q ps)
  have "den q (den p m) = den p (den q m)" by (rule separate_commute [symmetric]) (simp add: Cons.prems)
  with Cons show ?case by simp
qed simp

section \<open>Every run has the result of the sequential run\<close>

lemma separate_mono:
  assumes "separate p q" "writes p' \<subseteq> writes p" "reads p' \<subseteq> reads p"
  shows "separate p' q" "separate q p'"
  using assms unfolding separate_def by blast+

lemma separate_sym: "separate p q \<Longrightarrow> separate q p"
  unfolding separate_def by blast

lemma prog_step_footprint: "prog_step c c' \<Longrightarrow> writes (snd c') \<subseteq> writes (snd c) \<and> reads (snd c') \<subseteq> reads (snd c)"
proof (induction rule: prog_step.induct)
  case (first m p m' p' ps)
  then show ?case by (simp only: snd_conv writes.simps reads.simps list.set UN_insert) blast
next
  case (rest p m ps)
  show ?case by (simp only: snd_conv writes.simps reads.simps list.set UN_insert) blast
next
  case (part i ps m m' p')
  then have "set (ps[i := p']) \<subseteq> insert p' (set ps)" "ps ! i \<in> set ps"
    using set_update_subset_insert [of ps i p'] by simp_all
  with part.IH show ?case by (simp only: snd_conv writes.simps reads.simps) blast
qed simp

lemma finished_den: "finished p \<Longrightarrow> den p m = m"
proof -
  have "fold den ps m = m" if "\<And>p m. p \<in> set ps \<Longrightarrow> den p m = m" for ps :: "('a, 'b) prog list" and m
    using that by (induction ps) simp_all
  then show "finished p \<Longrightarrow> den p m = m"
    by (induction p arbitrary: m rule: finished.induct) (simp_all add: list_all_iff)
qed

lemma prog_step_den:
  "prog_step c c' \<Longrightarrow> apart (snd c) \<Longrightarrow> apart (snd c') \<and> den (snd c') (fst c') = den (snd c) (fst c)"
proof (induction rule: prog_step.induct)
  case (rest p m ps)
  then show ?case by (simp add: finished_den)
next
  case (part i ps m m' p')
  let ?xs = "take i ps" and ?ys = "drop (Suc i) ps" and ?p = "ps ! i"
  have ps: "ps = ?xs @ ?p # ?ys" using part.hyps(1) by (rule id_take_nth_drop)
  have upd: "ps[i := p'] = ?xs @ p' # ?ys" using part.hyps(1) by (rule upd_conv_take_nth_drop)
  have ap: "list_all apart ps" and sep: "\<And>j k. j < length ps \<Longrightarrow> k < length ps \<Longrightarrow> j \<noteq> k \<Longrightarrow> separate (ps ! j) (ps ! k)"
    using part.prems by auto
  have p: "apart ?p" using ap part.hyps(1) by (simp add: list_all_length)
  from part.IH p have p': "apart p'" "den p' m' = den ?p m" by simp_all
  have foot: "writes p' \<subseteq> writes ?p" "reads p' \<subseteq> reads ?p"
    using prog_step_footprint [OF part.hyps(2)] by simp_all
  have sep': "separate p' (ps ! j)" "separate (ps ! j) p'" if "j < length ps" "j \<noteq> i" for j
    using separate_mono [OF sep [OF part.hyps(1) that(1)] foot] that(2) by auto
  have left: "separate q p'" "separate q ?p" if q: "q \<in> set ?xs" for q
  proof -
    obtain j where "j < length ?xs" "?xs ! j = q" using q unfolding in_set_conv_nth by blast
    then have "j < i" "q = ps ! j" using part.hyps(1) by simp_all
    with sep' [of j] sep [of j i] part.hyps(1) show "separate q p'" "separate q ?p" by simp_all
  qed
  have "fold den (ps[i := p']) m' = fold den ?ys (den p' (fold den ?xs m'))" by (simp add: upd)
  also have "\<dots> = fold den ?ys (fold den ?xs (den p' m'))" using fold_commute [of ?xs p'] left(1) by simp
  also have "\<dots> = fold den ?ys (fold den ?xs (den ?p m))" by (simp only: p'(2))
  also have "\<dots> = fold den ?ys (den ?p (fold den ?xs m))" using fold_commute [of ?xs ?p] left(2) by simp
  also have "\<dots> = fold den ps m" by (subst (3) ps) simp
  finally have "den (Par (ps[i := p'])) m' = den (Par ps) m" by simp
  moreover have "apart (Par (ps[i := p']))"
  proof -
    have "list_all apart (ps[i := p'])"
      using ap p'(1) part.hyps(1) by (simp add: list_all_length nth_list_update)
    moreover have "separate (ps[i := p'] ! j) (ps[i := p'] ! k)"
      if "j < length ps" "k < length ps" "j \<noteq> k" for j k
      using that sep sep' part.hyps(1) by (auto simp: nth_list_update)
    ultimately show ?thesis by simp
  qed
  ultimately show ?case by simp
qed simp_all

lemma run_den:
  assumes "apart p" "runs_to p m m'"
  shows "m' = den p m"
proof -
  obtain p' where run: "prog_step\<^sup>*\<^sup>* (m, p) (m', p')" and fin: "finished p'"
    using assms(2) unfolding runs_to_def by blast
  have "apart (snd (m', p')) \<and> den (snd (m', p')) (fst (m', p')) = den p m"
    using run
  proof (induction rule: rtranclp_induct)
    case (step y z)
    then show ?case using prog_step_den [of y z] by simp
  qed (use assms(1) in simp)
  then show ?thesis using finished_den [OF fin] by simp
qed

lemma runs_to_iff: "apart p \<Longrightarrow> runs_to p m m' \<longleftrightarrow> m' = den p m"
  using run_den prog_ends by metis

section \<open>Owners\<close>

text \<open>
  Footprints are separated by owners: \<open>own\<close> gives the owner of a location, or \<open>None\<close> for what is
  only read. A program is within the owners \<open>T\<close> if it writes what they own and reads no more than
  that and what is only read.
\<close>

definition within :: "('l \<Rightarrow> 'o option) \<Rightarrow> 'o set \<Rightarrow> ('l, 'e) prog \<Rightarrow> bool" where
  "within own T p \<longleftrightarrow> own ` writes p \<subseteq> Some ` T \<and> own ` reads p \<subseteq> insert None (Some ` T)"

lemma within_Seq [simp]: "within own T (Seq ps) \<longleftrightarrow> (\<forall>p \<in> set ps. within own T p)"
  by (simp only: within_def writes.simps reads.simps image_UN UN_subset_iff ball_conj_distrib)

lemma within_Par [simp]: "within own T (Par ps) \<longleftrightarrow> (\<forall>p \<in> set ps. within own T p)"
  by (simp only: within_def writes.simps reads.simps image_UN UN_subset_iff ball_conj_distrib)

lemma within_Act [simp]:
  "within own T (Act a) \<longleftrightarrow>
     (\<forall>(r, e) \<in> set a. own r \<in> Some ` T \<and> own ` loads e \<subseteq> insert None (Some ` T))"
proof -
  have "own ` reads (Act a) = (\<Union>(r, e) \<in> set a. own ` loads e)" by auto
  moreover have "own ` writes (Act a) = (\<lambda>(r, e). own r) ` set a"
    unfolding writes.simps image_image by (rule image_cong) auto
  ultimately show ?thesis unfolding within_def UN_subset_iff image_subset_iff by auto
qed

lemma within_mono:
  assumes "within own T p" "T \<subseteq> T'"
  shows "within own T' p"
proof -
  have "Some ` T \<subseteq> Some ` T'" using assms(2) by (rule image_mono)
  then show ?thesis using assms(1) unfolding within_def by (meson insert_mono subset_trans)
qed

lemma within_separate:
  assumes "within own T p" "within own T' q" "T \<inter> T' = {}"
  shows "separate p q"
proof -
  have "Some ` T \<inter> insert None (Some ` T') = {}" "insert None (Some ` T) \<inter> Some ` T' = {}"
    "Some ` T \<inter> Some ` T' = {}"
    using assms(3) by auto
  moreover have "X \<inter> Y = {}" if "own ` X \<subseteq> A" "own ` Y \<subseteq> B" "A \<inter> B = {}" for X Y A B
    using that by blast
  ultimately show ?thesis using assms(1,2) unfolding within_def separate_def by meson
qed

lemma within_frame: "within own T p \<Longrightarrow> own l \<notin> Some ` T \<Longrightarrow> den p m l = m l"
  unfolding within_def by (intro den_frame) (meson image_eqI subsetD)

lemma apart_owned:
  assumes "\<And>i. i < n \<Longrightarrow> apart (f i)" "\<And>i. i < n \<Longrightarrow> within own (T i) (f i)"
    and "\<And>i j. i < n \<Longrightarrow> j < n \<Longrightarrow> i \<noteq> j \<Longrightarrow> T i \<inter> T j = {}"
  shows "apart (Par (map f [0..<n]))"
proof -
  have "separate (f i) (f j)" if "i < n" "j < n" "i \<noteq> j" for i j
    by (rule within_separate [OF assms(2) assms(2) assms(3)]) (use that in simp_all)
  then show ?thesis using assms(1) by (simp add: list_all_iff)
qed

lemma fold_frame: "(\<And>p. p \<in> set ps \<Longrightarrow> l \<notin> writes p) \<Longrightarrow> fold den ps m l = m l"
  by (induction ps arbitrary: m) (simp_all add: den_frame)

lemma den_owned:
  assumes within: "\<And>i. i < n \<Longrightarrow> within own (T i) (f i)"
    and disj: "\<And>i j. i < n \<Longrightarrow> j < n \<Longrightarrow> i \<noteq> j \<Longrightarrow> T i \<inter> T j = {}"
    and i: "i < n" and l: "own l \<in> Some ` T i"
  shows "den (Par (map f [0..<n])) m l = den (f i) m l"
proof -
  let ?xs = "map f [0..<i]" and ?ys = "map f [Suc i..<n]"
  have split: "map f [0..<n] = ?xs @ f i # ?ys"
  proof -
    have "[0..<n] = [0..<i] @ [i..<n]" using i upt_add_eq_append [of 0 i "n - i"] by simp
    then show ?thesis using i by (simp add: upt_conv_Cons)
  qed
  have others: "\<exists>j < n. j \<noteq> i \<and> q = f j" if "q \<in> set ?xs \<union> set ?ys" for q
  proof -
    have "q \<in> f ` ({0..<i} \<union> {Suc i..<n})" using that by (simp add: image_Un)
    then obtain j where "j \<in> {0..<i} \<union> {Suc i..<n}" "q = f j" by blast
    then show ?thesis using i by (intro exI [of _ j]) auto
  qed
  have sep: "separate q (f i)" if q: "q \<in> set ?xs \<union> set ?ys" for q
  proof -
    obtain j where "j < n" "j \<noteq> i" "q = f j" using others [OF q] by blast
    then show ?thesis using within_separate [OF within within disj] i by simp
  qed
  have out: "l \<notin> writes q" if q: "q \<in> set ?xs \<union> set ?ys" for q
  proof -
    obtain j where j: "j < n" "j \<noteq> i" "q = f j" using others [OF q] by blast
    have "own l \<notin> Some ` T j" using l disj [OF j(1) i j(2)] by auto
    then show ?thesis using within [OF j(1)] j(3) unfolding within_def by (meson image_eqI subsetD)
  qed
  have "den (Par (map f [0..<n])) m l = fold den ?ys (den (f i) (fold den ?xs m)) l" by (simp add: split)
  also have "\<dots> = den (f i) (fold den ?xs m) l" by (rule fold_frame) (use out in blast)
  also have "\<dots> = fold den ?xs (den (f i) m) l" using fold_commute [of ?xs "f i"] sep by simp
  also have "\<dots> = den (f i) m l" by (rule fold_frame) (use out in blast)
  finally show ?thesis .
qed

end
