(* ===== verification/Block_Kernels.thy ===== *)
theory Block_Kernels
  imports Kernel_Machine
begin

text \<open>
  The cache operations of the compiled extension: the host functions of
  \<open>paged_attention/mlx_cache.cpp\<close>, which check their arguments and describe a launch, and the
  kernels \<open>swap_blocks\<close>, \<open>copy_blocks\<close> and \<open>reshape_and_cache\<close> of \<open>paged_attention/metal/cache\<close>.

  A device array has a buffer; its entries are those of the buffer in row order, and an entry is
  addressed by its number. A kernel takes the type of the entries from its name, which the host
  functions make from the types of some arguments: what is proved of a launch is for arguments of
  which all others have the types that the kernel reads them with. The array that a host function
  returns shares the buffer of one of its arguments, and the launch happens when it is evaluated.

  Index arrays are given by their integers and by the number of bytes each takes. The host functions
  here convert them first, those of Attention_Host do not. A dimension of an array is a 32-bit
  integer, so that twice a number of pairs or tokens fits into an unsigned one, as \<open>swap_blocks\<close>
  computes it, but not always into a signed one, as \<open>copy_blocks\<close> does.
\<close>

section \<open>Arrays\<close>

datatype dtype = Float32 | Float16 | Bfloat16 | Uint8 | Other_dtype string

record darray =
  da_buffer :: nat
  da_shape :: "nat list"
  da_strides :: "int list"
  da_dtype :: dtype

record iarray =
  ia_shape :: "nat list"
  ia_data :: "int list"
  ia_width :: nat

text \<open>The 32-bit words of the buffer of an index array, its bytes in little-endian order.\<close>

definition entry_bytes :: "nat \<Rightarrow> int \<Rightarrow> int list" where
  "entry_bytes w v = map (\<lambda>i. v div 256 ^ i mod 256) [0..<w]"

fun words32 :: "int list \<Rightarrow> int list" where
  "words32 (a # b # c # d # bytes) = (a + 256 * (b + 256 * (c + 256 * d))) # words32 bytes"
| "words32 _ = []"

definition index_words :: "iarray \<Rightarrow> int list" where
  "index_words a = words32 (concat (map (entry_bytes (ia_width a)) (ia_data a)))"

lemma digit_sum: "0 < (c :: int) \<Longrightarrow> v mod b + b * (v div b mod c) = v mod (b * c)"
  by (simp add: zmod_zmult2_eq add.commute)

lemma entry_word:
  "v mod 256 + 256 * (v div 256 mod 256 + 256 * (v div 256 ^ 2 mod 256 + 256 * (v div 256 ^ 3 mod 256))) =
     (v :: int) mod 2 ^ 32"
proof -
  have "v div 256 ^ 2 mod 256 + 256 * (v div 256 ^ 3 mod 256) = v div 256 ^ 2 mod (256 * 256)"
    using digit_sum [of 256 "v div 256 ^ 2" 256] by (simp add: zdiv_zmult2_eq [symmetric])
  moreover have "v div 256 mod 256 + 256 * (v div 256 ^ 2 mod (256 * 256)) = v div 256 mod (256 * (256 * 256))"
    using digit_sum [of "256 * 256" "v div 256" 256] by (simp add: zdiv_zmult2_eq [symmetric])
  moreover have "v mod 256 + 256 * (v div 256 mod (256 * (256 * 256))) = v mod (256 * (256 * (256 * 256)))"
    using digit_sum [of "256 * (256 * 256)" v 256] by simp
  ultimately show ?thesis by simp
qed

lemma index_words_32: "ia_width a = 4 \<Longrightarrow> index_words a = map (\<lambda>v. v mod 2 ^ 32) (ia_data a)"
proof -
  assume w: "ia_width a = 4"
  have bytes: "entry_bytes 4 v = [v mod 256, v div 256 mod 256, v div 256 ^ 2 mod 256, v div 256 ^ 3 mod 256]" for v
    by (simp add: entry_bytes_def upt_rec numeral_2_eq_2 numeral_3_eq_3)
  have "words32 (concat (map (entry_bytes 4) vs)) = map (\<lambda>v. v mod 2 ^ 32) vs" for vs
    by (induction vs) (simp_all only: list.map concat.simps bytes append.simps words32.simps entry_word)
  then show ?thesis by (simp only: index_words_def w)
qed

definition da_size :: "darray \<Rightarrow> nat" where
  "da_size x = prod_list (da_shape x)"

fun dtype_str :: "dtype \<Rightarrow> py_exn + string" where
  "dtype_str Float32 = Inr ''float''"
| "dtype_str Float16 = Inr ''half''"
| "dtype_str Bfloat16 = Inr ''bfloat16_t''"
| "dtype_str Uint8 = Inr ''uchar''"
| "dtype_str (Other_dtype _) = Inl ValueError"

text \<open>The name of the kernel, and the moves of its threads unless one of their loops never ends.\<close>

record kernel_call =
  kc_name :: string
  kc_threads :: "(nat \<times> int) move list list option"

section \<open>The kernels\<close>

text \<open>\<open>for (int i = tid; i < n; i += threads_per_threadgroup)\<close>, with 32-bit integers.\<close>

partial_function (option) strided :: "int \<Rightarrow> int \<Rightarrow> int \<Rightarrow> int list option" where
  "strided i n step =
     (if i < n then Option.bind (strided (i32 (i + step)) n step) (\<lambda>is. Some (i # is)) else Some [])"

definition swap_blocks_thread ::
  "nat \<Rightarrow> nat \<Rightarrow> int list \<Rightarrow> int \<Rightarrow> int \<Rightarrow> int \<Rightarrow> int \<Rightarrow> (nat \<times> int) move list option" where
  "swap_blocks_thread src dst block_mapping numel_per_block threads tgid tid =
     (let src_block_number = block_mapping ! nat (2 * tgid);
          dst_block_number = block_mapping ! nat (2 * tgid + 1);
          src_block_offset = i64 (src_block_number * numel_per_block);
          dst_block_offset = i64 (dst_block_number * numel_per_block)
      in map_option
           (map (\<lambda>i. ((dst, i64 (dst_block_offset + i)), (src, i64 (src_block_offset + i)))))
           (strided tid numel_per_block threads))"

text \<open>A read at a signed index; outside of the buffer nothing is said about it.\<close>

definition read_at :: "int list \<Rightarrow> int \<Rightarrow> int" where
  "read_at xs i = (if 0 \<le> i then xs ! nat i else undefined)"

definition copy_blocks_thread ::
  "nat \<Rightarrow> nat \<Rightarrow> int list \<Rightarrow> int \<Rightarrow> int \<Rightarrow> int \<Rightarrow> int \<Rightarrow> (nat \<times> int) move list option" where
  "copy_blocks_thread key_cache value_cache block_mapping numel_per_block threads tgid tid =
     (let pair_idx = i32 tgid;
          src_block_number = read_at block_mapping (i32 (2 * pair_idx));
          dst_block_number = read_at block_mapping (i32 (i32 (2 * pair_idx) + 1));
          src_block_offset = i64 (src_block_number * numel_per_block);
          dst_block_offset = i64 (dst_block_number * numel_per_block);
          copy = (\<lambda>cache. map_option
            (map (\<lambda>i. ((cache, i64 (dst_block_offset + i)), (cache, i64 (src_block_offset + i)))))
            (strided tid numel_per_block threads))
      in Option.bind (copy key_cache) (\<lambda>ks. Option.bind (copy value_cache) (\<lambda>vs. Some (ks @ vs))))"

text \<open>The target indices of the entry \<open>i\<close> of a token in the slot \<open>slot_idx\<close>.\<close>

definition key_index :: "int \<Rightarrow> int \<Rightarrow> int \<Rightarrow> int \<Rightarrow> int \<Rightarrow> int \<Rightarrow> int" where
  "key_index num_heads head_size block_size x slot_idx i =
     (let block_idx = slot_idx div block_size;
          block_offset = slot_idx mod block_size;
          head_idx = i div head_size;
          head_offset = i mod head_size;
          x_idx = head_offset div x;
          x_offset = head_offset mod x
      in i64 (block_idx * i32 (num_heads * (head_size div x) * block_size * x) +
              head_idx * i32 ((head_size div x) * block_size * x) +
              x_idx * i32 (block_size * x) + block_offset * x + x_offset))"

definition value_index :: "int \<Rightarrow> int \<Rightarrow> int \<Rightarrow> int \<Rightarrow> int \<Rightarrow> int" where
  "value_index num_heads head_size block_size slot_idx i =
     (let block_idx = slot_idx div block_size;
          block_offset = slot_idx mod block_size;
          head_idx = i div head_size;
          head_offset = i mod head_size
      in i64 (block_idx * i32 (num_heads * head_size * block_size) +
              head_idx * i32 (head_size * block_size) + head_offset * block_size + block_offset))"

record cache_dims =
  cd_num_heads :: int
  cd_head_size :: int
  cd_block_size :: int
  cd_x :: int

definition reshape_and_cache_thread ::
  "nat \<Rightarrow> nat \<Rightarrow> nat \<Rightarrow> nat \<Rightarrow> int list \<Rightarrow> int \<Rightarrow> int \<Rightarrow> cache_dims \<Rightarrow> int \<Rightarrow> int \<Rightarrow> int \<Rightarrow>
     (nat \<times> int) move list option" where
  "reshape_and_cache_thread key val key_cache value_cache slot_mapping key_stride value_stride cd threads
       token_idx tid =
     (let slot_idx = slot_mapping ! nat token_idx in
      if slot_idx < 0 then Some []
      else
        let n = i32 (cd_num_heads cd * cd_head_size cd) in
        map_option
          (\<lambda>is. concat (map (\<lambda>i.
             [((key_cache, key_index (cd_num_heads cd) (cd_head_size cd) (cd_block_size cd) (cd_x cd) slot_idx i),
               (key, i32 (token_idx * key_stride + i))),
              ((value_cache, value_index (cd_num_heads cd) (cd_head_size cd) (cd_block_size cd) slot_idx i),
               (val, i32 (token_idx * value_stride + i)))]) is))
          (strided tid n threads))"

text \<open>\<open>groups\<close> thread groups of \<open>threads\<close> threads.\<close>

definition grid :: "int \<Rightarrow> int \<Rightarrow> (int \<Rightarrow> int \<Rightarrow> 'l move list option) \<Rightarrow> 'l move list list option" where
  "grid groups threads body =
     those (concat (map (\<lambda>g. map (body g) [0..threads - 1]) [0..groups - 1]))"

section \<open>The host functions\<close>

text \<open>The number of entries of a block, in 32 bits, and the size of a thread group.\<close>

definition block_numel :: "darray \<Rightarrow> int" where
  "block_numel x = i32 (int (da_size x div hd (da_shape x)))"

definition group_size :: "int \<Rightarrow> int" where
  "group_size numel = min 256 (numel mod 2 ^ 32)"

definition swap_blocks_host :: "darray \<Rightarrow> darray \<Rightarrow> iarray \<Rightarrow> py_exn + (darray \<times> kernel_call)" where
  "swap_blocks_host src dst block_mapping =
     (if da_shape src = [] \<or> da_shape dst = [] \<or> hd (da_shape src) = 0 \<or> hd (da_shape dst) = 0
      then Inl ValueError
      else if da_dtype src \<noteq> da_dtype dst \<or>
        da_size src div hd (da_shape src) \<noteq> da_size dst div hd (da_shape dst)
      then Inl ValueError
      else if length (ia_shape block_mapping) \<noteq> 2 \<or> ia_shape block_mapping ! 1 \<noteq> 2
      then Inl ValueError
      else
        case dtype_str (da_dtype src) of
          Inl e \<Rightarrow> Inl e
        | Inr d \<Rightarrow>
            let numel = block_numel src;
                num_pairs = int (ia_shape block_mapping ! 0);
                mapping_i64 = map i64 (ia_data block_mapping);
                threads = group_size numel
            in Inr (dst, \<lparr>kc_name = ''swap_blocks_'' @ d,
                 kc_threads = grid num_pairs threads
                   (swap_blocks_thread (da_buffer src) (da_buffer dst) mapping_i64 numel threads)\<rparr>))"

fun copy_layers :: "int \<Rightarrow> int list \<Rightarrow> (darray \<times> darray) list \<Rightarrow>
    py_exn + ((darray \<times> darray) \<times> kernel_call) list" where
  "copy_layers num_pairs mapping_i64 [] = Inr []"
| "copy_layers num_pairs mapping_i64 ((kc, vc) # layers) =
     (if da_shape kc = [] \<or> da_shape vc = [] \<or> hd (da_shape kc) = 0 \<or> hd (da_shape vc) = 0 \<or>
        hd (da_shape kc) \<noteq> hd (da_shape vc)
      then Inl ValueError
      else if da_dtype kc \<noteq> da_dtype vc \<or>
        da_size kc div hd (da_shape kc) \<noteq> da_size vc div hd (da_shape vc)
      then Inl ValueError
      else
        case dtype_str (da_dtype kc) of
          Inl e \<Rightarrow> Inl e
        | Inr d \<Rightarrow>
            let numel = block_numel kc;
                threads = group_size numel;
                call = \<lparr>kc_name = ''copy_blocks_'' @ d,
                  kc_threads = grid num_pairs threads
                    (copy_blocks_thread (da_buffer kc) (da_buffer vc) mapping_i64 numel threads)\<rparr>
            in case copy_layers num_pairs mapping_i64 layers of
                 Inl e \<Rightarrow> Inl e
               | Inr calls \<Rightarrow> Inr (((kc, vc), call) # calls))"

definition copy_blocks_host ::
  "darray list \<Rightarrow> darray list \<Rightarrow> iarray \<Rightarrow> py_exn + ((darray \<times> darray) \<times> kernel_call) list" where
  "copy_blocks_host key_caches value_caches block_mapping =
     (if length key_caches \<noteq> length value_caches then Inl ValueError
      else if length (ia_shape block_mapping) \<noteq> 2 \<or> ia_shape block_mapping ! 1 \<noteq> 2
      then Inl ValueError
      else copy_layers (int (ia_shape block_mapping ! 0)) (map i64 (ia_data block_mapping))
             (zip key_caches value_caches))"

text \<open>
  \<open>shape(i)\<close> raises \<open>std::out_of_range\<close>, an \<open>IndexError\<close> in Python, for arrays with too few
  dimensions. A value of \<open>std::min(512, \<dots>)\<close> is the size of a thread group.
\<close>

definition reshape_and_cache_host ::
  "darray \<Rightarrow> darray \<Rightarrow> darray \<Rightarrow> darray \<Rightarrow> iarray \<Rightarrow> py_exn + ((darray \<times> darray) \<times> kernel_call)" where
  "reshape_and_cache_host key val key_cache value_cache slot_mapping =
     (case dtype_str (da_dtype key) of
        Inl e \<Rightarrow> Inl e
      | Inr kt \<Rightarrow>
          (case dtype_str (da_dtype key_cache) of
             Inl e \<Rightarrow> Inl e
           | Inr ct \<Rightarrow>
               if length (da_shape key) < 3 \<or> length (da_shape key_cache) < 5 then Inl IndexError
               else
                 let cd = \<lparr>cd_num_heads = i32 (int (da_shape key ! 1)),
                           cd_head_size = i32 (int (da_shape key ! 2)),
                           cd_block_size = i32 (int (da_shape key_cache ! 3)),
                           cd_x = i32 (int (da_shape key_cache ! 4))\<rparr>;
                     slots_i32 = map i32 (ia_data slot_mapping);
                     num_tokens = int (da_shape key ! 0);
                     key_stride = i32 (da_strides key ! 0);
                     value_stride = i32 (da_strides val ! 0);
                     threads = min 512 (i32 (cd_num_heads cd * cd_head_size cd) mod 2 ^ 64)
                 in Inr ((key_cache, value_cache),
                      \<lparr>kc_name = ''reshape_and_cache_kv_'' @ kt @ ''_cache_'' @ ct,
                       kc_threads = grid num_tokens threads
                         (reshape_and_cache_thread (da_buffer key) (da_buffer val) (da_buffer key_cache)
                            (da_buffer value_cache) slots_i32 key_stride value_stride cd threads)\<rparr>)))"

text \<open>The kernels that the library instantiates.\<close>

definition cache_kernels :: "string list" where
  "cache_kernels =
     map ((@) ''swap_blocks_'') [''float'', ''bfloat16_t'', ''half'', ''uchar''] @
     map ((@) ''copy_blocks_'') [''float'', ''bfloat16_t'', ''half'', ''uchar''] @
     map ((@) ''reshape_and_cache_kv_'')
       [''float_cache_float'', ''bfloat16_t_cache_bfloat16_t'', ''half_cache_half'',
        ''float_cache_half'', ''float_cache_bfloat16_t''] @
     map ((@) ''reshape_and_cache_flash_'') [''float'', ''bfloat16_t'', ''half'']"

text \<open>
  An evaluation of the call can turn the memory \<open>m\<close> into \<open>m'\<close>; \<open>conv\<close> is the conversion between
  the types of entries.
\<close>

definition evaluates :: "('e \<Rightarrow> 'e) \<Rightarrow> kernel_call \<Rightarrow> (nat \<times> int \<Rightarrow> 'e) \<Rightarrow> (nat \<times> int \<Rightarrow> 'e) \<Rightarrow> bool" where
  "evaluates conv call m m' \<longleftrightarrow>
     kc_name call \<in> set cache_kernels \<and> (\<exists>mss. kc_threads call = Some mss \<and> launch conv mss m m')"

section \<open>Loops and grids\<close>

lemma strided_spec:
  assumes "0 < step" "0 \<le> i" "n + step \<le> 2 ^ 31"
  shows "\<exists>is. strided i n step = Some is \<and> set is = {j. i \<le> j \<and> j < n \<and> (j - i) mod step = 0}"
  using assms(2)
proof (induction "nat (n - i)" arbitrary: i rule: less_induct)
  case less
  show ?case
  proof (cases "i < n")
    case True
    have nowrap: "i32 (i + step) = i + step"
      using True assms less.prems by (intro i32_id) simp_all
    obtain js where js: "strided (i + step) n step = Some js"
      "set js = {j. i + step \<le> j \<and> j < n \<and> (j - (i + step)) mod step = 0}"
      using less.hyps [of "i + step"] True assms(1) less.prems by auto
    have eq: "{j. i \<le> j \<and> j < n \<and> (j - i) mod step = 0} =
        insert i {j. i + step \<le> j \<and> j < n \<and> (j - (i + step)) mod step = 0}"
    proof (intro equalityI subsetI)
      fix j assume "j \<in> {j. i \<le> j \<and> j < n \<and> (j - i) mod step = 0}"
      then have j: "i \<le> j" "j < n" "(j - i) mod step = 0" by blast+
      have "i + step \<le> j" if "j \<noteq> i"
      proof -
        have "\<not> j - i < step"
          using j(1,3) that zdvd_not_zless [of "j - i" step] by (auto simp: dvd_eq_mod_eq_0)
        then show ?thesis by linarith
      qed
      moreover have "(j - (i + step)) mod step = (j - i) mod step"
        unfolding diff_diff_eq [symmetric] by (rule minus_mod_self2)
      ultimately show "j \<in> insert i {j. i + step \<le> j \<and> j < n \<and> (j - (i + step)) mod step = 0}"
        using j by auto
    next
      fix j assume "j \<in> insert i {j. i + step \<le> j \<and> j < n \<and> (j - (i + step)) mod step = 0}"
      moreover have "(j - (i + step)) mod step = (j - i) mod step"
        unfolding diff_diff_eq [symmetric] by (rule minus_mod_self2)
      ultimately show "j \<in> {j. i \<le> j \<and> j < n \<and> (j - i) mod step = 0}"
        using True assms(1) by auto
    qed
    have "set (i # js) = {j. i \<le> j \<and> j < n \<and> (j - i) mod step = 0}"
      unfolding list.set js(2) eq by (rule refl)
    then show ?thesis using True js(1) by (subst strided.simps) (simp add: nowrap)
  next
    case False
    then show ?thesis by (subst strided.simps) auto
  qed
qed

text \<open>Together the threads of a group visit every index below \<open>n\<close>.\<close>

lemma mod_threads:
  assumes "0 < (step :: int)" "0 \<le> j"
  shows "\<exists>t \<in> set [0..step - 1]. t \<le> j \<and> (j - t) mod step = 0"
proof (intro bexI conjI)
  show "j mod step \<le> j" using assms by (simp add: zmod_le_nonneg_dividend)
  show "(j - j mod step) mod step = 0" by (simp add: minus_mod_eq_mult_div)
  show "j mod step \<in> set [0..step - 1]" using assms(1) by simp
qed

lemma those_map: "(\<And>x. x \<in> set xs \<Longrightarrow> f x = Some (g x)) \<Longrightarrow> those (map f xs) = Some (map g xs)"
  by (induction xs) simp_all

lemma grid_total:
  assumes "\<And>g t. 0 \<le> g \<Longrightarrow> g < groups \<Longrightarrow> 0 \<le> t \<Longrightarrow> t < threads \<Longrightarrow> body g t = Some (f g t)"
  shows "grid groups threads body = Some (concat (map (\<lambda>g. map (f g) [0..threads - 1]) [0..groups - 1]))"
proof -
  let ?ps = "concat (map (\<lambda>g. map (Pair g) [0..threads - 1]) [0..groups - 1])"
  have 1: "concat (map (\<lambda>g. map (h g) ys) xs) = map (case_prod h) (concat (map (\<lambda>g. map (Pair g) ys) xs))"
    for h :: "int \<Rightarrow> int \<Rightarrow> 'c" and xs ys
    by (simp add: map_concat comp_def)
  have "those (map (case_prod body) ?ps) = Some (map (case_prod f) ?ps)"
    by (rule those_map) (use assms in auto)
  then show ?thesis unfolding grid_def 1 [of body] 1 [of f] by simp
qed

text \<open>
  The moves of a grid in which a thread makes the moves \<open>F g is\<close> for the indices \<open>is\<close> of its
  loop, when these are the moves \<open>G g i\<close> of the single indices.
\<close>

lemma grid_moves:
  assumes n: "0 \<le> n" "n + threads \<le> 2 ^ 31" and th: "0 < n \<Longrightarrow> 0 < threads"
    and body: "\<And>g t is. 0 \<le> g \<Longrightarrow> g < groups \<Longrightarrow> strided t n threads = Some is \<Longrightarrow> body g t = Some (F g is)"
    and F: "\<And>g is. 0 \<le> g \<Longrightarrow> g < groups \<Longrightarrow> set (F g is) = (\<Union>i \<in> set is. G g i)"
  shows "\<exists>mss. grid groups threads body = Some mss \<and>
    set (concat mss) = (\<Union>g \<in> {0..<groups}. \<Union>i \<in> {0..<n}. G g i)"
proof -
  define L where "L t = the (strided t n threads)" for t
  have L: "strided t n threads = Some (L t)"
      "set (L t) = {j. t \<le> j \<and> j < n \<and> (j - t) mod threads = 0}" if t: "0 \<le> t" "t < threads" for t
  proof -
    have "0 < threads" "n + threads \<le> 2 ^ 31" using t n by simp_all
    from strided_spec [OF this(1) t(1) this(2)] show "strided t n threads = Some (L t)"
      "set (L t) = {j. t \<le> j \<and> j < n \<and> (j - t) mod threads = 0}"
      unfolding L_def by (metis option.sel)+
  qed
  have g: "grid groups threads body =
      Some (concat (map (\<lambda>g. map (\<lambda>t. F g (L t)) [0..threads - 1]) [0..groups - 1]))"
    by (rule grid_total) (rule body [OF _ _ L(1)])
  have "(\<Union>t \<in> set [0..threads - 1]. set (L t)) = {0..<n}"
  proof (intro equalityI subsetI)
    fix j assume "j \<in> (\<Union>t \<in> set [0..threads - 1]. set (L t))"
    then obtain t where "t \<in> set [0..threads - 1]" "j \<in> set (L t)" by blast
    then show "j \<in> {0..<n}" using L(2) [of t] by auto
  next
    fix j assume j: "j \<in> {0..<n}"
    then have "0 < threads" using th by auto
    with mod_threads [of threads j] j obtain t where
      t: "t \<in> set [0..threads - 1]" "t \<le> j" "(j - t) mod threads = 0" by auto
    then have "j \<in> set (L t)" using L(2) [of t] j by auto
    with t(1) show "j \<in> (\<Union>t \<in> set [0..threads - 1]. set (L t))" by blast
  qed
  then have all: "(\<Union>t \<in> set [0..threads - 1]. \<Union>i \<in> set (L t). G g i) = (\<Union>i \<in> {0..<n}. G g i)" for g
    by blast
  have "set (concat (concat (map (\<lambda>g. map (\<lambda>t. F g (L t)) [0..threads - 1]) [0..groups - 1]))) =
      (\<Union>g \<in> set [0..groups - 1]. \<Union>t \<in> set [0..threads - 1]. set (F g (L t)))"
    by simp
  also have "\<dots> = (\<Union>g \<in> set [0..groups - 1]. \<Union>t \<in> set [0..threads - 1]. \<Union>i \<in> set (L t). G g i)"
    using F by (intro SUP_cong refl) auto
  also have "\<dots> = (\<Union>g \<in> {0..<groups}. \<Union>i \<in> {0..<n}. G g i)"
    unfolding all by (intro SUP_cong) auto
  finally show ?thesis using g by blast
qed

end
