(* ===== verification/Block_Copy.thy ===== *)
theory Block_Copy
  imports Block_Kernels
begin

text \<open>
  What \<open>swap_blocks\<close> and \<open>copy_blocks\<close> do: for every pair of the mapping and every index of a
  block, one move, so that a launch is free of races when no two pairs have different sources for
  the same target and no target block is also a source in the same buffer.
\<close>

section \<open>Mappings\<close>

definition pair_src :: "iarray \<Rightarrow> int \<Rightarrow> int" where
  "pair_src bm g = ia_data bm ! nat (2 * g)"

definition pair_dst :: "iarray \<Rightarrow> int \<Rightarrow> int" where
  "pair_dst bm g = ia_data bm ! nat (2 * g + 1)"

text \<open>\<open>k\<close> pairs, of blocks below \<open>sb\<close> and \<open>db\<close>, each target with one source.\<close>

definition pairs_ok :: "iarray \<Rightarrow> nat \<Rightarrow> nat \<Rightarrow> nat \<Rightarrow> bool" where
  "pairs_ok bm k sb db \<longleftrightarrow>
     ia_shape bm = [k, 2] \<and> length (ia_data bm) = 2 * k \<and>
     (\<forall>g \<in> {0..<int k}. pair_src bm g \<in> {0..<int sb} \<and> pair_dst bm g \<in> {0..<int db}) \<and>
     (\<forall>g \<in> {0..<int k}. \<forall>h \<in> {0..<int k}. pair_dst bm g = pair_dst bm h \<longrightarrow> pair_src bm g = pair_src bm h)"

lemma pairs_okD:
  assumes "pairs_ok bm k sb db"
  shows "ia_shape bm = [k, 2]" "length (ia_data bm) = 2 * k"
    "g \<in> {0..<int k} \<Longrightarrow> pair_src bm g \<in> {0..<int sb}" "g \<in> {0..<int k} \<Longrightarrow> pair_dst bm g \<in> {0..<int db}"
    "g \<in> {0..<int k} \<Longrightarrow> h \<in> {0..<int k} \<Longrightarrow> pair_dst bm g = pair_dst bm h \<Longrightarrow> pair_src bm g = pair_src bm h"
  using assms unfolding pairs_ok_def by blast+

text \<open>The sizes of blocks and caches are 32-bit integers.\<close>

definition sizes_ok :: "nat \<Rightarrow> nat \<Rightarrow> bool" where
  "sizes_ok blocks n \<longleftrightarrow> 0 < blocks \<and> int blocks < 2 ^ 31 \<and> int n + 256 \<le> 2 ^ 31"

text \<open>The moves for the buffers \<open>B\<close>, pairs of target and source.\<close>

definition block_moves :: "(nat \<times> nat) set \<Rightarrow> iarray \<Rightarrow> nat \<Rightarrow> nat \<Rightarrow> (nat \<times> int) move set" where
  "block_moves B bm k n =
     (\<Union>g \<in> {0..<int k}. \<Union>i \<in> {0..<int n}. \<Union>(d, s) \<in> B.
        {((d, pair_dst bm g * int n + i), (s, pair_src bm g * int n + i))})"

lemma in_block_moves:
  "((d, x), (s, y)) \<in> block_moves B bm k n \<longleftrightarrow> (d, s) \<in> B \<and>
     (\<exists>g \<in> {0..<int k}. \<exists>i \<in> {0..<int n}. x = pair_dst bm g * int n + i \<and> y = pair_src bm g * int n + i)"
  unfolding block_moves_def by fastforce

text \<open>The outcome of copying the blocks.\<close>

definition blocks_copied ::
  "(nat \<times> nat) set \<Rightarrow> iarray \<Rightarrow> nat \<Rightarrow> nat \<Rightarrow> (nat \<times> int \<Rightarrow> 'e) \<Rightarrow> (nat \<times> int \<Rightarrow> 'e) \<Rightarrow> bool" where
  "blocks_copied B bm k n m m' \<longleftrightarrow>
     (\<forall>(d, s) \<in> B. \<forall>g \<in> {0..<int k}. \<forall>i \<in> {0..<int n}.
        m' (d, pair_dst bm g * int n + i) = m (s, pair_src bm g * int n + i)) \<and>
     (\<forall>e. (\<forall>(d, s) \<in> B. \<forall>g \<in> {0..<int k}. \<forall>i \<in> {0..<int n}. e \<noteq> (d, pair_dst bm g * int n + i)) \<longrightarrow>
        m' e = m e)"

lemma block_index_inj:
  assumes "i \<in> {0..<n}" "j \<in> {0..<n}" "a * n + i = b * n + (j :: int)"
  shows "a = b \<and> i = j"
proof -
  have "(a * n + i) div n = a" "(a * n + i) mod n = i" "(b * n + j) div n = b" "(b * n + j) mod n = j"
    using assms(1,2) by (simp_all add: div_pos_pos_trivial)
  then show ?thesis using assms(3) by metis
qed

lemma block_race_free:
  assumes moves: "set ms = block_moves B bm k n" and ok: "pairs_ok bm k sb db"
    and sole: "\<And>d s s'. (d, s) \<in> B \<Longrightarrow> (d, s') \<in> B \<Longrightarrow> s = s'"
    and apart: "\<And>d s s' g h. (d, s) \<in> B \<Longrightarrow> (s', d) \<in> B \<Longrightarrow> g \<in> {0..<int k} \<Longrightarrow> h \<in> {0..<int k} \<Longrightarrow>
      pair_dst bm g \<noteq> pair_src bm h"
  shows "race_free ms"
  unfolding race_free_def moves
proof (intro conjI allI impI)
  fix e f f' :: "nat \<times> int"
  assume "(e, f) \<in> block_moves B bm k n" "(e, f') \<in> block_moves B bm k n"
  then obtain d x s y s' y' where e: "e = (d, x)" "f = (s, y)" "f' = (s', y')"
    "((d, x), (s, y)) \<in> block_moves B bm k n" "((d, x), (s', y')) \<in> block_moves B bm k n"
    by (cases e; cases f; cases f') auto
  obtain g i h j where
    1: "g \<in> {0..<int k}" "i \<in> {0..<int n}" "x = pair_dst bm g * int n + i" "y = pair_src bm g * int n + i" and
    2: "h \<in> {0..<int k}" "j \<in> {0..<int n}" "x = pair_dst bm h * int n + j" "y' = pair_src bm h * int n + j"
    using e(4,5) unfolding in_block_moves by blast
  have "pair_dst bm g = pair_dst bm h \<and> i = j" by (rule block_index_inj [OF 1(2) 2(2)]) (use 1(3) 2(3) in simp)
  then have "y = y'" using 1(1,4) 2(1,4) pairs_okD(5) [OF ok 1(1) 2(1)] by simp
  moreover have "s = s'" using e(4,5) sole unfolding in_block_moves by blast
  ultimately show "f = f'" using e by simp
next
  show "fst ` block_moves B bm k n \<inter> snd ` block_moves B bm k n = {}"
  proof (intro equals0I)
    fix e assume "e \<in> fst ` block_moves B bm k n \<inter> snd ` block_moves B bm k n"
    then obtain d x s y s' x' where
      e: "((d, x), (s, y)) \<in> block_moves B bm k n" "((s', x'), (d, x)) \<in> block_moves B bm k n"
      by (cases e) auto
    obtain g i h j where
      1: "g \<in> {0..<int k}" "i \<in> {0..<int n}" "x = pair_dst bm g * int n + i" and
      2: "h \<in> {0..<int k}" "j \<in> {0..<int n}" "x = pair_src bm h * int n + j"
      using e unfolding in_block_moves by blast
    have "pair_dst bm g = pair_src bm h" using block_index_inj [OF 1(2) 2(2)] 1(3) 2(3) by simp
    moreover have "(d, s) \<in> B" "(s', d) \<in> B" using e unfolding in_block_moves by blast+
    ultimately show False using apart 1(1) 2(1) by blast
  qed
qed

lemma block_launch:
  assumes moves: "set (concat mss) = block_moves B bm k n" and rf: "race_free (concat mss)"
    and l: "launch (\<lambda>x. x) mss m m'"
  shows "blocks_copied B bm k n m m'"
proof -
  have m': "m' = moved (\<lambda>x. x) (concat mss) m" using race_free_launch [OF rf] l by blast
  have "m' (d, pair_dst bm g * int n + i) = m (s, pair_src bm g * int n + i)"
    if "(d, s) \<in> B" "g \<in> {0..<int k}" "i \<in> {0..<int n}" for d s g i
  proof -
    have "((d, pair_dst bm g * int n + i), (s, pair_src bm g * int n + i)) \<in> set (concat mss)"
      unfolding moves in_block_moves using that by blast
    from moved_in [OF rf this] show ?thesis by (simp add: m')
  qed
  moreover have "m' e = m e"
    if "\<forall>(d, s) \<in> B. \<forall>g \<in> {0..<int k}. \<forall>i \<in> {0..<int n}. e \<noteq> (d, pair_dst bm g * int n + i)" for e
  proof -
    have "e \<notin> fst ` set (concat mss)"
      unfolding moves block_moves_def using that by fastforce
    then show ?thesis unfolding m' by (rule moved_out)
  qed
  ultimately show ?thesis unfolding blocks_copied_def by blast
qed

section \<open>The grids of the two kernels\<close>

lemma dtype_supported:
  assumes "\<nexists>s. dt = Other_dtype s"
  obtains d where "dtype_str dt = Inr d" "d \<in> {''float'', ''half'', ''bfloat16_t'', ''uchar''}"
  using assms by (cases dt) auto

lemma block_numel_id:
  assumes "da_shape x = blocks # sh" "sizes_ok blocks (prod_list sh)"
  shows "da_size x div hd (da_shape x) = prod_list sh" "block_numel x = int (prod_list sh)"
proof -
  show 1: "da_size x div hd (da_shape x) = prod_list sh"
    using assms by (simp add: da_size_def sizes_ok_def)
  show "block_numel x = int (prod_list sh)"
    unfolding block_numel_def 1 by (rule i32_id) (use assms(2) in \<open>simp_all add: sizes_ok_def\<close>)
qed

lemma group_size_id:
  assumes "int n + 256 \<le> 2 ^ 31"
  shows "group_size (int n) = min 256 (int n)" "int n + group_size (int n) \<le> 2 ^ 31"
    "0 < int n \<Longrightarrow> 0 < group_size (int n)"
proof -
  have "int n mod 2 ^ 32 = int n" using assms by (intro mod_pos_pos_trivial) simp_all
  then show 1: "group_size (int n) = min 256 (int n)" by (simp add: group_size_def)
  show "int n + group_size (int n) \<le> 2 ^ 31" "0 < int n \<Longrightarrow> 0 < group_size (int n)"
    using assms unfolding 1 by simp_all
qed

text \<open>The mapping in 64 bits, and the addresses it gives.\<close>

lemma block_number:
  assumes "sizes_ok blocks n" "b \<in> {0..<int blocks}"
  shows "i64 b = b"
proof -
  have "0 \<le> b" "b < 2 ^ 31" using assms by (auto simp: sizes_ok_def)
  then show ?thesis by (intro i64_id) simp_all
qed

lemma block_address:
  assumes "sizes_ok blocks n" "b \<in> {0..<int blocks}" "i \<in> {0..<int n}"
  shows "i64 (i64 (b * int n) + i) = b * int n + i"
proof -
  have b: "0 \<le> b" "b < 2 ^ 31" "0 \<le> i" "i < 2 ^ 31" "int n < 2 ^ 31"
    using assms by (auto simp: sizes_ok_def)
  have "b * int n \<le> 2 ^ 31 * 2 ^ 31" using b by (intro mult_mono) simp_all
  moreover have "0 \<le> b * int n" using b by simp
  ultimately have r: "- (2 ^ 63) \<le> b * int n" "b * int n < 2 ^ 63"
    "- (2 ^ 63) \<le> b * int n + i" "b * int n + i < 2 ^ 63"
    using b(3,4) by (simp_all del: zero_le_mult_iff)
  have "i64 (b * int n) = b * int n" "i64 (b * int n + i) = b * int n + i"
    using r by (simp_all only: i64_id)
  then show "i64 (i64 (b * int n) + i) = b * int n + i" by simp
qed

lemma map_i64_nth:
  assumes ok: "pairs_ok bm k sb db" and g: "0 \<le> g" "g < int k" and sz: "sizes_ok sb n" "sizes_ok db n'"
  shows "map i64 (ia_data bm) ! nat (2 * g) = pair_src bm g"
    "map i64 (ia_data bm) ! nat (2 * g + 1) = pair_dst bm g"
proof -
  have g': "g \<in> {0..<int k}" using g by simp
  have len: "nat (2 * g) < length (ia_data bm)" "nat (2 * g + 1) < length (ia_data bm)"
    using pairs_okD(2) [OF ok] g by linarith+
  have "i64 (pair_src bm g) = pair_src bm g" "i64 (pair_dst bm g) = pair_dst bm g"
    by (rule block_number [OF sz(1) pairs_okD(3) [OF ok g']], rule block_number [OF sz(2) pairs_okD(4) [OF ok g']])
  then show "map i64 (ia_data bm) ! nat (2 * g) = pair_src bm g"
    "map i64 (ia_data bm) ! nat (2 * g + 1) = pair_dst bm g"
    using len by (simp_all add: pair_src_def pair_dst_def)
qed

lemma swap_grid:
  assumes ok: "pairs_ok bm k sb db" and sz: "sizes_ok sb n" "sizes_ok db n"
  shows "\<exists>mss. grid (int k) (group_size (int n))
      (swap_blocks_thread src dst (map i64 (ia_data bm)) (int n) (group_size (int n))) = Some mss \<and>
    set (concat mss) = block_moves {(dst, src)} bm k n"
proof -
  note gs = group_size_id [of n]
  have n: "int n + 256 \<le> 2 ^ 31" using sz(1) by (simp add: sizes_ok_def)
  let ?mv = "\<lambda>g i. ((dst, i64 (i64 (pair_dst bm g * int n) + i)), (src, i64 (i64 (pair_src bm g * int n) + i)))"
  let ?G = "\<lambda>g i. {?mv g i}"
  have "\<exists>mss. grid (int k) (group_size (int n))
      (swap_blocks_thread src dst (map i64 (ia_data bm)) (int n) (group_size (int n))) = Some mss \<and>
    set (concat mss) = (\<Union>g \<in> {0..<int k}. \<Union>i \<in> {0..<int n}. ?G g i)"
  proof (rule grid_moves)
    fix g t :: int and js
    assume "0 \<le> g" "g < int k" "strided t (int n) (group_size (int n)) = Some js"
    then show "swap_blocks_thread src dst (map i64 (ia_data bm)) (int n) (group_size (int n)) g t =
        Some (map (?mv g) js)"
      using map_i64_nth [OF ok _ _ sz] by (simp add: swap_blocks_thread_def Let_def)
  next
    fix g :: int and js
    show "set (map (?mv g) js) = (\<Union>i \<in> set js. ?G g i)" by (simp only: set_map) blast
  qed (use gs [OF n] in simp_all)
  moreover have "(\<Union>g \<in> {0..<int k}. \<Union>i \<in> {0..<int n}. ?G g i) = block_moves {(dst, src)} bm k n"
    unfolding block_moves_def
  proof (intro SUP_cong refl)
    fix g i assume g: "g \<in> {0..<int k}" "i \<in> {0..<int n}"
    have "pair_src bm g \<in> {0..<int sb}" "pair_dst bm g \<in> {0..<int db}"
      using pairs_okD(3,4) [OF ok g(1)] by blast+
    then show "?G g i = (\<Union>(d, s) \<in> {(dst, src)}. {((d, pair_dst bm g * int n + i), (s, pair_src bm g * int n + i))})"
      using block_address [OF sz(1) _ g(2)] block_address [OF sz(2) _ g(2)] by simp
  qed
  ultimately show ?thesis by simp
qed

text \<open>The indices of the mapping in \<open>copy_blocks\<close>, which are signed.\<close>

lemma read_pair:
  assumes ok: "pairs_ok bm k nb nb" and g: "0 \<le> g" "g < int k" and k: "k \<le> 2 ^ 30" and sz: "sizes_ok nb n"
  shows "read_at (map i64 (ia_data bm)) (i32 (2 * i32 g)) = pair_src bm g"
    "read_at (map i64 (ia_data bm)) (i32 (i32 (2 * i32 g) + 1)) = pair_dst bm g"
proof -
  have "int k \<le> 2 ^ 30" using k by (metis of_nat_le_iff of_nat_numeral of_nat_power)
  then have "i32 g = g" "i32 (2 * g) = 2 * g" "i32 (2 * g + 1) = 2 * g + 1"
    using g by (simp_all add: i32_id)
  then show "read_at (map i64 (ia_data bm)) (i32 (2 * i32 g)) = pair_src bm g"
    "read_at (map i64 (ia_data bm)) (i32 (i32 (2 * i32 g) + 1)) = pair_dst bm g"
    using map_i64_nth [OF ok g sz sz] g(1) by (simp_all add: read_at_def)
qed

lemma copy_grid:
  assumes ok: "pairs_ok bm k nb nb" and sz: "sizes_ok nb n" and k: "k \<le> 2 ^ 30"
  shows "\<exists>mss. grid (int k) (group_size (int n))
      (copy_blocks_thread kc vc (map i64 (ia_data bm)) (int n) (group_size (int n))) = Some mss \<and>
    set (concat mss) = block_moves {(kc, kc), (vc, vc)} bm k n"
proof -
  note gs = group_size_id [of n]
  have n: "int n + 256 \<le> 2 ^ 31" using sz by (simp add: sizes_ok_def)
  let ?mv = "\<lambda>c g i. ((c, i64 (i64 (pair_dst bm g * int n) + i)), (c, i64 (i64 (pair_src bm g * int n) + i)))"
  let ?G = "\<lambda>g i. {?mv kc g i, ?mv vc g i}"
  have "\<exists>mss. grid (int k) (group_size (int n))
      (copy_blocks_thread kc vc (map i64 (ia_data bm)) (int n) (group_size (int n))) = Some mss \<and>
    set (concat mss) = (\<Union>g \<in> {0..<int k}. \<Union>i \<in> {0..<int n}. ?G g i)"
  proof (rule grid_moves)
    fix g t :: int and js
    assume "0 \<le> g" "g < int k" "strided t (int n) (group_size (int n)) = Some js"
    then show "copy_blocks_thread kc vc (map i64 (ia_data bm)) (int n) (group_size (int n)) g t =
        Some (map (?mv kc g) js @ map (?mv vc g) js)"
      using read_pair [OF ok _ _ k sz] by (simp add: copy_blocks_thread_def Let_def)
  next
    fix g :: int and js
    show "set (map (?mv kc g) js @ map (?mv vc g) js) = (\<Union>i \<in> set js. ?G g i)"
      by (simp only: set_map set_append) blast
  qed (use gs [OF n] in simp_all)
  moreover have "(\<Union>g \<in> {0..<int k}. \<Union>i \<in> {0..<int n}. ?G g i) = block_moves {(kc, kc), (vc, vc)} bm k n"
    unfolding block_moves_def
  proof (intro SUP_cong refl)
    fix g i assume g: "g \<in> {0..<int k}" "i \<in> {0..<int n}"
    have "pair_src bm g \<in> {0..<int nb}" "pair_dst bm g \<in> {0..<int nb}"
      using pairs_okD(3,4) [OF ok g(1)] by blast+
    then show "?G g i = (\<Union>(d, s) \<in> {(kc, kc), (vc, vc)}.
        {((d, pair_dst bm g * int n + i), (s, pair_src bm g * int n + i))})"
      using block_address [OF sz _ g(2)] by auto
  qed
  ultimately show ?thesis by simp
qed

end
