(* ===== verification/Block_Reshape.thy ===== *)
theory Block_Reshape
  imports Block_Copy
begin

text \<open>
  The layouts of the paged caches, and what \<open>reshape_and_cache\<close> stores in them. A key cache has
  the shape \<open>[blocks, heads, head_size / x, block_size, x]\<close>, a value cache the shape
  \<open>[blocks, heads, head_size, block_size]\<close>; the token in the slot \<open>s\<close> is at the position
  \<open>s mod block_size\<close> of the block \<open>s div block_size\<close>.
\<close>

section \<open>The layouts\<close>

text \<open>The indices in row order, without wrap-around.\<close>

definition key_pos :: "int \<Rightarrow> int \<Rightarrow> int \<Rightarrow> int \<Rightarrow> int \<Rightarrow> int \<Rightarrow> int" where
  "key_pos H D B x s i =
     ((((s div B) * H + i div D) * (D div x) + (i mod D) div x) * B + s mod B) * x + (i mod D) mod x"

definition value_pos :: "int \<Rightarrow> int \<Rightarrow> int \<Rightarrow> int \<Rightarrow> int \<Rightarrow> int" where
  "value_pos H D B s i = (((s div B) * H + i div D) * D + i mod D) * B + s mod B"

text \<open>
  The address of an entry in \<open>paged_attention\<close>: the strides are those of the key cache, for keys
  and for values.
\<close>

definition attention_key_index :: "int \<Rightarrow> int \<Rightarrow> int \<Rightarrow> int \<Rightarrow> int \<Rightarrow> int \<Rightarrow> int \<Rightarrow> int \<Rightarrow> int" where
  "attention_key_index kv_block_stride kv_head_stride block_size x physical_block_number kv_head_idx t d =
     i64 (physical_block_number * kv_block_stride + kv_head_idx * kv_head_stride +
       (d div x * block_size * x + t * x + d mod x))"

definition attention_value_index :: "int \<Rightarrow> int \<Rightarrow> int \<Rightarrow> int \<Rightarrow> int \<Rightarrow> int \<Rightarrow> int \<Rightarrow> int" where
  "attention_value_index kv_block_stride kv_head_stride block_size physical_block_number kv_head_idx t d =
     i64 (physical_block_number * kv_block_stride + kv_head_idx * kv_head_stride + (d * block_size + t))"

text \<open>Dimensions whose blocks and indices fit into 32 bits.\<close>

definition dims_ok :: "int \<Rightarrow> int \<Rightarrow> int \<Rightarrow> int \<Rightarrow> int \<Rightarrow> bool" where
  "dims_ok H D B x nb \<longleftrightarrow>
     0 < H \<and> 0 < D \<and> 0 < B \<and> 0 < x \<and> x dvd D \<and> H * D * B < 2 ^ 31 \<and> 0 \<le> nb \<and> nb * B < 2 ^ 31"

lemma dims_okD:
  assumes "dims_ok H D B x nb"
  shows "0 < H" "0 < D" "0 < B" "0 < x" "D div x * x = D" "H * D * B < 2 ^ 31" "nb * B < 2 ^ 31"
    "0 < D div x" "D * B < 2 ^ 31" "B * x < 2 ^ 31" "H * D < 2 ^ 31" "nb < 2 ^ 31"
proof -
  show a: "0 < H" "0 < D" "0 < B" "0 < x" "D div x * x = D" "H * D * B < 2 ^ 31" "nb * B < 2 ^ 31"
    using assms by (auto simp: dims_ok_def)
  show q: "0 < D div x" using a(2,4,5) by (metis mult_eq_0_iff pos_imp_zdiv_nonneg_iff less_le not_le)
  have "1 * (D * B) \<le> H * (D * B)" using a by (intro mult_right_mono) simp_all
  then show DB: "D * B < 2 ^ 31" using a(6) by (simp add: mult.assoc)
  have "x \<le> D" using a(2) assms by (auto simp: dims_ok_def intro: zdvd_imp_le)
  then have "B * x \<le> B * D" using a(3) by (intro mult_left_mono) simp_all
  then show "B * x < 2 ^ 31" using DB by (simp add: mult.commute)
  have "H * D * 1 \<le> H * D * B" using a by (intro mult_left_mono) simp_all
  then show "H * D < 2 ^ 31" using a(6) by simp
  have "nb * 1 \<le> nb * B" using a(3) assms by (intro mult_left_mono) (simp_all add: dims_ok_def)
  then show "nb < 2 ^ 31" using a(7) by simp
qed

lemma i32_nonneg: "0 \<le> k \<Longrightarrow> k < 2 ^ 31 \<Longrightarrow> i32 k = k"
  by (rule i32_id) simp_all

lemma div_below: "s < nb * B \<Longrightarrow> 0 < B \<Longrightarrow> s div B < (nb :: int)"
proof -
  assume a: "s < nb * B" "0 < B"
  have "s div B * B \<le> s" using a(2) by (simp add: minus_mod_eq_div_mult [symmetric])
  then have "s div B * B < nb * B" using a(1) by linarith
  then show ?thesis using a(2) by (simp add: mult_less_cancel_right)
qed

lemma nested_bound: "0 \<le> a \<Longrightarrow> a < m \<Longrightarrow> 0 \<le> r \<Longrightarrow> r < n \<Longrightarrow> 0 \<le> a * n + r \<and> a * n + r < m * (n :: int)"
proof -
  assume "0 \<le> a" "a < m" "0 \<le> r" "r < n"
  then have "(a + 1) * n \<le> m * n" "0 \<le> a * n" by (simp_all add: mult_right_mono)
  then show ?thesis using \<open>0 \<le> r\<close> \<open>r < n\<close> by (simp add: distrib_right)
qed

lemma slot_bounds:
  assumes "dims_ok H D B x nb" "0 \<le> s" "s < nb * B" "0 \<le> i" "i < H * D"
  shows "0 \<le> s div B" "s div B < nb" "0 \<le> s mod B" "s mod B < B" "0 \<le> i div D" "i div D < H"
    "0 \<le> i mod D" "i mod D < D" "0 \<le> i mod D div x" "i mod D div x < D div x"
    "0 \<le> i mod D mod x" "i mod D mod x < x"
proof -
  note d = dims_okD [OF assms(1)]
  show "0 \<le> s div B" "0 \<le> s mod B" "s mod B < B" "0 \<le> i div D" "0 \<le> i mod D" "i mod D < D"
    "0 \<le> i mod D div x" "0 \<le> i mod D mod x" "i mod D mod x < x"
    using d(1-4) assms(2,4) by (simp_all add: pos_imp_zdiv_nonneg_iff)
  show "s div B < nb" by (rule div_below [OF assms(3) d(3)])
  show "i div D < H" by (rule div_below [OF assms(5) d(2)])
  show "i mod D div x < D div x" by (rule div_below) (use d(2,4,5) in simp_all)
qed

lemma key_pos_bounds:
  assumes "dims_ok H D B x nb" "0 \<le> s" "s < nb * B" "0 \<le> i" "i < H * D"
  shows "0 \<le> key_pos H D B x s i" "key_pos H D B x s i < nb * (H * D * B)"
proof -
  note b = slot_bounds [OF assms] and d = dims_okD [OF assms(1)]
  note b1 = nested_bound [OF b(1,2,5,6)]
  note b2 = nested_bound [OF b1 [THEN conjunct1] b1 [THEN conjunct2] b(9,10)]
  note b3 = nested_bound [OF b2 [THEN conjunct1] b2 [THEN conjunct2] b(3,4)]
  note b4 = nested_bound [OF b3 [THEN conjunct1] b3 [THEN conjunct2] b(11,12)]
  have "nb * H * (D div x) * B * x = nb * (H * (D div x * x) * B)" by (simp only: mult_ac)
  note flat = this [unfolded d(5)]
  show "0 \<le> key_pos H D B x s i" "key_pos H D B x s i < nb * (H * D * B)"
    using b4 unfolding key_pos_def flat by blast+
qed

lemma value_pos_bounds:
  assumes "dims_ok H D B x nb" "0 \<le> s" "s < nb * B" "0 \<le> i" "i < H * D"
  shows "0 \<le> value_pos H D B s i" "value_pos H D B s i < nb * (H * D * B)"
proof -
  note b = slot_bounds [OF assms]
  note b1 = nested_bound [OF b(1,2,5,6)]
  note b2 = nested_bound [OF b1 [THEN conjunct1] b1 [THEN conjunct2] b(7,8)]
  note b3 = nested_bound [OF b2 [THEN conjunct1] b2 [THEN conjunct2] b(3,4)]
  have flat: "nb * H * D * B = nb * (H * D * B)" by (simp only: mult_ac)
  show "0 \<le> value_pos H D B s i" "value_pos H D B s i < nb * (H * D * B)"
    using b3 unfolding value_pos_def flat by blast+
qed

lemma key_pos_inj:
  assumes d: "dims_ok H D B x nb" and s: "0 \<le> s" "s < nb * B" "0 \<le> i" "i < H * D"
    and s': "0 \<le> s'" "s' < nb * B" "0 \<le> i'" "i' < H * D"
    and eq: "key_pos H D B x s i = key_pos H D B x s' i'"
  shows "s = s' \<and> i = i'"
proof -
  note b = slot_bounds [OF d s] and b' = slot_bounds [OF d s']
  have r: "r \<in> {0..<n}" if "0 \<le> r" "r < n" for r n :: int using that by simp
  note e4 = block_index_inj [OF r [OF b(11,12)] r [OF b'(11,12)] eq [unfolded key_pos_def]]
  note e3 = block_index_inj [OF r [OF b(3,4)] r [OF b'(3,4)] e4 [THEN conjunct1]]
  note e2 = block_index_inj [OF r [OF b(9,10)] r [OF b'(9,10)] e3 [THEN conjunct1]]
  note e1 = block_index_inj [OF r [OF b(5,6)] r [OF b'(5,6)] e2 [THEN conjunct1]]
  have "i mod D = i' mod D" using e4 e2 by (metis div_mult_mod_eq)
  then show ?thesis using e1 e3 by (metis div_mult_mod_eq)
qed

lemma value_pos_inj:
  assumes d: "dims_ok H D B x nb" and s: "0 \<le> s" "s < nb * B" "0 \<le> i" "i < H * D"
    and s': "0 \<le> s'" "s' < nb * B" "0 \<le> i'" "i' < H * D"
    and eq: "value_pos H D B s i = value_pos H D B s' i'"
  shows "s = s' \<and> i = i'"
proof -
  note b = slot_bounds [OF d s] and b' = slot_bounds [OF d s']
  have r: "r \<in> {0..<n}" if "0 \<le> r" "r < n" for r n :: int using that by simp
  note e3 = block_index_inj [OF r [OF b(3,4)] r [OF b'(3,4)] eq [unfolded value_pos_def]]
  note e2 = block_index_inj [OF r [OF b(7,8)] r [OF b'(7,8)] e3 [THEN conjunct1]]
  note e1 = block_index_inj [OF r [OF b(5,6)] r [OF b'(5,6)] e2 [THEN conjunct1]]
  show ?thesis using e1 e2 e3 by (metis div_mult_mod_eq)
qed

section \<open>The indices of the kernel\<close>

lemma i64_block: "0 \<le> k \<Longrightarrow> k < nb * n \<Longrightarrow> nb < 2 ^ 31 \<Longrightarrow> 0 < n \<Longrightarrow> n < 2 ^ 31 \<Longrightarrow> i64 k = k"
proof (rule i64_id)
  assume a: "0 \<le> k" "k < nb * n" "nb < 2 ^ 31" "0 < n" "n < (2 :: int) ^ 31"
  have "nb * n \<le> 2 ^ 31 * 2 ^ 31" using a by (intro mult_mono) simp_all
  then show "- (2 ^ 63) \<le> k" "k < 2 ^ 63" using a(1,2) by simp_all
qed

lemma key_index_exact:
  assumes "dims_ok H D B x nb" "0 \<le> s" "s < nb * B" "0 \<le> i" "i < H * D"
  shows "key_index H D B x s i = key_pos H D B x s i"
proof -
  note d = dims_okD [OF assms(1)]
  have flat: "H * (D div x) * B * x = H * D * B" "D div x * B * x = D * B"
    using d(5) by (metis mult.assoc mult.commute)+
  have i32: "i32 (H * (D div x) * B * x) = H * D * B" "i32 (D div x * B * x) = D * B" "i32 (B * x) = B * x"
    unfolding flat by (rule i32_nonneg; use d in simp)+
  have "s div B * (H * D * B) + i div D * (D * B) + i mod D div x * (B * x) + s mod B * x + i mod D mod x =
      key_pos H D B x s i"
    unfolding key_pos_def flat [symmetric] by (simp only: algebra_simps)
  moreover have "i64 (key_pos H D B x s i) = key_pos H D B x s i"
    by (rule i64_block [OF key_pos_bounds [OF assms]]) (use d in simp_all)
  ultimately show ?thesis unfolding key_index_def Let_def i32 by simp
qed

lemma value_index_exact:
  assumes "dims_ok H D B x nb" "0 \<le> s" "s < nb * B" "0 \<le> i" "i < H * D"
  shows "value_index H D B s i = value_pos H D B s i"
proof -
  note d = dims_okD [OF assms(1)]
  have i32: "i32 (H * D * B) = H * D * B" "i32 (D * B) = D * B"
    by (rule i32_nonneg; use d in simp)+
  have "s div B * (H * D * B) + i div D * (D * B) + i mod D * B + s mod B = value_pos H D B s i"
    unfolding value_pos_def by (simp only: algebra_simps)
  moreover have "i64 (value_pos H D B s i) = value_pos H D B s i"
    by (rule i64_block [OF value_pos_bounds [OF assms]]) (use d in simp_all)
  ultimately show ?thesis unfolding value_index_def Let_def i32 by simp
qed

section \<open>The grid of the kernel\<close>

definition slot_of :: "iarray \<Rightarrow> int \<Rightarrow> int" where
  "slot_of sm t = ia_data sm ! nat t"

text \<open>
  Arguments of \<open>reshape_and_cache\<close> of the shapes its kernel states: \<open>T\<close> tokens with distinct slots
  of the caches or negative ones, buffers that do not overlap, and indices of keys and values that
  fit into 32 bits. The kernel is chosen by the types of \<open>key\<close> and \<open>key_cache\<close>, for which there must
  be one; it reads \<open>value\<close> with the type of \<open>key\<close> and writes \<open>value_cache\<close> with that of \<open>key_cache\<close>,
  which the host function does not check.
\<close>

definition reshape_args ::
  "darray \<Rightarrow> darray \<Rightarrow> darray \<Rightarrow> darray \<Rightarrow> iarray \<Rightarrow> nat \<Rightarrow> nat \<Rightarrow> nat \<Rightarrow> nat \<Rightarrow> nat \<Rightarrow> nat \<Rightarrow> bool" where
  "reshape_args key val kc vc sm T H D B x nb \<longleftrightarrow>
     da_shape key = [T, H, D] \<and> da_shape val = [T, H, D] \<and>
     da_shape kc = [nb, H, D div x, B, x] \<and> da_shape vc = [nb, H, D, B] \<and>
     (da_dtype key, da_dtype kc) \<in> {(Float32, Float32), (Bfloat16, Bfloat16), (Float16, Float16),
       (Float32, Float16), (Float32, Bfloat16)} \<and>
     da_dtype val = da_dtype key \<and> da_dtype vc = da_dtype kc \<and> int T < 2 ^ 31 \<and>
     dims_ok (int H) (int D) (int B) (int x) (int nb) \<and> int H * int D + 512 \<le> 2 ^ 31 \<and>
     (\<forall>a \<in> {key, val}. da_strides a \<noteq> [] \<and> 0 \<le> hd (da_strides a) \<and> hd (da_strides a) < 2 ^ 31 \<and>
        int T * hd (da_strides a) + int H * int D \<le> 2 ^ 31) \<and>
     length (ia_data sm) = T \<and>
     (\<forall>t \<in> {0..<int T}. - (2 ^ 31) \<le> slot_of sm t \<and> slot_of sm t < int nb * int B) \<and>
     (\<forall>t \<in> {0..<int T}. \<forall>u \<in> {0..<int T}. slot_of sm t = slot_of sm u \<longrightarrow> 0 \<le> slot_of sm t \<longrightarrow> t = u) \<and>
     da_buffer kc \<noteq> da_buffer vc \<and> {da_buffer key, da_buffer val} \<inter> {da_buffer kc, da_buffer vc} = {}"

lemma reshape_argsD:
  assumes "reshape_args key val kc vc sm T H D B x nb"
  shows "da_shape key = [T, H, D]" "da_shape kc = [nb, H, D div x, B, x]"
    "dims_ok (int H) (int D) (int B) (int x) (int nb)" "int H * int D + 512 \<le> 2 ^ 31"
    "da_strides key \<noteq> []" "da_strides val \<noteq> []" "length (ia_data sm) = T"
    "a \<in> {key, val} \<Longrightarrow> 0 \<le> hd (da_strides a) \<and> hd (da_strides a) < 2 ^ 31 \<and>
       int T * hd (da_strides a) + int H * int D \<le> 2 ^ 31"
    "t \<in> {0..<int T} \<Longrightarrow> - (2 ^ 31) \<le> slot_of sm t \<and> slot_of sm t < int nb * int B"
    "t \<in> {0..<int T} \<Longrightarrow> u \<in> {0..<int T} \<Longrightarrow> slot_of sm t = slot_of sm u \<Longrightarrow> 0 \<le> slot_of sm t \<Longrightarrow> t = u"
    "da_buffer kc \<noteq> da_buffer vc" "{da_buffer key, da_buffer val} \<inter> {da_buffer kc, da_buffer vc} = {}"
    "da_dtype val = da_dtype key" "da_dtype vc = da_dtype kc"
  using assms unfolding reshape_args_def by blast+

text \<open>The two moves for the entry \<open>i\<close> of the token \<open>t\<close>.\<close>

definition reshape_moves ::
  "darray \<Rightarrow> darray \<Rightarrow> darray \<Rightarrow> darray \<Rightarrow> iarray \<Rightarrow> int \<Rightarrow> int \<Rightarrow> int \<Rightarrow> int \<Rightarrow> int \<Rightarrow> int \<Rightarrow>
     (nat \<times> int) move set" where
  "reshape_moves key val kc vc sm H D B x t i =
     (if slot_of sm t < 0 then {}
      else {((da_buffer kc, key_pos H D B x (slot_of sm t) i), (da_buffer key, t * hd (da_strides key) + i)),
            ((da_buffer vc, value_pos H D B (slot_of sm t) i), (da_buffer val, t * hd (da_strides val) + i))})"

lemma source_index:
  assumes a: "reshape_args key val kc vc sm T H D B x nb" and v: "v \<in> {key, val}"
    and t: "t \<in> {0..<int T}" and i: "i \<in> {0..<int H * int D}"
  shows "i32 (t * i32 (da_strides v ! 0) + i) = t * hd (da_strides v) + i"
proof -
  note r = reshape_argsD(8) [OF a v]
  have st: "da_strides v ! 0 = hd (da_strides v)"
    using reshape_argsD(5,6) [OF a] v by (auto simp: hd_conv_nth)
  have "t * hd (da_strides v) \<le> int T * hd (da_strides v)" using r t by (intro mult_right_mono) auto
  then have "t * hd (da_strides v) + i < 2 ^ 31" using r i by auto
  moreover have "0 \<le> t * hd (da_strides v) + i" using r t i by simp
  ultimately show ?thesis using r unfolding st by (simp add: i32_nonneg)
qed

lemma map_i32_slot:
  assumes a: "reshape_args key val kc vc sm T H D B x nb" and t: "t \<in> {0..<int T}"
  shows "map i32 (ia_data sm) ! nat t = slot_of sm t"
proof -
  have "- (2 ^ 31) \<le> slot_of sm t" "slot_of sm t < 2 ^ 31"
    using reshape_argsD(9) [OF a t] dims_okD(7) [OF reshape_argsD(3) [OF a]] by linarith+
  then have "i32 (slot_of sm t) = slot_of sm t" by (rule i32_id)
  moreover have "nat t < length (ia_data sm)" using reshape_argsD(7) [OF a] t by auto
  ultimately show ?thesis by (simp add: slot_of_def)
qed

text \<open>The two moves as the kernel computes their indices.\<close>

lemma reshape_moves_exact:
  assumes a: "reshape_args key val kc vc sm T H D B x nb"
    and t: "t \<in> {0..<int T}" and i: "i \<in> {0..<int H * int D}"
  shows "(if slot_of sm t < 0 then {} else
      {((da_buffer kc, key_index (int H) (int D) (int B) (int x) (slot_of sm t) i),
        (da_buffer key, i32 (t * i32 (da_strides key ! 0) + i))),
       ((da_buffer vc, value_index (int H) (int D) (int B) (slot_of sm t) i),
        (da_buffer val, i32 (t * i32 (da_strides val ! 0) + i)))}) =
    reshape_moves key val kc vc sm (int H) (int D) (int B) (int x) t i"
proof (cases "slot_of sm t < 0")
  case False
  then have "0 \<le> slot_of sm t" "slot_of sm t < int nb * int B" "0 \<le> i" "i < int H * int D"
    using reshape_argsD(9) [OF a t] i by auto
  then show ?thesis
    using False source_index [OF a _ t i] key_index_exact [OF reshape_argsD(3) [OF a]]
      value_index_exact [OF reshape_argsD(3) [OF a]]
    by (simp add: reshape_moves_def)
qed (simp add: reshape_moves_def)

lemma reshape_grid:
  assumes a: "reshape_args key val kc vc sm T H D B x nb"
  defines "th \<equiv> min 512 (int H * int D)"
    and "cd \<equiv> \<lparr>cd_num_heads = int H, cd_head_size = int D, cd_block_size = int B, cd_x = int x\<rparr>"
  shows "\<exists>mss. grid (int T) th (reshape_and_cache_thread (da_buffer key) (da_buffer val) (da_buffer kc)
      (da_buffer vc) (map i32 (ia_data sm)) (i32 (da_strides key ! 0)) (i32 (da_strides val ! 0)) cd th) = Some mss \<and>
    set (concat mss) = (\<Union>t \<in> {0..<int T}. \<Union>i \<in> {0..<int H * int D}.
      reshape_moves key val kc vc sm (int H) (int D) (int B) (int x) t i)"
proof -
  note d = dims_okD [OF reshape_argsD(3) [OF a]]
  have n: "i32 (int H * int D) = int H * int D" by (rule i32_nonneg) (use d in simp_all)
  let ?mv = "\<lambda>t i. [((da_buffer kc, key_index (int H) (int D) (int B) (int x) (slot_of sm t) i),
        (da_buffer key, i32 (t * i32 (da_strides key ! 0) + i))),
       ((da_buffer vc, value_index (int H) (int D) (int B) (slot_of sm t) i),
        (da_buffer val, i32 (t * i32 (da_strides val ! 0) + i)))]"
  let ?F = "\<lambda>t js. if slot_of sm t < 0 then [] else concat (map (?mv t) js)"
  let ?G = "\<lambda>t i. if slot_of sm t < 0 then {} else set (?mv t i)"
  let ?body = "reshape_and_cache_thread (da_buffer key) (da_buffer val) (da_buffer kc) (da_buffer vc)
    (map i32 (ia_data sm)) (i32 (da_strides key ! 0)) (i32 (da_strides val ! 0)) cd th"
  have "\<exists>mss. grid (int T) th ?body = Some mss \<and>
    set (concat mss) = (\<Union>t \<in> {0..<int T}. \<Union>i \<in> {0..<int H * int D}. ?G t i)"
  proof (rule grid_moves)
    fix g t :: int and js
    assume "0 \<le> g" "g < int T" "strided t (int H * int D) th = Some js"
    then show "?body g t = Some (?F g js)"
      using map_i32_slot [OF a, of g]
      by (simp add: reshape_and_cache_thread_def Let_def cd_def n del: of_nat_mult)
  next
    fix g :: int and js
    show "set (?F g js) = (\<Union>i \<in> set js. ?G g i)"
      by (cases "slot_of sm g < 0") (simp_all only: if_True if_False set_concat set_map list.set(1), auto)
  qed (use d reshape_argsD(4) [OF a] in \<open>simp_all add: th_def\<close>)
  moreover have "(\<Union>t \<in> {0..<int T}. \<Union>i \<in> {0..<int H * int D}. ?G t i) =
      (\<Union>t \<in> {0..<int T}. \<Union>i \<in> {0..<int H * int D}.
        reshape_moves key val kc vc sm (int H) (int D) (int B) (int x) t i)"
  proof (intro SUP_cong refl)
    fix t i assume "t \<in> {0..<int T}" "i \<in> {0..<int H * int D}"
    then show "?G t i = reshape_moves key val kc vc sm (int H) (int D) (int B) (int x) t i"
      unfolding list.set by (rule reshape_moves_exact [OF a])
  qed
  ultimately show ?thesis by simp
qed

lemma reshape_host:
  assumes a: "reshape_args key val kc vc sm T H D B x nb"
  shows "\<exists>call mss. reshape_and_cache_host key val kc vc sm = Inr ((kc, vc), call) \<and>
    kc_name call \<in> set cache_kernels \<and> kc_threads call = Some mss \<and>
    set (concat mss) = (\<Union>t \<in> {0..<int T}. \<Union>i \<in> {0..<int H * int D}.
      reshape_moves key val kc vc sm (int H) (int D) (int B) (int x) t i)"
proof -
  note r = reshape_argsD [OF a] and d = dims_okD [OF reshape_argsD(3) [OF a]]
  let ?n = "int H * int D" and ?th = "min 512 (int H * int D)"
  let ?cd = "\<lparr>cd_num_heads = int H, cd_head_size = int D, cd_block_size = int B, cd_x = int x\<rparr>"
  let ?body = "reshape_and_cache_thread (da_buffer key) (da_buffer val) (da_buffer kc) (da_buffer vc)
    (map i32 (ia_data sm)) (i32 (da_strides key ! 0)) (i32 (da_strides val ! 0)) ?cd ?th"
  have pos: "0 < ?n" "?n < 2 ^ 31" using d by simp_all
  have n: "i32 ?n = ?n" by (rule i32_nonneg) (use pos in simp_all)
  have one: "1 * int B \<le> ?n * int B" using pos d(3) by (intro mult_right_mono) simp_all
  have "int H * 1 \<le> ?n" "int D * 1 \<le> int D * int H" "int x * 1 \<le> int x * int B"
    using d(1-4) by (intro mult_left_mono; simp)+
  then have small: "int H < 2 ^ 31" "int D < 2 ^ 31" "int B < 2 ^ 31" "int x < 2 ^ 31"
    using pos one d(6,10) by (simp_all add: mult.commute)
  have cd: "i32 (int H) = int H" "i32 (int D) = int D" "i32 (int B) = int B" "i32 (int x) = int x"
    using small by (simp_all add: i32_nonneg)
  have th: "?n mod 18446744073709551616 = ?n" using pos by (intro mod_pos_pos_trivial) simp_all
  have "\<exists>mss. grid (int T) ?th ?body = Some mss \<and> set (concat mss) =
      (\<Union>t \<in> {0..<int T}. \<Union>i \<in> {0..<?n}. reshape_moves key val kc vc sm (int H) (int D) (int B) (int x) t i)"
    using reshape_grid [OF a] by simp
  then obtain mss where mss: "grid (int T) ?th ?body = Some mss" "set (concat mss) =
      (\<Union>t \<in> {0..<int T}. \<Union>i \<in> {0..<?n}. reshape_moves key val kc vc sm (int H) (int D) (int B) (int x) t i)"
    by blast
  obtain kt ct where ty: "dtype_str (da_dtype key) = Inr kt" "dtype_str (da_dtype kc) = Inr ct"
    "''reshape_and_cache_kv_'' @ kt @ ''_cache_'' @ ct \<in> set cache_kernels"
    using a unfolding reshape_args_def cache_kernels_def by auto
  have "reshape_and_cache_host key val kc vc sm = Inr ((kc, vc),
      \<lparr>kc_name = ''reshape_and_cache_kv_'' @ kt @ ''_cache_'' @ ct, kc_threads = Some mss\<rparr>)"
    unfolding reshape_and_cache_host_def
    by (simp add: ty r(1,2) cd n th mss(1) Let_def del: of_nat_mult)
  then show ?thesis using ty(3) mss(2) by auto
qed

section \<open>The outcome\<close>

lemma reshape_moves_cases:
  assumes "(e, f) \<in> reshape_moves key val kc vc sm H D B x t i"
  obtains "0 \<le> slot_of sm t" "e = (da_buffer kc, key_pos H D B x (slot_of sm t) i)"
      "f = (da_buffer key, t * hd (da_strides key) + i)"
    | "0 \<le> slot_of sm t" "e = (da_buffer vc, value_pos H D B (slot_of sm t) i)"
      "f = (da_buffer val, t * hd (da_strides val) + i)"
  using assms by (auto simp: reshape_moves_def split: if_splits)

lemma reshape_race_free:
  assumes a: "reshape_args key val kc vc sm T H D B x nb"
    and ms: "set ms = (\<Union>t \<in> {0..<int T}. \<Union>i \<in> {0..<int H * int D}.
      reshape_moves key val kc vc sm (int H) (int D) (int B) (int x) t i)"
  shows "race_free ms"
  unfolding race_free_def ms
proof (intro conjI allI impI)
  note d = reshape_argsD(3) [OF a]
  let ?M = "\<lambda>t i. reshape_moves key val kc vc sm (int H) (int D) (int B) (int x) t i"
  fix e f f'
  assume "(e, f) \<in> (\<Union>t \<in> {0..<int T}. \<Union>i \<in> {0..<int H * int D}. ?M t i)"
    "(e, f') \<in> (\<Union>t \<in> {0..<int T}. \<Union>i \<in> {0..<int H * int D}. ?M t i)"
  then obtain t i u j where
    t: "t \<in> {0..<int T}" "i \<in> {0..<int H * int D}" "(e, f) \<in> ?M t i" and
    u: "u \<in> {0..<int T}" "j \<in> {0..<int H * int D}" "(e, f') \<in> ?M u j" by blast
  have ij: "0 \<le> i" "i < int H * int D" "0 \<le> j" "j < int H * int D" using t(2) u(2) by simp_all
  have st: "slot_of sm t < int nb * int B" and su: "slot_of sm u < int nb * int B"
    using reshape_argsD(9) [OF a] t(1) u(1) by blast+
  have tu: "t = u" if "slot_of sm t = slot_of sm u" "0 \<le> slot_of sm t"
    using reshape_argsD(10) [OF a t(1) u(1) that] .
  note bufs = reshape_argsD(11) [OF a]
  from t(3) show "f = f'"
  proof (cases rule: reshape_moves_cases)
    case 1
    with u(3) bufs have k: "0 \<le> slot_of sm u" "key_pos (int H) (int D) (int B) (int x) (slot_of sm t) i =
        key_pos (int H) (int D) (int B) (int x) (slot_of sm u) j"
      "f' = (da_buffer key, u * hd (da_strides key) + j)"
      by (auto elim!: reshape_moves_cases)
    from key_pos_inj [OF d 1(1) st ij(1,2) k(1) su ij(3,4) k(2)] tu 1 k(3) show ?thesis by simp
  next
    case 2
    with u(3) bufs have k: "0 \<le> slot_of sm u" "value_pos (int H) (int D) (int B) (slot_of sm t) i =
        value_pos (int H) (int D) (int B) (slot_of sm u) j"
      "f' = (da_buffer val, u * hd (da_strides val) + j)"
      by (auto elim!: reshape_moves_cases)
    from value_pos_inj [OF d 2(1) st ij(1,2) k(1) su ij(3,4) k(2)] tu 2 k(3) show ?thesis by simp
  qed
next
  let ?M = "\<Union>t \<in> {0..<int T}. \<Union>i \<in> {0..<int H * int D}.
    reshape_moves key val kc vc sm (int H) (int D) (int B) (int x) t i"
  have "fst (fst p) \<in> {da_buffer kc, da_buffer vc} \<and> fst (snd p) \<in> {da_buffer key, da_buffer val}"
    if "p \<in> ?M" for p
    using that by (cases p) (auto elim!: reshape_moves_cases)
  then have "fst ` fst ` ?M \<subseteq> {da_buffer kc, da_buffer vc}" "fst ` snd ` ?M \<subseteq> {da_buffer key, da_buffer val}"
    by blast+
  note sub = this
  show "fst ` ?M \<inter> snd ` ?M = {}"
  proof (rule equals0I)
    fix z
    assume "z \<in> fst ` ?M \<inter> snd ` ?M"
    then have "fst z \<in> fst ` fst ` ?M" "fst z \<in> fst ` snd ` ?M" by (simp_all only: IntE imageI Int_iff)
    then have "fst z \<in> {da_buffer kc, da_buffer vc} \<inter> {da_buffer key, da_buffer val}"
      by (rule IntI [OF subsetD [OF sub(1)] subsetD [OF sub(2)]])
    then show False using reshape_argsD(12) [OF a] by blast
  qed
qed

text \<open>Every token with a slot is stored there, and nothing else changes.\<close>

definition stored :: "('e \<Rightarrow> 'e) \<Rightarrow> darray \<Rightarrow> darray \<Rightarrow> darray \<Rightarrow> darray \<Rightarrow> iarray \<Rightarrow> int \<Rightarrow> int \<Rightarrow> int \<Rightarrow>
    int \<Rightarrow> int \<Rightarrow> (nat \<times> int \<Rightarrow> 'e) \<Rightarrow> (nat \<times> int \<Rightarrow> 'e) \<Rightarrow> bool" where
  "stored conv key val kc vc sm T H D B x m m' \<longleftrightarrow>
     (\<forall>t \<in> {0..<T}. \<forall>i \<in> {0..<H * D}. 0 \<le> slot_of sm t \<longrightarrow>
        m' (da_buffer kc, key_pos H D B x (slot_of sm t) i) =
          conv (m (da_buffer key, t * hd (da_strides key) + i)) \<and>
        m' (da_buffer vc, value_pos H D B (slot_of sm t) i) =
          conv (m (da_buffer val, t * hd (da_strides val) + i))) \<and>
     (\<forall>e. (\<forall>t \<in> {0..<T}. \<forall>i \<in> {0..<H * D}. 0 \<le> slot_of sm t \<longrightarrow>
          e \<noteq> (da_buffer kc, key_pos H D B x (slot_of sm t) i) \<and>
          e \<noteq> (da_buffer vc, value_pos H D B (slot_of sm t) i)) \<longrightarrow> m' e = m e)"

lemma reshape_launch:
  assumes a: "reshape_args key val kc vc sm T H D B x nb"
    and ms: "set (concat mss) = (\<Union>t \<in> {0..<int T}. \<Union>i \<in> {0..<int H * int D}.
      reshape_moves key val kc vc sm (int H) (int D) (int B) (int x) t i)"
    and l: "launch conv mss m m'"
  shows "stored conv key val kc vc sm (int T) (int H) (int D) (int B) (int x) m m'"
proof -
  note rf = reshape_race_free [OF a ms]
  have m': "m' = moved conv (concat mss) m" using race_free_launch [OF rf] l by blast
  have in_ms: "p \<in> set (concat mss)"
    if "t \<in> {0..<int T}" "i \<in> {0..<int H * int D}"
      "p \<in> reshape_moves key val kc vc sm (int H) (int D) (int B) (int x) t i" for t i p
    unfolding ms using that by blast
  have "m' e = conv (m f)"
    if "t \<in> {0..<int T}" "i \<in> {0..<int H * int D}"
      "(e, f) \<in> reshape_moves key val kc vc sm (int H) (int D) (int B) (int x) t i" for t i e f
    unfolding m' by (rule moved_in [OF rf in_ms [OF that]])
  moreover have "m' e = m e"
    if e: "\<forall>t \<in> {0..<int T}. \<forall>i \<in> {0..<int H * int D}. 0 \<le> slot_of sm t \<longrightarrow>
        e \<noteq> (da_buffer kc, key_pos (int H) (int D) (int B) (int x) (slot_of sm t) i) \<and>
        e \<noteq> (da_buffer vc, value_pos (int H) (int D) (int B) (slot_of sm t) i)" for e
  proof -
    have "e \<notin> fst ` set (concat mss)"
    proof
      assume "e \<in> fst ` set (concat mss)"
      then obtain f t i where ti: "t \<in> {0..<int T}" "i \<in> {0..<int H * int D}"
        "(e, f) \<in> reshape_moves key val kc vc sm (int H) (int D) (int B) (int x) t i"
        unfolding ms by force
      have "0 \<le> slot_of sm t \<longrightarrow>
          e \<noteq> (da_buffer kc, key_pos (int H) (int D) (int B) (int x) (slot_of sm t) i) \<and>
          e \<noteq> (da_buffer vc, value_pos (int H) (int D) (int B) (slot_of sm t) i)"
        using e ti(1,2) by blast
      with ti(3) show False by (cases rule: reshape_moves_cases) blast+
    qed
    then show ?thesis unfolding m' by (rule moved_out)
  qed
  ultimately show ?thesis unfolding stored_def by (simp add: reshape_moves_def)
qed

section \<open>The addresses of the attention kernel\<close>

text \<open>In a cache in row order, \<open>paged_attention\<close> reads the token at the position \<open>p\<close> of the block \<open>b\<close> where
  \<open>reshape_and_cache\<close> stores the token of the slot \<open>b * block_size + p\<close>.\<close>

lemma attention_addresses:
  assumes d: "dims_ok H D B x nb" and b: "0 \<le> b" "b < nb" "0 \<le> p" "p < B" "0 \<le> h" "h < H" "0 \<le> j" "j < D"
  shows "attention_key_index (H * D * B) (D * B) B x b h p j = key_pos H D B x (b * B + p) (h * D + j)"
    and "attention_value_index (H * D * B) (D * B) B b h p j = value_pos H D B (b * B + p) (h * D + j)"
proof -
  note dd = dims_okD [OF d]
  have s: "0 \<le> b * B + p" "b * B + p < nb * B" "0 \<le> h * D + j" "h * D + j < H * D"
    using nested_bound [OF b(1-4)] nested_bound [OF b(5-8)] by simp_all
  have dm: "(b * B + p) div B = b" "(b * B + p) mod B = p" "(h * D + j) div D = h" "(h * D + j) mod D = j"
    using b by (simp_all add: div_pos_pos_trivial)
  have flat: "H * D * B = H * (D div x) * B * x" "D * B = D div x * B * x"
    using dd(5) by (metis mult.assoc mult.commute)+
  have "b * (H * D * B) + h * (D * B) + (j div x * B * x + p * x + j mod x) =
      key_pos H D B x (b * B + p) (h * D + j)"
    unfolding key_pos_def dm flat by (simp only: algebra_simps)
  moreover have "i64 (key_pos H D B x (b * B + p) (h * D + j)) = key_pos H D B x (b * B + p) (h * D + j)"
    by (rule i64_block [OF key_pos_bounds [OF d s]]) (use dd in simp_all)
  ultimately show "attention_key_index (H * D * B) (D * B) B x b h p j =
      key_pos H D B x (b * B + p) (h * D + j)"
    unfolding attention_key_index_def by simp
  have "b * (H * D * B) + h * (D * B) + (j * B + p) = value_pos H D B (b * B + p) (h * D + j)"
    unfolding value_pos_def dm by (simp only: algebra_simps)
  moreover have "i64 (value_pos H D B (b * B + p) (h * D + j)) = value_pos H D B (b * B + p) (h * D + j)"
    by (rule i64_block [OF value_pos_bounds [OF d s]]) (use dd in simp_all)
  ultimately show "attention_value_index (H * D * B) (D * B) B b h p j =
      value_pos H D B (b * B + p) (h * D + j)"
    unfolding attention_value_index_def by simp
qed

end
