(* ===== verification/Attention_Kernel.thy ===== *)
theory Attention_Kernel
  imports Thread_Groups Block_Reshape
begin

unbundle bit_operations_syntax

text \<open>
  The compute kernel \<open>paged_attention\<close> of \<open>metal/attention/paged_attention_kernels.metal\<close> as a
  program of thread groups: one group per head and sequence, with its threads in warps. The
  operations on floating-point numbers are a parameter, so that what follows holds for whatever
  arithmetic the device has: it is about the operations the kernel makes and their order. The lanes
  of a warp are consecutive threads. What a thread reads from constant buffers (block tables, the
  slope of a head) is read where it is used.
\<close>

section \<open>Parameters\<close>

text \<open>
  \<open>'e\<close> are the values of all types of entries; the conversions are from the type of the query, from
  the type of the caches and to the type of the result.
\<close>

record 'e float_ops =
  fl_zero :: 'e
  fl_one :: 'e
  fl_lowest :: 'e
  fl_eps :: 'e
  fl_of_int :: "int \<Rightarrow> 'e"
  fl_add :: "'e \<Rightarrow> 'e \<Rightarrow> 'e"
  fl_sub :: "'e \<Rightarrow> 'e \<Rightarrow> 'e"
  fl_mul :: "'e \<Rightarrow> 'e \<Rightarrow> 'e"
  fl_div :: "'e \<Rightarrow> 'e \<Rightarrow> 'e"
  fl_max :: "'e \<Rightarrow> 'e \<Rightarrow> 'e"
  fl_exp :: "'e \<Rightarrow> 'e"
  fl_tanh :: "'e \<Rightarrow> 'e"
  fl_eq :: "'e \<Rightarrow> 'e \<Rightarrow> bool"
  fl_from_q :: "'e \<Rightarrow> 'e"
  fl_from_cache :: "'e \<Rightarrow> 'e"
  fl_to_out :: "'e \<Rightarrow> 'e"

text \<open>
  The template parameters, the numbers of heads and sequences of the grid, and the buffers and
  constants. Block tables and context lengths are read as 32-bit words.
\<close>

record 'e attention_params =
  ap_head_size :: nat
  ap_block_size :: nat
  ap_threads :: nat
  ap_lanes :: nat
  ap_x :: nat
  ap_num_heads :: nat
  ap_num_seqs :: nat
  ap_out :: nat
  ap_q :: nat
  ap_k_cache :: nat
  ap_v_cache :: nat
  ap_num_kv_heads :: nat
  ap_scale :: 'e
  ap_softcapping :: 'e
  ap_block_tables :: "int list"
  ap_context_lens :: "int list"
  ap_max_num_blocks :: nat
  ap_alibi_slopes :: "nat option"
  ap_q_stride :: int
  ap_kv_block_stride :: int
  ap_kv_head_stride :: int
  ap_max_seq_len :: nat

section \<open>Locations\<close>

text \<open>
  The registers of a thread, the shared memory of the group \<open>g\<close> in entries of four bytes, and the
  entries of the buffers on the device.
\<close>

datatype reg = Q_local nat | Qk | Qk_max | Red_m | Val | Exp_sum | Red_s | Inv_sum | Acc | Final_acc

datatype aloc = Device "nat \<times> int" | Smem nat nat | Reg nat nat reg

definition num_warps :: "'e attention_params \<Rightarrow> nat" where
  "num_warps p = ap_threads p div ap_lanes p"

definition thread_idx :: "'e attention_params \<Rightarrow> nat \<Rightarrow> nat \<Rightarrow> nat" where
  "thread_idx p w l = w * ap_lanes p + l"

definition logits :: "'e attention_params \<Rightarrow> nat \<Rightarrow> nat \<Rightarrow> aloc" where
  "logits p g i = Smem g i"

definition red_smem :: "'e attention_params \<Rightarrow> nat \<Rightarrow> nat \<Rightarrow> aloc" where
  "red_smem p g i = Smem g (ap_max_seq_len p + i)"

definition out_smem :: "'e attention_params \<Rightarrow> nat \<Rightarrow> nat \<Rightarrow> aloc" where
  "out_smem p g i = Smem g (ap_max_seq_len p + 128 + i)"

text \<open>The group \<open>g\<close> is at the position \<open>(head_idx, seq_idx)\<close> of the grid.\<close>

definition head_idx :: "'e attention_params \<Rightarrow> nat \<Rightarrow> nat" where
  "head_idx p g = g mod ap_num_heads p"

definition seq_idx :: "'e attention_params \<Rightarrow> nat \<Rightarrow> nat" where
  "seq_idx p g = g div ap_num_heads p"

definition kv_head_idx :: "'e attention_params \<Rightarrow> nat \<Rightarrow> nat" where
  "kv_head_idx p g = head_idx p g div (ap_num_heads p div ap_num_kv_heads p)"

definition context_len :: "'e attention_params \<Rightarrow> nat \<Rightarrow> nat" where
  "context_len p g = nat (ap_context_lens p ! seq_idx p g mod 2 ^ 32)"

definition num_context_blocks :: "'e attention_params \<Rightarrow> nat \<Rightarrow> nat" where
  "num_context_blocks p g = (context_len p g + ap_block_size p - 1) div ap_block_size p"

definition physical_block :: "'e attention_params \<Rightarrow> nat \<Rightarrow> nat \<Rightarrow> int" where
  "physical_block p g b = ap_block_tables p ! (seq_idx p g * ap_max_num_blocks p + b) mod 2 ^ 32"

definition out_loc :: "'e attention_params \<Rightarrow> nat \<Rightarrow> nat \<Rightarrow> aloc" where
  "out_loc p g i = Device (ap_out p,
     i64 (int (seq_idx p g) * int (ap_num_heads p) * int (ap_head_size p) +
       int (head_idx p g) * int (ap_head_size p) + int i))"

definition q_loc :: "'e attention_params \<Rightarrow> nat \<Rightarrow> nat \<Rightarrow> aloc" where
  "q_loc p g i = Device (ap_q p,
     i64 (int (seq_idx p g) * ap_q_stride p + int (head_idx p g) * int (ap_head_size p) + int i))"

definition k_loc :: "'e attention_params \<Rightarrow> nat \<Rightarrow> nat \<Rightarrow> nat \<Rightarrow> nat \<Rightarrow> aloc" where
  "k_loc p g b t d = Device (ap_k_cache p,
     attention_key_index (ap_kv_block_stride p) (ap_kv_head_stride p) (int (ap_block_size p)) (int (ap_x p))
       (physical_block p g b) (int (kv_head_idx p g)) (int t) (int d))"

definition v_loc :: "'e attention_params \<Rightarrow> nat \<Rightarrow> nat \<Rightarrow> nat \<Rightarrow> nat \<Rightarrow> aloc" where
  "v_loc p g b t d = Device (ap_v_cache p,
     attention_value_index (ap_kv_block_stride p) (ap_kv_head_stride p) (int (ap_block_size p))
       (physical_block p g b) (int (kv_head_idx p g)) (int t) (int d))"

section \<open>Loops, warps and shuffles\<close>

text \<open>
  \<open>for (i = start; i < n; i += step)\<close>, without the wrap-around of the 32-bit counters: all bounds
  are at most \<open>max_seq_len + 256\<close> or \<open>8 * head_size + 256\<close>, and these stay below \<open>2^31\<close> when the shared
  memory of the call does (\<open>attention_loops_bounded\<close>), as it is on every device.
\<close>

function loop :: "nat \<Rightarrow> nat \<Rightarrow> nat \<Rightarrow> nat list" where
  "loop i n step = (if i < n \<and> 0 < step then i # loop (i + step) n step else [])"
  by pat_completeness auto
termination by (relation "measure (\<lambda>(i, n, step). n - i)") auto

declare loop.simps [simp del]

text \<open>The same for all warps of a group, and for all lanes of a warp.\<close>

definition warps :: "'e attention_params \<Rightarrow> (nat \<Rightarrow> (aloc, 'e) prog) \<Rightarrow> (aloc, 'e) prog" where
  "warps p f = Par (map f [0..<num_warps p])"

definition lanes :: "'e attention_params \<Rightarrow> (nat \<Rightarrow> (aloc, 'e) prog) \<Rightarrow> (aloc, 'e) prog" where
  "lanes p f = Par (map f [0..<ap_lanes p])"

text \<open>
  \<open>for (mask = lanes / 2; mask >= 1; mask /= 2) r = f(r, simd_shuffle_xor(r, mask))\<close>: all lanes of
  the warp \<open>w\<close> exchange the register \<open>r\<close> at once.
\<close>

function masks :: "nat \<Rightarrow> nat list" where
  "masks k = (if k \<ge> 1 then k # masks (k div 2) else [])"
  by pat_completeness auto
termination by (relation "measure id") auto

declare masks.simps [simp del]

definition shuffle :: "'e attention_params \<Rightarrow> ('e \<Rightarrow> 'e \<Rightarrow> 'e) \<Rightarrow> reg \<Rightarrow> nat \<Rightarrow> nat \<Rightarrow> nat \<Rightarrow> (aloc, 'e) prog" where
  "shuffle p f r g w k =
     Act (map (\<lambda>l. (Reg g (thread_idx p w l) r,
         Binop f (Load (Reg g (thread_idx p w l) r)) (Load (Reg g (thread_idx p w (l XOR k)) r))))
       [0..<ap_lanes p])"

definition reduce :: "'e attention_params \<Rightarrow> ('e \<Rightarrow> 'e \<Rightarrow> 'e) \<Rightarrow> reg \<Rightarrow> nat \<Rightarrow> nat \<Rightarrow> (aloc, 'e) prog" where
  "reduce p f r g w = Seq (map (shuffle p f r g w) (masks (ap_lanes p div 2)))"

section \<open>The phases\<close>

text \<open>Each phase ends at a barrier. First the shared memory is cleared.\<close>

definition init_phase :: "'e float_ops \<Rightarrow> 'e attention_params \<Rightarrow> nat \<Rightarrow> (aloc, 'e) prog" where
  "init_phase F p g = warps p (\<lambda>w. lanes p (\<lambda>l. Seq
     (map (\<lambda>i. set_to (logits p g i) (Const (fl_lowest F)))
        (loop (thread_idx p w l) (ap_max_seq_len p) (ap_threads p)) @
      map (\<lambda>i. set_to (out_smem p g i) (Const (fl_zero F)))
        (loop (thread_idx p w l) (num_warps p * ap_head_size p) (ap_threads p)))))"

text \<open>Then the scores of the tokens: one token at the position \<open>t\<close> of the block \<open>b\<close>.\<close>

definition softcap :: "'e float_ops \<Rightarrow> 'e \<Rightarrow> 'e \<Rightarrow> 'e" where
  "softcap F cap qk =
     (if \<not> fl_eq F cap (fl_zero F) \<and> \<not> fl_eq F cap (fl_one F)
      then fl_mul F (fl_tanh F (fl_div F qk cap)) cap else qk)"

definition alibi :: "'e float_ops \<Rightarrow> int \<Rightarrow> 'e \<Rightarrow> 'e \<Rightarrow> 'e" where
  "alibi F distance slope qk =
     (if \<not> fl_eq F slope (fl_zero F) then fl_add F qk (fl_mul F slope (fl_of_int F distance)) else qk)"

definition score_token :: "'e float_ops \<Rightarrow> 'e attention_params \<Rightarrow> nat \<Rightarrow> nat \<Rightarrow> nat \<Rightarrow> nat \<Rightarrow> (aloc, 'e) prog" where
  "score_token F p g tid b t =
     (let qk = Reg g tid Qk; token_idx = b * ap_block_size p + t in
      Seq ([set_to qk (Const (fl_zero F))] @
        map (\<lambda>d. set_to qk (Binop (fl_add F) (Load qk) (Binop (fl_mul F) (Load (Reg g tid (Q_local d)))
            (Unop (fl_from_cache F) (Load (k_loc p g b t d))))))
          [0..<ap_head_size p] @
        [set_to qk (Binop (fl_mul F) (Load qk) (Const (ap_scale p))),
         set_to qk (Unop (softcap F (ap_softcapping p)) (Load qk))] @
        (case ap_alibi_slopes p of None \<Rightarrow> []
         | Some slopes \<Rightarrow> [set_to qk (Binop (alibi F (int token_idx - int (context_len p g) + 1))
             (Load (Device (slopes, int (head_idx p g)))) (Load qk))]) @
        [set_to (logits p g token_idx) (Load qk),
         set_to (Reg g tid Qk_max) (Binop (fl_max F) (Load (Reg g tid Qk_max)) (Load qk))]))"

definition score_lane :: "'e float_ops \<Rightarrow> 'e attention_params \<Rightarrow> nat \<Rightarrow> nat \<Rightarrow> nat \<Rightarrow> (aloc, 'e) prog" where
  "score_lane F p g w l =
     (let tid = thread_idx p w l in
      Seq (map (\<lambda>i. set_to (Reg g tid (Q_local i)) (Unop (fl_from_q F) (Load (q_loc p g i)))) [0..<ap_head_size p] @
        [set_to (Reg g tid Qk_max) (Const (fl_lowest F))] @
        map (\<lambda>b. Seq (map (\<lambda>t.
            if b * ap_block_size p + t < context_len p g then score_token F p g tid b t else Seq [])
          (loop l (ap_block_size p) (ap_lanes p))))
        (loop w (num_context_blocks p g) (num_warps p))))"

text \<open>The first lane of a warp hands over the value of its register.\<close>

definition hand_over :: "'e attention_params \<Rightarrow> reg \<Rightarrow> nat \<Rightarrow> nat \<Rightarrow> (aloc, 'e) prog" where
  "hand_over p r g w = lanes p (\<lambda>l.
     if l = 0 then set_to (red_smem p g w) (Load (Reg g (thread_idx p w l) r)) else Seq [])"

definition score_phase :: "'e float_ops \<Rightarrow> 'e attention_params \<Rightarrow> nat \<Rightarrow> (aloc, 'e) prog" where
  "score_phase F p g = warps p (\<lambda>w. Seq
     [lanes p (score_lane F p g w), reduce p (fl_max F) Qk_max g w, hand_over p Qk_max g w])"

text \<open>The first warp reduces what the warps have handed over to one value at the position \<open>k\<close>.\<close>

definition combine_phase ::
  "('e \<Rightarrow> 'e \<Rightarrow> 'e) \<Rightarrow> 'e \<Rightarrow> reg \<Rightarrow> nat \<Rightarrow> 'e attention_params \<Rightarrow> nat \<Rightarrow> (aloc, 'e) prog" where
  "combine_phase f unit r k p g = warps p (\<lambda>w. if w = 0 then Seq
     [lanes p (\<lambda>l. set_to (Reg g (thread_idx p w l) r)
        (if thread_idx p w l < num_warps p then Load (red_smem p g (thread_idx p w l)) else Const unit)),
      reduce p f r g w,
      lanes p (\<lambda>l. if thread_idx p w l = 0 then set_to (red_smem p g k) (Load (Reg g (thread_idx p w l) r)) else Seq [])]
     else Seq [])"

text \<open>The exponentials of the scores and their sum.\<close>

definition exp_value :: "'e float_ops \<Rightarrow> 'e \<Rightarrow> 'e \<Rightarrow> 'e" where
  "exp_value F logit qk_max = (if fl_eq F logit (fl_lowest F) then fl_zero F else fl_exp F (fl_sub F logit qk_max))"

definition exp_lane :: "'e float_ops \<Rightarrow> 'e attention_params \<Rightarrow> nat \<Rightarrow> nat \<Rightarrow> nat \<Rightarrow> (aloc, 'e) prog" where
  "exp_lane F p g w l =
     (let tid = thread_idx p w l in
      Seq ([set_to (Reg g tid Qk_max) (Load (red_smem p g 127)),
            set_to (Reg g tid Exp_sum) (Const (fl_zero F))] @
        map (\<lambda>i. Seq
          [set_to (Reg g tid Val) (Binop (exp_value F) (Load (logits p g i)) (Load (Reg g tid Qk_max))),
           set_to (logits p g i) (Load (Reg g tid Val)),
           set_to (Reg g tid Exp_sum) (Binop (fl_add F) (Load (Reg g tid Exp_sum)) (Load (Reg g tid Val)))])
        (loop tid (context_len p g) (ap_threads p))))"

definition exp_phase :: "'e float_ops \<Rightarrow> 'e attention_params \<Rightarrow> nat \<Rightarrow> (aloc, 'e) prog" where
  "exp_phase F p g = warps p (\<lambda>w. Seq
     [lanes p (exp_lane F p g w), reduce p (fl_add F) Exp_sum g w, hand_over p Exp_sum g w])"

text \<open>The weighted sums of the values, one part per warp.\<close>

definition value_lane :: "'e float_ops \<Rightarrow> 'e attention_params \<Rightarrow> nat \<Rightarrow> nat \<Rightarrow> nat \<Rightarrow> (aloc, 'e) prog" where
  "value_lane F p g w l =
     (let tid = thread_idx p w l; acc = Reg g tid Acc in
      Seq ([set_to (Reg g tid Inv_sum) (Binop (fl_div F) (Const (fl_one F))
              (Binop (fl_add F) (Load (red_smem p g 126)) (Const (fl_eps F))))] @
        map (\<lambda>b. Seq (map (\<lambda>d. Seq
            ([set_to acc (Const (fl_zero F))] @
             map (\<lambda>t. if b * ap_block_size p + t < context_len p g
               then set_to acc (Binop (fl_add F) (Load acc) (Binop (fl_mul F)
                 (Binop (fl_mul F) (Load (logits p g (b * ap_block_size p + t))) (Load (Reg g tid Inv_sum)))
                 (Unop (fl_from_cache F) (Load (v_loc p g b t d)))))
               else Seq []) [0..<ap_block_size p] @
             [set_to (out_smem p g (w * ap_head_size p + d))
               (Binop (fl_add F) (Load (out_smem p g (w * ap_head_size p + d))) (Load acc))]))
          (loop l (ap_head_size p) (ap_lanes p))))
        (loop w (num_context_blocks p g) (num_warps p))))"

definition value_phase :: "'e float_ops \<Rightarrow> 'e attention_params \<Rightarrow> nat \<Rightarrow> (aloc, 'e) prog" where
  "value_phase F p g = warps p (\<lambda>w. lanes p (value_lane F p g w))"

text \<open>The sum over the warps is the result.\<close>

definition output_lane :: "'e float_ops \<Rightarrow> 'e attention_params \<Rightarrow> nat \<Rightarrow> nat \<Rightarrow> nat \<Rightarrow> (aloc, 'e) prog" where
  "output_lane F p g w l =
     (let tid = thread_idx p w l; final_acc = Reg g tid Final_acc in
      Seq (map (\<lambda>i. Seq
          ([set_to final_acc (Const (fl_zero F))] @
           map (\<lambda>v. set_to final_acc (Binop (fl_add F) (Load final_acc)
               (Load (out_smem p g (v * ap_head_size p + i))))) [0..<num_warps p] @
           [set_to (out_loc p g i) (Unop (fl_to_out F) (Load final_acc))]))
        (loop tid (ap_head_size p) (ap_threads p))))"

definition output_phase :: "'e float_ops \<Rightarrow> 'e attention_params \<Rightarrow> nat \<Rightarrow> (aloc, 'e) prog" where
  "output_phase F p g = warps p (\<lambda>w. lanes p (output_lane F p g w))"

text \<open>Without a context, or with one that is too long, the result is zero.\<close>

definition zero_output :: "'e float_ops \<Rightarrow> 'e attention_params \<Rightarrow> nat \<Rightarrow> (aloc, 'e) prog" where
  "zero_output F p g = warps p (\<lambda>w. lanes p (\<lambda>l. Seq
     (map (\<lambda>i. set_to (out_loc p g i) (Unop (fl_to_out F) (Const (fl_zero F))))
        (loop (thread_idx p w l) (ap_head_size p) (ap_threads p)))))"

definition paged_attention :: "'e float_ops \<Rightarrow> 'e attention_params \<Rightarrow> nat \<Rightarrow> (aloc, 'e) prog" where
  "paged_attention F p g =
     (if context_len p g = 0 \<or> context_len p g > ap_max_seq_len p then zero_output F p g
      else Seq [init_phase F p g, score_phase F p g,
        combine_phase (fl_max F) (fl_lowest F) Red_m 127 p g,
        exp_phase F p g, combine_phase (fl_add F) (fl_zero F) Red_s 126 p g,
        value_phase F p g, output_phase F p g])"

definition attention_grid :: "'e float_ops \<Rightarrow> 'e attention_params \<Rightarrow> (aloc, 'e) prog" where
  "attention_grid F p = Par (map (paged_attention F p) [0..<ap_num_heads p * ap_num_seqs p])"

section \<open>What it computes\<close>

text \<open>The same operations in their order, without threads. \<open>M\<close> is the memory before.\<close>

definition score :: "'e float_ops \<Rightarrow> 'e attention_params \<Rightarrow> (aloc \<Rightarrow> 'e) \<Rightarrow> nat \<Rightarrow> nat \<Rightarrow> 'e" where
  "score F p M g j =
     (let b = j div ap_block_size p; t = j mod ap_block_size p;
          dot = foldl (\<lambda>a d. fl_add F a (fl_mul F (fl_from_q F (M (q_loc p g d)))
            (fl_from_cache F (M (k_loc p g b t d))))) (fl_zero F) [0..<ap_head_size p];
          qk = softcap F (ap_softcapping p) (fl_mul F dot (ap_scale p))
      in case ap_alibi_slopes p of None \<Rightarrow> qk
         | Some slopes \<Rightarrow> alibi F (int j - int (context_len p g) + 1) (M (Device (slopes, int (head_idx p g)))) qk)"

text \<open>The reduction of a warp: the upper half of the lanes is added to the lower half.\<close>

primrec tree :: "('e \<Rightarrow> 'e \<Rightarrow> 'e) \<Rightarrow> nat \<Rightarrow> (nat \<Rightarrow> 'e) \<Rightarrow> 'e" where
  "tree f 0 v = v 0"
| "tree f (Suc k) v = tree f k (\<lambda>l. f (v l) (v (l + 2 ^ k)))"

text \<open>The exponent of the number of lanes.\<close>

definition lane_bits :: "'e attention_params \<Rightarrow> nat" where
  "lane_bits p = length (masks (ap_lanes p div 2))"

definition combined :: "('e \<Rightarrow> 'e \<Rightarrow> 'e) \<Rightarrow> 'e \<Rightarrow> 'e attention_params \<Rightarrow> (nat \<Rightarrow> 'e) \<Rightarrow> 'e" where
  "combined f unit p v = tree f (lane_bits p) (\<lambda>w. if w < num_warps p
     then tree f (lane_bits p) (\<lambda>l. v (thread_idx p w l)) else unit)"

text \<open>The tokens of the lane \<open>l\<close> of the warp \<open>w\<close>, in order.\<close>

definition lane_tokens :: "'e attention_params \<Rightarrow> nat \<Rightarrow> nat \<Rightarrow> nat \<Rightarrow> nat list" where
  "lane_tokens p g w l = concat (map (\<lambda>b.
     filter (\<lambda>j. j < context_len p g) (map (\<lambda>t. b * ap_block_size p + t) (loop l (ap_block_size p) (ap_lanes p))))
     (loop w (num_context_blocks p g) (num_warps p)))"

definition max_score :: "'e float_ops \<Rightarrow> 'e attention_params \<Rightarrow> (aloc \<Rightarrow> 'e) \<Rightarrow> nat \<Rightarrow> 'e" where
  "max_score F p M g = combined (fl_max F) (fl_lowest F) p (\<lambda>tid.
     foldl (\<lambda>a j. fl_max F a (score F p M g j)) (fl_lowest F)
       (lane_tokens p g (tid div ap_lanes p) (tid mod ap_lanes p)))"

definition exp_score :: "'e float_ops \<Rightarrow> 'e attention_params \<Rightarrow> (aloc \<Rightarrow> 'e) \<Rightarrow> nat \<Rightarrow> nat \<Rightarrow> 'e" where
  "exp_score F p M g j = exp_value F (score F p M g j) (max_score F p M g)"

definition exp_total :: "'e float_ops \<Rightarrow> 'e attention_params \<Rightarrow> (aloc \<Rightarrow> 'e) \<Rightarrow> nat \<Rightarrow> 'e" where
  "exp_total F p M g = combined (fl_add F) (fl_zero F) p (\<lambda>tid.
     foldl (\<lambda>a j. fl_add F a (exp_score F p M g j)) (fl_zero F) (loop tid (context_len p g) (ap_threads p)))"

definition inv_total :: "'e float_ops \<Rightarrow> 'e attention_params \<Rightarrow> (aloc \<Rightarrow> 'e) \<Rightarrow> nat \<Rightarrow> 'e" where
  "inv_total F p M g = fl_div F (fl_one F) (fl_add F (exp_total F p M g) (fl_eps F))"

definition block_value :: "'e float_ops \<Rightarrow> 'e attention_params \<Rightarrow> (aloc \<Rightarrow> 'e) \<Rightarrow> nat \<Rightarrow> nat \<Rightarrow> nat \<Rightarrow> 'e" where
  "block_value F p M g d b =
     foldl (\<lambda>a t. fl_add F a (fl_mul F (fl_mul F (exp_score F p M g (b * ap_block_size p + t)) (inv_total F p M g))
         (fl_from_cache F (M (v_loc p g b t d)))))
       (fl_zero F) (filter (\<lambda>t. b * ap_block_size p + t < context_len p g) [0..<ap_block_size p])"

definition attention_value :: "'e float_ops \<Rightarrow> 'e attention_params \<Rightarrow> (aloc \<Rightarrow> 'e) \<Rightarrow> nat \<Rightarrow> nat \<Rightarrow> 'e" where
  "attention_value F p M g d =
     (if context_len p g = 0 \<or> context_len p g > ap_max_seq_len p then fl_to_out F (fl_zero F)
      else fl_to_out F (foldl (\<lambda>a w. fl_add F a
        (foldl (\<lambda>c b. fl_add F c (block_value F p M g d b)) (fl_zero F)
          (loop w (num_context_blocks p g) (num_warps p))))
        (fl_zero F) [0..<num_warps p]))"

end
