(* ===== verification/Attention_Race.thy ===== *)
theory Attention_Race
  imports Attention_Kernel
begin

unbundle bit_operations_syntax

text \<open>
  Loops and shuffles of the attention kernel, and its freedom of races: in every phase each location
  that is written has one thread that owns it.
\<close>

section \<open>Loops\<close>

lemma upt_split: "i \<le> j \<Longrightarrow> j \<le> n \<Longrightarrow> [i..<n] = [i..<j] @ [j..<n]"
  using upt_add_eq_append [of i j "n - j"] by simp

lemma loop_upt: "loop i n step = (if 0 < step then filter (\<lambda>j. (j - i) mod step = 0) [i..<n] else [])"
proof (induction i n step rule: loop.induct)
  case (1 i n step)
  show ?case
  proof (cases "i < n \<and> 0 < step")
    case True
    let ?m = "min n (i + step)"
    have split: "[i..<n] = [i..<?m] @ [?m..<n]" by (rule upt_split) (use True in simp_all)
    have "filter (\<lambda>j. (j - i) mod step = 0) [i..<?m] = [i]"
    proof -
      have "[i..<?m] = i # [Suc i..<?m]" using True by (simp add: upt_conv_Cons)
      moreover have "filter (\<lambda>j. (j - i) mod step = 0) [Suc i..<?m] = []"
        by (auto simp: filter_empty_conv)
      ultimately show ?thesis by simp
    qed
    moreover have "filter (\<lambda>j. (j - i) mod step = 0) [?m..<n] = loop (i + step) n step"
    proof (cases "i + step < n")
      case le: True
      have "filter (\<lambda>j. (j - i) mod step = 0) [i + step..<n] =
          filter (\<lambda>j. (j - (i + step)) mod step = 0) [i + step..<n]"
      proof (rule filter_cong [OF refl])
        fix j assume "j \<in> set [i + step..<n]"
        then have "j - i = (j - (i + step)) + step" by simp
        then show "((j - i) mod step = 0) = ((j - (i + step)) mod step = 0)" by (metis mod_add_self2)
      qed
      then show ?thesis using 1 True le by simp
    next
      case False
      then show ?thesis using 1 True by simp
    qed
    ultimately show ?thesis using True by (subst loop.simps) (simp add: split)
  next
    case False
    then show ?thesis by (subst loop.simps) auto
  qed
qed

lemma loop_filter:
  assumes "i < step"
  shows "loop i n step = filter (\<lambda>j. j mod step = i) [0..<n]"
proof -
  have "filter (\<lambda>j. (j - i) mod step = 0) [i..<n] = filter (\<lambda>j. j mod step = i) [i..<n]"
  proof (rule filter_cong [OF refl])
    fix j assume "j \<in> set [i..<n]"
    then show "((j - i) mod step = 0) = (j mod step = i)"
      using assms by (metis atLeastLessThan_iff atLeastLessThan_upt dvd_eq_mod_eq_0 mod_eq_dvd_iff_nat mod_less)
  qed
  moreover have "filter (\<lambda>j. j mod step = i) [0..<min i n] = []"
    using assms by (auto simp: filter_empty_conv)
  moreover have "[0..<n] = [0..<min i n] @ [i..<n]"
    using upt_split [of 0 "min i n" n] by (cases "i \<le> n") (simp_all add: min_def)
  ultimately show ?thesis using assms by (simp add: loop_upt)
qed

lemma set_loop: "i < step \<Longrightarrow> set (loop i n step) = {j. j < n \<and> j mod step = i}"
  by (auto simp: loop_filter)

lemma distinct_loop: "i < step \<Longrightarrow> distinct (loop i n step)"
  by (simp add: loop_filter)

text \<open>It is the loop of the machine where that does not overflow.\<close>

lemma loop_strided:
  assumes "0 < step" "n + step \<le> 2 ^ 31"
  shows "strided (int i) (int n) (int step) = Some (map int (loop i n step))"
  using assms
proof (induction i n step rule: loop.induct)
  case (1 i n step)
  show ?case
  proof (cases "i < n")
    case True
    have "i32 (int i + int step) = int (i + step)"
      using True 1(3) by (subst i32_id) simp_all
    then show ?thesis
      using 1 True by (subst strided.simps, subst loop.simps) simp
  next
    case False
    then show ?thesis by (subst strided.simps, subst loop.simps) simp
  qed
qed

section \<open>Shuffles\<close>

lemma masks_power: "masks (2 ^ k div 2) = map ((^) 2) (rev [0..<k])"
proof (induction k)
  case 0
  then show ?case by (subst masks.simps) simp
next
  case (Suc k)
  then show ?case by (subst masks.simps) simp
qed

lemma xor_upper:
  assumes "l < 2 ^ i"
  shows "l XOR (2 ^ i :: nat) = l + 2 ^ i"
proof -
  have "l AND 2 ^ i = 0"
    using bit_take_bit_iff [of i l i] take_bit_nat_eq_self [OF assms] by (simp add: and_exp_eq_0_iff_not_bit)
  then have "l XOR 2 ^ i = l OR 2 ^ i" "l + 2 ^ i = l OR 2 ^ i"
    using disjunctive_add_eq_or [of l "2 ^ i"] disjunctive_xor_eq_or [of l "2 ^ i"] by simp_all
  then show ?thesis by simp
qed

lemma xor_below:
  assumes "l < 2 ^ k" "i < k"
  shows "l XOR (2 ^ i :: nat) < 2 ^ k"
proof -
  have "take_bit k (l XOR 2 ^ i) = take_bit k l XOR take_bit k (2 ^ i)" by simp
  also have "\<dots> = l XOR 2 ^ i"
    using assms take_bit_nat_eq_self [of "2 ^ i" k] by (simp add: take_bit_nat_eq_self)
  finally show ?thesis using take_bit_nat_less_exp [of k "l XOR 2 ^ i"] by (simp only:)
qed

section \<open>Valid parameters\<close>

text \<open>
  The number of lanes is a power of two, the group consists of whole warps, few enough that one warp
  combines their values in the places before the last two, and the result is a buffer of its own
  whose addresses fit into 64 bits.
\<close>

definition params_ok :: "'e attention_params \<Rightarrow> bool" where
  "params_ok p \<longleftrightarrow> ap_lanes p = 2 ^ lane_bits p \<and> ap_threads p = num_warps p * ap_lanes p \<and>
     0 < num_warps p \<and> num_warps p \<le> ap_lanes p \<and> num_warps p \<le> 126 \<and>
     0 < ap_head_size p \<and> 0 < ap_block_size p \<and>
     ap_num_heads p * ap_num_seqs p * ap_head_size p < 2 ^ 63 \<and>
     ap_out p \<notin> {ap_q p, ap_k_cache p, ap_v_cache p} \<union> set_option (ap_alibi_slopes p)"

lemma params_okD:
  assumes "params_ok p"
  shows "ap_lanes p = 2 ^ lane_bits p" "ap_threads p = num_warps p * ap_lanes p" "0 < num_warps p"
    "num_warps p \<le> ap_lanes p" "num_warps p \<le> 126" "0 < ap_head_size p" "0 < ap_block_size p"
    "0 < ap_lanes p" "0 < ap_threads p"
    "ap_num_heads p * ap_num_seqs p * ap_head_size p < 2 ^ 63"
  using assms unfolding params_ok_def by auto

lemma masks_lanes: "params_ok p \<Longrightarrow> masks (ap_lanes p div 2) = map ((^) 2) (rev [0..<lane_bits p])"
  using params_okD(1) [of p] masks_power [of "lane_bits p"] by simp

lemma thread_idx_inj:
  assumes "l < ap_lanes p" "l' < ap_lanes p" "thread_idx p w l = thread_idx p w' l'"
  shows "w = w'" "l = l'"
proof -
  have "thread_idx p w l div ap_lanes p = w" "thread_idx p w' l' div ap_lanes p = w'"
    "thread_idx p w l mod ap_lanes p = l" "thread_idx p w' l' mod ap_lanes p = l'"
    using assms(1,2) by (simp_all add: thread_idx_def)
  then show "w = w'" "l = l'" using assms(3) by simp_all
qed

lemma thread_idx_div: "l < ap_lanes p \<Longrightarrow> thread_idx p w l div ap_lanes p = w"
  and thread_idx_mod: "l < ap_lanes p \<Longrightarrow> thread_idx p w l mod ap_lanes p = l"
  by (simp_all add: thread_idx_def)

lemma thread_idx_less:
  assumes "params_ok p" "w < num_warps p" "l < ap_lanes p"
  shows "thread_idx p w l < ap_threads p"
proof -
  have "thread_idx p w l < Suc w * ap_lanes p" using assms(3) by (simp add: thread_idx_def)
  also have "\<dots> \<le> num_warps p * ap_lanes p" using assms(2) by (intro mult_right_mono) simp_all
  finally show ?thesis using params_okD(2) [OF assms(1)] by simp
qed

lemma thread_idxE:
  assumes "params_ok p" "t < ap_threads p"
  obtains w l where "t = thread_idx p w l" "w < num_warps p" "l < ap_lanes p"
proof
  show "t = thread_idx p (t div ap_lanes p) (t mod ap_lanes p)" by (simp add: thread_idx_def)
  show "t div ap_lanes p < num_warps p"
    using assms params_okD(2) [OF assms(1)] by (simp add: less_mult_imp_div_less)
  show "t mod ap_lanes p < ap_lanes p" using params_okD(8) [OF assms(1)] by simp
qed

section \<open>Owners of a group\<close>

text \<open>
  The owners of a phase: \<open>s\<close> for the entries of the shared memory, \<open>d\<close> for the buffers; a thread
  owns its registers.
\<close>

definition owner :: "(nat \<Rightarrow> nat option) \<Rightarrow> (nat \<times> int \<Rightarrow> nat option) \<Rightarrow> aloc \<Rightarrow> nat option" where
  "owner s d l = (case l of Device a \<Rightarrow> d a | Smem g i \<Rightarrow> s i | Reg g t r \<Rightarrow> Some t)"

lemma owner_simps [simp]:
  "owner s d (Device a) = d a" "owner s d (Smem g i) = s i" "owner s d (Reg g t r) = Some t"
  by (simp_all add: owner_def)

definition warp_threads :: "'e attention_params \<Rightarrow> nat \<Rightarrow> nat set" where
  "warp_threads p w = thread_idx p w ` {..<ap_lanes p}"

lemma warp_threads_disjoint: "w \<noteq> w' \<Longrightarrow> warp_threads p w \<inter> warp_threads p w' = {}"
  by (auto simp: warp_threads_def dest: thread_idx_inj(1))

text \<open>A program without races within the owners \<open>T\<close>.\<close>

definition safe :: "(aloc \<Rightarrow> nat option) \<Rightarrow> nat set \<Rightarrow> (aloc, 'e) prog \<Rightarrow> bool" where
  "safe own T q \<longleftrightarrow> apart q \<and> within own T q"

lemma safe_Seq [simp]: "safe own T (Seq qs) \<longleftrightarrow> (\<forall>q \<in> set qs. safe own T q)"
  by (auto simp: safe_def list_all_iff)

lemma safe_Act [simp]:
  "safe own T (Act a) \<longleftrightarrow> (\<forall>(r, e) \<in> set a. own r \<in> Some ` T \<and> own ` loads e \<subseteq> insert None (Some ` T))"
  by (simp add: safe_def)

lemma safe_lanes:
  assumes "\<And>l. l < ap_lanes p \<Longrightarrow> safe own {thread_idx p w l} (f l)"
  shows "safe own (warp_threads p w) (lanes p f)"
  unfolding safe_def lanes_def
proof
  show "apart (Par (map f [0..<ap_lanes p]))"
    by (rule apart_owned [where T = "\<lambda>l. {thread_idx p w l}" and own = own])
      (use assms in \<open>auto simp: safe_def dest: thread_idx_inj(2)\<close>)
  show "within own (warp_threads p w) (Par (map f [0..<ap_lanes p]))"
    using assms within_mono [of own "{thread_idx p w l}" "f l" "warp_threads p w" for l]
    by (fastforce simp: safe_def warp_threads_def)
qed

lemma safe_warps:
  assumes "\<And>w. w < num_warps p \<Longrightarrow> safe own (warp_threads p w) (f w)" "params_ok p"
  shows "safe own {..<ap_threads p} (warps p f)"
  unfolding safe_def warps_def
proof
  show "apart (Par (map f [0..<num_warps p]))"
    by (rule apart_owned [where T = "warp_threads p" and own = own])
      (use assms(1) in \<open>auto simp: safe_def warp_threads_disjoint\<close>)
  have "warp_threads p w \<subseteq> {..<ap_threads p}" if "w < num_warps p" for w
    using thread_idx_less [OF assms(2) that] by (auto simp: warp_threads_def)
  then show "within own {..<ap_threads p} (Par (map f [0..<num_warps p]))"
    using assms(1) within_mono [of own "warp_threads p w" "f w" "{..<ap_threads p}" for w]
    by (fastforce simp: safe_def)
qed

lemma den_lanes:
  assumes "\<And>l. l < ap_lanes p \<Longrightarrow> safe own {thread_idx p w l} (f l)"
    and "l < ap_lanes p" "own x = Some (thread_idx p w l)"
  shows "den (lanes p f) m x = den (f l) m x"
  unfolding lanes_def
  by (rule den_owned [where T = "\<lambda>l. {thread_idx p w l}" and own = own])
    (use assms in \<open>auto simp: safe_def dest: thread_idx_inj(2)\<close>)

lemma den_warps:
  assumes "\<And>w. w < num_warps p \<Longrightarrow> safe own (warp_threads p w) (f w)"
    and "w < num_warps p" "l < ap_lanes p" "own x = Some (thread_idx p w l)"
  shows "den (warps p f) m x = den (f w) m x"
  unfolding warps_def
  by (rule den_owned [where T = "warp_threads p" and own = own])
    (use assms in \<open>auto simp: safe_def warp_threads_def dest: thread_idx_inj(1)\<close>)

lemma safe_frame: "safe own T q \<Longrightarrow> own x \<notin> Some ` T \<Longrightarrow> den q m x = m x"
  unfolding safe_def by (blast intro: within_frame)

lemma safe_reduce:
  assumes "params_ok p"
  shows "safe (owner s d) (warp_threads p w) (reduce p f r g w)"
proof -
  have "l XOR 2 ^ i < ap_lanes p" if "l < ap_lanes p" "i < lane_bits p" for l i
    using xor_below [of l "lane_bits p" i] that params_okD(1) [OF assms] by simp
  then have "safe (owner s d) (warp_threads p w) (shuffle p f r g w (2 ^ i))" if "i < lane_bits p" for i
    using that by (auto simp: shuffle_def warp_threads_def)
  then show ?thesis by (auto simp: reduce_def masks_lanes [OF assms])
qed

lemma safe_hand_over:
  assumes "s (ap_max_seq_len p + w) = Some (thread_idx p w 0)"
  shows "l < ap_lanes p \<Longrightarrow> safe (owner s d) {thread_idx p w l} (if l = 0
      then set_to (red_smem p g w) (Load (Reg g (thread_idx p w l) r)) else Seq [])"
    and "safe (owner s d) (warp_threads p w) (hand_over p r g w)"
proof -
  show one: "safe (owner s d) {thread_idx p w l} (if l = 0
      then set_to (red_smem p g w) (Load (Reg g (thread_idx p w l) r)) else Seq [])"
    if "l < ap_lanes p" for l
    using assms by (simp add: red_smem_def)
  show "safe (owner s d) (warp_threads p w) (hand_over p r g w)"
    unfolding hand_over_def by (rule safe_lanes) (rule one)
qed

section \<open>The owners of the phases\<close>

abbreviation no_owner :: "nat \<times> int \<Rightarrow> nat option" where
  "no_owner \<equiv> \<lambda>_. None"

definition init_owner :: "'e attention_params \<Rightarrow> nat \<Rightarrow> nat option" where
  "init_owner p i =
     (if i < ap_max_seq_len p then Some (i mod ap_threads p)
      else if i < ap_max_seq_len p + 128 then None
      else Some ((i - (ap_max_seq_len p + 128)) mod ap_threads p))"

definition score_owner :: "'e attention_params \<Rightarrow> nat \<Rightarrow> nat option" where
  "score_owner p i =
     (if i < ap_max_seq_len p
      then Some (thread_idx p (i div ap_block_size p mod num_warps p) (i mod ap_block_size p mod ap_lanes p))
      else if i < ap_max_seq_len p + num_warps p then Some (thread_idx p (i - ap_max_seq_len p) 0)
      else None)"

definition combine_owner :: "nat \<Rightarrow> 'e attention_params \<Rightarrow> nat \<Rightarrow> nat option" where
  "combine_owner k p i = (if i = ap_max_seq_len p + k then Some (thread_idx p 0 0) else None)"

definition exp_owner :: "'e attention_params \<Rightarrow> nat \<Rightarrow> nat option" where
  "exp_owner p i =
     (if i < ap_max_seq_len p then Some (i mod ap_threads p)
      else if i < ap_max_seq_len p + num_warps p then Some (thread_idx p (i - ap_max_seq_len p) 0)
      else None)"

definition value_owner :: "'e attention_params \<Rightarrow> nat \<Rightarrow> nat option" where
  "value_owner p i =
     (if i < ap_max_seq_len p + 128 then None
      else let j = i - (ap_max_seq_len p + 128)
           in Some (thread_idx p (j div ap_head_size p) (j mod ap_head_size p mod ap_lanes p)))"

definition output_owner :: "'e attention_params \<Rightarrow> nat \<times> int \<Rightarrow> nat option" where
  "output_owner p a = (if fst a = ap_out p then Some (nat (snd a) mod ap_head_size p mod ap_threads p) else None)"

abbreviation "init_own p \<equiv> owner (init_owner p) no_owner"
abbreviation "score_own p \<equiv> owner (score_owner p) no_owner"
abbreviation "combine_own k p \<equiv> owner (combine_owner k p) no_owner"
abbreviation "exp_own p \<equiv> owner (exp_owner p) no_owner"
abbreviation "value_own p \<equiv> owner (value_owner p) no_owner"
abbreviation "output_own p \<equiv> owner (\<lambda>_. None) (output_owner p)"

lemma init_lane_safe:
  assumes "params_ok p" "w < num_warps p" "l < ap_lanes p"
  shows "safe (init_own p) {thread_idx p w l} (Seq
     (map (\<lambda>i. set_to (logits p g i) (Const c)) (loop (thread_idx p w l) (ap_max_seq_len p) (ap_threads p)) @
      map (\<lambda>i. set_to (out_smem p g i) (Const c'))
        (loop (thread_idx p w l) (num_warps p * ap_head_size p) (ap_threads p))))"
  using set_loop [OF thread_idx_less [OF assms]]
  by (auto simp: logits_def out_smem_def init_owner_def)

lemma score_token_safe:
  assumes "params_ok p" "w < num_warps p" "l < ap_lanes p"
    and "b mod num_warps p = w" "t mod ap_lanes p = l" "t < ap_block_size p"
    and "b * ap_block_size p + t < ap_max_seq_len p"
  shows "safe (score_own p) {thread_idx p w l} (score_token F p g (thread_idx p w l) b t)"
proof -
  have "(b * ap_block_size p + t) div ap_block_size p = b" "(b * ap_block_size p + t) mod ap_block_size p = t"
    using assms(6) by simp_all
  then have "score_owner p (b * ap_block_size p + t) = Some (thread_idx p w l)"
    using assms(4,5,7) by (simp add: score_owner_def)
  then show ?thesis
    by (auto simp: score_token_def Let_def logits_def k_loc_def split: option.split)
qed

lemma score_lane_safe:
  assumes "params_ok p" "w < num_warps p" "l < ap_lanes p" "context_len p g \<le> ap_max_seq_len p"
  shows "safe (score_own p) {thread_idx p w l} (score_lane F p g w l)"
proof -
  have "safe (score_own p) {thread_idx p w l} (score_token F p g (thread_idx p w l) b t)"
    if "b \<in> set (loop w (num_context_blocks p g) (num_warps p))"
      "t \<in> set (loop l (ap_block_size p) (ap_lanes p))" "b * ap_block_size p + t < context_len p g" for b t
    by (rule score_token_safe [OF assms(1-3)])
      (use that assms(4) set_loop [OF assms(2)] set_loop [OF assms(3)] in auto)
  then show ?thesis by (auto simp: score_lane_def Let_def q_loc_def)
qed

lemma score_warp_safe:
  assumes "params_ok p" "w < num_warps p" "context_len p g \<le> ap_max_seq_len p"
  shows "safe (score_own p) (warp_threads p w) (Seq
     [lanes p (score_lane F p g w), reduce p f Qk_max g w, hand_over p Qk_max g w])"
  using safe_lanes [OF score_lane_safe [OF assms(1,2) _ assms(3)]] safe_reduce [OF assms(1)]
    safe_hand_over(2) [of "score_owner p" p w] assms(2)
  by (simp add: score_owner_def)

lemma combine_lane_safe:
  assumes "params_ok p" "num_warps p \<le> k" "l < ap_lanes p"
  shows "safe (combine_own k p) {thread_idx p w l} (set_to (Reg g (thread_idx p w l) r)
        (if thread_idx p w l < num_warps p then Load (red_smem p g (thread_idx p w l)) else Const u))"
    and "safe (combine_own k p) {thread_idx p w l}
      (if thread_idx p w l = 0 then set_to (red_smem p g k) (Load (Reg g (thread_idx p w l) r)) else Seq [])"
  using assms by (auto simp: red_smem_def combine_owner_def thread_idx_def)

lemma combine_warp_safe:
  assumes "params_ok p" "num_warps p \<le> k"
  shows "safe (combine_own k p) (warp_threads p w) (if w = 0 then Seq
     [lanes p (\<lambda>l. set_to (Reg g (thread_idx p w l) r)
        (if thread_idx p w l < num_warps p then Load (red_smem p g (thread_idx p w l)) else Const u)),
      reduce p f r g w,
      lanes p (\<lambda>l. if thread_idx p w l = 0 then set_to (red_smem p g k) (Load (Reg g (thread_idx p w l) r)) else Seq [])]
     else Seq [])"
proof (cases "w = 0")
  case True
  show ?thesis
    unfolding if_P [OF True] safe_Seq
    by (intro ballI) (auto intro: safe_lanes combine_lane_safe(1) [OF assms] combine_lane_safe(2) [OF assms]
      safe_reduce [OF assms(1)])
qed simp

lemma exp_lane_safe:
  assumes "params_ok p" "w < num_warps p" "l < ap_lanes p" "context_len p g \<le> ap_max_seq_len p"
  shows "safe (exp_own p) {thread_idx p w l} (exp_lane F p g w l)"
  using set_loop [OF thread_idx_less [OF assms(1-3)]] params_okD(5) [OF assms(1)] assms(4)
  by (auto simp: exp_lane_def Let_def logits_def red_smem_def exp_owner_def)

lemma exp_warp_safe:
  assumes "params_ok p" "w < num_warps p" "context_len p g \<le> ap_max_seq_len p"
  shows "safe (exp_own p) (warp_threads p w) (Seq
     [lanes p (exp_lane F p g w), reduce p f Exp_sum g w, hand_over p Exp_sum g w])"
  using safe_lanes [OF exp_lane_safe [OF assms(1,2) _ assms(3)]] safe_reduce [OF assms(1)]
    safe_hand_over(2) [of "exp_owner p" p w] assms(2)
  by (simp add: exp_owner_def)

lemma value_lane_safe:
  assumes "params_ok p" "w < num_warps p" "l < ap_lanes p" "context_len p g \<le> ap_max_seq_len p"
  shows "safe (value_own p) {thread_idx p w l} (value_lane F p g w l)"
proof -
  have "value_owner p (ap_max_seq_len p + 128 + (w * ap_head_size p + d)) = Some (thread_idx p w l)"
    if "d \<in> set (loop l (ap_head_size p) (ap_lanes p))" for d
    using that set_loop [OF assms(3)] by (auto simp: value_owner_def)
  then show ?thesis
    using assms(4)
    by (auto simp: value_lane_def Let_def logits_def red_smem_def out_smem_def v_loc_def value_owner_def)
qed

lemma out_address:
  assumes "params_ok p" "g < ap_num_heads p * ap_num_seqs p" "i < ap_head_size p"
  shows "out_loc p g i = Device (ap_out p, int (g * ap_head_size p + i))"
proof -
  have g: "int g = int (seq_idx p g) * int (ap_num_heads p) + int (head_idx p g)"
    unfolding seq_idx_def head_idx_def by (metis div_mult_mod_eq of_nat_add of_nat_mult)
  then have "int (seq_idx p g) * int (ap_num_heads p) * int (ap_head_size p) +
      int (head_idx p g) * int (ap_head_size p) + int i = int (g * ap_head_size p + i)"
    by (simp add: algebra_simps)
  moreover have "g * ap_head_size p + i < 2 ^ 63"
  proof -
    have "g * ap_head_size p + i < Suc g * ap_head_size p" using assms(3) by simp
    also have "\<dots> \<le> ap_num_heads p * ap_num_seqs p * ap_head_size p"
      using assms(2) by (intro mult_right_mono) simp_all
    finally show ?thesis using params_okD(10) [OF assms(1)] by simp
  qed
  then have "int (g * ap_head_size p + i) < 2 ^ 63" by (metis of_nat_less_numeral_power_cancel_iff)
  then have "i64 (int (g * ap_head_size p + i)) = int (g * ap_head_size p + i)"
    by (intro i64_id) (simp_all del: of_nat_add of_nat_mult)
  ultimately show ?thesis by (simp add: out_loc_def)
qed

lemma output_owner_out:
  assumes "params_ok p" "g < ap_num_heads p * ap_num_seqs p" "i < ap_head_size p"
  shows "output_own p (out_loc p g i) = Some (i mod ap_threads p)"
  using assms(3) by (simp add: out_address [OF assms] output_owner_def del: of_nat_add of_nat_mult)

lemma output_lane_safe:
  assumes "params_ok p" "w < num_warps p" "l < ap_lanes p" "g < ap_num_heads p * ap_num_seqs p"
  shows "safe (output_own p) {thread_idx p w l} (output_lane F p g w l)"
    and "safe (output_own p) {thread_idx p w l} (Seq
      (map (\<lambda>i. set_to (out_loc p g i) (Unop f (Const c))) (loop (thread_idx p w l) (ap_head_size p) (ap_threads p))))"
  using set_loop [OF thread_idx_less [OF assms(1-3)], of "ap_head_size p"] output_owner_out [OF assms(1,4)]
  by (auto simp: output_lane_def Let_def out_smem_def)

end
