(* ===== verification/Attention_Run.thy ===== *)
theory Attention_Run
  imports Attention_Race
begin

unbundle bit_operations_syntax

text \<open>
  The sequential run of the attention kernel, phase by phase: what each phase leaves in the shared
  memory, and at the end in the buffer of the result.
\<close>

section \<open>Runs of straight-line programs\<close>

declare assign_single [simp]

lemma value_of_upd: "r \<notin> loads e \<Longrightarrow> value_of e (m(r := v)) = value_of e m"
  by (rule value_of_cong) auto

lemma fold_accumulate:
  assumes "\<And>x. x \<in> set xs \<Longrightarrow> r \<notin> loads (E x)"
  shows "fold den (map (\<lambda>x. set_to r (Binop f (Load r) (E x))) xs) m =
    m(r := foldl (\<lambda>a x. f a (value_of (E x) m)) (m r) xs)"
  using assms
proof (induction xs arbitrary: m)
  case (Cons x xs)
  let ?m = "m(r := f (m r) (value_of (E x) m))"
  have "value_of (E y) ?m = value_of (E y) m" if "y \<in> set xs" for y
    by (rule value_of_upd) (use Cons.prems that in simp)
  then have "foldl (\<lambda>a y. f a (value_of (E y) ?m)) v xs = foldl (\<lambda>a y. f a (value_of (E y) m)) v xs" for v
    by (intro foldl_cong) simp_all
  then show ?case using Cons by (simp del: fun_upd_apply add: fun_upd_same)
qed simp

lemma fold_accumulate_if:
  assumes "\<And>x. x \<in> set xs \<Longrightarrow> r \<notin> loads (E x)"
  shows "fold den (map (\<lambda>x. if c x then set_to r (Binop f (Load r) (E x)) else Seq []) xs) m =
    m(r := foldl (\<lambda>a x. f a (value_of (E x) m)) (m r) (filter c xs))"
proof -
  have "fold den (map (\<lambda>x. if c x then set_to r (Binop f (Load r) (E x)) else Seq []) xs) m =
      fold den (map (\<lambda>x. set_to r (Binop f (Load r) (E x))) (filter c xs)) m" for m
    by (induction xs arbitrary: m) simp_all
  moreover have "fold den (map (\<lambda>x. set_to r (Binop f (Load r) (E x))) (filter c xs)) m =
      m(r := foldl (\<lambda>a x. f a (value_of (E x) m)) (m r) (filter c xs))"
    by (rule fold_accumulate) (use assms in simp)
  ultimately show ?thesis by (simp only:)
qed

lemma fold_store:
  assumes "inj_on L (set xs)" "\<And>i j. i \<in> set xs \<Longrightarrow> j \<in> set xs \<Longrightarrow> L i \<notin> loads (E j)" "i \<in> set xs"
  shows "fold den (map (\<lambda>i. set_to (L i) (E i)) xs) m (L i) = value_of (E i) m"
  using assms
proof (induction xs arbitrary: m)
  case (Cons x xs)
  show ?case
  proof (cases "i \<in> set xs")
    case True
    let ?m = "m(L x := value_of (E x) m)"
    have "inj_on L (set xs)" using Cons.prems(1) by (simp add: inj_on_def)
    then have "fold den (map (\<lambda>i. set_to (L i) (E i)) xs) ?m (L i) = value_of (E i) ?m"
      by (rule Cons.IH [OF _ _ True]) (use Cons.prems(2) in simp)
    also have "\<dots> = value_of (E i) m" by (rule value_of_upd) (use Cons.prems(2) True in simp)
    finally show ?thesis by simp
  next
    case False
    then have x: "i = x" using Cons.prems(3) by simp
    have "L x \<notin> writes (set_to (L j) (E j))" if "j \<in> set xs" for j
      using that False x Cons.prems(1) by (auto simp: inj_on_def)
    then have "fold den (map (\<lambda>i. set_to (L i) (E i)) xs) (m(L x := v)) (L x) = (m(L x := v)) (L x)" for v
      by (intro fold_frame) auto
    then show ?thesis using x by simp
  qed
qed simp

section \<open>Reductions\<close>

lemma tree_cong: "(\<And>l. l < 2 ^ k \<Longrightarrow> u l = v l) \<Longrightarrow> tree f k u = tree f k v"
proof (induction k arbitrary: u v)
  case (Suc k)
  have "f (u l) (u (l + 2 ^ k)) = f (v l) (v (l + 2 ^ k))" if "l < 2 ^ k" for l
    using Suc.prems [of l] Suc.prems [of "l + 2 ^ k"] that by simp
  from Suc.IH [OF this] show ?case by simp
qed simp

lemma map_of_inj:
  assumes "inj_on f (set xs)" "x \<in> set xs"
  shows "map_of (map (\<lambda>x. (f x, h x)) xs) (f x) = Some (h x)"
  using assms
proof (induction xs)
  case (Cons y xs)
  then show ?case by (cases "x = y") (auto simp: inj_on_def)
qed simp

lemma shuffle_value:
  assumes "l < ap_lanes p"
  shows "den (shuffle p f r g w k) m (Reg g (thread_idx p w l) r) =
    f (m (Reg g (thread_idx p w l) r)) (m (Reg g (thread_idx p w (l XOR k)) r))"
proof -
  have "inj_on (\<lambda>l. Reg g (thread_idx p w l) r) (set [0..<ap_lanes p])"
    by (auto simp: inj_on_def dest: thread_idx_inj(2))
  then show ?thesis
    unfolding shuffle_def den.simps assign_def by (subst map_of_inj) (use assms in simp_all)
qed

lemma reduce_frame: "(\<And>t. x \<noteq> Reg g t r) \<Longrightarrow> den (reduce p f r g w) m x = m x"
  by (rule den_frame) (fastforce simp: reduce_def shuffle_def)

lemma reduce_value:
  assumes "params_ok p"
  shows "den (reduce p f r g w) m (Reg g (thread_idx p w 0) r) =
    tree f (lane_bits p) (\<lambda>l. m (Reg g (thread_idx p w l) r))"
proof -
  have "fold den (map (\<lambda>i. shuffle p f r g w (2 ^ i)) (rev [0..<n])) m (Reg g (thread_idx p w 0) r) =
      tree f n (\<lambda>l. m (Reg g (thread_idx p w l) r))" if "n \<le> lane_bits p" for n
    using that
  proof (induction n arbitrary: m)
    case (Suc n)
    let ?m = "den (shuffle p f r g w (2 ^ n)) m"
    have "?m (Reg g (thread_idx p w l) r) =
        f (m (Reg g (thread_idx p w l) r)) (m (Reg g (thread_idx p w (l + 2 ^ n)) r))" if "l < 2 ^ n" for l
    proof -
      have "(2 :: nat) ^ n \<le> ap_lanes p" using Suc.prems params_okD(1) [OF assms] by simp
      then show ?thesis using shuffle_value [of l p] xor_upper [OF that] that by simp
    qed
    then show ?case using Suc.IH [of ?m] Suc.prems by (simp cong: tree_cong)
  qed simp
  from this [of "lane_bits p"] show ?thesis
    by (simp add: reduce_def masks_lanes [OF assms] comp_def)
qed

section \<open>Scores\<close>

text \<open>Memories with the same buffers.\<close>

definition same_device :: "(aloc \<Rightarrow> 'e) \<Rightarrow> (aloc \<Rightarrow> 'e) \<Rightarrow> bool" where
  "same_device m m' \<longleftrightarrow> (\<forall>a. m (Device a) = m' (Device a))"

lemma same_device_refl [simp]: "same_device m m"
  by (simp add: same_device_def)

lemma same_deviceD: "same_device m m' \<Longrightarrow> m (Device a) = m' (Device a)"
  unfolding same_device_def by blast

lemma loc_neq [simp]:
  "q_loc p g d \<noteq> Reg h t r" "k_loc p g b u d \<noteq> Reg h t r" "v_loc p g b u d \<noteq> Reg h t r"
  "out_loc p g i \<noteq> Reg h t r" "Reg h t r \<noteq> q_loc p g d" "Reg h t r \<noteq> k_loc p g b u d"
  "Reg h t r \<noteq> v_loc p g b u d" "Reg h t r \<noteq> out_loc p g i"
  "logits p g i \<noteq> Reg h t r" "red_smem p g i \<noteq> Reg h t r" "out_smem p g i \<noteq> Reg h t r"
  "Reg h t r \<noteq> logits p g i" "Reg h t r \<noteq> red_smem p g i" "Reg h t r \<noteq> out_smem p g i"
  by (simp_all add: q_loc_def k_loc_def v_loc_def out_loc_def logits_def red_smem_def out_smem_def)

lemma same_device_locs:
  assumes "same_device m m'"
  shows "m (q_loc p g d) = m' (q_loc p g d)" "m (k_loc p g b t d) = m' (k_loc p g b t d)"
    "m (v_loc p g b t d) = m' (v_loc p g b t d)"
  using assms by (simp_all add: same_device_def q_loc_def k_loc_def v_loc_def)

lemma score_cong: "same_device m m' \<Longrightarrow> score F p m g j = score F p m' g j"
  by (simp add: score_def Let_def same_device_locs [of m m'] same_deviceD [of m m'] split: option.split)

text \<open>What \<open>score_token\<close> does with the token \<open>j\<close>, given its score.\<close>

definition scored :: "'e float_ops \<Rightarrow> 'e attention_params \<Rightarrow> nat \<Rightarrow> nat \<Rightarrow> (nat \<Rightarrow> 'e) \<Rightarrow> nat \<Rightarrow> (aloc \<Rightarrow> 'e) \<Rightarrow> (aloc \<Rightarrow> 'e)" where
  "scored F p g tid sc j m = m(Reg g tid Qk := sc j, logits p g j := sc j,
     Reg g tid Qk_max := fl_max F (m (Reg g tid Qk_max)) (sc j))"

definition query_loaded :: "'e float_ops \<Rightarrow> 'e attention_params \<Rightarrow> nat \<Rightarrow> nat \<Rightarrow> (aloc \<Rightarrow> 'e) \<Rightarrow> (aloc \<Rightarrow> 'e) \<Rightarrow> bool" where
  "query_loaded F p g tid M m \<longleftrightarrow> same_device m M \<and>
     (\<forall>d < ap_head_size p. m (Reg g tid (Q_local d)) = fl_from_q F (M (q_loc p g d)))"

lemma query_loaded_scored: "query_loaded F p g tid M m \<Longrightarrow> query_loaded F p g tid M (scored F p g tid sc j m)"
  by (simp add: query_loaded_def scored_def same_device_def logits_def)

lemma score_token_run:
  assumes "query_loaded F p g tid M m" "t < ap_block_size p"
  shows "den (score_token F p g tid b t) m = scored F p g tid (score F p M g) (b * ap_block_size p + t) m"
proof -
  let ?qk = "Reg g tid Qk" and ?j = "b * ap_block_size p + t"
  have j: "?j div ap_block_size p = b" "t mod ap_block_size p = t" using assms(2) by simp_all
  have dev: "same_device m M" and q: "\<And>d. d < ap_head_size p \<Longrightarrow> m (Reg g tid (Q_local d)) = fl_from_q F (M (q_loc p g d))"
    using assms(1) by (simp_all add: query_loaded_def)
  let ?E = "\<lambda>d. Binop (fl_mul F) (Load (Reg g tid (Q_local d))) (Unop (fl_from_cache F) (Load (k_loc p g b t d)))"
  let ?dot = "foldl (\<lambda>a d. fl_add F a (fl_mul F (fl_from_q F (M (q_loc p g d)))
            (fl_from_cache F (M (k_loc p g b t d))))) (fl_zero F) [0..<ap_head_size p]"
  have "fold den (map (\<lambda>d. set_to ?qk (Binop (fl_add F) (Load ?qk) (?E d))) [0..<ap_head_size p]) (m(?qk := fl_zero F)) =
      m(?qk := ?dot)"
  proof -
    have "value_of (?E d) (m(?qk := fl_zero F)) =
        fl_mul F (fl_from_q F (M (q_loc p g d))) (fl_from_cache F (M (k_loc p g b t d)))"
      if "d < ap_head_size p" for d
      using q [OF that] by (simp add: same_device_locs(2) [OF dev])
    then have "foldl (\<lambda>a d. fl_add F a (value_of (?E d) (m(?qk := fl_zero F)))) (fl_zero F) [0..<ap_head_size p] = ?dot"
      by (intro foldl_cong) simp_all
    then show ?thesis by (subst fold_accumulate) simp_all
  qed
  then show ?thesis
    using same_deviceD [OF dev]
    by (auto simp: score_token_def Let_def scored_def score_def j logits_def split: option.split)
qed

lemma score_loop_run:
  assumes "query_loaded F p g tid M m" "\<And>t. t \<in> set ts \<Longrightarrow> t < ap_block_size p"
  shows "fold den (map (\<lambda>b. Seq (map (\<lambda>t.
      if b * ap_block_size p + t < context_len p g then score_token F p g tid b t else Seq []) ts)) bs) m =
    fold (scored F p g tid (score F p M g)) (concat (map (\<lambda>b.
      filter (\<lambda>j. j < context_len p g) (map (\<lambda>t. b * ap_block_size p + t) ts)) bs)) m"
proof -
  let ?c = "\<lambda>b t. b * ap_block_size p + t < context_len p g"
  let ?sc = "scored F p g tid (score F p M g)"
  have inner: "fold den (map (\<lambda>t. if ?c b t then score_token F p g tid b t else Seq []) ts) m =
      fold ?sc (filter (\<lambda>j. j < context_len p g) (map (\<lambda>t. b * ap_block_size p + t) ts)) m"
    if "query_loaded F p g tid M m" "\<And>t. t \<in> set ts \<Longrightarrow> t < ap_block_size p" for b ts m
    using that
  proof (induction ts arbitrary: m)
    case (Cons t ts)
    then show ?case
      using score_token_run [OF Cons.prems(1), of t b] query_loaded_scored [OF Cons.prems(1)] by simp
  qed simp
  have keep: "query_loaded F p g tid M (fold ?sc js m)" if "query_loaded F p g tid M m" for js m
    using that by (induction js arbitrary: m) (simp_all add: query_loaded_scored)
  show ?thesis
    using assms(1)
  proof (induction bs arbitrary: m)
    case (Cons b bs)
    then show ?case using inner [OF Cons.prems assms(2)] keep by simp
  qed simp
qed

lemma scored_values:
  "fold (scored F p g tid sc) js m (Reg g tid Qk_max) = foldl (\<lambda>a j. fl_max F a (sc j)) (m (Reg g tid Qk_max)) js"
  "j \<in> set js \<Longrightarrow> fold (scored F p g tid sc) js m (logits p g j) = sc j"
proof -
  show "fold (scored F p g tid sc) js m (Reg g tid Qk_max) = foldl (\<lambda>a j. fl_max F a (sc j)) (m (Reg g tid Qk_max)) js"
    by (induction js arbitrary: m) (simp_all add: scored_def logits_def)
  have keep: "fold (scored F p g tid sc) js m (logits p g j) = sc j" if "m (logits p g j) = sc j" for js m
    using that
  proof (induction js arbitrary: m)
    case (Cons i js)
    then have "scored F p g tid sc i m (logits p g j) = sc j" by (simp add: scored_def logits_def)
    then show ?case using Cons.IH by simp
  qed simp
  show "j \<in> set js \<Longrightarrow> fold (scored F p g tid sc) js m (logits p g j) = sc j"
  proof (induction js arbitrary: m)
    case (Cons i js)
    show ?case
    proof (cases "i = j")
      case True
      then have "scored F p g tid sc i m (logits p g j) = sc j" by (simp add: scored_def logits_def)
      then show ?thesis using keep by simp
    qed (use Cons in simp)
  qed simp
qed

lemma score_lane_run:
  assumes "params_ok p" "l < ap_lanes p"
  shows "den (score_lane F p g w l) m (Reg g (thread_idx p w l) Qk_max) =
      foldl (\<lambda>a j. fl_max F a (score F p m g j)) (fl_lowest F) (lane_tokens p g w l)"
    and "j \<in> set (lane_tokens p g w l) \<Longrightarrow> den (score_lane F p g w l) m (logits p g j) = score F p m g j"
proof -
  let ?tid = "thread_idx p w l" and ?H = "ap_head_size p"
  let ?L = "\<lambda>i. Reg g ?tid (Q_local i)" and ?E = "\<lambda>i. Unop (fl_from_q F) (Load (q_loc p g i))"
  let ?m1 = "fold den (map (\<lambda>i. set_to (?L i) (?E i)) [0..<?H]) m"
  let ?m2 = "?m1(Reg g ?tid Qk_max := fl_lowest F)"
  have "?m1 (?L d) = fl_from_q F (m (q_loc p g d))" if "d < ?H" for d
    using fold_store [of ?L "[0..<?H]" ?E d m] that by (simp add: inj_on_def q_loc_def)
  moreover have "same_device ?m1 m"
    unfolding same_device_def by (intro allI fold_frame) auto
  ultimately have "query_loaded F p g ?tid m ?m2" by (simp add: query_loaded_def same_device_def)
  moreover have "t < ap_block_size p" if "t \<in> set (loop l (ap_block_size p) (ap_lanes p))" for t
    using that set_loop [OF assms(2)] by auto
  ultimately have "den (score_lane F p g w l) m = fold (scored F p g ?tid (score F p m g)) (lane_tokens p g w l) ?m2"
    unfolding score_lane_def Let_def lane_tokens_def by (simp add: score_loop_run)
  then show "den (score_lane F p g w l) m (Reg g ?tid Qk_max) =
      foldl (\<lambda>a j. fl_max F a (score F p m g j)) (fl_lowest F) (lane_tokens p g w l)"
    "j \<in> set (lane_tokens p g w l) \<Longrightarrow> den (score_lane F p g w l) m (logits p g j) = score F p m g j"
    by (simp_all add: scored_values)
qed

section \<open>The phases\<close>

lemma phase_frame:
  assumes "\<And>w. w < num_warps p \<Longrightarrow> safe own (warp_threads p w) (f w)" "params_ok p" "own x = None"
  shows "den (warps p f) m x = m x"
  by (rule safe_frame [OF safe_warps [OF assms(1,2)]]) (use assms(3) in auto)

lemma den_threads:
  assumes "\<And>w l. w < num_warps p \<Longrightarrow> l < ap_lanes p \<Longrightarrow> safe own {thread_idx p w l} (f w l)"
    and "w < num_warps p" "l < ap_lanes p" "own x = Some (thread_idx p w l)"
  shows "den (warps p (\<lambda>w. lanes p (f w))) m x = den (f w l) m x"
  using den_warps [OF safe_lanes [OF assms(1)] assms(2-4)] den_lanes [OF assms(1) [OF assms(2)] assms(3,4)]
  by simp

lemma hand_over_frame: "x \<noteq> red_smem p g w \<Longrightarrow> den (hand_over p r g w) m x = m x"
  by (rule den_frame) (auto simp: hand_over_def lanes_def)

lemma hand_over_value:
  assumes "params_ok p"
  shows "den (hand_over p r g w) m (red_smem p g w) = m (Reg g (thread_idx p w 0) r)"
proof -
  let ?own = "owner (\<lambda>_. Some (thread_idx p w 0)) no_owner"
  have "0 < ap_lanes p" using params_okD(8) [OF assms] .
  then show ?thesis
    unfolding hand_over_def
    by (subst den_lanes [where own = ?own and w = w and l = 0])
      (simp_all add: safe_hand_over(1) red_smem_def)
qed

lemma reduce_warp_value:
  assumes "params_ok p" and f: "\<And>l. l < ap_lanes p \<Longrightarrow> safe (owner s d) {thread_idx p w l} (f l)"
  shows "den (Seq [lanes p f, reduce p h r g w, hand_over p r g w]) m (red_smem p g w) =
    tree h (lane_bits p) (\<lambda>l. den (f l) m (Reg g (thread_idx p w l) r))"
proof -
  have "den (lanes p f) m (Reg g (thread_idx p w l) r) = den (f l) m (Reg g (thread_idx p w l) r)"
    if "l < 2 ^ lane_bits p" for l
    by (rule den_lanes [OF f]) (use that params_okD(1) [OF assms(1)] in simp_all)
  then show ?thesis
    by (simp add: hand_over_value [OF assms(1)] reduce_value [OF assms(1)] cong: tree_cong)
qed

lemma reduce_warp_frame:
  assumes "\<And>l. l < ap_lanes p \<Longrightarrow> safe (owner s d) {thread_idx p w l} (f l)"
    and "l < ap_lanes p" "owner s d x = Some (thread_idx p w l)" "x \<noteq> red_smem p g w" "\<And>t. x \<noteq> Reg g t r"
  shows "den (Seq [lanes p f, reduce p h r g w, hand_over p r g w]) m x = den (f l) m x"
  using den_lanes [OF assms(1-3)] assms(4,5) by (simp add: hand_over_frame reduce_frame)

lemma token_thread:
  assumes "params_ok p" "j < context_len p g"
  defines "w \<equiv> j div ap_block_size p mod num_warps p" and "l \<equiv> j mod ap_block_size p mod ap_lanes p"
  shows "w < num_warps p" "l < ap_lanes p" "j \<in> set (lane_tokens p g w l)"
proof -
  note P = params_okD [OF assms(1)]
  let ?b = "j div ap_block_size p"
  show w: "w < num_warps p" and l: "l < ap_lanes p" using P(3,8) by (simp_all add: w_def l_def)
  have "?b < num_context_blocks p g"
  proof -
    have "(j + ap_block_size p) div ap_block_size p \<le> num_context_blocks p g"
      unfolding num_context_blocks_def using assms(2) by (intro div_le_mono) simp
    moreover have "(j + ap_block_size p) div ap_block_size p = Suc ?b" using P(7) by (simp add: div_add_self2)
    ultimately show ?thesis by simp
  qed
  then have "?b \<in> set (loop w (num_context_blocks p g) (num_warps p))" using set_loop [OF w] by (simp add: w_def)
  moreover have "j mod ap_block_size p \<in> set (loop l (ap_block_size p) (ap_lanes p))"
    using set_loop [OF l] P(7) by (simp add: l_def)
  moreover have "j = ?b * ap_block_size p + j mod ap_block_size p" by simp
  ultimately show "j \<in> set (lane_tokens p g w l)"
    unfolding lane_tokens_def using assms(2) by (force simp: image_iff)
qed

lemma score_phase_run:
  assumes "params_ok p" "context_len p g \<le> ap_max_seq_len p"
  shows "j < context_len p g \<Longrightarrow> den (score_phase F p g) m (logits p g j) = score F p m g j"
    and "w < num_warps p \<Longrightarrow> den (score_phase F p g) m (red_smem p g w) =
      tree (fl_max F) (lane_bits p) (\<lambda>l. foldl (\<lambda>a j. fl_max F a (score F p m g j)) (fl_lowest F) (lane_tokens p g w l))"
    and "same_device (den (score_phase F p g) m) m"
    and "den (score_phase F p g) m (out_smem p g i) = m (out_smem p g i)"
proof -
  note P = params_okD [OF assms(1)]
  note lane = score_lane_safe [OF assms(1) _ _ assms(2)] and warp = score_warp_safe [OF assms(1) _ assms(2)]
  show "den (score_phase F p g) m (logits p g j) = score F p m g j" if j: "j < context_len p g" for j
  proof -
    define w where "w = j div ap_block_size p mod num_warps p"
    define l where "l = j mod ap_block_size p mod ap_lanes p"
    note t = token_thread [OF assms(1) j, folded w_def l_def]
    have own: "score_own p (logits p g j) = Some (thread_idx p w l)"
      using j assms(2) by (simp add: logits_def score_owner_def w_def l_def)
    have neq: "logits p g j \<noteq> red_smem p g w" using j assms(2) by (simp add: logits_def red_smem_def)
    have "den (score_phase F p g) m (logits p g j) = den (score_lane F p g w l) m (logits p g j)"
      unfolding score_phase_def
      by (subst den_warps [OF warp t(1,2) own], assumption,
          rule reduce_warp_frame [OF lane [OF t(1)] t(2) own neq]) simp_all
    also have "\<dots> = score F p m g j" by (rule score_lane_run(2) [OF assms(1) t(2,3)])
    finally show ?thesis .
  qed
  show "den (score_phase F p g) m (red_smem p g w) = tree (fl_max F) (lane_bits p)
      (\<lambda>l. foldl (\<lambda>a j. fl_max F a (score F p m g j)) (fl_lowest F) (lane_tokens p g w l))" if w: "w < num_warps p" for w
  proof -
    have own: "score_own p (red_smem p g w) = Some (thread_idx p w 0)"
      using w by (simp add: red_smem_def score_owner_def)
    have "den (score_lane F p g w l) m (Reg g (thread_idx p w l) Qk_max) =
        foldl (\<lambda>a j. fl_max F a (score F p m g j)) (fl_lowest F) (lane_tokens p g w l)" if "l < 2 ^ lane_bits p" for l
      by (rule score_lane_run(1) [OF assms(1)]) (use that P(1) in simp)
    note regs = this
    have "den (score_phase F p g) m (red_smem p g w) = den (Seq
        [lanes p (score_lane F p g w), reduce p (fl_max F) Qk_max g w, hand_over p Qk_max g w]) m (red_smem p g w)"
      unfolding score_phase_def by (rule den_warps [OF warp w P(8) own])
    also have "\<dots> = tree (fl_max F) (lane_bits p)
        (\<lambda>l. den (score_lane F p g w l) m (Reg g (thread_idx p w l) Qk_max))"
      by (rule reduce_warp_value [OF assms(1) lane [OF w]])
    also have "\<dots> = tree (fl_max F) (lane_bits p)
        (\<lambda>l. foldl (\<lambda>a j. fl_max F a (score F p m g j)) (fl_lowest F) (lane_tokens p g w l))"
      by (rule tree_cong) (rule regs)
    finally show ?thesis .
  qed
  have frame: "den (score_phase F p g) m x = m x" if "score_own p x = None" for x
    unfolding score_phase_def by (rule phase_frame [OF warp assms(1) that])
  show "same_device (den (score_phase F p g) m) m"
    unfolding same_device_def by (intro allI frame) simp
  show "den (score_phase F p g) m (out_smem p g i) = m (out_smem p g i)"
    using P(5) by (intro frame) (simp add: out_smem_def score_owner_def)
qed

lemma combine_phase_run:
  assumes "params_ok p" "num_warps p \<le> k"
  shows "den (combine_phase f u r k p g) m (red_smem p g k) =
      tree f (lane_bits p) (\<lambda>w. if w < num_warps p then m (red_smem p g w) else u)"
    and "i \<noteq> ap_max_seq_len p + k \<Longrightarrow> den (combine_phase f u r k p g) m (Smem g i) = m (Smem g i)"
    and "same_device (den (combine_phase f u r k p g) m) m"
proof -
  note P = params_okD [OF assms(1)]
  note lane = combine_lane_safe [OF assms] and warp = combine_warp_safe [OF assms]
  have own: "combine_own k p (red_smem p g k) = Some (thread_idx p 0 0)"
    by (simp add: red_smem_def combine_owner_def)
  let ?load = "\<lambda>l. set_to (Reg g (thread_idx p 0 l) r)
    (if thread_idx p 0 l < num_warps p then Load (red_smem p g (thread_idx p 0 l)) else Const u)"
  have regs: "den (lanes p ?load) m (Reg g (thread_idx p 0 l) r) =
      (if l < num_warps p then m (red_smem p g l) else u)" if "l < 2 ^ lane_bits p" for l
  proof -
    have "l < ap_lanes p" using that P(1) by simp
    then have "den (lanes p ?load) m (Reg g (thread_idx p 0 l) r) = den (?load l) m (Reg g (thread_idx p 0 l) r)"
      by (intro den_lanes [OF lane(1)]) simp_all
    then show ?thesis by (simp add: thread_idx_def)
  qed
  show "den (combine_phase f u r k p g) m (red_smem p g k) =
      tree f (lane_bits p) (\<lambda>w. if w < num_warps p then m (red_smem p g w) else u)"
  proof -
    let ?store = "\<lambda>l. if thread_idx p 0 l = 0 then set_to (red_smem p g k) (Load (Reg g (thread_idx p 0 l) r)) else Seq []"
    let ?m = "den (reduce p f r g 0) (den (lanes p ?load) m)"
    have "den (combine_phase f u r k p g) m (red_smem p g k) =
        den (Seq [lanes p ?load, reduce p f r g 0, lanes p ?store]) m (red_smem p g k)"
      unfolding combine_phase_def by (subst den_warps [OF warp P(3,8) own]) simp_all
    also have "\<dots> = den (lanes p ?store) ?m (red_smem p g k)" by simp
    also have "\<dots> = den (?store 0) ?m (red_smem p g k)" by (rule den_lanes [OF lane(2) P(8) own])
    also have "\<dots> = ?m (Reg g (thread_idx p 0 0) r)" by (simp add: thread_idx_def)
    also have "\<dots> = tree f (lane_bits p) (\<lambda>w. if w < num_warps p then m (red_smem p g w) else u)"
      unfolding reduce_value [OF assms(1)] by (rule tree_cong) (rule regs)
    finally show ?thesis .
  qed
  have frame: "den (combine_phase f u r k p g) m x = m x" if "combine_own k p x = None" for x
    unfolding combine_phase_def by (rule phase_frame [OF warp assms(1) that])
  show "i \<noteq> ap_max_seq_len p + k \<Longrightarrow> den (combine_phase f u r k p g) m (Smem g i) = m (Smem g i)"
    by (rule frame) (simp add: combine_owner_def)
  show "same_device (den (combine_phase f u r k p g) m) m"
    unfolding same_device_def by (intro allI frame) simp
qed

text \<open>What \<open>exp_lane\<close> does with the logits.\<close>

lemma exp_lane_run:
  assumes "params_ok p" "w < num_warps p" "l < ap_lanes p" "context_len p g \<le> ap_max_seq_len p"
  defines "tid \<equiv> thread_idx p w l"
  shows "den (exp_lane F p g w l) m (Reg g tid Exp_sum) =
      foldl (\<lambda>a j. fl_add F a (exp_value F (m (logits p g j)) (m (red_smem p g 127)))) (fl_zero F)
        (loop tid (context_len p g) (ap_threads p))"
    and "j \<in> set (loop tid (context_len p g) (ap_threads p)) \<Longrightarrow>
      den (exp_lane F p g w l) m (logits p g j) = exp_value F (m (logits p g j)) (m (red_smem p g 127))"
proof -
  let ?q = "Reg g tid Qk_max" and ?s = "Reg g tid Exp_sum"
  let ?body = "\<lambda>i. Seq
     [set_to (Reg g tid Val) (Binop (exp_value F) (Load (logits p g i)) (Load ?q)),
      set_to (logits p g i) (Load (Reg g tid Val)),
      set_to ?s (Binop (fl_add F) (Load ?s) (Load (Reg g tid Val)))]"
  have log: "logits p g i = logits p g j \<longleftrightarrow> i = j" for i j by (simp add: logits_def)
  have body: "fold den (map ?body js) m ?q = m ?q \<and>
      fold den (map ?body js) m ?s = foldl (\<lambda>a j. fl_add F a (exp_value F (m (logits p g j)) (m ?q))) (m ?s) js \<and>
      (\<forall>j. fold den (map ?body js) m (logits p g j) =
        (if j \<in> set js then exp_value F (m (logits p g j)) (m ?q) else m (logits p g j)))"
    if "distinct js" for js m
    using that
  proof (induction js arbitrary: m)
    case (Cons i js)
    let ?v = "exp_value F (m (logits p g i)) (m ?q)"
    define m1 where "m1 = den (?body i) m"
    have m1: "m1 ?q = m ?q" "m1 ?s = fl_add F (m ?s) ?v" "\<And>j. m1 (logits p g j) = (if j = i then ?v else m (logits p g j))"
      by (simp_all add: m1_def log)
    have eq: "foldl (\<lambda>a j. fl_add F a (exp_value F (m1 (logits p g j)) (m ?q))) x js =
        foldl (\<lambda>a j. fl_add F a (exp_value F (m (logits p g j)) (m ?q))) x js" for x
      by (rule foldl_cong) (use Cons.prems in \<open>auto simp: m1\<close>)
    have "distinct js" using Cons.prems by simp
    note IH = Cons.IH [OF this, of m1, unfolded m1(1,2) eq]
    have "fold den (map ?body (i # js)) m = fold den (map ?body js) m1" by (simp add: m1_def)
    then show ?case using IH Cons.prems by (auto simp: m1(3))
  qed simp
  let ?m = "m(?q := m (red_smem p g 127), ?s := fl_zero F)"
  have tid: "tid < ap_threads p" unfolding tid_def by (rule thread_idx_less [OF assms(1-3)])
  have "den (exp_lane F p g w l) m = fold den (map ?body (loop tid (context_len p g) (ap_threads p))) ?m"
    unfolding exp_lane_def Let_def tid_def [symmetric] by (simp add: fun_upd_def)
  with body [OF distinct_loop [OF tid], of "context_len p g" ?m]
  show "den (exp_lane F p g w l) m ?s =
      foldl (\<lambda>a j. fl_add F a (exp_value F (m (logits p g j)) (m (red_smem p g 127)))) (fl_zero F)
        (loop tid (context_len p g) (ap_threads p))"
    "j \<in> set (loop tid (context_len p g) (ap_threads p)) \<Longrightarrow>
      den (exp_lane F p g w l) m (logits p g j) = exp_value F (m (logits p g j)) (m (red_smem p g 127))"
    by simp_all
qed

lemma exp_phase_run:
  assumes "params_ok p" "context_len p g \<le> ap_max_seq_len p"
  shows "j < context_len p g \<Longrightarrow>
      den (exp_phase F p g) m (logits p g j) = exp_value F (m (logits p g j)) (m (red_smem p g 127))"
    and "w < num_warps p \<Longrightarrow> den (exp_phase F p g) m (red_smem p g w) =
      tree (fl_add F) (lane_bits p) (\<lambda>l. foldl (\<lambda>a j. fl_add F a
          (exp_value F (m (logits p g j)) (m (red_smem p g 127)))) (fl_zero F)
        (loop (thread_idx p w l) (context_len p g) (ap_threads p)))"
    and "same_device (den (exp_phase F p g) m) m"
    and "den (exp_phase F p g) m (out_smem p g i) = m (out_smem p g i)"
proof -
  note P = params_okD [OF assms(1)]
  note lane = exp_lane_safe [OF assms(1) _ _ assms(2)] and warp = exp_warp_safe [OF assms(1) _ assms(2)]
  show "den (exp_phase F p g) m (logits p g j) = exp_value F (m (logits p g j)) (m (red_smem p g 127))"
    if j: "j < context_len p g" for j
  proof -
    obtain w l where t: "j mod ap_threads p = thread_idx p w l" "w < num_warps p" "l < ap_lanes p"
      using thread_idxE [OF assms(1), of "j mod ap_threads p"] P(9) by auto
    have own: "exp_own p (logits p g j) = Some (thread_idx p w l)"
      using j assms(2) t(1) by (simp add: logits_def exp_owner_def)
    have neq: "logits p g j \<noteq> red_smem p g w" using j assms(2) by (simp add: logits_def red_smem_def)
    have "den (exp_phase F p g) m (logits p g j) = den (exp_lane F p g w l) m (logits p g j)"
      unfolding exp_phase_def
      by (subst den_warps [OF warp t(2,3) own], assumption,
          rule reduce_warp_frame [OF lane [OF t(2)] t(3) own neq]) simp_all
    also have "\<dots> = exp_value F (m (logits p g j)) (m (red_smem p g 127))"
      by (rule exp_lane_run(2) [OF assms(1) t(2,3) assms(2)])
        (use j t(1) set_loop [OF thread_idx_less [OF assms(1) t(2,3)]] in simp)
    finally show ?thesis .
  qed
  show "den (exp_phase F p g) m (red_smem p g w) =
      tree (fl_add F) (lane_bits p) (\<lambda>l. foldl (\<lambda>a j. fl_add F a
          (exp_value F (m (logits p g j)) (m (red_smem p g 127)))) (fl_zero F)
        (loop (thread_idx p w l) (context_len p g) (ap_threads p)))" if w: "w < num_warps p" for w
  proof -
    have own: "exp_own p (red_smem p g w) = Some (thread_idx p w 0)"
      using w by (simp add: red_smem_def exp_owner_def)
    have "den (exp_phase F p g) m (red_smem p g w) = den (Seq
        [lanes p (exp_lane F p g w), reduce p (fl_add F) Exp_sum g w, hand_over p Exp_sum g w]) m (red_smem p g w)"
      unfolding exp_phase_def by (rule den_warps [OF warp w P(8) own])
    also have "\<dots> = tree (fl_add F) (lane_bits p)
        (\<lambda>l. den (exp_lane F p g w l) m (Reg g (thread_idx p w l) Exp_sum))"
      by (rule reduce_warp_value [OF assms(1) lane [OF w]])
    also have "\<dots> = tree (fl_add F) (lane_bits p) (\<lambda>l. foldl (\<lambda>a j. fl_add F a
          (exp_value F (m (logits p g j)) (m (red_smem p g 127)))) (fl_zero F)
        (loop (thread_idx p w l) (context_len p g) (ap_threads p)))"
      by (rule tree_cong, rule exp_lane_run(1) [OF assms(1) w _ assms(2)]) (use P(1) in simp)
    finally show ?thesis .
  qed
  have frame: "den (exp_phase F p g) m x = m x" if "exp_own p x = None" for x
    unfolding exp_phase_def by (rule phase_frame [OF warp assms(1) that])
  show "same_device (den (exp_phase F p g) m) m"
    unfolding same_device_def by (intro allI frame) simp
  show "den (exp_phase F p g) m (out_smem p g i) = m (out_smem p g i)"
    using P(5) by (intro frame) (simp add: out_smem_def exp_owner_def)
qed

text \<open>What \<open>value_lane\<close> adds for the block \<open>b\<close>.\<close>

definition weighted :: "'e float_ops \<Rightarrow> 'e attention_params \<Rightarrow> nat \<Rightarrow> (nat \<Rightarrow> 'e) \<Rightarrow> 'e \<Rightarrow> (aloc \<Rightarrow> 'e) \<Rightarrow> nat \<Rightarrow> nat \<Rightarrow> 'e" where
  "weighted F p g e iv M d b =
     foldl (\<lambda>a t. fl_add F a (fl_mul F (fl_mul F (e (b * ap_block_size p + t)) iv) (fl_from_cache F (M (v_loc p g b t d)))))
       (fl_zero F) (filter (\<lambda>t. b * ap_block_size p + t < context_len p g) [0..<ap_block_size p])"

lemma weighted_cong:
  assumes "\<And>j. j < context_len p g \<Longrightarrow> e j = e' j" "same_device M M'"
  shows "weighted F p g e iv M d b = weighted F p g e' iv M' d b"
  unfolding weighted_def by (rule foldl_cong) (use assms(1) in \<open>auto simp: same_device_locs(3) [OF assms(2)]\<close>)

definition inv_of :: "'e float_ops \<Rightarrow> 'e \<Rightarrow> 'e" where
  "inv_of F s = fl_div F (fl_one F) (fl_add F s (fl_eps F))"

lemma value_lane_run:
  assumes "params_ok p" "l < ap_lanes p" "context_len p g \<le> ap_max_seq_len p" "d < ap_head_size p"
    "d mod ap_lanes p = l"
  shows "den (value_lane F p g w l) m (out_smem p g (w * ap_head_size p + d)) =
    foldl (\<lambda>c b. fl_add F c (weighted F p g (\<lambda>j. m (logits p g j)) (inv_of F (m (red_smem p g 126))) m d b))
      (m (out_smem p g (w * ap_head_size p + d))) (loop w (num_context_blocks p g) (num_warps p))"
proof -
  let ?tid = "thread_idx p w l" and ?H = "ap_head_size p" and ?B = "ap_block_size p"
  let ?acc = "Reg g ?tid Acc" and ?i = "Reg g ?tid Inv_sum" and ?o = "\<lambda>d. out_smem p g (w * ap_head_size p + d)"
  let ?inv = "inv_of F (m (red_smem p g 126))"
  let ?W = "\<lambda>d b. weighted F p g (\<lambda>j. m (logits p g j)) ?inv m d b"
  let ?c = "\<lambda>b t. b * ?B + t < context_len p g"
  let ?E = "\<lambda>b d t. Binop (fl_mul F) (Binop (fl_mul F) (Load (logits p g (b * ?B + t))) (Load ?i))
    (Unop (fl_from_cache F) (Load (v_loc p g b t d)))"
  define body where "body b d = Seq ([set_to ?acc (Const (fl_zero F))] @
    map (\<lambda>t. if ?c b t then set_to ?acc (Binop (fl_add F) (Load ?acc) (?E b d t)) else Seq []) [0..<?B] @
    [set_to (?o d) (Binop (fl_add F) (Load (?o d)) (Load ?acc))])" for b d
  define ok where "ok n \<longleftrightarrow> same_device n m \<and> n ?i = ?inv \<and> (\<forall>j < context_len p g. n (logits p g j) = m (logits p g j))" for n
  have out: "?o d = ?o d' \<longleftrightarrow> d = d'" for d d' by (simp add: out_smem_def)
  have log: "logits p g j \<noteq> ?o d" if "j < context_len p g" for j d
    using that assms(3) by (simp add: logits_def out_smem_def)
  have eff: "ok (den (body b d) n)" "den (body b d) n (?o d') = (if d' = d then fl_add F (n (?o d)) (?W d b) else n (?o d'))"
    if n: "ok n" for n b d d'
  proof -
    let ?n = "n(?acc := fl_zero F)"
    have "value_of (?E b d t) ?n = fl_mul F (fl_mul F (m (logits p g (b * ?B + t))) ?inv) (fl_from_cache F (m (v_loc p g b t d)))"
      if "?c b t" for t
      using n that by (simp add: ok_def same_device_locs(3) [of n m])
    then have "foldl (\<lambda>a t. fl_add F a (value_of (?E b d t) ?n)) (fl_zero F) (filter (?c b) [0..<?B]) = ?W d b"
      unfolding weighted_def by (intro foldl_cong) simp_all
    then have "fold den (map (\<lambda>t. if ?c b t then set_to ?acc (Binop (fl_add F) (Load ?acc) (?E b d t)) else Seq []) [0..<?B]) ?n =
        n(?acc := ?W d b)"
      by (subst fold_accumulate_if) simp_all
    then have run: "den (body b d) n = n(?acc := ?W d b, ?o d := fl_add F (n (?o d)) (?W d b))" unfolding body_def by simp
    show "ok (den (body b d) n)"
      unfolding run using n log by (auto simp: ok_def same_device_def out_smem_def)
    show "den (body b d) n (?o d') = (if d' = d then fl_add F (n (?o d)) (?W d b) else n (?o d'))"
      unfolding run by (simp add: out)
  qed
  have row: "ok (fold den (map (body b) ds) n) \<and> fold den (map (body b) ds) n (?o d) =
      (if d \<in> set ds then fl_add F (n (?o d)) (?W d b) else n (?o d))" if "ok n" "distinct ds" for ds n b
    using that
  proof (induction ds arbitrary: n)
    case (Cons e ds)
    have "distinct ds" using Cons.prems(2) by simp
    with Cons.IH [OF eff(1) [OF Cons.prems(1)], of b e]
    show ?case using Cons.prems(2) eff(2) [OF Cons.prems(1), of b e d] by auto
  qed simp
  let ?ds = "loop l ?H (ap_lanes p)"
  have ds: "distinct ?ds" "d \<in> set ?ds" using distinct_loop [OF assms(2)] set_loop [OF assms(2)] assms(4,5) by simp_all
  have rows: "fold den (map (\<lambda>b. Seq (map (body b) ?ds)) bs) n (?o d) = foldl (\<lambda>c b. fl_add F c (?W d b)) (n (?o d)) bs"
    if "ok n" for bs n
    using that
  proof (induction bs arbitrary: n)
    case (Cons b bs)
    have "fold den (map (\<lambda>b. Seq (map (body b) ?ds)) (b # bs)) n =
        fold den (map (\<lambda>b. Seq (map (body b) ?ds)) bs) (fold den (map (body b) ?ds) n)" by simp
    then show ?case using Cons.IH row [OF Cons.prems ds(1), of b] ds(2) by simp
  qed simp
  let ?n = "m(?i := ?inv)"
  have "den (value_lane F p g w l) m =
      fold den (map (\<lambda>b. Seq (map (body b) ?ds)) (loop w (num_context_blocks p g) (num_warps p))) ?n"
    unfolding value_lane_def Let_def body_def by (simp only: den.simps fold_append fold.simps comp_apply id_apply assign_single
      value_of.simps inv_of_def append.simps)
  moreover have "ok ?n" by (simp add: ok_def same_device_def)
  ultimately show ?thesis using rows [of ?n] by simp
qed

lemma value_phase_run:
  assumes "params_ok p" "context_len p g \<le> ap_max_seq_len p"
  shows "w < num_warps p \<Longrightarrow> d < ap_head_size p \<Longrightarrow>
      den (value_phase F p g) m (out_smem p g (w * ap_head_size p + d)) =
      foldl (\<lambda>c b. fl_add F c (weighted F p g (\<lambda>j. m (logits p g j)) (inv_of F (m (red_smem p g 126))) m d b))
        (m (out_smem p g (w * ap_head_size p + d))) (loop w (num_context_blocks p g) (num_warps p))"
    and "same_device (den (value_phase F p g) m) m"
proof -
  note P = params_okD [OF assms(1)]
  note lane = value_lane_safe [OF assms(1) _ _ assms(2)]
  note warp = safe_lanes [OF lane]
  show "den (value_phase F p g) m (out_smem p g (w * ap_head_size p + d)) =
      foldl (\<lambda>c b. fl_add F c (weighted F p g (\<lambda>j. m (logits p g j)) (inv_of F (m (red_smem p g 126))) m d b))
        (m (out_smem p g (w * ap_head_size p + d))) (loop w (num_context_blocks p g) (num_warps p))"
    if w: "w < num_warps p" and d: "d < ap_head_size p" for w d
  proof -
    have l: "d mod ap_lanes p < ap_lanes p" using P(8) by simp
    have own: "value_own p (out_smem p g (w * ap_head_size p + d)) = Some (thread_idx p w (d mod ap_lanes p))"
      using d by (simp add: out_smem_def value_owner_def)
    have "den (value_phase F p g) m (out_smem p g (w * ap_head_size p + d)) =
        den (value_lane F p g w (d mod ap_lanes p)) m (out_smem p g (w * ap_head_size p + d))"
      unfolding value_phase_def by (rule den_threads [OF lane w l own])
    also have "\<dots> = foldl (\<lambda>c b. fl_add F c (weighted F p g (\<lambda>j. m (logits p g j)) (inv_of F (m (red_smem p g 126))) m d b))
        (m (out_smem p g (w * ap_head_size p + d))) (loop w (num_context_blocks p g) (num_warps p))"
      by (rule value_lane_run [OF assms(1) l assms(2) d refl])
    finally show ?thesis .
  qed
  show "same_device (den (value_phase F p g) m) m"
    unfolding same_device_def value_phase_def by (intro allI phase_frame [OF warp assms(1)]) simp_all
qed

lemma init_phase_run:
  assumes "params_ok p"
  shows "i < num_warps p * ap_head_size p \<Longrightarrow> den (init_phase F p g) m (out_smem p g i) = fl_zero F"
    and "same_device (den (init_phase F p g) m) m"
proof -
  note P = params_okD [OF assms]
  note lane = init_lane_safe [OF assms] and warp = safe_lanes [OF init_lane_safe [OF assms]]
  show "den (init_phase F p g) m (out_smem p g i) = fl_zero F" if i: "i < num_warps p * ap_head_size p" for i
  proof -
    obtain w l where t: "i mod ap_threads p = thread_idx p w l" "w < num_warps p" "l < ap_lanes p"
      using thread_idxE [OF assms, of "i mod ap_threads p"] P(9) by auto
    let ?logs = "map (\<lambda>i. set_to (logits p g i) (Const (fl_lowest F))) (loop (thread_idx p w l) (ap_max_seq_len p) (ap_threads p))"
    let ?is = "loop (thread_idx p w l) (num_warps p * ap_head_size p) (ap_threads p)"
    have own: "init_own p (out_smem p g i) = Some (thread_idx p w l)"
      using t(1) by (simp add: out_smem_def init_owner_def)
    have "den (init_phase F p g) m (out_smem p g i) =
        den (Seq (?logs @ map (\<lambda>i. set_to (out_smem p g i) (Const (fl_zero F))) ?is)) m (out_smem p g i)"
      unfolding init_phase_def by (rule den_threads [OF lane t(2,3) own])
    also have "\<dots> = fold den (map (\<lambda>i. set_to (out_smem p g i) (Const (fl_zero F))) ?is) (fold den ?logs m) (out_smem p g i)"
      by simp
    also have "\<dots> = value_of (Const (fl_zero F)) (fold den ?logs m)"
      by (rule fold_store)
        (use i t(1) set_loop [OF thread_idx_less [OF assms t(2,3)]] in \<open>auto simp: inj_on_def out_smem_def\<close>)
    finally show ?thesis by simp
  qed
  show "same_device (den (init_phase F p g) m) m"
    unfolding same_device_def init_phase_def by (intro allI phase_frame [OF warp assms]) simp_all
qed

lemma out_loc_inj:
  assumes "params_ok p" "g < ap_num_heads p * ap_num_seqs p" "i < ap_head_size p" "j < ap_head_size p"
  shows "out_loc p g i = out_loc p g j \<longleftrightarrow> i = j"
  using assms by (simp add: out_address)

lemma output_lane_run:
  assumes "params_ok p" "g < ap_num_heads p * ap_num_seqs p" "w < num_warps p" "l < ap_lanes p"
    "i < ap_head_size p" "i mod ap_threads p = thread_idx p w l"
  shows "den (output_lane F p g w l) m (out_loc p g i) = fl_to_out F (foldl (\<lambda>a v. fl_add F a
      (m (out_smem p g (v * ap_head_size p + i)))) (fl_zero F) [0..<num_warps p])"
proof -
  let ?f = "Reg g (thread_idx p w l) Final_acc" and ?H = "ap_head_size p"
  let ?V = "\<lambda>i. fl_to_out F (foldl (\<lambda>a v. fl_add F a (m (out_smem p g (v * ?H + i)))) (fl_zero F) [0..<num_warps p])"
  define body where "body i = Seq ([set_to ?f (Const (fl_zero F))] @
    map (\<lambda>v. set_to ?f (Binop (fl_add F) (Load ?f) (Load (out_smem p g (v * ?H + i))))) [0..<num_warps p] @
    [set_to (out_loc p g i) (Unop (fl_to_out F) (Load ?f))])" for i
  define ok where "ok n \<longleftrightarrow> (\<forall>i. n (out_smem p g i) = m (out_smem p g i))" for n
  have neq: "out_loc p g i \<noteq> out_smem p g j" "out_smem p g j \<noteq> out_loc p g i" for i j
    by (simp_all add: out_loc_def out_smem_def)
  have eff: "ok (den (body i) n)" "den (body i) n (out_loc p g i) = ?V i"
    "x \<noteq> out_loc p g i \<Longrightarrow> x \<noteq> ?f \<Longrightarrow> den (body i) n x = n x" if n: "ok n" for n i x
  proof -
    let ?n = "n(?f := fl_zero F)"
    let ?E = "\<lambda>v. Load (out_smem p g (v * ?H + i))"
    let ?S = "foldl (\<lambda>a v. fl_add F a (m (out_smem p g (v * ?H + i)))) (fl_zero F) [0..<num_warps p]"
    have "foldl (\<lambda>a v. fl_add F a (value_of (?E v) ?n)) (fl_zero F) [0..<num_warps p] = ?S"
      by (rule foldl_cong) (use n in \<open>simp_all add: ok_def\<close>)
    then have "fold den (map (\<lambda>v. set_to ?f (Binop (fl_add F) (Load ?f) (?E v))) [0..<num_warps p]) ?n = n(?f := ?S)"
      by (subst fold_accumulate) simp_all
    then have run: "den (body i) n = n(?f := ?S, out_loc p g i := ?V i)" unfolding body_def by simp
    show "ok (den (body i) n)" unfolding run using n by (simp add: ok_def neq)
    show "den (body i) n (out_loc p g i) = ?V i" unfolding run by simp
    show "x \<noteq> out_loc p g i \<Longrightarrow> x \<noteq> ?f \<Longrightarrow> den (body i) n x = n x" unfolding run by simp
  qed
  have loop_value: "fold den (map body js) n (out_loc p g i) = (if i \<in> set js then ?V i else n (out_loc p g i))"
    if "ok n" "\<And>j. j \<in> set js \<Longrightarrow> j < ?H" for js n
    using that
  proof (induction js arbitrary: n)
    case (Cons j js)
    have "fold den (map body js) (den (body j) n) (out_loc p g i) =
        (if i \<in> set js then ?V i else den (body j) n (out_loc p g i))"
      by (rule Cons.IH [OF eff(1) [OF Cons.prems(1)]]) (simp add: Cons.prems(2))
    moreover have "den (body j) n (out_loc p g i) = (if j = i then ?V i else n (out_loc p g i))"
      using eff(2,3) [OF Cons.prems(1)] out_loc_inj [OF assms(1,2,5), of j] Cons.prems(2) by auto
    ultimately show ?case by (auto simp del: fold.simps simp: fold_simps(2))
  qed simp
  have run: "den (output_lane F p g w l) m = fold den (map body (loop (thread_idx p w l) ?H (ap_threads p))) m"
    unfolding output_lane_def Let_def den.simps
    by (intro arg_cong [where f = "\<lambda>ps. fold den ps m"] map_cong refl) (simp add: body_def)
  let ?js = "loop (thread_idx p w l) ?H (ap_threads p)"
  have js: "set ?js = {j. j < ?H \<and> j mod ap_threads p = thread_idx p w l}"
    by (rule set_loop [OF thread_idx_less [OF assms(1,3,4)]])
  have "fold den (map body ?js) m (out_loc p g i) = (if i \<in> set ?js then ?V i else m (out_loc p g i))"
    by (rule loop_value) (simp_all add: ok_def js)
  then show ?thesis unfolding run using assms(5,6) by (simp add: js)
qed

lemma output_phase_run:
  assumes "params_ok p" "g < ap_num_heads p * ap_num_seqs p" "i < ap_head_size p"
  shows "den (output_phase F p g) m (out_loc p g i) = fl_to_out F (foldl (\<lambda>a v. fl_add F a
      (m (out_smem p g (v * ap_head_size p + i)))) (fl_zero F) [0..<num_warps p])"
    and "den (zero_output F p g) m (out_loc p g i) = fl_to_out F (fl_zero F)"
proof -
  note P = params_okD [OF assms(1)]
  obtain w l where t: "i mod ap_threads p = thread_idx p w l" "w < num_warps p" "l < ap_lanes p"
    using thread_idxE [OF assms(1), of "i mod ap_threads p"] P(9) by auto
  have own: "output_own p (out_loc p g i) = Some (thread_idx p w l)"
    unfolding output_owner_out [OF assms] t(1) ..
  note lane = output_lane_safe [OF assms(1) _ _ assms(2)]
  have "den (output_phase F p g) m (out_loc p g i) = den (output_lane F p g w l) m (out_loc p g i)"
    unfolding output_phase_def by (rule den_threads [OF lane(1) t(2,3) own])
  also have "\<dots> = fl_to_out F (foldl (\<lambda>a v. fl_add F a
      (m (out_smem p g (v * ap_head_size p + i)))) (fl_zero F) [0..<num_warps p])"
    by (rule output_lane_run [OF assms(1,2) t(2,3) assms(3) t(1)])
  finally show "den (output_phase F p g) m (out_loc p g i) = fl_to_out F (foldl (\<lambda>a v. fl_add F a
      (m (out_smem p g (v * ap_head_size p + i)))) (fl_zero F) [0..<num_warps p])" .
  let ?js = "loop (thread_idx p w l) (ap_head_size p) (ap_threads p)"
  have js: "set ?js = {j. j < ap_head_size p \<and> j mod ap_threads p = thread_idx p w l}"
    by (rule set_loop [OF thread_idx_less [OF assms(1) t(2,3)]])
  have "den (zero_output F p g) m (out_loc p g i) =
      den (Seq (map (\<lambda>i. set_to (out_loc p g i) (Unop (fl_to_out F) (Const (fl_zero F)))) ?js)) m (out_loc p g i)"
    unfolding zero_output_def by (rule den_threads [OF lane(2) t(2,3) own])
  also have "\<dots> = value_of (Unop (fl_to_out F) (Const (fl_zero F))) m"
    unfolding den.simps
    by (rule fold_store) (use js t(1) out_loc_inj [OF assms(1,2)] assms(3) in \<open>auto simp: inj_on_def\<close>)
  finally show "den (zero_output F p g) m (out_loc p g i) = fl_to_out F (fl_zero F)" by simp
qed

section \<open>The kernel\<close>

lemma attention_value_weighted:
  "attention_value F p M g d =
     (if context_len p g = 0 \<or> context_len p g > ap_max_seq_len p then fl_to_out F (fl_zero F)
      else fl_to_out F (foldl (\<lambda>a w. fl_add F a
        (foldl (\<lambda>c b. fl_add F c (weighted F p g (exp_score F p M g) (inv_total F p M g) M d b)) (fl_zero F)
          (loop w (num_context_blocks p g) (num_warps p)))) (fl_zero F) [0..<num_warps p]))"
  by (simp add: attention_value_def block_value_def weighted_def)

lemma paged_attention_run:
  assumes "params_ok p" "g < ap_num_heads p * ap_num_seqs p" "i < ap_head_size p"
  shows "den (paged_attention F p g) m (out_loc p g i) = attention_value F p m g i"
proof (cases "context_len p g = 0 \<or> context_len p g > ap_max_seq_len p")
  case True
  then show ?thesis by (simp add: paged_attention_def attention_value_def output_phase_run(2) [OF assms])
next
  case False
  then have len: "context_len p g \<le> ap_max_seq_len p" by simp
  note P = params_okD [OF assms(1)]
  define m1 where "m1 = den (init_phase F p g) m"
  define m2 where "m2 = den (score_phase F p g) m1"
  define m3 where "m3 = den (combine_phase (fl_max F) (fl_lowest F) Red_m 127 p g) m2"
  define m4 where "m4 = den (exp_phase F p g) m3"
  define m5 where "m5 = den (combine_phase (fl_add F) (fl_zero F) Red_s 126 p g) m4"
  define m6 where "m6 = den (value_phase F p g) m5"
  note s1 = init_phase_run [OF assms(1), where F = F and g = g and m = m, folded m1_def]
  note s2 = score_phase_run [OF assms(1) len, where F = F and m = m1, folded m2_def]
  have le: "num_warps p \<le> 127" using P(5) by simp
  note s3 = combine_phase_run [OF assms(1) le, where f = "fl_max F" and u = "fl_lowest F" and r = Red_m and g = g and m = m2,
    folded m3_def]
  note s4 = exp_phase_run [OF assms(1) len, where F = F and m = m3, folded m4_def]
  note s5 = combine_phase_run [OF assms(1) P(5), where f = "fl_add F" and u = "fl_zero F" and r = Red_s and g = g and m = m4,
    folded m5_def]
  note s6 = value_phase_run(1) [OF assms(1) len, where F = F and m = m5, folded m6_def]
  have d1: "same_device m1 m" by (rule s1(2))
  have d5: "same_device m5 m"
    using d1 s2(3) s3(3) s4(3) s5(3) by (simp add: same_device_def)
  have score: "score F p m1 g j = score F p m g j" for j by (rule score_cong [OF d1])
  have lane: "l < ap_lanes p" if "l < 2 ^ lane_bits p" for l using that P(1) by simp
  have max: "m3 (red_smem p g 127) = max_score F p m g"
  proof -
    have "m2 (red_smem p g w) = tree (fl_max F) (lane_bits p) (\<lambda>l. foldl (\<lambda>a j. fl_max F a (score F p m g j)) (fl_lowest F)
        (lane_tokens p g (thread_idx p w l div ap_lanes p) (thread_idx p w l mod ap_lanes p)))" if "w < num_warps p" for w
      unfolding s2(2) [OF that] score
      by (rule tree_cong) (simp only: thread_idx_div [OF lane] thread_idx_mod [OF lane])
    then show ?thesis unfolding s3(1) max_score_def combined_def by (intro tree_cong) simp
  qed
  have logits: "m5 (logits p g j) = exp_score F p m g j" if "j < context_len p g" for j
  proof -
    have "m5 (logits p g j) = m4 (logits p g j)" "m3 (logits p g j) = m2 (logits p g j)"
      using that len s5(2) [of j] s3(2) [of j] by (simp_all add: logits_def)
    then show ?thesis using s4(1) [OF that] s2(1) [OF that] by (simp add: exp_score_def max score)
  qed
  have total: "m5 (red_smem p g 126) = exp_total F p m g"
  proof -
    have "m3 (logits p g j) = score F p m g j" if "j < context_len p g" for j
      using that len s3(2) [of j] s2(1) [OF that] by (simp add: logits_def score)
    then have "foldl (\<lambda>a j. fl_add F a (exp_value F (m3 (logits p g j)) (m3 (red_smem p g 127)))) (fl_zero F)
        (loop (thread_idx p w l) (context_len p g) (ap_threads p)) =
      foldl (\<lambda>a j. fl_add F a (exp_score F p m g j)) (fl_zero F) (loop (thread_idx p w l) (context_len p g) (ap_threads p))"
      if "w < num_warps p" "l < ap_lanes p" for w l
      using set_loop [OF thread_idx_less [OF assms(1) that]]
      by (intro foldl_cong) (simp_all add: exp_score_def max)
    then have "m4 (red_smem p g w) = tree (fl_add F) (lane_bits p) (\<lambda>l. foldl (\<lambda>a j. fl_add F a (exp_score F p m g j))
        (fl_zero F) (loop (thread_idx p w l) (context_len p g) (ap_threads p)))" if "w < num_warps p" for w
      unfolding s4(2) [OF that] by (intro tree_cong) (use that P(1) in simp)
    then show ?thesis unfolding s5(1) exp_total_def combined_def by (intro tree_cong) simp
  qed
  have out: "m5 (out_smem p g k) = fl_zero F" if "k < num_warps p * ap_head_size p" for k
  proof -
    have "m5 (out_smem p g k) = m4 (out_smem p g k)" "m3 (out_smem p g k) = m2 (out_smem p g k)"
      using s5(2) s3(2) by (simp_all add: out_smem_def)
    then show ?thesis using s4(4) s2(4) s1(1) [OF that] by simp
  qed
  have "m6 (out_smem p g (w * ap_head_size p + i)) =
      foldl (\<lambda>c b. fl_add F c (weighted F p g (exp_score F p m g) (inv_total F p m g) m i b)) (fl_zero F)
        (loop w (num_context_blocks p g) (num_warps p))" if w: "w < num_warps p" for w
  proof -
    have "w * ap_head_size p + i < Suc w * ap_head_size p" using assms(3) by simp
    also have "\<dots> \<le> num_warps p * ap_head_size p" using w by (intro mult_right_mono) simp_all
    finally have "m5 (out_smem p g (w * ap_head_size p + i)) = fl_zero F" by (rule out)
    moreover have "weighted F p g (\<lambda>j. m5 (logits p g j)) (inv_of F (exp_total F p m g)) m5 i b =
        weighted F p g (exp_score F p m g) (inv_total F p m g) m i b" for b
      unfolding inv_total_def inv_of_def by (rule weighted_cong [OF logits d5])
    ultimately show ?thesis unfolding s6 [OF w assms(3)] total by simp
  qed
  then have "foldl (\<lambda>a v. fl_add F a (m6 (out_smem p g (v * ap_head_size p + i)))) (fl_zero F) [0..<num_warps p] =
      foldl (\<lambda>a w. fl_add F a (foldl (\<lambda>c b. fl_add F c (weighted F p g (exp_score F p m g) (inv_total F p m g) m i b))
        (fl_zero F) (loop w (num_context_blocks p g) (num_warps p)))) (fl_zero F) [0..<num_warps p]"
    by (intro foldl_cong) simp_all
  moreover have "den (paged_attention F p g) m = den (output_phase F p g) m6"
    using False by (simp add: paged_attention_def m1_def m2_def m3_def m4_def m5_def m6_def)
  ultimately show ?thesis
    using False unfolding attention_value_weighted by (simp add: output_phase_run(1) [OF assms])
qed

section \<open>The grid\<close>

text \<open>The owners of the grid are its groups.\<close>

definition grid_own :: "'e attention_params \<Rightarrow> aloc \<Rightarrow> nat option" where
  "grid_own p x = (case x of
     Device a \<Rightarrow> if fst a = ap_out p then Some (nat (snd a) div ap_head_size p) else None
   | Smem g i \<Rightarrow> Some g | Reg g t r \<Rightarrow> Some g)"

lemma grid_own_simps [simp]:
  "grid_own p (Smem g i) = Some g" "grid_own p (Reg g t r) = Some g"
  "grid_own p (logits p' g i) = Some g" "grid_own p (red_smem p' g i) = Some g" "grid_own p (out_smem p' g i) = Some g"
  by (simp_all add: grid_own_def logits_def red_smem_def out_smem_def)

lemma grid_own_inputs:
  assumes "params_ok p"
  shows "grid_own p (q_loc p g d) = None" "grid_own p (k_loc p g b t d) = None" "grid_own p (v_loc p g b t d) = None"
    "ap_alibi_slopes p = Some a \<Longrightarrow> grid_own p (Device (a, k)) = None"
  using assms by (auto simp: grid_own_def q_loc_def k_loc_def v_loc_def params_ok_def)

lemma grid_own_out:
  assumes "params_ok p" "g < ap_num_heads p * ap_num_seqs p" "i < ap_head_size p"
  shows "grid_own p (out_loc p g i) = Some g"
  using assms(3) by (simp add: out_address [OF assms] grid_own_def del: of_nat_add of_nat_mult)

lemma within_warps: "(\<And>w. w < num_warps p \<Longrightarrow> within own T (f w)) \<Longrightarrow> within own T (warps p f)"
  and within_lanes: "(\<And>l. l < ap_lanes p \<Longrightarrow> within own T (h l)) \<Longrightarrow> within own T (lanes p h)"
  by (auto simp: warps_def lanes_def)

lemma paged_attention_within:
  assumes "params_ok p" "g < ap_num_heads p * ap_num_seqs p"
  shows "within (grid_own p) {g} (paged_attention F p g)"
proof -
  note own = grid_own_inputs [OF assms(1)] grid_own_out [OF assms]
  have loop: "j < ap_head_size p"
    if "j \<in> set (loop (thread_idx p w l) (ap_head_size p) (ap_threads p))" "w < num_warps p" "l < ap_lanes p" for j w l
    using that set_loop [OF thread_idx_less [OF assms(1)]] by auto
  have reduce: "within (grid_own p) {g} (reduce p f r g w)" for f r w
    by (auto simp: reduce_def shuffle_def)
  have hand: "within (grid_own p) {g} (hand_over p r g w)" for r w
    unfolding hand_over_def by (rule within_lanes) auto
  have "within (grid_own p) {g} (init_phase F p g)"
    unfolding init_phase_def by (intro within_warps within_lanes) auto
  moreover have "within (grid_own p) {g} (score_phase F p g)"
    unfolding score_phase_def
    by (intro within_warps) (auto simp: reduce hand own score_lane_def score_token_def Let_def split: option.split
        intro!: within_lanes)
  moreover have "within (grid_own p) {g} (combine_phase f u r k p g)" for f u r k
    unfolding combine_phase_def
    by (intro within_warps) (auto simp: reduce intro!: within_lanes)
  moreover have "within (grid_own p) {g} (exp_phase F p g)"
    unfolding exp_phase_def
    by (intro within_warps) (auto simp: reduce hand exp_lane_def Let_def intro!: within_lanes)
  moreover have "within (grid_own p) {g} (value_phase F p g)"
    unfolding value_phase_def
    by (intro within_warps within_lanes) (auto simp: own value_lane_def Let_def)
  moreover have "within (grid_own p) {g} (output_phase F p g)"
    unfolding output_phase_def
    by (intro within_warps within_lanes) (auto simp: own output_lane_def Let_def dest: loop)
  moreover have "within (grid_own p) {g} (zero_output F p g)"
    unfolding zero_output_def
    by (intro within_warps within_lanes) (auto simp: own dest: loop)
  ultimately show ?thesis by (simp add: paged_attention_def)
qed

lemma paged_attention_apart:
  assumes "params_ok p" "g < ap_num_heads p * ap_num_seqs p"
  shows "apart (paged_attention F p g)"
proof (cases "context_len p g = 0 \<or> context_len p g > ap_max_seq_len p")
  case True
  have "apart (zero_output F p g)"
    using safe_warps [OF safe_lanes [OF output_lane_safe(2) [OF assms(1) _ _ assms(2),
      where f = "fl_to_out F" and c = "fl_zero F"]] assms(1)]
    unfolding zero_output_def safe_def by blast
  with True show ?thesis by (simp add: paged_attention_def)
next
  case False
  then have len: "context_len p g \<le> ap_max_seq_len p" by simp
  note P = params_okD [OF assms(1)]
  have le: "num_warps p \<le> 127" using P(5) by simp
  have "apart (init_phase F p g)"
    using safe_warps [OF safe_lanes [OF init_lane_safe [OF assms(1),
      where g = g and c = "fl_lowest F" and c' = "fl_zero F"]] assms(1)] unfolding init_phase_def safe_def by blast
  moreover have "apart (score_phase F p g)"
    using safe_warps [OF score_warp_safe [OF assms(1) _ len, where F = F and f = "fl_max F"] assms(1)] unfolding score_phase_def safe_def by blast
  moreover have "apart (combine_phase f u r k p g)" if "num_warps p \<le> k" for f u r k
    using safe_warps [OF combine_warp_safe [OF assms(1) that, where g = g and r = r and u = u and f = f] assms(1)] unfolding combine_phase_def safe_def by blast
  moreover have "apart (exp_phase F p g)"
    using safe_warps [OF exp_warp_safe [OF assms(1) _ len, where F = F and f = "fl_add F"] assms(1)] unfolding exp_phase_def safe_def by blast
  moreover have "apart (value_phase F p g)"
    using safe_warps [OF safe_lanes [OF value_lane_safe [OF assms(1) _ _ len, where F = F]] assms(1)] unfolding value_phase_def safe_def by blast
  moreover have "apart (output_phase F p g)"
    using safe_warps [OF safe_lanes [OF output_lane_safe(1) [OF assms(1) _ _ assms(2), where F = F]] assms(1)]
    unfolding output_phase_def safe_def by blast
  ultimately show ?thesis using False le P(5) by (simp add: paged_attention_def)
qed

lemma attention_grid_apart:
  assumes "params_ok p"
  shows "apart (attention_grid F p)"
  unfolding attention_grid_def
  by (rule apart_owned [OF paged_attention_apart [OF assms] paged_attention_within [OF assms]]) auto

text \<open>
  Every run of the grid ends with the value of the reference at every place of the result, and
  without a change to other entries of the buffers.
\<close>

lemma attention_grid_runs:
  assumes "params_ok p"
  shows "\<exists>m'. runs_to (attention_grid F p) m m'"
    and "runs_to (attention_grid F p) m m' \<Longrightarrow> g < ap_num_heads p * ap_num_seqs p \<Longrightarrow> i < ap_head_size p \<Longrightarrow>
      m' (out_loc p g i) = attention_value F p m g i"
    and "runs_to (attention_grid F p) m m' \<Longrightarrow> fst a \<noteq> ap_out p \<Longrightarrow> m' (Device a) = m (Device a)"
proof -
  let ?n = "ap_num_heads p * ap_num_seqs p"
  note W = paged_attention_within [OF assms] and run = run_den [OF attention_grid_apart [OF assms]]
  show "\<exists>m'. runs_to (attention_grid F p) m m'" by (rule prog_ends)
  show "m' (out_loc p g i) = attention_value F p m g i"
    if "runs_to (attention_grid F p) m m'" and g: "g < ?n" and i: "i < ap_head_size p"
  proof -
    have "m' (out_loc p g i) = den (paged_attention F p g) m (out_loc p g i)"
      unfolding run [OF that(1)] attention_grid_def
      by (rule den_owned [where own = "grid_own p" and T = "\<lambda>g. {g}", OF W])
        (use g grid_own_out [OF assms g i] in auto)
    then show ?thesis using paged_attention_run [OF assms g i] by simp
  qed
  have "within (grid_own p) {..<?n} (attention_grid F p)"
    unfolding attention_grid_def using W by (auto intro: within_mono [OF W])
  then show "m' (Device a) = m (Device a)" if "runs_to (attention_grid F p) m m'" "fst a \<noteq> ap_out p"
    unfolding run [OF that(1)] using that(2) by (intro within_frame) (auto simp: grid_own_def)
qed

end
