(* ===== verification/Attention_Real.thy ===== *)
theory Attention_Real
  imports Complex_Main Attention_Run
begin

text \<open>
  The attention kernel in exact arithmetic: with real numbers for the floating-point numbers, the
  scores of the tokens are weighted by their softmax, up to the small constant that is added to the
  sum of the exponentials.
\<close>

section \<open>Arithmetic on real numbers\<close>

definition flt_max :: real where
  "flt_max = (2 - 1 / 2 ^ 23) * 2 ^ 127"

definition real_ops :: "real float_ops" where
  "real_ops = \<lparr>fl_zero = 0, fl_one = 1, fl_lowest = - flt_max, fl_eps = 1 / 10 ^ 6, fl_of_int = of_int,
     fl_add = (+), fl_sub = (-), fl_mul = (*), fl_div = (/), fl_max = max, fl_exp = exp, fl_tanh = tanh,
     fl_eq = (=), fl_from_q = (\<lambda>x. x), fl_from_cache = (\<lambda>x. x), fl_to_out = (\<lambda>x. x)\<rparr>"

lemma real_ops_simps [simp]:
  "fl_zero real_ops = 0" "fl_one real_ops = 1" "fl_lowest real_ops = - flt_max" "fl_eps real_ops = 1 / 10 ^ 6"
  "fl_of_int real_ops = of_int" "fl_add real_ops = (+)" "fl_sub real_ops = (-)" "fl_mul real_ops = (*)"
  "fl_div real_ops = (/)" "fl_max real_ops = max" "fl_exp real_ops = exp" "fl_tanh real_ops = tanh"
  "fl_eq real_ops = (=)" "fl_from_q real_ops = (\<lambda>x. x)" "fl_from_cache real_ops = (\<lambda>x. x)"
  "fl_to_out real_ops = (\<lambda>x. x)"
  by (simp_all add: real_ops_def)

section \<open>Sums\<close>

lemma foldl_sum_list: "foldl (\<lambda>a x. a + h x) c xs = c + sum_list (map h xs)" for h :: "'a \<Rightarrow> real"
  by (induction xs arbitrary: c) simp_all

lemma sum_list_filter_upt: "sum_list (map h (filter P [0..<n])) = sum h {j. j < n \<and> P j}" for h :: "nat \<Rightarrow> real"
proof -
  have "sum_list (map h (filter P [0..<n])) = sum h (set (filter P [0..<n]))"
    by (rule sum_list_distinct_conv_sum_set) simp
  also have "set (filter P [0..<n]) = {j. j < n \<and> P j}" by auto
  finally show ?thesis .
qed

text \<open>The indices below \<open>n\<close>, distributed over \<open>k\<close> threads.\<close>

lemma sum_loops:
  fixes h :: "nat \<Rightarrow> real"
  assumes "0 < k"
  shows "(\<Sum>t<k. sum_list (map h (loop t n k))) = sum h {..<n}"
proof -
  have "(\<Sum>t<k. sum_list (map h (loop t n k))) = (\<Sum>t<k. sum h {j \<in> {..<n}. j mod k = t})"
    by (intro sum.cong) (simp_all add: loop_filter sum_list_filter_upt)
  also have "\<dots> = sum h {..<n}" by (rule sum.group) (use assms in auto)
  finally show ?thesis .
qed

lemma sum_blocks: "(\<Sum>b<k. \<Sum>t<n. h (b * n + t)) = sum h {..<k * n}" for h :: "nat \<Rightarrow> real"
proof -
  have "(\<Sum>t<n. h (b * n + t)) = sum h {b * n..<b * n + n}" for b
    using sum.shift_bounds_nat_ivl [of h 0 "b * n" n] by (simp add: lessThan_atLeast0 add.commute)
  then show ?thesis by (simp add: sum.nat_group)
qed

section \<open>Reductions\<close>

lemma tree_sum: "tree (+) k v = sum v {..<2 ^ k}" for v :: "nat \<Rightarrow> real"
proof (induction k arbitrary: v)
  case (Suc k)
  have "sum v {..<2 ^ Suc k} = sum v {0..<2 ^ k} + sum v {2 ^ k..<2 ^ k + 2 ^ k}"
    by (subst sum.atLeastLessThan_concat) (simp_all add: lessThan_atLeast0 mult_2)
  also have "sum v {2 ^ k..<2 ^ k + 2 ^ k} = (\<Sum>l<2 ^ k. v (l + 2 ^ k))"
    using sum.shift_bounds_nat_ivl [of v 0 "2 ^ k" "2 ^ k"] by (simp add: lessThan_atLeast0)
  finally show ?case by (simp add: Suc.IH sum.distrib lessThan_atLeast0)
qed simp

lemma tree_max_upper: "l < 2 ^ k \<Longrightarrow> v l \<le> tree max k v" for v :: "nat \<Rightarrow> real"
proof (induction k arbitrary: v l)
  case (Suc k)
  let ?u = "\<lambda>l. max (v l) (v (l + 2 ^ k))"
  show ?case
  proof (cases "l < 2 ^ k")
    case True
    then show ?thesis using Suc.IH [of l ?u] by simp
  next
    case False
    then have "l - 2 ^ k < 2 ^ k" "l - 2 ^ k + 2 ^ k = l" using Suc.prems by simp_all
    then show ?thesis using Suc.IH [of "l - 2 ^ k" ?u] by simp
  qed
qed simp

lemma tree_max_least: "(\<And>l. l < 2 ^ k \<Longrightarrow> v l \<le> B) \<Longrightarrow> tree max k v \<le> B" for v :: "nat \<Rightarrow> real"
proof (induction k arbitrary: v)
  case (Suc k)
  have "max (v l) (v (l + 2 ^ k)) \<le> B" if "l < 2 ^ k" for l
    using Suc.prems [of l] Suc.prems [of "l + 2 ^ k"] that by simp
  then show ?case using Suc.IH by simp
qed simp

lemma combined_sum:
  fixes v :: "nat \<Rightarrow> real"
  assumes "params_ok p"
  shows "combined (+) 0 p v = sum v {..<ap_threads p}"
proof -
  note P = params_okD [OF assms]
  have tree: "tree (+) (lane_bits p) h = sum h {..<ap_lanes p}" for h :: "nat \<Rightarrow> real"
    by (simp add: tree_sum P(1) [symmetric])
  have "combined (+) 0 p v = (\<Sum>w<ap_lanes p. if w < num_warps p then \<Sum>l<ap_lanes p. v (w * ap_lanes p + l) else 0)"
    unfolding combined_def tree thread_idx_def ..
  also have "\<dots> = (\<Sum>w<num_warps p. \<Sum>l<ap_lanes p. v (w * ap_lanes p + l))"
    by (rule sum.mono_neutral_cong_right) (use P(4) in auto)
  also have "\<dots> = sum v {..<ap_threads p}" by (simp add: sum_blocks P(2))
  finally show ?thesis .
qed

lemma combined_max:
  fixes v :: "nat \<Rightarrow> real"
  assumes "params_ok p"
  shows "t < ap_threads p \<Longrightarrow> v t \<le> combined max u p v"
    and "(\<And>t. t < ap_threads p \<Longrightarrow> v t \<le> B) \<Longrightarrow> u \<le> B \<Longrightarrow> combined max u p v \<le> B"
proof -
  note P = params_okD [OF assms]
  show "v t \<le> combined max u p v" if t: "t < ap_threads p" for t
  proof -
    obtain w l where wl: "t = thread_idx p w l" "w < num_warps p" "l < ap_lanes p" by (rule thread_idxE [OF assms t])
    have "v t \<le> tree max (lane_bits p) (\<lambda>l. v (thread_idx p w l))"
      using tree_max_upper [of l "lane_bits p" "\<lambda>l. v (thread_idx p w l)"] wl P(1) by simp
    also have "\<dots> \<le> combined max u p v"
      using tree_max_upper [of w "lane_bits p" "\<lambda>w. if w < num_warps p
        then tree max (lane_bits p) (\<lambda>l. v (thread_idx p w l)) else u"] wl(2) P(1,4)
      by (simp add: combined_def)
    finally show ?thesis .
  qed
  show "combined max u p v \<le> B" if "\<And>t. t < ap_threads p \<Longrightarrow> v t \<le> B" "u \<le> B"
    unfolding combined_def
    by (intro tree_max_least) (use that P(1) thread_idx_less [OF assms] in \<open>auto intro!: tree_max_least\<close>)
qed

section \<open>Softmax attention\<close>

text \<open>The score of the token \<open>j\<close>, its value, and the softmax of the scores applied to the values.\<close>

definition attention_score :: "real attention_params \<Rightarrow> (aloc \<Rightarrow> real) \<Rightarrow> nat \<Rightarrow> nat \<Rightarrow> real" where
  "attention_score p M g j =
     (\<Sum>d<ap_head_size p. M (q_loc p g d) * M (k_loc p g (j div ap_block_size p) (j mod ap_block_size p) d)) * ap_scale p +
     (case ap_alibi_slopes p of None \<Rightarrow> 0
      | Some slopes \<Rightarrow> M (Device (slopes, int (head_idx p g))) * (of_nat j - of_nat (context_len p g) + 1))"

definition token_value :: "real attention_params \<Rightarrow> (aloc \<Rightarrow> real) \<Rightarrow> nat \<Rightarrow> nat \<Rightarrow> nat \<Rightarrow> real" where
  "token_value p M g d j = M (v_loc p g (j div ap_block_size p) (j mod ap_block_size p) d)"

definition softmax_mean :: "nat \<Rightarrow> (nat \<Rightarrow> real) \<Rightarrow> (nat \<Rightarrow> real) \<Rightarrow> real" where
  "softmax_mean n s v = (\<Sum>j<n. exp (s j) * v j) / (\<Sum>j<n. exp (s j))"

lemma softmax_mean_cong:
  "(\<And>j. j < n \<Longrightarrow> s j = s' j) \<Longrightarrow> (\<And>j. j < n \<Longrightarrow> v j = v' j) \<Longrightarrow> softmax_mean n s v = softmax_mean n s' v'"
  by (simp add: softmax_mean_def)

definition softmax_attention :: "real attention_params \<Rightarrow> (aloc \<Rightarrow> real) \<Rightarrow> nat \<Rightarrow> nat \<Rightarrow> real" where
  "softmax_attention p M g d = softmax_mean (context_len p g) (attention_score p M g) (token_value p M g d)"

lemma score_real:
  assumes "ap_softcapping p = 1"
  shows "score real_ops p M g j = attention_score p M g j"
proof -
  have "foldl (\<lambda>a d. a + h d) 0 [0..<n] = sum h {..<n}" for h :: "nat \<Rightarrow> real" and n
    unfolding foldl_sum_list using sum_list_filter_upt [of h "\<lambda>_. True" n] by (simp add: lessThan_def)
  then show ?thesis
    using assms by (simp add: score_def attention_score_def softcap_def alibi_def Let_def split: option.split)
qed

lemma max_score_real:
  assumes "params_ok p" "ap_softcapping p = 1" "0 < context_len p g"
    and "\<And>j. j < context_len p g \<Longrightarrow> - flt_max < attention_score p M g j"
  shows "max_score real_ops p M g = Max (attention_score p M g ` {..<context_len p g})"
proof -
  let ?s = "attention_score p M g" and ?n = "context_len p g"
  let ?tokens = "\<lambda>t. lane_tokens p g (t div ap_lanes p) (t mod ap_lanes p)"
  let ?v = "\<lambda>t. foldl (\<lambda>a j. max a (?s j)) (- flt_max) (?tokens t)"
  have fold_upper: "c \<le> foldl (\<lambda>a j. max a (?s j)) c js" for c js
    by (induction js arbitrary: c) (auto intro: order_trans [OF max.cobounded1])
  have fold_in: "?s j \<le> foldl (\<lambda>a j. max a (?s j)) c js" if "j \<in> set js" for j c js
    using that
  proof (induction js arbitrary: c)
    case (Cons i js)
    then show ?case using fold_upper [of "max c (?s i)" js] by (cases "i = j") auto
  qed simp
  have fold_least: "foldl (\<lambda>a j. max a (?s j)) c js \<le> B" if "c \<le> B" "\<And>j. j \<in> set js \<Longrightarrow> ?s j \<le> B" for c js B
    using that by (induction js arbitrary: c) simp_all
  have tokens: "j < ?n" if "j \<in> set (?tokens t)" for j t
    using that by (auto simp: lane_tokens_def)
  let ?M = "Max (?s ` {..<?n})"
  have fin: "finite (?s ` {..<?n})" "?s ` {..<?n} \<noteq> {}" using assms(3) by auto
  have le: "?s j \<le> ?M" if "j < ?n" for j using that fin(1) by (intro Max_ge) auto
  have "combined max (- flt_max) p ?v \<le> ?M"
  proof (rule combined_max(2) [OF assms(1)])
    show "- flt_max \<le> ?M" using le [OF assms(3)] assms(4) [OF assms(3)] by simp
    then show "?v t \<le> ?M" for t using tokens le by (intro fold_least) auto
  qed
  moreover have "?M \<le> combined max (- flt_max) p ?v"
  proof -
    obtain j where j: "j < ?n" "?M = ?s j" using Max_in [OF fin] by auto
    let ?w = "j div ap_block_size p mod num_warps p" and ?l = "j mod ap_block_size p mod ap_lanes p"
    note t = token_thread [OF assms(1) j(1)]
    have "?s j \<le> ?v (thread_idx p ?w ?l)"
      using t(3) by (intro fold_in) (simp add: thread_idx_div [OF t(2)] thread_idx_mod [OF t(2)])
    also have "\<dots> \<le> combined max (- flt_max) p ?v"
      by (rule combined_max(1) [OF assms(1) thread_idx_less [OF assms(1) t(1,2)]])
    finally show ?thesis using j(2) by simp
  qed
  ultimately show ?thesis by (simp add: max_score_def score_real [OF assms(2)])
qed

lemma exp_score_real:
  assumes "ap_softcapping p = 1" "- flt_max < attention_score p M g j"
  shows "exp_score real_ops p M g j = exp (attention_score p M g j - max_score real_ops p M g)"
  using assms(2) by (simp add: exp_score_def exp_value_def score_real [OF assms(1)])

lemma exp_total_real:
  assumes "params_ok p"
  shows "exp_total real_ops p M g = sum (exp_score real_ops p M g) {..<context_len p g}"
  using sum_loops [OF params_okD(9) [OF assms]]
  by (simp add: exp_total_def combined_sum [OF assms] foldl_sum_list)

lemma attention_value_real:
  assumes "params_ok p" "0 < context_len p g" "context_len p g \<le> ap_max_seq_len p"
  shows "attention_value real_ops p M g d =
    (\<Sum>j<context_len p g. exp_score real_ops p M g j * inv_total real_ops p M g * token_value p M g d j)"
proof -
  note P = params_okD [OF assms(1)]
  let ?n = "context_len p g" and ?B = "ap_block_size p" and ?nb = "num_context_blocks p g"
  let ?f = "\<lambda>j. exp_score real_ops p M g j * inv_total real_ops p M g * token_value p M g d j"
  let ?h = "\<lambda>j. if j < ?n then ?f j else 0"
  have block: "block_value real_ops p M g d b = (\<Sum>t<?B. ?h (b * ?B + t))" for b
  proof -
    let ?e = "\<lambda>t. exp_score real_ops p M g (b * ?B + t) * inv_total real_ops p M g * M (v_loc p g b t d)"
    have "block_value real_ops p M g d b = sum ?e {t. t < ?B \<and> b * ?B + t < ?n}"
      by (simp add: block_value_def foldl_sum_list sum_list_filter_upt)
    also have "\<dots> = (\<Sum>t<?B. if b * ?B + t < ?n then ?e t else 0)"
      by (subst sum.inter_filter [symmetric]) (auto intro: sum.cong)
    also have "\<dots> = (\<Sum>t<?B. ?h (b * ?B + t))"
      by (rule sum.cong) (simp_all add: token_value_def)
    finally show ?thesis .
  qed
  have cover: "?n \<le> ?nb * ?B"
  proof -
    have "?n + ?B - 1 < Suc ?nb * ?B"
      unfolding num_context_blocks_def using P(7) dividend_less_div_times [of ?B "?n + ?B - 1"] by simp
    then show ?thesis using P(7) by simp
  qed
  have "attention_value real_ops p M g d =
      (\<Sum>w<num_warps p. sum_list (map (block_value real_ops p M g d) (loop w ?nb (num_warps p))))"
    using assms(2,3) sum_list_filter_upt [of _ "\<lambda>_. True"]
    by (simp add: attention_value_def foldl_sum_list lessThan_def)
  also have "\<dots> = (\<Sum>b<?nb. \<Sum>t<?B. ?h (b * ?B + t))" by (simp add: sum_loops [OF P(3)] block)
  also have "\<dots> = sum ?h {..<?nb * ?B}" by (rule sum_blocks)
  also have "\<dots> = sum ?f {..<?n}"
    by (rule sum.mono_neutral_cong_right) (use cover in auto)
  finally show ?thesis .
qed

text \<open>
  With the scores above the least number, the result is the softmax attention times \<open>S / (S + eps)\<close>
  where \<open>S\<close>, the sum of the exponentials relative to the greatest score, is at least 1.
\<close>

lemma attention_softmax:
  assumes "params_ok p" "ap_softcapping p = 1" "0 < context_len p g" "context_len p g \<le> ap_max_seq_len p"
    and "\<And>j. j < context_len p g \<Longrightarrow> - flt_max < attention_score p M g j"
  shows "\<exists>S \<ge> 1. attention_value real_ops p M g d = softmax_attention p M g d * (S / (S + 1 / 10 ^ 6))"
proof -
  let ?s = "attention_score p M g" and ?n = "context_len p g"
  define mx where "mx = max_score real_ops p M g"
  have mx: "mx = Max (?s ` {..<?n})" unfolding mx_def by (rule max_score_real [OF assms(1-3,5)])
  define S where "S = (\<Sum>j<?n. exp (?s j - mx))"
  have e: "exp_score real_ops p M g j = exp (?s j - mx)" if "j < ?n" for j
    unfolding mx_def by (rule exp_score_real [OF assms(2) assms(5) [OF that]])
  have "mx \<in> ?s ` {..<?n}" unfolding mx by (rule Max_in) (use assms(3) in auto)
  then obtain i where i: "i < ?n" "?s i = mx" by auto
  have "exp (?s i - mx) \<le> S"
    unfolding S_def by (rule member_le_sum) (use i(1) in auto)
  then have S1: "1 \<le> S" using i(2) by simp
  have total: "exp_total real_ops p M g = S"
    unfolding exp_total_real [OF assms(1)] S_def by (rule sum.cong) (simp_all add: e)
  have shift: "exp (?s j - mx) = exp (?s j) / exp mx" for j by (rule exp_diff)
  let ?N = "\<Sum>j<?n. exp (?s j) * token_value p M g d j" and ?D = "\<Sum>j<?n. exp (?s j)"
  have S: "S = ?D / exp mx" unfolding S_def shift by (simp add: sum_divide_distrib)
  have "attention_value real_ops p M g d =
      (\<Sum>j<?n. exp (?s j - mx) * (1 / (S + 1 / 10 ^ 6)) * token_value p M g d j)"
    unfolding attention_value_real [OF assms(1,3,4)]
    by (rule sum.cong) (simp_all add: e inv_total_def total)
  also have "\<dots> = (\<Sum>j<?n. exp (?s j) * token_value p M g d j / (exp mx * (S + 1 / 10 ^ 6)))"
    unfolding shift by (rule sum.cong) simp_all
  also have "\<dots> = ?N / (exp mx * (S + 1 / 10 ^ 6))" by (simp add: sum_divide_distrib)
  also have "\<dots> = ?N / ?D * (S / (S + 1 / 10 ^ 6))"
  proof -
    have "?D = S * exp mx" using S by simp
    then show ?thesis using S1 by simp
  qed
  finally show ?thesis using S1 unfolding softmax_attention_def softmax_mean_def by blast
qed

lemma softmax_close:
  fixes A x S :: real
  assumes "x = A * (S / (S + 1 / 10 ^ 6))" "1 \<le> S"
  shows "\<bar>x - A\<bar> \<le> \<bar>A\<bar> / 10 ^ 6"
proof -
  have pos: "0 < S + 1 / 10 ^ 6" using assms(2) by (smt (verit) divide_pos_pos zero_less_power)
  let ?c = "(1 / 10 ^ 6) / (S + 1 / 10 ^ 6)"
  have c: "S / (S + 1 / 10 ^ 6) - 1 = - ?c" using pos by (simp add: field_simps)
  have "x - A = A * (S / (S + 1 / 10 ^ 6) - 1)" unfolding assms(1) right_diff_distrib by simp
  then have "\<bar>x - A\<bar> = \<bar>A\<bar> * \<bar>?c\<bar>" unfolding c by (simp only: abs_mult abs_minus_cancel)
  also have "\<dots> = \<bar>A\<bar> * ?c" using pos by (simp only: abs_of_pos divide_pos_pos zero_less_one zero_less_power)
  also have "\<dots> \<le> \<bar>A\<bar> * (1 / 10 ^ 6)"
    using assms(2) pos by (intro mult_left_mono) (simp_all add: field_simps)
  finally show ?thesis by simp
qed

end
