(* ===== verification/Attention_Host.thy ===== *)
theory Attention_Host
  imports Attention_Real
begin

text \<open>
  \<open>mlx_paged_attention.cpp\<close>: the host function \<open>paged_attention_v1\<close>, which checks the shapes and
  describes a call of the kernel, and its evaluation on the device.
\<close>

section \<open>The host function\<close>

fun attention_dtype_str :: "dtype \<Rightarrow> py_exn + string" where
  "attention_dtype_str Float32 = Inr ''float''"
| "attention_dtype_str Float16 = Inr ''half''"
| "attention_dtype_str Bfloat16 = Inr ''bfloat16_t''"
| "attention_dtype_str _ = Inl ValueError"

definition is_valid_config :: "int \<Rightarrow> int \<Rightarrow> bool" where
  "is_valid_config head_size block_size \<longleftrightarrow>
     head_size \<in> set [32, 64, 80, 96, 112, 120, 128, 192, 256] \<and> block_size \<in> set [8, 16, 32]"

text \<open>
  The call: the inputs, the fields of \<open>PagedAttentionV1\<close>, and the parts of the kernel's name (types,
  head size, block size, threads, lanes).
\<close>

record 'f attention_call =
  at_query :: darray
  at_key_cache :: darray
  at_value_cache :: darray
  at_block_tables :: iarray
  at_context_lens :: iarray
  at_alibi_slopes :: "darray option"
  at_num_kv_heads :: int
  at_scale :: 'f
  at_block_size :: int
  at_max_seq_len :: int
  at_use_alibi :: bool
  at_kernel :: "string \<times> string \<times> int \<times> int \<times> int \<times> int"
  at_smem :: int

definition attention_smem :: "int \<Rightarrow> int \<Rightarrow> int" where
  "attention_smem max_seq_len head_size =
     (i32 (max_seq_len + 128 + (256 div 32) * head_size) mod 2 ^ 64 * 4) mod 2 ^ 64"

definition paged_attention_host ::
  "int \<Rightarrow> darray \<Rightarrow> darray \<Rightarrow> darray \<Rightarrow> iarray \<Rightarrow> iarray \<Rightarrow> int \<Rightarrow> 'f \<Rightarrow> int \<Rightarrow> int \<Rightarrow> darray option \<Rightarrow>
     py_exn + 'f attention_call" where
  "paged_attention_host max_smem query key_cache value_cache block_tables context_lens num_kv_heads scale
       block_size max_seq_len alibi_slopes =
     (let qs = da_shape query; ks = da_shape key_cache; vs = da_shape value_cache;
          bs = ia_shape block_tables; cs = ia_shape context_lens
      in
      if length qs \<noteq> 3 then Inl ValueError
      else if length ks \<noteq> 5 \<or> length vs \<noteq> 4 then Inl ValueError
      else if length bs \<noteq> 2 \<or> length cs \<noteq> 1 then Inl ValueError
      else if qs ! 0 \<noteq> bs ! 0 \<or> qs ! 0 \<noteq> cs ! 0 then Inl ValueError
      else if num_kv_heads \<le> 0 \<or> int (qs ! 1) mod num_kv_heads \<noteq> 0 then Inl ValueError
      else if int (ks ! 1) \<noteq> num_kv_heads \<or> int (vs ! 1) \<noteq> num_kv_heads then Inl ValueError
      else if i32 (int (ks ! 2) * int (ks ! 4)) \<noteq> int (qs ! 2) \<or> vs ! 2 \<noteq> qs ! 2 then Inl ValueError
      else if ks ! 0 \<noteq> vs ! 0 \<or> int (ks ! 3) \<noteq> block_size \<or> int (vs ! 3) \<noteq> block_size
      then Inl ValueError
      else if (case alibi_slopes of None \<Rightarrow> False
        | Some a \<Rightarrow> length (da_shape a) \<noteq> 1 \<or> da_shape a ! 0 \<noteq> qs ! 1) then Inl ValueError
      else if max_seq_len \<le> 0 then Inl ValueError
      else if max_seq_len > i32 (int (bs ! 1) * block_size) then Inl ValueError
      else if \<not> is_valid_config (int (qs ! 2)) block_size then Inl ValueError
      else if attention_smem max_seq_len (int (qs ! 2)) > max_smem then Inl ValueError
      else
        case attention_dtype_str (da_dtype query) of
          Inl e \<Rightarrow> Inl e
        | Inr qt \<Rightarrow>
            (case attention_dtype_str (da_dtype key_cache) of
               Inl e \<Rightarrow> Inl e
             | Inr ct \<Rightarrow>
                 Inr \<lparr>at_query = query, at_key_cache = key_cache, at_value_cache = value_cache,
                      at_block_tables = block_tables, at_context_lens = context_lens,
                      at_alibi_slopes = alibi_slopes, at_num_kv_heads = num_kv_heads, at_scale = scale,
                      at_block_size = block_size, at_max_seq_len = max_seq_len,
                      at_use_alibi = (alibi_slopes \<noteq> None),
                      at_kernel = (qt, ct, int (qs ! 2), block_size, 256, 32),
                      at_smem = attention_smem max_seq_len (int (qs ! 2))\<rparr>))"

text \<open>\<open>16 / sizeof(CACHE_T)\<close>.\<close>

fun cache_x :: "dtype \<Rightarrow> nat" where
  "cache_x Float32 = 4"
| "cache_x Float16 = 8"
| "cache_x Bfloat16 = 8"
| "cache_x Uint8 = 16"
| "cache_x (Other_dtype _) = 0"

text \<open>
  \<open>eval_gpu\<close>: the arguments of the kernel. The result goes to the new buffer \<open>out\<close>; the soft cap is
  one. The template parameters are those in the name of the kernel. The index arrays are passed as
  they are, whatever the width of their entries: the kernel reads the 32-bit words of their buffers.
\<close>

definition attention_eval_gpu :: "'e \<Rightarrow> nat \<Rightarrow> 'e attention_call \<Rightarrow> 'e attention_params" where
  "attention_eval_gpu one out c =
     (case at_kernel c of (qt, ct, head_size, block_size, nt, nsl) \<Rightarrow>
        \<lparr>ap_head_size = nat head_size, ap_block_size = nat block_size, ap_threads = nat nt, ap_lanes = nat nsl,
         ap_x = cache_x (da_dtype (at_key_cache c)),
         ap_num_heads = da_shape (at_query c) ! 1, ap_num_seqs = da_shape (at_query c) ! 0,
         ap_out = out, ap_q = da_buffer (at_query c), ap_k_cache = da_buffer (at_key_cache c),
         ap_v_cache = da_buffer (at_value_cache c), ap_num_kv_heads = nat (at_num_kv_heads c),
         ap_scale = at_scale c, ap_softcapping = one, ap_block_tables = index_words (at_block_tables c),
         ap_context_lens = index_words (at_context_lens c), ap_max_num_blocks = ia_shape (at_block_tables c) ! 1,
         ap_alibi_slopes = (if at_use_alibi c then map_option da_buffer (at_alibi_slopes c) else None),
         ap_q_stride = i32 (da_strides (at_query c) ! 0),
         ap_kv_block_stride = i32 (da_strides (at_key_cache c) ! 0),
         ap_kv_head_stride = i32 (da_strides (at_key_cache c) ! 1),
         ap_max_seq_len = nat (at_max_seq_len c)\<rparr>)"

text \<open>The types for which the library instantiates the kernel.\<close>

definition attention_kernels :: "(string \<times> string) list" where
  "attention_kernels = [(''float'', ''float''), (''bfloat16_t'', ''bfloat16_t''), (''half'', ''half''),
     (''float'', ''half''), (''float'', ''bfloat16_t'')]"

text \<open>
  An evaluation of the call with the result in \<open>out\<close> can turn the memory \<open>m\<close> of the device into
  \<open>m'\<close>, from some contents of the registers and of the shared memory.
\<close>

definition attention_evaluates ::
  "'e float_ops \<Rightarrow> nat \<Rightarrow> 'e attention_call \<Rightarrow> (nat \<times> int \<Rightarrow> 'e) \<Rightarrow> (nat \<times> int \<Rightarrow> 'e) \<Rightarrow> bool" where
  "attention_evaluates F out c m m' \<longleftrightarrow>
     (fst (at_kernel c), fst (snd (at_kernel c))) \<in> set attention_kernels \<and>
     (\<exists>n n'. runs_to (attention_grid F (attention_eval_gpu (fl_one F) out c)) n n' \<and>
        m = n \<circ> Device \<and> m' = n' \<circ> Device)"

section \<open>Calls that pass the checks\<close>

lemma paged_attention_hostD:
  assumes "paged_attention_host max_smem q kc vc bt cl nkv scale bs msl slopes = Inr call"
  shows "length (da_shape q) = 3" "is_valid_config (int (da_shape q ! 2)) bs" "0 < msl" "0 < nkv"
    "int (da_shape q ! 1) mod nkv = 0" "attention_smem msl (int (da_shape q ! 2)) \<le> max_smem"
    "at_query call = q" "at_key_cache call = kc" "at_value_cache call = vc" "at_block_tables call = bt"
    "at_context_lens call = cl" "at_alibi_slopes call = slopes" "at_num_kv_heads call = nkv"
    "at_scale call = scale" "at_max_seq_len call = msl" "at_use_alibi call = (slopes \<noteq> None)"
    "\<exists>qt ct. at_kernel call = (qt, ct, int (da_shape q ! 2), bs, 256, 32) \<and>
       attention_dtype_str (da_dtype q) = Inr qt \<and> attention_dtype_str (da_dtype kc) = Inr ct"
    "ia_shape bt = [da_shape q ! 0, ia_shape bt ! 1]" "ia_shape cl = [da_shape q ! 0]"
    "msl \<le> i32 (int (ia_shape bt ! 1) * bs)" "at_smem call = attention_smem msl (int (da_shape q ! 2))"
  using assms unfolding paged_attention_host_def Let_def by (auto split: if_splits sum.splits simp: length_Suc_conv numeral_2_eq_2)

text \<open>
  An index array of 32-bit entries, as the attention kernel needs it, and what it reads there.
\<close>

definition int32_array :: "iarray \<Rightarrow> bool" where
  "int32_array a \<longleftrightarrow> ia_width a = 4 \<and> length (ia_data a) = prod_list (ia_shape a)"

lemma index_words_nth: "int32_array a \<Longrightarrow> n < prod_list (ia_shape a) \<Longrightarrow> index_words a ! n = ia_data a ! n mod 2 ^ 32"
  by (simp add: int32_array_def index_words_32)

text \<open>A position below \<open>max_seq_len\<close> is in a block that the table of its sequence has.\<close>

lemma table_index:
  assumes "paged_attention_host max_smem q kc vc bt cl nkv scale (int B) msl slopes = Inr call"
    and "s < da_shape q ! 0" "j < nat msl" "0 < B"
  shows "s * (ia_shape bt ! 1) + j div B < prod_list (ia_shape bt)"
proof -
  note h = paged_attention_hostD [OF assms(1)]
  let ?mb = "ia_shape bt ! 1"
  have "i32 (int ?mb * int B) \<le> int ?mb * int B"
    unfolding i32_def signed_take_bit_int_less_eq_self_iff by (rule order.trans [of _ 0]) simp_all
  then have "int j < int (?mb * B)" using h(20) assms(3) by simp
  then have "j < ?mb * B" by (simp only: of_nat_less_iff)
  then have "j div B < ?mb" by (rule less_mult_imp_div_less)
  then have "s * ?mb + j div B < Suc s * ?mb" by simp
  also have "\<dots> \<le> (da_shape q ! 0) * ?mb" using assms(2) by (intro mult_right_mono) simp_all
  also have "\<dots> = prod_list (ia_shape bt)" by (subst h(18)) simp
  finally show ?thesis .
qed

text \<open>The loops of the kernel stay below the bounds of 32-bit integers.\<close>

lemma i32_wrap:
  assumes "2 ^ 31 \<le> k" "k < 2 ^ 32 + 2 ^ 31"
  shows "i32 k = k - 2 ^ 32"
proof -
  have "take_bit (Suc 31) (k - 2 ^ 32) = take_bit (Suc 31) k"
    unfolding take_bit_eq_mod using minus_mod_self2 [of k "2 ^ 32"] by simp
  then have "signed_take_bit 31 k = signed_take_bit 31 (k - 2 ^ 32)"
    unfolding signed_take_bit_eq_iff_take_bit_eq ..
  also have "\<dots> = k - 2 ^ 32" by (rule signed_take_bit_int_eq_self) (use assms in simp_all)
  finally show ?thesis unfolding i32_def .
qed

lemma attention_loops_bounded:
  assumes "attention_smem msl hs \<le> max_smem" "max_smem < 2 ^ 31" "0 < msl" "msl < 2 ^ 31" "0 < hs" "hs \<le> 256"
  shows "msl + 256 \<le> 2 ^ 31" "8 * hs + 256 \<le> 2 ^ 31"
proof -
  show "8 * hs + 256 \<le> 2 ^ 31" using assms(6) by simp
  let ?k = "msl + 128 + 8 * hs"
  show "msl + 256 \<le> 2 ^ 31"
  proof (cases "?k < 2 ^ 31")
    case True
    then have "attention_smem msl hs = ?k * 4"
      using assms(3,5) by (simp add: attention_smem_def i32_id)
    then show ?thesis using assms(1,2,3,5) by simp
  next
    case False
    have "i32 ?k = ?k - 2 ^ 32" by (rule i32_wrap) (use False assms(4,6) in simp_all)
    then have "attention_smem msl hs = ((?k - 2 ^ 32) mod 2 ^ 64 * 4) mod 2 ^ 64"
      by (simp add: attention_smem_def)
    also have "\<dots> = ((?k - 2 ^ 32) * 4) mod 2 ^ 64" by (simp add: mod_mult_left_eq)
    also have "\<dots> = ((?k - 2 ^ 32) * 4 + 2 ^ 64) mod 2 ^ 64" by (rule mod_add_self2 [symmetric])
    also have "\<dots> = (?k - 2 ^ 32) * 4 + 2 ^ 64"
      by (rule mod_pos_pos_trivial) (use False assms(4,6) in simp_all)
    finally show ?thesis using assms(1,2) False by simp
  qed
qed

lemma lane_bits_32: "length (masks (32 div 2)) = 5"
  using masks_power [of 5] by simp

lemma attention_params_ok:
  assumes "paged_attention_host max_smem q kc vc bt cl nkv scale bs msl slopes = Inr call"
    and "out \<notin> {da_buffer q, da_buffer kc, da_buffer vc} \<union> da_buffer ` set_option slopes"
    and "prod_list (da_shape q) < 2 ^ 63"
  shows "params_ok (attention_eval_gpu one out call)"
proof -
  note h = paged_attention_hostD [OF assms(1)]
  obtain qt ct where k: "at_kernel call = (qt, ct, int (da_shape q ! 2), bs, 256, 32)" using h(17) by blast
  obtain S H D where q: "da_shape q = [S, H, D]" using h(1) by (auto simp: length_Suc_conv numeral_3_eq_3)
  have "0 < int D" "0 < bs" using h(2) by (auto simp: q is_valid_config_def)
  then show ?thesis
    using assms(2,3) lane_bits_32 unfolding params_ok_def
    by (auto simp: attention_eval_gpu_def k h(7-16) q lane_bits_def num_warps_def ac_simps)
qed

section \<open>What an evaluation computes\<close>

text \<open>The memory of the device as a memory of the kernel.\<close>

definition on_device :: "'e \<Rightarrow> (nat \<times> int \<Rightarrow> 'e) \<Rightarrow> aloc \<Rightarrow> 'e" where
  "on_device z m x = (case x of Device a \<Rightarrow> m a | _ \<Rightarrow> z)"

lemma on_device_simps [simp]: "on_device z m (Device a) = m a"
  by (simp add: on_device_def)

lemma attention_value_cong:
  assumes "same_device m m'"
  shows "attention_value F p m g d = attention_value F p m' g d"
proof -
  have s: "score F p m g j = score F p m' g j" for j by (rule score_cong [OF assms])
  then have x: "max_score F p m g = max_score F p m' g" by (simp add: max_score_def)
  then have e: "exp_score F p m g j = exp_score F p m' g j" for j by (simp add: exp_score_def s)
  then have t: "inv_total F p m g = inv_total F p m' g" by (simp add: inv_total_def exp_total_def)
  have "block_value F p m g d b = block_value F p m' g d b" for b
    by (simp add: block_value_def e t same_device_locs(3) [OF assms])
  then show ?thesis by (simp add: attention_value_def)
qed

text \<open>The place of an entry of the result, in a new array in row order.\<close>

definition out_index :: "nat \<Rightarrow> nat \<Rightarrow> nat \<Rightarrow> nat \<Rightarrow> nat \<Rightarrow> int" where
  "out_index H D s h d = int ((s * H + h) * D + d)"

definition head_group :: "nat \<Rightarrow> nat \<Rightarrow> nat \<Rightarrow> nat" where
  "head_group H s h = s * H + h"

lemma head_group_less: "s < S \<Longrightarrow> h < H \<Longrightarrow> head_group H s h < H * S"
proof -
  assume s: "s < S" and h: "h < H"
  have "head_group H s h < Suc s * H" using h by (simp add: head_group_def)
  also have "\<dots> \<le> S * H" using s by (intro mult_right_mono) simp_all
  finally show "head_group H s h < H * S" by (simp add: mult.commute)
qed

lemma attention_evaluates_value:
  assumes "paged_attention_host max_smem q kc vc bt cl nkv scale bs msl slopes = Inr call"
    and "out \<notin> {da_buffer q, da_buffer kc, da_buffer vc} \<union> da_buffer ` set_option slopes"
    and "da_shape q = [S, H, D]" "S * H * D < 2 ^ 63"
    and "(fst (at_kernel call), fst (snd (at_kernel call))) \<in> set attention_kernels"
  shows "\<exists>m'. attention_evaluates F out call m m'"
    and "attention_evaluates F out call m m' \<Longrightarrow> s < S \<Longrightarrow> h < H \<Longrightarrow> d < D \<Longrightarrow>
      m' (out, out_index H D s h d) =
        attention_value F (attention_eval_gpu (fl_one F) out call) (on_device z m) (head_group H s h) d"
    and "attention_evaluates F out call m m' \<Longrightarrow> fst a \<noteq> out \<Longrightarrow> m' a = m a"
proof -
  let ?p = "attention_eval_gpu (fl_one F) out call"
  note h = paged_attention_hostD [OF assms(1)]
  obtain qt ct where k: "at_kernel call = (qt, ct, int (da_shape q ! 2), bs, 256, 32)" using h(17) by blast
  have p: "params_ok ?p"
    by (rule attention_params_ok [OF assms(1,2)]) (use assms(3,4) in \<open>simp add: mult.assoc\<close>)
  have dims: "ap_num_heads ?p = H" "ap_num_seqs ?p = S" "ap_head_size ?p = D" "ap_out ?p = out"
    by (simp_all add: attention_eval_gpu_def k h(7) assms(3))
  note runs = attention_grid_runs [OF p, where F = F]
  obtain n' where "runs_to (attention_grid F ?p) (on_device (fl_zero F) m) n'" using runs(1) by blast
  then show "\<exists>m'. attention_evaluates F out call m m'"
    unfolding attention_evaluates_def using assms(5)
    by (intro exI [of _ "n' \<circ> Device"] conjI exI [of _ n'] exI [of _ "on_device (fl_zero F) m"])
      (auto simp: comp_def)
  show "m' (out, out_index H D s h d) = attention_value F ?p (on_device z m) (head_group H s h) d"
    if ev: "attention_evaluates F out call m m'" and i: "s < S" "h < H" "d < D" for s h d
  proof -
    obtain n n' where n: "runs_to (attention_grid F ?p) n n'" "m = n \<circ> Device" "m' = n' \<circ> Device"
      using ev unfolding attention_evaluates_def by blast
    have g: "head_group H s h < ap_num_heads ?p * ap_num_seqs ?p" using head_group_less [OF i(1,2)] by (simp add: dims)
    have d: "d < ap_head_size ?p" using i(3) by (simp add: dims)
    have "out_loc ?p (head_group H s h) d = Device (out, out_index H D s h d)"
      unfolding out_address [OF p g d] by (simp only: dims out_index_def head_group_def)
    then have "m' (out, out_index H D s h d) = attention_value F ?p n (head_group H s h) d"
      using runs(2) [OF n(1) g d] n(3) by simp
    also have "\<dots> = attention_value F ?p (on_device z m) (head_group H s h) d"
      by (rule attention_value_cong) (simp add: same_device_def n(2))
    finally show ?thesis .
  qed
  show "m' a = m a" if ev: "attention_evaluates F out call m m'" and a: "fst a \<noteq> out"
    using ev runs(3) [of _ _ a] a unfolding attention_evaluates_def by (auto simp: dims)
qed

end
