(* ===== verification/Metal_Kernels.thy ===== *)
theory Metal_Kernels
  imports Attention_Host
begin

text \<open>
  \<open>metal_kernels.py\<close>: four functions that pass their arguments on to the compiled extension, here
  to the host functions of Block_Kernels and Attention_Host; and what the three operations that
  move data do to the memory of the device.
\<close>

section \<open>The functions of the module\<close>

text \<open>The first argument is the shared memory of the device.\<close>

definition paged_attention_v1 ::
  "int \<Rightarrow> darray \<Rightarrow> darray \<Rightarrow> darray \<Rightarrow> iarray \<Rightarrow> iarray \<Rightarrow> int \<Rightarrow> 'f \<Rightarrow> int \<Rightarrow> int \<Rightarrow> darray option \<Rightarrow>
     py_exn + 'f attention_call" where
  "paged_attention_v1 max_smem query key_cache value_cache block_tables context_lens num_kv_heads scale
       block_size max_seq_len alibi_slopes =
     paged_attention_host max_smem query key_cache value_cache block_tables context_lens num_kv_heads scale
       block_size max_seq_len alibi_slopes"

definition reshape_and_cache ::
  "darray \<Rightarrow> darray \<Rightarrow> darray \<Rightarrow> darray \<Rightarrow> iarray \<Rightarrow> py_exn + ((darray \<times> darray) \<times> kernel_call)" where
  "reshape_and_cache key val key_cache value_cache slot_mapping =
     reshape_and_cache_host key val key_cache value_cache slot_mapping"

text \<open>The pair of the lists of new arrays, with the call of each layer.\<close>

definition copy_blocks ::
  "darray list \<Rightarrow> darray list \<Rightarrow> iarray \<Rightarrow> py_exn + ((darray list \<times> darray list) \<times> kernel_call list)" where
  "copy_blocks key_caches value_caches block_mapping =
     (case copy_blocks_host key_caches value_caches block_mapping of
        Inl e \<Rightarrow> Inl e
      | Inr outs \<Rightarrow> Inr ((map (fst \<circ> fst) outs, map (snd \<circ> fst) outs), map snd outs))"

definition swap_blocks :: "darray \<Rightarrow> darray \<Rightarrow> iarray \<Rightarrow> py_exn + (darray \<times> kernel_call)" where
  "swap_blocks src dst block_mapping = swap_blocks_host src dst block_mapping"

section \<open>Copying blocks\<close>

lemma evaluates_launch:
  assumes "kc_threads call = Some mss" "kc_name call \<in> set cache_kernels"
  shows "\<exists>m'. evaluates conv call m m'" "evaluates conv call m m' \<longleftrightarrow> launch conv mss m m'"
  using assms launch_ends by (simp_all add: evaluates_def)

text \<open>\<open>k\<close> pairs, between a cache of the shape \<open>sb # sh\<close> and one with \<open>db\<close> blocks of the same size.\<close>

definition same_blocks :: "darray \<Rightarrow> darray \<Rightarrow> nat \<Rightarrow> nat \<Rightarrow> nat \<Rightarrow> bool" where
  "same_blocks src dst sb db n \<longleftrightarrow>
     da_shape src \<noteq> [] \<and> hd (da_shape src) = sb \<and> prod_list (tl (da_shape src)) = n \<and>
     da_shape dst \<noteq> [] \<and> hd (da_shape dst) = db \<and> prod_list (tl (da_shape dst)) = n \<and>
     da_dtype src = da_dtype dst \<and> da_dtype src \<in> {Float32, Float16, Bfloat16, Uint8} \<and>
     sizes_ok sb n \<and> sizes_ok db n"

lemma same_blocksD:
  assumes "same_blocks src dst sb db n"
  shows "da_shape src \<noteq> []" "da_shape dst \<noteq> []" "hd (da_shape src) = sb" "hd (da_shape dst) = db"
    "da_size src div sb = n" "da_size dst div db = n" "block_numel src = int n"
    "da_dtype dst = da_dtype src" "sizes_ok sb n" "sizes_ok db n" "sb \<noteq> 0" "db \<noteq> 0"
proof -
  obtain sh where sh: "da_shape src = sb # sh" "prod_list sh = n"
    using assms by (cases "da_shape src") (auto simp: same_blocks_def)
  obtain sh' where sh': "da_shape dst = db # sh'" "prod_list sh' = n"
    using assms by (cases "da_shape dst") (auto simp: same_blocks_def)
  show sz: "sizes_ok sb n" "sizes_ok db n" "da_dtype dst = da_dtype src"
    using assms by (simp_all add: same_blocks_def)
  then show "sb \<noteq> 0" "db \<noteq> 0" by (simp_all add: sizes_ok_def)
  show "da_shape src \<noteq> []" "da_shape dst \<noteq> []" "hd (da_shape src) = sb" "hd (da_shape dst) = db"
    using sh sh' by simp_all
  show "da_size src div sb = n" "da_size dst div db = n" "block_numel src = int n"
    using block_numel_id [OF sh(1)] block_numel_id(1) [OF sh'(1)] sz sh sh' by simp_all
qed

lemma same_blocks_dtype:
  assumes "same_blocks src dst sb db n"
  obtains d where "dtype_str (da_dtype src) = Inr d" "''swap_blocks_'' @ d \<in> set cache_kernels"
    "''copy_blocks_'' @ d \<in> set cache_kernels"
  using assms that unfolding same_blocks_def cache_kernels_def by auto

text \<open>
  C26. \<open>swap_blocks\<close> between two buffers: the launch always ends, whatever the order in which the
  threads run, and then every target block holds what its source block held and nothing else has
  changed. The result is the array \<open>dst\<close> itself.
\<close>

theorem swap_blocks_copies:
  assumes "same_blocks src dst sb db n" "pairs_ok bm k sb db" "da_buffer src \<noteq> da_buffer dst"
  shows "\<exists>call. swap_blocks src dst bm = Inr (dst, call) \<and>
    (\<forall>m :: nat \<times> int \<Rightarrow> 'e. \<exists>m'. evaluates (\<lambda>x. x) call m m') \<and>
    (\<forall>m m' :: nat \<times> int \<Rightarrow> 'e. evaluates (\<lambda>x. x) call m m' \<longrightarrow>
       blocks_copied {(da_buffer dst, da_buffer src)} bm k n m m')"
proof -
  note s = same_blocksD [OF assms(1)]
  obtain d where d: "dtype_str (da_dtype src) = Inr d" "''swap_blocks_'' @ d \<in> set cache_kernels"
    by (rule same_blocks_dtype [OF assms(1)])
  obtain mss where mss: "grid (int k) (group_size (int n)) (swap_blocks_thread (da_buffer src)
      (da_buffer dst) (map i64 (ia_data bm)) (int n) (group_size (int n))) = Some mss"
    "set (concat mss) = block_moves {(da_buffer dst, da_buffer src)} bm k n"
    using swap_grid [OF assms(2) s(9,10)] by blast
  let ?call = "\<lparr>kc_name = ''swap_blocks_'' @ d, kc_threads = Some mss\<rparr>"
  have "race_free (concat mss)"
    by (rule block_race_free [OF mss(2) assms(2)]) (use assms(3) in auto)
  note copied = block_launch [OF mss(2) this]
  have call: "kc_threads ?call = Some mss" "kc_name ?call \<in> set cache_kernels" using d(2) by simp_all
  show ?thesis
  proof (intro exI [of _ ?call] conjI allI impI)
    show "swap_blocks src dst bm = Inr (dst, ?call)"
      using s d(1) pairs_okD(1) [OF assms(2)] mss(1)
      by (simp add: swap_blocks_def swap_blocks_host_def Let_def)
    show "\<exists>m'. evaluates (\<lambda>x. x) ?call m m'" for m :: "nat \<times> int \<Rightarrow> 'e"
      by (rule evaluates_launch(1) [OF call])
    show "blocks_copied {(da_buffer dst, da_buffer src)} bm k n m m'" if "evaluates (\<lambda>x. x) ?call m m'"
      for m m' :: "nat \<times> int \<Rightarrow> 'e"
      using copied that unfolding evaluates_launch(2) [OF call] by blast
  qed
qed

text \<open>Two caches of two blocks with two entries.\<close>

definition demo_cache_array :: "nat \<Rightarrow> darray" where
  "demo_cache_array b =
     \<lparr>da_buffer = b, da_shape = [2, 2], da_strides = [2, 1], da_dtype = Float16\<rparr>"

definition demo_mapping :: iarray where
  "demo_mapping = \<lparr>ia_shape = [1, 2], ia_data = [0, 1], ia_width = 4\<rparr>"

lemma demo_copy:
  "same_blocks (demo_cache_array b) (demo_cache_array c) 2 2 2" "pairs_ok demo_mapping 1 2 2"
  "pair_dst demo_mapping 0 = 1" "pair_src demo_mapping 0 = 0"
proof -
  have "{0..<1 :: int} = {0}" by auto
  then show "pairs_ok demo_mapping 1 2 2"
    by (simp add: pairs_ok_def demo_mapping_def pair_src_def pair_dst_def)
qed (simp_all add: same_blocks_def demo_cache_array_def sizes_ok_def demo_mapping_def pair_src_def pair_dst_def)

theorem swap_blocks_copies_witness:
  "\<exists>call m'. swap_blocks (demo_cache_array 0) (demo_cache_array 1) demo_mapping =
      Inr (demo_cache_array 1, call) \<and>
    evaluates (\<lambda>x. x) call (\<lambda>(b, i). int b + 10 * i) m' \<and> m' (1, 3) = 10"
proof -
  have "da_buffer (demo_cache_array 0) \<noteq> da_buffer (demo_cache_array 1)" by (simp add: demo_cache_array_def)
  from swap_blocks_copies [OF demo_copy(1,2) this] obtain call where
    c: "swap_blocks (demo_cache_array 0) (demo_cache_array 1) demo_mapping = Inr (demo_cache_array 1, call)"
    "\<And>m :: nat \<times> int \<Rightarrow> int. \<exists>m'. evaluates (\<lambda>x. x) call m m'"
    "\<And>m m' :: nat \<times> int \<Rightarrow> int. evaluates (\<lambda>x. x) call m m' \<Longrightarrow>
       blocks_copied {(da_buffer (demo_cache_array 1), da_buffer (demo_cache_array 0))} demo_mapping 1 2 m m'"
    by blast
  obtain m' where m': "evaluates (\<lambda>x. x) call (\<lambda>(b, i). int b + 10 * i) m'" using c(2) by blast
  have "m' (1, pair_dst demo_mapping 0 * int 2 + 1) =
      (\<lambda>(b, i). int b + 10 * i) (0, pair_src demo_mapping 0 * int 2 + 1)"
    using c(3) [OF m'] unfolding blocks_copied_def by (auto simp: demo_cache_array_def)
  then have "m' (1, 3) = 10" by (simp add: demo_copy(3,4))
  with c(1) m' show ?thesis by blast
qed

lemma copy_layers_ok:
  assumes "\<forall>(kc, vc) \<in> set layers. \<exists>nb n. same_blocks kc vc nb nb n \<and> pairs_ok bm k nb nb"
    and apart: "\<forall>g \<in> {0..<int k}. \<forall>h \<in> {0..<int k}. pair_dst bm g \<noteq> pair_src bm h" and k: "k \<le> 2 ^ 30"
  shows "\<exists>outs. copy_layers (int k) (map i64 (ia_data bm)) layers = Inr outs \<and> map fst outs = layers \<and>
    (\<forall>((kc, vc), call) \<in> set outs. kc_name call \<in> set cache_kernels \<and>
       (\<exists>mss n. kc_threads call = Some mss \<and> n = prod_list (tl (da_shape kc)) \<and> race_free (concat mss) \<and>
          set (concat mss) = block_moves {(da_buffer kc, da_buffer kc), (da_buffer vc, da_buffer vc)} bm k n))"
  using assms(1)
proof (induction layers)
  case (Cons l layers)
  obtain kc vc where l: "l = (kc, vc)" by (cases l)
  from Cons.prems obtain nb n where b: "same_blocks kc vc nb nb n" "pairs_ok bm k nb nb" by (auto simp: l)
  note s = same_blocksD [OF b(1)]
  have n: "n = prod_list (tl (da_shape kc))" using b(1) by (simp add: same_blocks_def)
  obtain d where d: "dtype_str (da_dtype kc) = Inr d" "''copy_blocks_'' @ d \<in> set cache_kernels"
    by (rule same_blocks_dtype [OF b(1)])
  obtain mss where mss: "grid (int k) (group_size (int n)) (copy_blocks_thread (da_buffer kc)
      (da_buffer vc) (map i64 (ia_data bm)) (int n) (group_size (int n))) = Some mss"
    "set (concat mss) = block_moves {(da_buffer kc, da_buffer kc), (da_buffer vc, da_buffer vc)} bm k n"
    using copy_grid [OF b(2) s(9) k] by blast
  have rf: "race_free (concat mss)"
    by (rule block_race_free [OF mss(2) b(2)]) (use apart in auto)
  obtain outs where outs: "copy_layers (int k) (map i64 (ia_data bm)) layers = Inr outs" "map fst outs = layers"
    "\<forall>((kc, vc), call) \<in> set outs. kc_name call \<in> set cache_kernels \<and>
       (\<exists>mss n. kc_threads call = Some mss \<and> n = prod_list (tl (da_shape kc)) \<and> race_free (concat mss) \<and>
          set (concat mss) = block_moves {(da_buffer kc, da_buffer kc), (da_buffer vc, da_buffer vc)} bm k n)"
    using Cons.IH Cons.prems by auto
  let ?call = "\<lparr>kc_name = ''copy_blocks_'' @ d, kc_threads = Some mss\<rparr>"
  have "copy_layers (int k) (map i64 (ia_data bm)) (l # layers) = Inr (((kc, vc), ?call) # outs)"
    using s d(1) mss(1) outs(1) by (simp add: l Let_def)
  then show ?case
    using outs(2,3) d(2) mss(2) rf n by (intro exI [of _ "((kc, vc), ?call) # outs"]) (auto simp: l)
qed simp

text \<open>
  C27. \<open>copy_blocks\<close> with a mapping in which no target is also a source, of at most \<open>2^30\<close> pairs (the
  kernel computes twice the number of a pair in 32 bits): in every layer the launch ends, whatever
  the order in which the threads run, and copies the blocks of the key cache and of the value
  cache, and changes nothing else. The results are the arrays that were passed.
\<close>

theorem copy_blocks_copies:
  assumes "length key_caches = length value_caches" "ia_shape bm = [k, 2]" "k \<le> 2 ^ 30"
    and "\<forall>(kc, vc) \<in> set (zip key_caches value_caches). \<exists>nb n. same_blocks kc vc nb nb n \<and> pairs_ok bm k nb nb"
    and "\<forall>g \<in> {0..<int k}. \<forall>h \<in> {0..<int k}. pair_dst bm g \<noteq> pair_src bm h"
  shows "\<exists>calls. copy_blocks key_caches value_caches bm = Inr ((key_caches, value_caches), calls) \<and>
    length calls = length key_caches \<and>
    (\<forall>l < length key_caches. \<forall>m :: nat \<times> int \<Rightarrow> 'e.
       (\<exists>m'. evaluates (\<lambda>x. x) (calls ! l) m m') \<and>
       (\<forall>m'. evaluates (\<lambda>x. x) (calls ! l) m m' \<longrightarrow>
          blocks_copied {(da_buffer (key_caches ! l), da_buffer (key_caches ! l)),
              (da_buffer (value_caches ! l), da_buffer (value_caches ! l))}
            bm k (prod_list (tl (da_shape (key_caches ! l)))) m m'))"
proof -
  let ?layers = "zip key_caches value_caches"
  obtain outs where outs: "copy_layers (int k) (map i64 (ia_data bm)) ?layers = Inr outs" "map fst outs = ?layers"
    "\<forall>((kc, vc), call) \<in> set outs. kc_name call \<in> set cache_kernels \<and>
       (\<exists>mss n. kc_threads call = Some mss \<and> n = prod_list (tl (da_shape kc)) \<and> race_free (concat mss) \<and>
          set (concat mss) = block_moves {(da_buffer kc, da_buffer kc), (da_buffer vc, da_buffer vc)} bm k n)"
    using copy_layers_ok [OF assms(4,5,3)] by blast
  have len: "length outs = length key_caches"
    using arg_cong [OF outs(2), of length] assms(1) by simp
  have fsts: "map (fst \<circ> fst) outs = key_caches" "map (snd \<circ> fst) outs = value_caches"
    using arg_cong [OF outs(2), of "map fst"] arg_cong [OF outs(2), of "map snd"] assms(1) by simp_all
  have "copy_blocks key_caches value_caches bm = Inr ((key_caches, value_caches), map snd outs)"
    using assms(1,2) outs(1) by (simp add: copy_blocks_def copy_blocks_host_def fsts)
  moreover have "(\<exists>m'. evaluates (\<lambda>x. x) (map snd outs ! l) m m') \<and>
      (\<forall>m'. evaluates (\<lambda>x. x) (map snd outs ! l) m m' \<longrightarrow>
         blocks_copied {(da_buffer (key_caches ! l), da_buffer (key_caches ! l)),
              (da_buffer (value_caches ! l), da_buffer (value_caches ! l))}
            bm k (prod_list (tl (da_shape (key_caches ! l)))) m m')"
    if l: "l < length key_caches" for l and m :: "nat \<times> int \<Rightarrow> 'e"
  proof -
    have "fst (outs ! l) = (key_caches ! l, value_caches ! l)"
      using arg_cong [OF outs(2), of "\<lambda>xs. xs ! l"] l len assms(1) by simp
    then have o: "((key_caches ! l, value_caches ! l), snd (outs ! l)) \<in> set outs"
      using l len by (metis nth_mem prod.collapse)
    then obtain mss where mss: "kc_name (snd (outs ! l)) \<in> set cache_kernels"
      "kc_threads (snd (outs ! l)) = Some mss" "race_free (concat mss)"
      "set (concat mss) = block_moves {(da_buffer (key_caches ! l), da_buffer (key_caches ! l)),
         (da_buffer (value_caches ! l), da_buffer (value_caches ! l))} bm k
         (prod_list (tl (da_shape (key_caches ! l))))"
      using outs(3) by fast
    note ev = evaluates_launch [OF mss(2,1)] and cp = block_launch [OF mss(4,3)]
    have "map snd outs ! l = snd (outs ! l)" using l len by simp
    then show ?thesis using ev cp by metis
  qed
  ultimately show ?thesis using len by (intro exI [of _ "map snd outs"]) simp
qed

theorem copy_blocks_copies_witness:
  "\<exists>call m'. copy_blocks [demo_cache_array 0] [demo_cache_array 1] demo_mapping =
      Inr (([demo_cache_array 0], [demo_cache_array 1]), [call]) \<and>
    evaluates (\<lambda>x. x) call (\<lambda>(b, i). int b + 10 * i) m' \<and> m' (0, 3) = 10 \<and> m' (1, 3) = 11"
proof -
  have u: "{0..<int 1} = {0}" by auto
  have "\<forall>(kc, vc) \<in> set (zip [demo_cache_array 0] [demo_cache_array 1]).
      \<exists>nb n. same_blocks kc vc nb nb n \<and> pairs_ok demo_mapping 1 nb nb"
    using demo_copy(1,2) by auto
  moreover have "\<forall>g \<in> {0..<int 1}. \<forall>h \<in> {0..<int 1}. pair_dst demo_mapping g \<noteq> pair_src demo_mapping h"
    unfolding u by (simp add: demo_copy(3,4))
  ultimately obtain calls where c: "copy_blocks [demo_cache_array 0] [demo_cache_array 1] demo_mapping =
      Inr (([demo_cache_array 0], [demo_cache_array 1]), calls)" "length calls = 1"
    "\<And>m :: nat \<times> int \<Rightarrow> int. (\<exists>m'. evaluates (\<lambda>x. x) (calls ! 0) m m') \<and>
       (\<forall>m'. evaluates (\<lambda>x. x) (calls ! 0) m m' \<longrightarrow> blocks_copied {(0, 0), (1, 1)} demo_mapping 1 2 m m')"
    using copy_blocks_copies [of "[demo_cache_array 0]" "[demo_cache_array 1]" demo_mapping 1, where 'e = int]
    by (auto simp: demo_mapping_def demo_cache_array_def)
  let ?m = "\<lambda>(b, i). int b + 10 * i"
  obtain m' where m': "evaluates (\<lambda>x. x) (calls ! 0) ?m m'" using c(3) by blast
  have b: "blocks_copied {(0, 0), (1, 1)} demo_mapping 1 2 ?m m'" using c(3) m' by blast
  have "m' (d, pair_dst demo_mapping 0 * int 2 + 1) = ?m (d, pair_src demo_mapping 0 * int 2 + 1)"
    if "d \<in> {0, 1}" for d
    using b that unfolding blocks_copied_def by auto
  from this [of 0] this [of 1] have "m' (0, 3) = 10" "m' (1, 3) = 11" by (simp_all add: demo_copy(3,4))
  moreover obtain call where "calls = [call]" using c(2) by (cases calls) auto
  ultimately show ?thesis using c(1) m' by auto
qed

section \<open>Storing tokens\<close>

text \<open>
  C22. \<open>reshape_and_cache\<close> stores every token whose slot is not negative in that slot, entry by
  entry in the layouts of the two caches, whatever the order in which the threads run, and changes
  no other entry. The values have the type of the keys and the value cache that of the key cache,
  since the kernel reads and writes them so. The results are the caches that were passed.
\<close>

theorem reshape_and_cache_stores:
  assumes "reshape_args key val kc vc sm T H D B x nb"
  shows "\<exists>call. reshape_and_cache key val kc vc sm = Inr ((kc, vc), call) \<and>
    (\<forall>m :: nat \<times> int \<Rightarrow> 'e. (\<exists>m'. evaluates conv call m m') \<and>
      (\<forall>m'. evaluates conv call m m' \<longrightarrow>
         stored conv key val kc vc sm (int T) (int H) (int D) (int B) (int x) m m'))"
proof -
  obtain call mss where c: "reshape_and_cache key val kc vc sm = Inr ((kc, vc), call)"
    "kc_name call \<in> set cache_kernels" "kc_threads call = Some mss"
    "set (concat mss) = (\<Union>t \<in> {0..<int T}. \<Union>i \<in> {0..<int H * int D}.
      reshape_moves key val kc vc sm (int H) (int D) (int B) (int x) t i)"
    using reshape_host [OF assms] unfolding reshape_and_cache_def by blast
  note ev = evaluates_launch [OF c(3,2)] and st = reshape_launch [OF assms c(4)]
  show ?thesis using c(1) ev st by blast
qed

text \<open>One token in the second of two slots.\<close>

definition demo_array :: "nat \<Rightarrow> nat list \<Rightarrow> int list \<Rightarrow> darray" where
  "demo_array b sh st = \<lparr>da_buffer = b, da_shape = sh, da_strides = st, da_dtype = Float32\<rparr>"

abbreviation "demo_key \<equiv> demo_array 0 [1, 1, 4] [4, 4, 1]"
abbreviation "demo_val \<equiv> demo_array 1 [1, 1, 4] [4, 4, 1]"
abbreviation "demo_kc \<equiv> demo_array 2 [2, 1, 1, 1, 4] [4, 4, 4, 4, 1]"
abbreviation "demo_vc \<equiv> demo_array 3 [2, 1, 4, 1] [4, 4, 1, 1]"
abbreviation "demo_slots \<equiv> \<lparr>ia_shape = [1], ia_data = [1], ia_width = 8\<rparr>"

lemma demo_reshape_args: "reshape_args demo_key demo_val demo_kc demo_vc demo_slots 1 1 4 1 4 2"
proof -
  have "{0..<1 :: int} = {0}" by auto
  then show ?thesis by (simp add: reshape_args_def demo_array_def dims_ok_def slot_of_def)
qed

theorem reshape_and_cache_stores_witness:
  "\<exists>call m'. reshape_and_cache demo_key demo_val demo_kc demo_vc demo_slots = Inr ((demo_kc, demo_vc), call) \<and>
     evaluates (\<lambda>x. x) call (\<lambda>(b, i). int b + 10 * i) m' \<and> m' (2, 6) = 20"
proof -
  let ?m = "\<lambda>(b, i). int b + 10 * i"
  obtain call m' where c: "reshape_and_cache demo_key demo_val demo_kc demo_vc demo_slots = Inr ((demo_kc, demo_vc), call)"
    "evaluates (\<lambda>x. x) call ?m m'" "stored (\<lambda>x. x) demo_key demo_val demo_kc demo_vc demo_slots 1 1 4 1 4 ?m m'"
    using reshape_and_cache_stores [OF demo_reshape_args, of "\<lambda>x. x :: int"] by fastforce
  have "m' (2, key_pos 1 4 1 4 (slot_of demo_slots 0) 2) = ?m (0, 0 * 4 + 2)"
    using c(3) [unfolded stored_def, THEN conjunct1, rule_format, of 0 2]
    by (simp add: slot_of_def demo_array_def)
  then have "m' (2, 6) = 20" by (simp add: key_pos_def slot_of_def)
  with c(1,2) show ?thesis by blast
qed

end
