(* ===== verification/Attention_Props.thy ===== *)
theory Attention_Props
  imports Metal_Kernels
begin

text \<open>
  The properties of \<open>paged_attention_v1\<close>: what a call computes for any arithmetic, how far that is
  from softmax attention, and its composition with \<open>reshape_and_cache\<close>.
\<close>

section \<open>Entries that have been stored\<close>

text \<open>
  What \<open>reshape_and_cache\<close> has stored for the token of a slot is what \<open>paged_attention\<close> reads for the
  position \<open>p\<close> of the block \<open>b\<close> the slot is at, if the key cache is in row order and its last
  dimension is the one the attention kernel assumes.
\<close>

lemma stored_entries:
  assumes "reshape_args key val kc vc sm T H D B x nb"
    and "reshape_and_cache key val kc vc sm = Inr ((kc, vc), call)" "evaluates conv call m m'"
  shows "t < T \<Longrightarrow> slot_of sm (int t) = int b * int B + int p \<Longrightarrow> p < B \<Longrightarrow> h < H \<Longrightarrow> d < D \<Longrightarrow>
      m' (da_buffer kc, attention_key_index (int H * int D * int B) (int D * int B) (int B) (int x)
        (int b) (int h) (int p) (int d)) =
      conv (m (da_buffer key, int t * hd (da_strides key) + (int h * int D + int d)))"
    and "t < T \<Longrightarrow> slot_of sm (int t) = int b * int B + int p \<Longrightarrow> p < B \<Longrightarrow> h < H \<Longrightarrow> d < D \<Longrightarrow>
      m' (da_buffer vc, attention_value_index (int H * int D * int B) (int D * int B) (int B)
        (int b) (int h) (int p) (int d)) =
      conv (m (da_buffer val, int t * hd (da_strides val) + (int h * int D + int d)))"
    and "fst e \<notin> {da_buffer kc, da_buffer vc} \<Longrightarrow> m' e = m e"
proof -
  note r = reshape_argsD [OF assms(1)]
  obtain call' mss where c: "reshape_and_cache key val kc vc sm = Inr ((kc, vc), call')"
    "kc_name call' \<in> set cache_kernels" "kc_threads call' = Some mss"
    "set (concat mss) = (\<Union>t \<in> {0..<int T}. \<Union>i \<in> {0..<int H * int D}.
      reshape_moves key val kc vc sm (int H) (int D) (int B) (int x) t i)"
    using reshape_host [OF assms(1)] unfolding reshape_and_cache_def by blast
  have "call' = call" using c(1) assms(2) by simp
  then have "launch conv mss m m'" using assms(3) evaluates_launch(2) [OF c(3,2)] by blast
  note st = reshape_launch [OF assms(1) c(4) this]
  show "m' (da_buffer kc, attention_key_index (int H * int D * int B) (int D * int B) (int B) (int x)
        (int b) (int h) (int p) (int d)) =
      conv (m (da_buffer key, int t * hd (da_strides key) + (int h * int D + int d)))"
    "m' (da_buffer vc, attention_value_index (int H * int D * int B) (int D * int B) (int B)
        (int b) (int h) (int p) (int d)) =
      conv (m (da_buffer val, int t * hd (da_strides val) + (int h * int D + int d)))"
    if t: "t < T" "slot_of sm (int t) = int b * int B + int p" "p < B" "h < H" "d < D" for t b p h d
  proof -
    have ti: "int t \<in> {0..<int T}" using t(1) by simp
    have "int b * int B < int nb * int B" using r(9) [OF ti] t(2) by simp
    then have b: "int b < int nb" using dims_okD(3) [OF r(3)] by (simp only: mult_less_cancel_right)
    have i: "int h * int D + int d \<in> {0..<int H * int D}"
      using nested_bound [of "int h" "int H" "int d" "int D"] t(4,5) by simp
    note at = attention_addresses [OF r(3), of "int b" "int p" "int h" "int d", folded t(2)]
    have "0 \<le> slot_of sm (int t)" by (simp add: t(2))
    then show "m' (da_buffer kc, attention_key_index (int H * int D * int B) (int D * int B) (int B) (int x)
        (int b) (int h) (int p) (int d)) =
      conv (m (da_buffer key, int t * hd (da_strides key) + (int h * int D + int d)))"
      "m' (da_buffer vc, attention_value_index (int H * int D * int B) (int D * int B) (int B)
        (int b) (int h) (int p) (int d)) =
      conv (m (da_buffer val, int t * hd (da_strides val) + (int h * int D + int d)))"
      using st ti i b t(3-5) unfolding stored_def by (simp_all add: at)
  qed
  show "m' e = m e" if "fst e \<notin> {da_buffer kc, da_buffer vc}"
    using st that unfolding stored_def by (cases e) auto
qed

section \<open>The properties\<close>

text \<open>
  A call that can be evaluated: the library has the kernel, the result is a new buffer, and its
  indices fit into 64 bits. The kernel is chosen by the types of the query and of the key cache; it
  reads the value cache with the type of the key cache and the slopes as \<open>float\<close>, which they have to
  be. The shared memory is one that a device can have, so that no loop counter overflows.
\<close>

definition attention_ready :: "nat \<Rightarrow> 'f attention_call \<Rightarrow> bool" where
  "attention_ready out call \<longleftrightarrow>
     (fst (at_kernel call), fst (snd (at_kernel call))) \<in> set attention_kernels \<and>
     out \<notin> {da_buffer (at_query call), da_buffer (at_key_cache call), da_buffer (at_value_cache call)} \<union>
       da_buffer ` set_option (at_alibi_slopes call) \<and>
     prod_list (da_shape (at_query call)) < 2 ^ 63 \<and>
     da_dtype (at_value_cache call) = da_dtype (at_key_cache call) \<and>
     (\<forall>a \<in> set_option (at_alibi_slopes call). da_dtype a = Float32) \<and> at_smem call < 2 ^ 31"

lemma attention_readyD:
  assumes "paged_attention_v1 max_smem q kc vc bt cl nkv scale bs msl slopes = Inr call"
    and "attention_ready out call" "da_shape q = [S, H, D]"
  shows "\<exists>m'. attention_evaluates F out call m m'"
    and "attention_evaluates F out call m m' \<Longrightarrow> s < S \<Longrightarrow> h < H \<Longrightarrow> d < D \<Longrightarrow>
      m' (out, out_index H D s h d) =
        attention_value F (attention_eval_gpu (fl_one F) out call) (on_device (fl_zero F) m) (head_group H s h) d"
    and "attention_evaluates F out call m m' \<Longrightarrow> fst a \<noteq> out \<Longrightarrow> m' a = m a"
    and "params_ok (attention_eval_gpu (fl_one F) out call)"
proof -
  note host = assms(1) [unfolded paged_attention_v1_def]
  note h = paged_attention_hostD [OF host]
  have r: "out \<notin> {da_buffer q, da_buffer kc, da_buffer vc} \<union> da_buffer ` set_option slopes"
    "(fst (at_kernel call), fst (snd (at_kernel call))) \<in> set attention_kernels" "S * H * D < 2 ^ 63"
    using assms(2,3) unfolding attention_ready_def h(7-16) by (auto simp: mult.assoc)
  note ev = attention_evaluates_value [OF host r(1) assms(3) r(3,2)]
  show "\<exists>m'. attention_evaluates F out call m m'" by (rule ev(1))
  show "m' (out, out_index H D s h d) =
      attention_value F (attention_eval_gpu (fl_one F) out call) (on_device (fl_zero F) m) (head_group H s h) d"
    if "attention_evaluates F out call m m'" "s < S" "h < H" "d < D"
    by (rule ev(2) [OF that])
  show "m' a = m a" if "attention_evaluates F out call m m'" "fst a \<noteq> out" by (rule ev(3) [OF that])
  show "params_ok (attention_eval_gpu (fl_one F) out call)"
    by (rule attention_params_ok [OF host r(1)]) (use r(3) assms(3) in \<open>simp add: mult.assoc\<close>)
qed

text \<open>
  C24. A call of \<open>paged_attention_v1\<close> is free of races: threads that run in parallel, between two
  barriers or two shuffles, never access a location that one of them writes. Its evaluation ends, and
  in whatever order the threads run, with the same result: each entry is the one that the reference
  computes by the same floating-point operations in a fixed order, for any arithmetic. No other
  buffer changes.
\<close>

theorem attention_fixed_order:
  assumes "paged_attention_v1 max_smem q kc vc bt cl nkv scale bs msl slopes = Inr call"
    and "attention_ready out call" "da_shape q = [S, H, D]"
  shows "apart (attention_grid F (attention_eval_gpu (fl_one F) out call)) \<and>
    (\<exists>m'. attention_evaluates F out call m m') \<and>
    (\<forall>m'. attention_evaluates F out call m m' \<longrightarrow>
       (\<forall>s < S. \<forall>h < H. \<forall>d < D. m' (out, out_index H D s h d) =
          attention_value F (attention_eval_gpu (fl_one F) out call) (on_device (fl_zero F) m) (head_group H s h) d) \<and>
       (\<forall>a. fst a \<noteq> out \<longrightarrow> m' a = m a))"
  using attention_readyD(1-3) [OF assms, of F] attention_grid_apart [OF attention_readyD(4) [OF assms]] by blast

text \<open>A call on one sequence with one head, and a cache with one block.\<close>

abbreviation "demo_q \<equiv> demo_array 6 [1, 1, 32] [32, 32, 1]"
abbreviation "demo_pages \<equiv> demo_array 2 [1, 1, 8, 8, 4] [256, 256, 32, 4, 1]"
abbreviation "demo_values \<equiv> demo_array 3 [1, 1, 32, 8] [256, 256, 8, 1]"
abbreviation "demo_table \<equiv> \<lparr>ia_shape = [1, 1], ia_data = [0], ia_width = 4\<rparr>"
abbreviation "demo_context n \<equiv> \<lparr>ia_shape = [1], ia_data = [n], ia_width = 4\<rparr>"

definition demo_attention :: "int \<Rightarrow> real attention_call" where
  "demo_attention n = \<lparr>at_query = demo_q, at_key_cache = demo_pages, at_value_cache = demo_values,
     at_block_tables = demo_table, at_context_lens = demo_context n, at_alibi_slopes = None,
     at_num_kv_heads = 1, at_scale = 1 / 4, at_block_size = 8, at_max_seq_len = 8, at_use_alibi = False,
     at_kernel = (''float'', ''float'', 32, 8, 256, 32), at_smem = 1568\<rparr>"

lemma demo_attention_call:
  "paged_attention_v1 32768 demo_q demo_pages demo_values demo_table (demo_context n) 1 (1 / 4) 8 8 None =
     Inr (demo_attention n)"
  "attention_ready 9 (demo_attention n)" "da_shape demo_q = [1, 1, 32]"
  by (simp_all add: paged_attention_v1_def paged_attention_host_def Let_def demo_array_def demo_attention_def
      is_valid_config_def attention_smem_def attention_ready_def attention_kernels_def i32_id)

theorem attention_fixed_order_witness:
  "\<exists>m'. attention_evaluates real_ops 9 (demo_attention 0) (\<lambda>_. 1) m' \<and> m' (9, 3) = 0"
proof -
  from attention_fixed_order [OF demo_attention_call(1) [of 0] demo_attention_call(2,3), where F = real_ops and m = "\<lambda>_. 1"]
  obtain m' where m': "attention_evaluates real_ops 9 (demo_attention 0) (\<lambda>_. 1) m'"
    "m' (9, out_index 1 32 0 0 3) = attention_value real_ops (attention_eval_gpu (fl_one real_ops) 9 (demo_attention 0))
       (on_device (fl_zero real_ops) (\<lambda>_. 1)) (head_group 1 0 0) 3"
    by fastforce
  have "m' (9, 3) = 0"
    using m'(2) by (simp add: out_index_def head_group_def attention_value_def context_len_def seq_idx_def
        attention_eval_gpu_def demo_attention_def demo_array_def index_words_32)
  with m'(1) show ?thesis by blast
qed

text \<open>
  C25. In exact arithmetic, the result of \<open>paged_attention_v1\<close> for a head of a sequence is the softmax
  attention over its context, with a relative error of at most \<open>10^-6\<close> (the constant that is added
  to the sum of the exponentials), when the scores are in the range of the type; and zero when there
  is no context or the context is longer than \<open>max_seq_len\<close>.
\<close>

theorem attention_is_softmax:
  assumes "paged_attention_v1 max_smem q kc vc bt cl nkv scale bs msl slopes = Inr call"
    and "attention_ready out call" "da_shape q = [S, H, D]"
    and "attention_evaluates real_ops out call m m'" "s < S" "h < H" "d < D"
  shows "let p = attention_eval_gpu 1 out call; g = head_group H s h; M = on_device 0 m;
      r = m' (out, out_index H D s h d); n = context_len p g
    in (n = 0 \<or> nat msl < n \<longrightarrow> r = 0) \<and>
      (0 < n \<and> n \<le> nat msl \<and> (\<forall>j < n. - flt_max < attention_score p M g j) \<longrightarrow>
       \<bar>r - softmax_attention p M g d\<bar> \<le> \<bar>softmax_attention p M g d\<bar> / 10 ^ 6)"
proof -
  note h = paged_attention_hostD [OF assms(1) [unfolded paged_attention_v1_def]]
  let ?p = "attention_eval_gpu 1 out call" and ?g = "head_group H s h" and ?M = "on_device 0 m"
  have res: "m' (out, out_index H D s h d) = attention_value real_ops ?p ?M ?g d"
    using attention_readyD(2) [OF assms(1-7)] by simp
  have p: "params_ok ?p" using attention_readyD(4) [OF assms(1-3), of real_ops] by simp
  have len: "ap_max_seq_len ?p = nat msl" "ap_softcapping ?p = 1"
    using h(17) by (auto simp: attention_eval_gpu_def h(15))
  show ?thesis
    unfolding Let_def
  proof (intro conjI impI)
    assume "context_len ?p ?g = 0 \<or> nat msl < context_len ?p ?g"
    then show "m' (out, out_index H D s h d) = 0" by (simp add: res attention_value_def len(1))
  next
    assume a: "0 < context_len ?p ?g \<and> context_len ?p ?g \<le> nat msl \<and>
      (\<forall>j < context_len ?p ?g. - flt_max < attention_score ?p ?M ?g j)"
    obtain S where S: "1 \<le> S"
      "attention_value real_ops ?p ?M ?g d = softmax_attention ?p ?M ?g d * (S / (S + 1 / 10 ^ 6))"
      using attention_softmax [OF p len(2), of ?g ?M d] a len(1) by auto
    show "\<bar>m' (out, out_index H D s h d) - softmax_attention ?p ?M ?g d\<bar> \<le> \<bar>softmax_attention ?p ?M ?g d\<bar> / 10 ^ 6"
      unfolding res by (rule softmax_close [OF S(2,1)])
  qed
qed

theorem attention_is_softmax_witness:
  "\<exists>m'. attention_evaluates real_ops 9 (demo_attention 1) (\<lambda>(b, i). if b = 3 then 5 else 1) m' \<and>
     \<bar>m' (9, 3) - 5\<bar> \<le> 5 / 10 ^ 6"
proof -
  let ?m = "\<lambda>(b, i). if b = 3 then 5 else 1 :: real"
  obtain m' where m': "attention_evaluates real_ops 9 (demo_attention 1) ?m m'"
    using attention_readyD(1) [OF demo_attention_call] by blast
  let ?p = "attention_eval_gpu 1 9 (demo_attention 1)" and ?g = "head_group 1 0 0" and ?M = "on_device 0 ?m"
  have p: "context_len ?p ?g = 1" "ap_head_size ?p = 32" "ap_k_cache ?p = 2" "ap_q ?p = 6" "ap_v_cache ?p = 3"
    "ap_alibi_slopes ?p = None" "ap_scale ?p = 1 / 4"
    by (simp_all add: context_len_def seq_idx_def head_group_def attention_eval_gpu_def demo_attention_def demo_array_def index_words_32)
  have score: "attention_score ?p ?M ?g 0 = 8"
    by (simp add: attention_score_def p q_loc_def k_loc_def)
  have range: "- flt_max < (8 :: real)" by (simp add: flt_max_def)
  have soft: "softmax_attention ?p ?M ?g 3 = 5"
    unfolding softmax_attention_def softmax_mean_def p(1) by (simp add: token_value_def v_loc_def p(5))
  have "\<forall>j < 1. - flt_max < attention_score ?p ?M ?g j" unfolding less_one using score range by simp
  then have "\<bar>m' (9, out_index 1 32 0 0 3) - 5\<bar> \<le> \<bar>5\<bar> / 10 ^ 6"
    using attention_is_softmax [OF demo_attention_call m', of 0 0 3, unfolded Let_def p(1) soft] by simp
  then have "\<bar>m' (9, 3) - 5\<bar> \<le> 5 / 10 ^ 6" by (simp add: out_index_def)
  with m' show ?thesis by blast
qed

section \<open>Storing tokens and attending to them\<close>

text \<open>
  The score of the token \<open>t\<close> of \<open>key\<close> for the head \<open>h\<close> of the sequence \<open>s\<close>, and the entry of its
  value, with \<open>H\<close> heads of the query and \<open>K\<close> of keys and values.
\<close>

definition dot_score :: "(nat \<times> int \<Rightarrow> real) \<Rightarrow> darray \<Rightarrow> darray \<Rightarrow> nat \<Rightarrow> nat \<Rightarrow> nat \<Rightarrow> real \<Rightarrow> nat \<Rightarrow> nat \<Rightarrow> nat \<Rightarrow> real" where
  "dot_score m q key H K D scale s h t =
     (\<Sum>e<D. m (da_buffer q, int ((s * H + h) * D + e)) *
        m (da_buffer key, int t * hd (da_strides key) + (int (h div (H div K)) * int D + int e))) * scale"

definition value_entry :: "(nat \<times> int \<Rightarrow> real) \<Rightarrow> darray \<Rightarrow> nat \<Rightarrow> nat \<Rightarrow> nat \<Rightarrow> nat \<Rightarrow> nat \<Rightarrow> nat \<Rightarrow> real" where
  "value_entry m val H K D h d t =
     m (da_buffer val, int t * hd (da_strides val) + (int (h div (H div K)) * int D + int d))"

text \<open>The tokens \<open>tok j\<close> are in the slots that the block table gives for the positions \<open>j < n\<close>.\<close>

definition in_table :: "iarray \<Rightarrow> iarray \<Rightarrow> nat \<Rightarrow> nat \<Rightarrow> nat \<Rightarrow> (nat \<Rightarrow> nat) \<Rightarrow> nat \<Rightarrow> bool" where
  "in_table bt sm B s T tok n \<longleftrightarrow> (\<forall>j < n. tok j < T \<and>
     slot_of sm (int (tok j)) = (ia_data bt ! (s * (ia_shape bt ! 1) + j div B) mod 2 ^ 32) * int B + int (j mod B))"

lemma stored_tokens_scores:
  fixes out :: nat
  assumes store: "reshape_args key val kc vc sm T K D B x nb" "x = cache_x (da_dtype kc)"
      "da_strides kc ! 0 = int K * int D * int B" "da_strides kc ! 1 = int D * int B"
      "reshape_and_cache key val kc vc sm = Inr ((kc, vc), stores)" "evaluates (\<lambda>x. x) stores m m1"
    and call: "paged_attention_v1 max_smem q kc vc bt cl (int K) scale (int B) msl None = Inr call"
      "da_shape q = [S, H, D]" "da_strides q ! 0 = int H * int D" "S * H * D < 2 ^ 31"
      "da_buffer q \<notin> {da_buffer kc, da_buffer vc}" "s < S" "h < H"
    and idx: "int32_array bt"
    and tok: "in_table bt sm B s T tok n" "j < n" "n \<le> nat msl"
  defines "p \<equiv> attention_eval_gpu 1 out call" and "g \<equiv> head_group H s h"
  shows "attention_score p (on_device 0 m1) g j = dot_score m q key H K D scale s h (tok j)"
    and "d < D \<Longrightarrow> token_value p (on_device 0 m1) g d j = value_entry m val H K D h d (tok j)"
proof -
  note host = paged_attention_hostD [OF call(1) [unfolded paged_attention_v1_def]]
  note r = reshape_argsD [OF store(1)] and dd = dims_okD [OF reshape_argsD(3) [OF store(1)]]
  note st = stored_entries [OF store(1,5,6)]
  have pos: "0 < K" "0 < D" "0 < B" using dd(1-3) by simp_all
  obtain qt ct where k: "at_kernel call = (qt, ct, int D, int B, 256, 32)"
    using host(17) by (auto simp: call(2))
  have "0 < H" using call(7) by simp
  then have g: "head_idx p g = h" "seq_idx p g = s"
    using call(7) by (simp_all add: head_idx_def seq_idx_def g_def head_group_def p_def attention_eval_gpu_def k host(7) call(2))
  have kv: "kv_head_idx p g = h div (H div K)"
    by (simp add: kv_head_idx_def g) (simp add: p_def attention_eval_gpu_def k host(7,13) call(2))
  have "int H mod int K = 0" using host(5) by (simp add: call(2))
  then have "H mod K = 0" by (metis of_nat_0_eq_iff zmod_int)
  then obtain c where c: "H = K * c" by (auto simp: mod_eq_0_iff_dvd)
  have kv_less: "h div (H div K) < K"
    using call(7) c pos(1) by (simp add: less_mult_imp_div_less)
  have strides: "i32 (int K * int D * int B) = int K * int D * int B" "i32 (int D * int B) = int D * int B"
    by (rule i32_nonneg; use dd in simp)+
  let ?b = "nat (ia_data bt ! (s * (ia_shape bt ! 1) + j div B) mod 2 ^ 32)" and ?p = "j mod B"
  have block: "physical_block p g (j div B) = int ?b"
    using index_words_nth [OF idx table_index [OF call(1) [unfolded paged_attention_v1_def] _ _ pos(3), of s j]]
      tok(2,3) call(6)
    by (simp add: physical_block_def g) (simp add: p_def attention_eval_gpu_def k host(10) call(2))
  have t: "tok j < T" "slot_of sm (int (tok j)) = int ?b * int B + int ?p" "?p < B"
    using tok pos(3) unfolding in_table_def by simp_all
  have K: "on_device 0 m1 (k_loc p g (j div B) ?p e) =
      m (da_buffer key, int (tok j) * hd (da_strides key) + (int (h div (H div K)) * int D + int e))" if "e < D" for e
  proof -
    have "k_loc p g (j div B) ?p e = Device (da_buffer kc, attention_key_index (int K * int D * int B) (int D * int B)
        (int B) (int x) (int ?b) (int (h div (H div K))) (int ?p) (int e))"
      unfolding k_loc_def block kv
      by (simp add: p_def attention_eval_gpu_def k host(8) store(2,3) store(4) [unfolded One_nat_def] strides)
    then show ?thesis using st(1) [OF t kv_less that] by simp
  qed
  have V: "on_device 0 m1 (v_loc p g (j div B) ?p d) =
      m (da_buffer val, int (tok j) * hd (da_strides val) + (int (h div (H div K)) * int D + int d))" if "d < D" for d
  proof -
    have "v_loc p g (j div B) ?p d = Device (da_buffer vc, attention_value_index (int K * int D * int B) (int D * int B)
        (int B) (int ?b) (int (h div (H div K))) (int ?p) (int d))"
      unfolding v_loc_def block kv
      by (simp add: p_def attention_eval_gpu_def k host(8,9) store(3) store(4) [unfolded One_nat_def] strides)
    then show ?thesis using st(2) [OF t kv_less that] by simp
  qed
  have Q: "on_device 0 m1 (q_loc p g e) = m (da_buffer q, int ((s * H + h) * D + e))" if "e < D" for e
  proof -
    have "(s * H + h) * D + e < S * H * D"
    proof -
      have "(s * H + h) * D + e < Suc (s * H + h) * D" using that by simp
      also have "\<dots> \<le> S * H * D"
        using head_group_less [OF call(6,7)] by (intro mult_right_mono) (simp_all add: head_group_def mult.commute)
      finally show ?thesis .
    qed
    then have small: "int ((s * H + h) * D + e) < 2 ^ 31" using call(4) by (metis less_trans of_nat_less_numeral_power_cancel_iff)
    have "1 * (H * D) \<le> S * (H * D)" using call(6) by (intro mult_right_mono) simp_all
    also have "\<dots> < 2 ^ 31" using call(4) by (simp only: mult.assoc)
    finally have "H * D < 2 ^ 31" by simp
    then have "int (H * D) < 2 ^ 31" by (metis of_nat_less_numeral_power_cancel_iff)
    then have "i32 (int H * int D) = int H * int D" by (intro i32_nonneg) simp_all
    moreover have "int s * (int H * int D) + int h * int D + int e = int ((s * H + h) * D + e)" by (simp add: algebra_simps)
    moreover have "i64 (int ((s * H + h) * D + e)) = int ((s * H + h) * D + e)"
      by (rule i64_id) (use small in \<open>simp_all del: of_nat_add of_nat_mult\<close>)
    ultimately have "q_loc p g e = Device (da_buffer q, int ((s * H + h) * D + e))"
      unfolding q_loc_def g by (simp add: p_def attention_eval_gpu_def k host(7) call(3) del: of_nat_add of_nat_mult)
    then show ?thesis using st(3) [of "(da_buffer q, int ((s * H + h) * D + e))"] call(5) by simp
  qed
  have fields: "ap_head_size p = D" "ap_block_size p = B" "ap_alibi_slopes p = None" "ap_scale p = scale"
    by (simp_all add: p_def attention_eval_gpu_def k host(14,16))
  show "attention_score p (on_device 0 m1) g j = dot_score m q key H K D scale s h (tok j)"
    by (simp add: attention_score_def dot_score_def fields K Q)
  show "d < D \<Longrightarrow> token_value p (on_device 0 m1) g d j = value_entry m val H K D h d (tok j)"
    by (simp add: token_value_def value_entry_def fields V)
qed

text \<open>
  C23. Storing and attending: when \<open>reshape_and_cache\<close> has stored the keys and values of the tokens of
  a sequence in the slots that its block table names, \<open>paged_attention_v1\<close> returns for each head of
  the query the softmax attention over these tokens, in exact arithmetic with a relative error of at
  most \<open>10^-6\<close>. The key cache is in row order with the last dimension that the kernel assumes, the
  types are those with which the two kernels read and write the buffers, block tables and context
  lengths have 32-bit entries, and the scores are in the range of the type.
\<close>

theorem stored_tokens_attended:
  assumes "reshape_args key val kc vc sm T K D B x nb" "x = cache_x (da_dtype kc)"
    and "da_strides kc ! 0 = int K * int D * int B" "da_strides kc ! 1 = int D * int B"
    and "reshape_and_cache key val kc vc sm = Inr ((kc, vc), stores)" "evaluates (\<lambda>x. x) stores m m1"
    and "paged_attention_v1 max_smem q kc vc bt cl (int K) scale (int B) msl None = Inr call"
    and "da_shape q = [S, H, D]" "da_strides q ! 0 = int H * int D" "S * H * D < 2 ^ 31"
    and "da_buffer q \<notin> {da_buffer kc, da_buffer vc}"
    and "attention_ready out call" "attention_evaluates real_ops out call m1 m2" "s < S" "h < H" "d < D"
    and "int32_array bt" "int32_array cl" "n = nat (ia_data cl ! s mod 2 ^ 32)" "0 < n" "n \<le> nat msl" "in_table bt sm B s T tok n"
    and "\<forall>j < n. - flt_max < dot_score m q key H K D scale s h (tok j)"
  shows "let A = softmax_mean n (\<lambda>j. dot_score m q key H K D scale s h (tok j))
      (\<lambda>j. value_entry m val H K D h d (tok j))
    in \<bar>m2 (out, out_index H D s h d) - A\<bar> \<le> \<bar>A\<bar> / 10 ^ 6"
proof -
  let ?p = "attention_eval_gpu 1 out call" and ?g = "head_group H s h" and ?M = "on_device 0 m1"
  let ?A = "softmax_mean n (\<lambda>j. dot_score m q key H K D scale s h (tok j)) (\<lambda>j. value_entry m val H K D h d (tok j))"
  note host = paged_attention_hostD [OF assms(7) [unfolded paged_attention_v1_def]]
  note tok = stored_tokens_scores [OF assms(1-11,14,15,17,22) _ assms(21), where out = out]
  have "s < prod_list (ia_shape cl)" using assms(14) by (subst host(19)) (simp add: assms(8))
  then have cl: "index_words cl ! s = ia_data cl ! s mod 2 ^ 32" by (rule index_words_nth [OF assms(18)])
  have "0 < H" using assms(15) by simp
  then have len: "context_len ?p ?g = n" "ap_max_seq_len ?p = nat msl" "ap_softcapping ?p = 1"
    using host(17) assms(15)
    by (auto simp: context_len_def seq_idx_def head_group_def attention_eval_gpu_def host(7,11,15) assms(8,19) cl)
  have res: "m2 (out, out_index H D s h d) = attention_value real_ops ?p ?M ?g d"
    using attention_readyD(2) [OF assms(7,12,8,13-16)] by simp
  have A: "softmax_attention ?p ?M ?g d = ?A"
    unfolding softmax_attention_def len(1) by (rule softmax_mean_cong) (use tok assms(16) in simp_all)
  obtain S where S: "1 \<le> S" "attention_value real_ops ?p ?M ?g d = ?A * (S / (S + 1 / 10 ^ 6))"
    using attention_softmax [of ?p ?g ?M d] attention_readyD(4) [OF assms(7,12,8), of real_ops]
      assms(20,21,23) tok(1) by (auto simp: len A)
  show ?thesis unfolding Let_def res by (rule softmax_close [OF S(2,1)])
qed

abbreviation "demo_keys \<equiv> demo_array 0 [1, 1, 32] [32, 32, 1]"
abbreviation "demo_vals \<equiv> demo_array 1 [1, 1, 32] [32, 32, 1]"
abbreviation "demo_slot \<equiv> \<lparr>ia_shape = [1], ia_data = [0], ia_width = 4\<rparr>"

lemma demo_store_args: "reshape_args demo_keys demo_vals demo_pages demo_values demo_slot 1 1 32 8 4 1"
proof -
  have "{0..<1 :: int} = {0}" by auto
  then show ?thesis by (simp add: reshape_args_def demo_array_def dims_ok_def slot_of_def)
qed

theorem stored_tokens_attended_witness:
  "\<exists>stores m1 m2.
     reshape_and_cache demo_keys demo_vals demo_pages demo_values demo_slot = Inr ((demo_pages, demo_values), stores) \<and>
     evaluates (\<lambda>x. x) stores (\<lambda>(b, i). if b = 1 then 5 else 1) m1 \<and>
     attention_evaluates real_ops 9 (demo_attention 1) m1 m2 \<and> \<bar>m2 (9, 3) - 5\<bar> \<le> 5 / 10 ^ 6"
proof -
  let ?m = "\<lambda>(b, i). if b = 1 then 5 else 1 :: real"
  obtain stores mss where c: "reshape_and_cache demo_keys demo_vals demo_pages demo_values demo_slot =
      Inr ((demo_pages, demo_values), stores)" "kc_name stores \<in> set cache_kernels" "kc_threads stores = Some mss"
    using reshape_host [OF demo_store_args] unfolding reshape_and_cache_def by blast
  obtain m1 where m1: "evaluates (\<lambda>x. x) stores ?m m1" using evaluates_launch(1) [OF c(3,2)] by blast
  obtain m2 where m2: "attention_evaluates real_ops 9 (demo_attention 1) m1 m2"
    using attention_readyD(1) [OF demo_attention_call] by blast
  have score: "dot_score ?m demo_q demo_keys 1 1 32 (1 / 4) 0 0 0 = 8"
    by (simp add: dot_score_def demo_array_def)
  have range: "- flt_max < (8 :: real)" by (simp add: flt_max_def)
  have "\<bar>m2 (9, out_index 1 32 0 0 3) - softmax_mean 1 (\<lambda>j. dot_score ?m demo_q demo_keys 1 1 32 (1 / 4) 0 0 0)
        (\<lambda>j. value_entry ?m demo_vals 1 1 32 0 3 0)\<bar> \<le>
      \<bar>softmax_mean 1 (\<lambda>j. dot_score ?m demo_q demo_keys 1 1 32 (1 / 4) 0 0 0)
        (\<lambda>j. value_entry ?m demo_vals 1 1 32 0 3 0)\<bar> / 10 ^ 6"
    using stored_tokens_attended [OF demo_store_args _ _ _ c(1) m1, where q = demo_q and bt = demo_table
        and cl = "demo_context 1" and msl = 8 and max_smem = 32768 and scale = "1 / 4" and call = "demo_attention 1"
        and S = 1 and H = 1 and out = 9 and ?m2.0 = m2 and s = 0 and h = 0 and d = 3 and n = 1 and tok = "\<lambda>_. 0",
        unfolded Let_def] m2 demo_attention_call score range
    by (simp add: demo_array_def in_table_def slot_of_def int32_array_def)
  moreover have "softmax_mean 1 s (\<lambda>j. value_entry ?m demo_vals 1 1 32 0 3 0) = 5" for s
    by (simp add: softmax_mean_def value_entry_def demo_array_def)
  ultimately have "\<bar>m2 (9, 3) - 5\<bar> \<le> 5 / 10 ^ 6" by (simp add: out_index_def)
  with c(1) m1 m2 show ?thesis by blast
qed

end
