(* ===== verification/Block_Flash.thy ===== *)
theory Block_Flash
  imports Metal_Kernels
begin

text \<open>
  \<open>reshape_and_cache_flash\<close> of the extension: as \<open>reshape_and_cache\<close>, for caches of the shape
  \<open>[blocks, block_size, heads, head_size]\<close>. It is bound in the extension, but no Python module of the
  package calls it.
\<close>

section \<open>The kernel and its host function\<close>

definition reshape_and_cache_flash_thread ::
  "nat \<Rightarrow> nat \<Rightarrow> nat \<Rightarrow> nat \<Rightarrow> int list \<Rightarrow> int \<Rightarrow> int \<Rightarrow> int \<Rightarrow> int \<Rightarrow> int \<Rightarrow> int \<Rightarrow> int \<Rightarrow> int \<Rightarrow>
     (nat \<times> int) move list option" where
  "reshape_and_cache_flash_thread key val key_cache value_cache slot_mapping key_stride value_stride
       num_heads head_size block_size threads token_idx tid =
     (let slot_idx = slot_mapping ! nat token_idx in
      if slot_idx < 0 then Some []
      else
        let block_idx = slot_idx div block_size;
            block_offset = slot_idx mod block_size;
            n = i32 (num_heads * head_size)
        in map_option
          (\<lambda>is. concat (map (\<lambda>i.
             let tgt_key_idx = i64 (block_idx * block_size * num_heads * head_size +
                   block_offset * num_heads * head_size + i);
                 tgt_value_idx = i64 (block_idx * block_size * num_heads * head_size +
                   block_offset * num_heads * head_size + i)
             in [((key_cache, tgt_key_idx), (key, i64 (token_idx * key_stride + i))),
                 ((value_cache, tgt_value_idx), (val, i64 (token_idx * value_stride + i)))]) is))
          (strided tid n threads))"

definition reshape_and_cache_flash_host ::
  "darray \<Rightarrow> darray \<Rightarrow> darray \<Rightarrow> darray \<Rightarrow> iarray \<Rightarrow> py_exn + ((darray \<times> darray) \<times> kernel_call)" where
  "reshape_and_cache_flash_host key val key_cache value_cache slot_mapping =
     (case dtype_str (da_dtype key) of
        Inl e \<Rightarrow> Inl e
      | Inr kt \<Rightarrow>
          if length (da_shape key) < 3 \<or> length (da_shape key_cache) < 2 then Inl IndexError
          else
            let num_heads = i32 (int (da_shape key ! 1));
                head_size = i32 (int (da_shape key ! 2));
                block_size = i32 (int (da_shape key_cache ! 1));
                slots_i32 = map i32 (ia_data slot_mapping);
                num_tokens = int (da_shape key ! 0);
                key_stride = i32 (da_strides key ! 0);
                value_stride = i32 (da_strides val ! 0);
                threads = min 512 (i32 (num_heads * head_size) mod 2 ^ 64)
            in Inr ((key_cache, value_cache),
                 \<lparr>kc_name = ''reshape_and_cache_flash_'' @ kt,
                  kc_threads = grid num_tokens threads
                    (reshape_and_cache_flash_thread (da_buffer key) (da_buffer val) (da_buffer key_cache)
                       (da_buffer value_cache) slots_i32 key_stride value_stride num_heads head_size
                       block_size threads)\<rparr>))"

section \<open>Admissible arguments\<close>

text \<open>\<open>T\<close> tokens of \<open>H\<close> heads with \<open>D\<close> entries, caches of \<open>nb\<close> blocks with \<open>B\<close> slots.\<close>

definition flash_args ::
  "darray \<Rightarrow> darray \<Rightarrow> darray \<Rightarrow> darray \<Rightarrow> iarray \<Rightarrow> nat \<Rightarrow> nat \<Rightarrow> nat \<Rightarrow> nat \<Rightarrow> nat \<Rightarrow> bool" where
  "flash_args key val kc vc sm T H D B nb \<longleftrightarrow>
     da_shape key = [T, H, D] \<and> da_shape val = [T, H, D] \<and>
     da_shape kc = [nb, B, H, D] \<and> da_shape vc = [nb, B, H, D] \<and>
     da_dtype key \<in> {Float32, Float16, Bfloat16} \<and>
     da_dtype val = da_dtype key \<and> da_dtype kc = da_dtype key \<and> da_dtype vc = da_dtype key \<and>
     0 < H \<and> 0 < D \<and> 0 < B \<and> H * D + 512 \<le> 2 ^ 31 \<and> nb * B < 2 ^ 31 \<and> T < 2 ^ 31 \<and>
     (\<forall>a \<in> {key, val}. da_strides a \<noteq> [] \<and> 0 \<le> hd (da_strides a) \<and> hd (da_strides a) < 2 ^ 31) \<and>
     length (ia_data sm) = T \<and>
     (\<forall>t \<in> {0..<int T}. - (2 ^ 31) \<le> slot_of sm t \<and> slot_of sm t < int (nb * B)) \<and>
     (\<forall>t \<in> {0..<int T}. \<forall>u \<in> {0..<int T}. slot_of sm t = slot_of sm u \<longrightarrow> 0 \<le> slot_of sm t \<longrightarrow> t = u) \<and>
     da_buffer kc \<noteq> da_buffer vc \<and> {da_buffer key, da_buffer val} \<inter> {da_buffer kc, da_buffer vc} = {}"

lemma flash_argsD:
  assumes "flash_args key val kc vc sm T H D B nb"
  shows "da_shape key = [T, H, D]" "da_shape kc = [nb, B, H, D]"
    "da_dtype key \<in> {Float32, Float16, Bfloat16}"
    "0 < H" "0 < D" "0 < B" "H * D + 512 \<le> 2 ^ 31" "nb * B < 2 ^ 31" "T < 2 ^ 31"
    "da_strides key \<noteq> []" "da_strides val \<noteq> []" "length (ia_data sm) = T"
    "a \<in> {key, val} \<Longrightarrow> 0 \<le> hd (da_strides a) \<and> hd (da_strides a) < 2 ^ 31"
    "t \<in> {0..<int T} \<Longrightarrow> - (2 ^ 31) \<le> slot_of sm t \<and> slot_of sm t < int (nb * B)"
    "t \<in> {0..<int T} \<Longrightarrow> u \<in> {0..<int T} \<Longrightarrow> slot_of sm t = slot_of sm u \<Longrightarrow> 0 \<le> slot_of sm t \<Longrightarrow> t = u"
    "da_buffer kc \<noteq> da_buffer vc" "{da_buffer key, da_buffer val} \<inter> {da_buffer kc, da_buffer vc} = {}"
  using assms unfolding flash_args_def by blast+

lemma flash_slots: "flash_args key val kc vc sm T H D B nb \<Longrightarrow> int (nb * B) < 2 ^ 31"
proof -
  assume "flash_args key val kc vc sm T H D B nb"
  from flash_argsD(8) [OF this] have "int (nb * B) < int (2 ^ 31)" by (simp only: of_nat_less_iff)
  then show ?thesis by (simp only: of_nat_power of_nat_numeral)
qed

text \<open>The position of an entry of a slot: the slots follow each other without gaps.\<close>

definition flash_pos :: "int \<Rightarrow> int \<Rightarrow> int \<Rightarrow> int \<Rightarrow> int" where
  "flash_pos H D s i = s * (H * D) + i"

lemma flash_pos_inj:
  assumes "0 \<le> i" "i < H * D" "0 \<le> j" "j < H * D" "flash_pos H D s i = flash_pos H D s' j"
  shows "s = s' \<and> i = j"
proof -
  define n where "n = H * D"
  have b: "0 \<le> i" "i < n" "0 \<le> j" "j < n" "s * n + i = s' * n + j"
    using assms by (simp_all add: n_def flash_pos_def)
  have "(s * n + i) div n = s" "(s' * n + j) div n = s'"
    using b(1-4) by (simp_all add: div_pos_pos_trivial)
  then show ?thesis using b(5) by simp
qed

text \<open>None of the 64-bit indices wraps around.\<close>

lemma flash_indices:
  assumes a: "flash_args key val kc vc sm T H D B nb" and t: "t \<in> {0..<int T}"
    and i: "i \<in> {0..<int H * int D}" and s: "0 \<le> s" "s < int (nb * B)" and v: "v \<in> {key, val}"
  shows "i64 (s div int B * int B * int H * int D + s mod int B * int H * int D + i) =
      flash_pos (int H) (int D) s i"
    and "i64 (t * i32 (da_strides v ! 0) + i) = t * hd (da_strides v) + i"
proof -
  note d = flash_argsD [OF a]
  have HD: "int H * int D < 2 ^ 31" "0 \<le> int H * int D" using d(7) by (simp_all flip: of_nat_mult)
  have "s div int B * int B * int H * int D + s mod int B * int H * int D =
      (s div int B * int B + s mod int B) * (int H * int D)" by (simp only: distrib_right mult.assoc)
  then have e: "s div int B * int B * int H * int D + s mod int B * int H * int D + i =
      flash_pos (int H) (int D) s i" by (simp add: flash_pos_def)
  have small: "i64 (x * y + i) = x * y + i" if "0 \<le> x" "x < 2 ^ 31" "0 \<le> y" "y < 2 ^ 31" for x y
  proof (rule i64_id)
    have "x * y \<le> 2 ^ 31 * 2 ^ 31" using that by (intro mult_mono) simp_all
    moreover have "0 \<le> x * y" using that by simp
    ultimately show "- (2 ^ 63) \<le> x * y + i" "x * y + i < 2 ^ 63" using i HD by auto
  qed
  have "s < 2 ^ 31" using s(2) flash_slots [OF a] by (rule less_trans)
  then show "i64 (s div int B * int B * int H * int D + s mod int B * int H * int D + i) =
      flash_pos (int H) (int D) s i"
    unfolding e unfolding flash_pos_def using s(1) HD by (intro small)
  have st: "da_strides v ! 0 = hd (da_strides v)" using d(10,11) v by (auto simp: hd_conv_nth)
  have str: "0 \<le> hd (da_strides v)" "hd (da_strides v) < 2 ^ 31" using d(13) [OF v] by blast+
  have "0 \<le> t" "t < 2 ^ 31" using t d(9) by simp_all
  then show "i64 (t * i32 (da_strides v ! 0) + i) = t * hd (da_strides v) + i"
    unfolding st i32_nonneg [OF str] using str by (intro small)
qed

section \<open>The moves of a launch\<close>

definition flash_moves ::
  "darray \<Rightarrow> darray \<Rightarrow> darray \<Rightarrow> darray \<Rightarrow> iarray \<Rightarrow> int \<Rightarrow> int \<Rightarrow> int \<Rightarrow> int \<Rightarrow> (nat \<times> int) move set" where
  "flash_moves key val kc vc sm H D t i =
     (if slot_of sm t < 0 then {}
      else {((da_buffer kc, flash_pos H D (slot_of sm t) i), (da_buffer key, t * hd (da_strides key) + i)),
            ((da_buffer vc, flash_pos H D (slot_of sm t) i), (da_buffer val, t * hd (da_strides val) + i))})"

lemma flash_host:
  assumes a: "flash_args key val kc vc sm T H D B nb"
  shows "\<exists>call mss. reshape_and_cache_flash_host key val kc vc sm = Inr ((kc, vc), call) \<and>
    kc_name call \<in> set cache_kernels \<and> kc_threads call = Some mss \<and>
    set (concat mss) = (\<Union>t \<in> {0..<int T}. \<Union>i \<in> {0..<int H * int D}.
      flash_moves key val kc vc sm (int H) (int D) t i)"
proof -
  note d = flash_argsD [OF a]
  have n: "0 < int H * int D" "int H * int D + 512 \<le> 2 ^ 31"
    using d(4,5,7) by (simp_all flip: of_nat_mult)
  have "int H * 1 \<le> int H * int D" "int D * 1 \<le> int D * int H" using d(4,5) by (intro mult_left_mono; simp)+
  then have small: "int H < 2 ^ 31" "int D < 2 ^ 31"
    using n by (simp_all add: mult.commute)
  define BS where "BS = i32 (int B)"
  have BS: "BS = int B" if "t \<in> {0..<int T}" "0 \<le> slot_of sm t" for t
  proof -
    have "0 < nb" using d(14) [OF that(1)] that(2) by (cases nb) simp_all
    then have "B \<le> nb * B" by simp
    then have "B < 2 ^ 31" using d(8) by (rule le_less_trans)
    then have "int B < 2 ^ 31" by simp
    then show ?thesis unfolding BS_def by (intro i32_nonneg) simp_all
  qed
  let ?th = "min 512 (int H * int D)"
  let ?mv = "\<lambda>t i. [((da_buffer kc, i64 (slot_of sm t div BS * BS * int H * int D +
        slot_of sm t mod BS * int H * int D + i)), (da_buffer key, i64 (t * i32 (da_strides key ! 0) + i))),
      ((da_buffer vc, i64 (slot_of sm t div BS * BS * int H * int D +
        slot_of sm t mod BS * int H * int D + i)), (da_buffer val, i64 (t * i32 (da_strides val ! 0) + i)))]"
  let ?F = "\<lambda>t js. if slot_of sm t < 0 then [] else concat (map (?mv t) js)"
  let ?G = "\<lambda>t i. if slot_of sm t < 0 then {} else set (?mv t i)"
  let ?body = "reshape_and_cache_flash_thread (da_buffer key) (da_buffer val) (da_buffer kc) (da_buffer vc)
    (map i32 (ia_data sm)) (i32 (da_strides key ! 0)) (i32 (da_strides val ! 0)) (int H) (int D) BS ?th"
  have slot: "map i32 (ia_data sm) ! nat t = slot_of sm t" if "t \<in> {0..<int T}" for t
  proof -
    have "- (2 ^ 31) \<le> slot_of sm t" "slot_of sm t < 2 ^ 31" using d(14) [OF that] flash_slots [OF a] by simp_all
    then have "i32 (slot_of sm t) = slot_of sm t" by (rule i32_id)
    moreover have "nat t < length (ia_data sm)" using d(12) that by auto
    ultimately show ?thesis by (simp add: slot_of_def)
  qed
  have i32n: "i32 (int H * int D) = int H * int D" by (rule i32_nonneg) (use n in simp_all)
  have "\<exists>mss. grid (int T) ?th ?body = Some mss \<and>
    set (concat mss) = (\<Union>t \<in> {0..<int T}. \<Union>i \<in> {0..<int H * int D}. ?G t i)"
  proof (rule grid_moves)
    fix g t :: int and js
    assume "0 \<le> g" "g < int T" "strided t (int H * int D) ?th = Some js"
    then show "?body g t = Some (?F g js)"
      using slot [of g] by (simp add: reshape_and_cache_flash_thread_def Let_def i32n del: of_nat_mult)
  next
    fix g :: int and js
    show "set (?F g js) = (\<Union>i \<in> set js. ?G g i)"
      by (cases "slot_of sm g < 0") (simp_all only: if_True if_False set_concat set_map list.set(1), auto)
  qed (use n in simp_all)
  moreover have "(\<Union>t \<in> {0..<int T}. \<Union>i \<in> {0..<int H * int D}. ?G t i) =
      (\<Union>t \<in> {0..<int T}. \<Union>i \<in> {0..<int H * int D}. flash_moves key val kc vc sm (int H) (int D) t i)"
  proof (intro SUP_cong refl)
    fix t i assume ti: "t \<in> {0..<int T}" "i \<in> {0..<int H * int D}"
    show "?G t i = flash_moves key val kc vc sm (int H) (int D) t i"
    proof (cases "slot_of sm t < 0")
      case False
      then have s: "0 \<le> slot_of sm t" "slot_of sm t < int (nb * B)" using d(14) [OF ti(1)] by simp_all
      show ?thesis
        using False flash_indices [OF a ti s, of key] flash_indices [OF a ti s, of val]
        by (simp add: flash_moves_def BS [OF ti(1) s(1)])
    qed (simp add: flash_moves_def)
  qed
  ultimately obtain mss where mss: "grid (int T) ?th ?body = Some mss" "set (concat mss) =
      (\<Union>t \<in> {0..<int T}. \<Union>i \<in> {0..<int H * int D}. flash_moves key val kc vc sm (int H) (int D) t i)"
    by (auto simp only:)
  obtain kt where ty: "dtype_str (da_dtype key) = Inr kt"
    "''reshape_and_cache_flash_'' @ kt \<in> set cache_kernels"
    using d(3) unfolding cache_kernels_def by auto
  have cd: "i32 (int H) = int H" "i32 (int D) = int D" using small by (simp_all add: i32_nonneg)
  have th: "(int H * int D) mod 18446744073709551616 = int H * int D"
    using n by (intro mod_pos_pos_trivial) simp_all
  have "reshape_and_cache_flash_host key val kc vc sm = Inr ((kc, vc),
      \<lparr>kc_name = ''reshape_and_cache_flash_'' @ kt, kc_threads = Some mss\<rparr>)"
    unfolding reshape_and_cache_flash_host_def
    by (simp add: ty d(1,2) cd i32n th BS_def [symmetric] mss(1) Let_def del: of_nat_mult)
  then show ?thesis using ty(2) mss(2) by auto
qed

section \<open>The outcome\<close>

lemma flash_moves_cases:
  assumes "(e, f) \<in> flash_moves key val kc vc sm H D t i"
  obtains (key) "0 \<le> slot_of sm t" "e = (da_buffer kc, flash_pos H D (slot_of sm t) i)"
      "f = (da_buffer key, t * hd (da_strides key) + i)"
    | (val) "0 \<le> slot_of sm t" "e = (da_buffer vc, flash_pos H D (slot_of sm t) i)"
      "f = (da_buffer val, t * hd (da_strides val) + i)"
  using assms by (auto simp: flash_moves_def split: if_splits)

lemma flash_race_free:
  assumes a: "flash_args key val kc vc sm T H D B nb"
    and ms: "set ms = (\<Union>t \<in> {0..<int T}. \<Union>i \<in> {0..<int H * int D}.
      flash_moves key val kc vc sm (int H) (int D) t i)"
  shows "race_free ms"
  unfolding race_free_def
proof (intro conjI allI impI)
  note d = flash_argsD [OF a]
  fix e f f'
  assume "(e, f) \<in> set ms" "(e, f') \<in> set ms"
  then obtain t i u j where
    t: "t \<in> {0..<int T}" "i \<in> {0..<int H * int D}" "(e, f) \<in> flash_moves key val kc vc sm (int H) (int D) t i" and
    u: "u \<in> {0..<int T}" "j \<in> {0..<int H * int D}" "(e, f') \<in> flash_moves key val kc vc sm (int H) (int D) u j"
    unfolding ms by blast
  have same: "t = u \<and> i = j" if "0 \<le> slot_of sm t"
    "flash_pos (int H) (int D) (slot_of sm t) i = flash_pos (int H) (int D) (slot_of sm u) j"
  proof -
    have "slot_of sm t = slot_of sm u \<and> i = j"
      by (rule flash_pos_inj [OF _ _ _ _ that(2)]) (use t(2) u(2) in simp_all)
    then show ?thesis using d(15) [OF t(1) u(1)] that(1) by blast
  qed
  from t(3) show "f = f'"
    by (cases rule: flash_moves_cases; use u(3) in \<open>cases rule: flash_moves_cases\<close>)
      (use same d(16) in auto)
next
  let ?K = "{da_buffer kc, da_buffer vc}" and ?S = "{da_buffer key, da_buffer val}"
  have in_bufs: "fst e \<in> ?K \<and> fst f \<in> ?S" if "(e, f) \<in> set ms" for e f
    using that unfolding ms by (auto elim!: flash_moves_cases)
  show "fst ` set ms \<inter> snd ` set ms = {}"
  proof (rule equals0I)
    fix z assume z: "z \<in> fst ` set ms \<inter> snd ` set ms"
    then obtain f e where "(z, f) \<in> set ms" "(e, z) \<in> set ms" by force
    then have "fst z \<in> ?S \<inter> ?K" using in_bufs by blast
    then show False using flash_argsD(17) [OF a] by blast
  qed
qed

definition flash_stored :: "('e \<Rightarrow> 'e) \<Rightarrow> darray \<Rightarrow> darray \<Rightarrow> darray \<Rightarrow> darray \<Rightarrow> iarray \<Rightarrow> int \<Rightarrow> int \<Rightarrow>
    int \<Rightarrow> (nat \<times> int \<Rightarrow> 'e) \<Rightarrow> (nat \<times> int \<Rightarrow> 'e) \<Rightarrow> bool" where
  "flash_stored conv key val kc vc sm T H D m m' \<longleftrightarrow>
     (\<forall>t \<in> {0..<T}. \<forall>i \<in> {0..<H * D}. 0 \<le> slot_of sm t \<longrightarrow>
        m' (da_buffer kc, flash_pos H D (slot_of sm t) i) = conv (m (da_buffer key, t * hd (da_strides key) + i)) \<and>
        m' (da_buffer vc, flash_pos H D (slot_of sm t) i) = conv (m (da_buffer val, t * hd (da_strides val) + i))) \<and>
     (\<forall>b k. (\<forall>t \<in> {0..<T}. \<forall>i \<in> {0..<H * D}. 0 \<le> slot_of sm t \<longrightarrow>
          \<not> (b \<in> {da_buffer kc, da_buffer vc} \<and> k = flash_pos H D (slot_of sm t) i)) \<longrightarrow> m' (b, k) = m (b, k))"

lemma flash_launch:
  assumes a: "flash_args key val kc vc sm T H D B nb"
    and ms: "set (concat mss) = (\<Union>t \<in> {0..<int T}. \<Union>i \<in> {0..<int H * int D}.
      flash_moves key val kc vc sm (int H) (int D) t i)"
    and l: "launch conv mss m m'"
  shows "flash_stored conv key val kc vc sm (int T) (int H) (int D) m m'"
proof -
  note rf = flash_race_free [OF a ms]
  have m': "m' = moved conv (concat mss) m" using race_free_launch [OF rf] l by blast
  have "m' e = conv (m f)" if "t \<in> {0..<int T}" "i \<in> {0..<int H * int D}"
    "(e, f) \<in> flash_moves key val kc vc sm (int H) (int D) t i" for t i e f
    unfolding m' by (rule moved_in [OF rf]) (use that ms in blast)
  moreover have "m' (b, k) = m (b, k)"
    if bk: "\<forall>t \<in> {0..<int T}. \<forall>i \<in> {0..<int H * int D}. 0 \<le> slot_of sm t \<longrightarrow>
      \<not> (b \<in> {da_buffer kc, da_buffer vc} \<and> k = flash_pos (int H) (int D) (slot_of sm t) i)" for b k
  proof -
    have "(b, k) \<notin> fst ` set (concat mss)"
    proof
      assume "(b, k) \<in> fst ` set (concat mss)"
      then obtain f where "((b, k), f) \<in> set (concat mss)" by force
      then obtain t i where ti: "t \<in> {0..<int T}" "i \<in> {0..<int H * int D}"
        "((b, k), f) \<in> flash_moves key val kc vc sm (int H) (int D) t i" unfolding ms by blast
      from ti(3) show False by (cases rule: flash_moves_cases) (use bk ti in blast)+
    qed
    then show ?thesis unfolding m' by (rule moved_out)
  qed
  ultimately show ?thesis unfolding flash_stored_def by (simp add: flash_moves_def)
qed

text \<open>
  C32. \<open>reshape_and_cache_flash\<close> stores every token whose slot is not negative in that slot, the
  slots one after the other, whatever the order in which the threads run, and changes no other entry.
\<close>

theorem reshape_and_cache_flash_stores:
  assumes "flash_args key val kc vc sm T H D B nb"
  shows "\<exists>call. reshape_and_cache_flash_host key val kc vc sm = Inr ((kc, vc), call) \<and>
    (\<forall>m :: nat \<times> int \<Rightarrow> 'e. (\<exists>m'. evaluates conv call m m') \<and>
      (\<forall>m'. evaluates conv call m m' \<longrightarrow>
         flash_stored conv key val kc vc sm (int T) (int H) (int D) m m'))"
proof -
  obtain call mss where c: "reshape_and_cache_flash_host key val kc vc sm = Inr ((kc, vc), call)"
    "kc_name call \<in> set cache_kernels" "kc_threads call = Some mss"
    "set (concat mss) = (\<Union>t \<in> {0..<int T}. \<Union>i \<in> {0..<int H * int D}.
      flash_moves key val kc vc sm (int H) (int D) t i)"
    using flash_host [OF assms] by blast
  show ?thesis using c(1) evaluates_launch [OF c(3,2)] flash_launch [OF assms c(4)] by blast
qed

text \<open>One token in the second of two slots.\<close>

abbreviation "flash_demo_kc \<equiv> demo_array 2 [2, 1, 1, 4] [4, 4, 4, 1]"
abbreviation "flash_demo_vc \<equiv> demo_array 3 [2, 1, 1, 4] [4, 4, 4, 1]"

theorem reshape_and_cache_flash_stores_witness:
  "\<exists>call m'. reshape_and_cache_flash_host demo_key demo_val flash_demo_kc flash_demo_vc demo_slots =
       Inr ((flash_demo_kc, flash_demo_vc), call) \<and>
     evaluates (\<lambda>x. x) call (\<lambda>(b, i). int b + 10 * i) m' \<and> m' (3, 6) = 21"
proof -
  let ?m = "\<lambda>(b, i). int b + 10 * i"
  have "{0..<1 :: int} = {0}" by auto
  then have "flash_args demo_key demo_val flash_demo_kc flash_demo_vc demo_slots 1 1 4 1 2"
    by (simp add: flash_args_def demo_array_def slot_of_def)
  from reshape_and_cache_flash_stores [OF this, of "\<lambda>x. x :: int"] obtain call m' where
    c: "reshape_and_cache_flash_host demo_key demo_val flash_demo_kc flash_demo_vc demo_slots =
        Inr ((flash_demo_kc, flash_demo_vc), call)" "evaluates (\<lambda>x. x) call ?m m'"
      "flash_stored (\<lambda>x. x) demo_key demo_val flash_demo_kc flash_demo_vc demo_slots 1 1 4 ?m m'"
    by fastforce
  have "m' (3, flash_pos 1 4 (slot_of demo_slots 0) 2) = ?m (1, 0 * 4 + 2)"
    using c(3) [unfolded flash_stored_def, THEN conjunct1, rule_format, of 0 2]
    by (simp add: slot_of_def demo_array_def)
  then have "m' (3, 6) = 21" by (simp add: flash_pos_def slot_of_def)
  with c(1,2) show ?thesis by blast
qed

end
