(* ===== verification/Block_Chain.thy ===== *)
theory Block_Chain
  imports Metal_Kernels
begin

text \<open>
  What \<open>copy_blocks\<close> does when a target is also a source. Neither the host function nor the kernel
  orders the pairs, so that the result depends on which thread group runs first.
\<close>

section \<open>Threads one after the other\<close>

fun run_moves :: "('e \<Rightarrow> 'e) \<Rightarrow> 'l move list \<Rightarrow> ('l \<Rightarrow> 'e) \<Rightarrow> ('l \<Rightarrow> 'e)" where
  "run_moves conv [] m = m"
| "run_moves conv ((d, s) # ms) m = run_moves conv ms (m(d := conv (m s)))"

lemma run_thread:
  assumes "i < length ts" "ts ! i = (None, ms)"
  shows "(kernel_step conv)\<^sup>*\<^sup>* (m, ts) (run_moves conv ms m, ts[i := (None, [])])"
  using assms
proof (induction conv ms m arbitrary: ts rule: run_moves.induct)
  case (1 conv m)
  then show ?case by (metis list_update_id rtranclp.rtrancl_refl run_moves.simps(1))
next
  case (2 conv d s ms m)
  let ?t1 = "ts[i := (Some (d, conv (m s)), ms)]" and ?t2 = "ts[i := (None, ms)]"
  have "kernel_step conv (m, ts) (m, ?t1)" by (rule kernel_step.fetch [OF 2(2,3)])
  moreover have "kernel_step conv (m, ?t1) (m(d := conv (m s)), ?t1[i := (None, ms)])"
    by (rule kernel_step.commit) (use 2(2) in simp_all)
  moreover have "(kernel_step conv)\<^sup>*\<^sup>* (m(d := conv (m s)), ?t2)
      (run_moves conv ms (m(d := conv (m s))), ?t2[i := (None, [])])"
    by (rule 2(1)) (use 2(2) in simp_all)
  ultimately show ?case
    by (simp add: converse_rtranclp_into_rtranclp [OF _ converse_rtranclp_into_rtranclp])
qed

lemma launch_two:
  "launch conv [a, b] m (run_moves conv b (run_moves conv a m))"
  "launch conv [a, b] m (run_moves conv a (run_moves conv b m))"
proof -
  let ?ts = "[(None, a), (None, b)]"
  note first = run_thread [of 0 ?ts a conv m] run_thread [of 1 ?ts b conv m]
  have "(kernel_step conv)\<^sup>*\<^sup>* (m, ?ts) (run_moves conv b (run_moves conv a m), [(None, []), (None, [])])"
    using first(1) run_thread [of 1 "[(None, []), (None, b)]" b conv "run_moves conv a m"]
    by (simp add: rtranclp_trans)
  moreover have "(kernel_step conv)\<^sup>*\<^sup>* (m, ?ts) (run_moves conv a (run_moves conv b m), [(None, []), (None, [])])"
    using first(2) run_thread [of 0 "[(None, a), (None, [])]" a conv "run_moves conv b m"]
    by (simp add: rtranclp_trans)
  ultimately show "launch conv [a, b] m (run_moves conv b (run_moves conv a m))"
    "launch conv [a, b] m (run_moves conv a (run_moves conv b m))"
    unfolding launch_def idle_def by (force simp del: run_moves.simps)+
qed

section \<open>A chain of two pairs\<close>

text \<open>Caches of three blocks with one entry, and the pairs \<open>0 -> 1\<close> and \<open>1 -> 2\<close>.\<close>

definition chain_cache :: "nat \<Rightarrow> darray" where
  "chain_cache b = \<lparr>da_buffer = b, da_shape = [3, 1], da_strides = [1, 1], da_dtype = Float16\<rparr>"

definition chain_mapping :: iarray where
  "chain_mapping = \<lparr>ia_shape = [2, 2], ia_data = [0, 1, 1, 2], ia_width = 8\<rparr>"

lemma strided_one: "strided 0 1 1 = Some [0]"
  by (subst strided.simps, subst strided.simps) (simp add: i32_nonneg)

lemma chain_call:
  "copy_blocks [chain_cache 0] [chain_cache 1] chain_mapping =
     Inr (([chain_cache 0], [chain_cache 1]),
       [\<lparr>kc_name = ''copy_blocks_half'', kc_threads = Some
          [[((0, 1), (0, 0)), ((1, 1), (1, 0))], [((0, 2), (0, 1)), ((1, 2), (1, 1))]]\<rparr>])"
proof -
  have n: "block_numel (chain_cache b) = 1" for b
    by (simp add: block_numel_def chain_cache_def da_size_def i32_nonneg)
  have g: "group_size 1 = 1" by (simp add: group_size_def)
  have i: "i64 0 = 0" "i64 1 = 1" "i64 2 = 2" by (simp_all add: i64_id)
  have gs: "[0..0] = [0 :: int]" "[0..1] = [0, 1 :: int]" by (simp_all add: upto_rec1)
  have th: "copy_blocks_thread 0 1 [0, 1, 1, 2] 1 1 0 0 = Some [((0, 1), (0, 0)), ((1, 1), (1, 0))]"
    "copy_blocks_thread 0 1 [0, 1, 1, 2] 1 1 1 0 = Some [((0, 2), (0, 1)), ((1, 2), (1, 1))]"
    by (simp_all add: copy_blocks_thread_def Let_def strided_one i read_at_def i32_nonneg)
  have "grid 2 1 (copy_blocks_thread 0 1 [0, 1, 1, 2] 1 1) =
      Some [[((0, 1), (0, 0)), ((1, 1), (1, 0))], [((0, 2), (0, 1)), ((1, 2), (1, 1))]]"
    by (simp add: grid_def gs th [unfolded One_nat_def])
  moreover have "da_shape (chain_cache b) = [3, 1]" "da_dtype (chain_cache b) = Float16"
    "da_size (chain_cache b) = 3" "da_buffer (chain_cache b) = b" for b
    by (simp_all add: chain_cache_def da_size_def)
  moreover have "ia_shape chain_mapping = [2, 2]" "map i64 (ia_data chain_mapping) = [0, 1, 1, 2]"
    by (simp_all add: chain_mapping_def i)
  ultimately show ?thesis by (simp add: copy_blocks_def copy_blocks_host_def n g Let_def)
qed

text \<open>Block 2 receives the old content of block 1, or that of block 0.\<close>

theorem copy_blocks_chain_races:
  "\<exists>call m1 m2. copy_blocks [chain_cache 0] [chain_cache 1] chain_mapping =
      Inr (([chain_cache 0], [chain_cache 1]), [call]) \<and>
    evaluates (\<lambda>x. x) call m m1 \<and> m1 (0, 2) = m (0, 0) \<and>
    evaluates (\<lambda>x. x) call m m2 \<and> m2 (0, 2) = m (0, 1)"
proof -
  let ?a = "[((0, 1), (0, 0)), ((1, 1), (1, 0))] :: (nat \<times> int) move list"
  let ?b = "[((0, 2), (0, 1)), ((1, 2), (1, 1))] :: (nat \<times> int) move list"
  let ?call = "\<lparr>kc_name = ''copy_blocks_half'', kc_threads = Some [?a, ?b]\<rparr>"
  let ?m1 = "run_moves (\<lambda>x. x) ?b (run_moves (\<lambda>x. x) ?a m)"
  let ?m2 = "run_moves (\<lambda>x. x) ?a (run_moves (\<lambda>x. x) ?b m)"
  have "kc_name ?call \<in> set cache_kernels" by (simp add: cache_kernels_def)
  then have "evaluates (\<lambda>x. x) ?call m ?m1" "evaluates (\<lambda>x. x) ?call m ?m2"
    unfolding evaluates_def using launch_two [of "\<lambda>x. x" ?a ?b m] by (simp_all del: run_moves.simps)
  moreover have "?m1 (0, 2) = m (0, 0)" "?m2 (0, 2) = m (0, 1)" by simp_all
  ultimately show ?thesis using chain_call by blast
qed

end
