(* ===== verification/Float_Formats.thy ===== *)
theory Float_Formats
  imports Py_Prelude "HOL-Library.Word" "HOL-Library.Log_Nat"
begin

text \<open>
  Binary floating-point formats. The exponent and the fraction of a number, read as one natural
  number, are its \<^emph>\<open>code\<close>: codes are ordered as the magnitudes they stand for, an even code has an
  even fraction, and the code after the largest number is that of infinity. All conversions below
  are therefore stated on codes, and magnitudes are counted in units of the smallest number of the
  format, so that no fractions are needed.
\<close>

section \<open>Codes and magnitudes\<close>

text \<open>The magnitude of a code in a format with \<open>M\<close> bits of fraction.\<close>

definition magnitude :: "nat \<Rightarrow> nat \<Rightarrow> nat" where
  "magnitude M c = (if c < 2 ^ M then c else (2 ^ M + c mod 2 ^ M) * 2 ^ (c div 2 ^ M - 1))"

lemma magnitude_0 [simp]: "magnitude M 0 = 0"
  by (simp add: magnitude_def)

text \<open>The distance to the next number.\<close>

definition gap :: "nat \<Rightarrow> nat \<Rightarrow> nat" where
  "gap M c = 2 ^ (c div 2 ^ M - 1)"

lemma gap_pos [simp]: "0 < gap M c"
  by (simp add: gap_def)

lemma magnitude_split:
  assumes "q \<noteq> 0" "r < 2 ^ M"
  shows "magnitude M (q * 2 ^ M + r) = (2 ^ M + r) * 2 ^ (q - 1)"
proof -
  have "\<not> q * 2 ^ M + r < 2 ^ M" using assms(1) by (cases q) simp_all
  moreover have "(q * 2 ^ M + r) div 2 ^ M = q" "(q * 2 ^ M + r) mod 2 ^ M = r"
    using assms(2) by simp_all
  ultimately show ?thesis by (simp add: magnitude_def)
qed

lemma magnitude_Suc: "magnitude M (Suc c) = magnitude M c + gap M c"
proof -
  define q r where "q = c div 2 ^ M" and "r = c mod 2 ^ M"
  have c: "c = q * 2 ^ M + r" "r < 2 ^ M" unfolding q_def r_def by (rule div_mult_mod_eq [symmetric]) simp
  have g: "gap M c = 2 ^ (q - 1)" by (simp add: gap_def q_def)
  consider (low) "q = 0" "Suc r < 2 ^ M" | (first) "q = 0" "Suc r = 2 ^ M"
    | (same) "q \<noteq> 0" "Suc r < 2 ^ M" | (carry) "q \<noteq> 0" "Suc r = 2 ^ M"
    using c(2) by linarith
  then show ?thesis
  proof cases
    case low
    then show ?thesis using c g by (simp add: magnitude_def)
  next
    case first
    then have "Suc c = 1 * 2 ^ M + 0" using c(1) by simp
    then have "magnitude M (Suc c) = 2 ^ M" using magnitude_split [of 1 0 M] by simp
    then show ?thesis using first c g by (simp add: magnitude_def)
  next
    case same
    then have "Suc c = q * 2 ^ M + Suc r" using c(1) by simp
    then show ?thesis
      using magnitude_split [OF same] magnitude_split [OF same(1) c(2)] c(1) g by simp
  next
    case carry
    then have "Suc c = Suc q * 2 ^ M + 0" using c(1) by simp
    then have "magnitude M (Suc c) = 2 ^ M * 2 ^ q"
      using magnitude_split [of "Suc q" 0 M] by simp
    moreover obtain k where "q = Suc k" using carry by (cases q) simp_all
    moreover have "magnitude M c = (2 ^ M + r) * 2 ^ (q - 1)"
      using magnitude_split [OF carry(1) c(2)] c(1) by simp
    ultimately show ?thesis using carry(2) g by (simp add: algebra_simps flip: mult_Suc)
  qed
qed

lemma magnitude_strict_mono: "a < b \<Longrightarrow> magnitude M a < magnitude M b"
  by (rule lift_Suc_mono_less) (simp_all add: magnitude_Suc)

lemma magnitude_mono: "a \<le> b \<Longrightarrow> magnitude M a \<le> magnitude M b"
  using magnitude_strict_mono by (metis le_eq_less_or_eq)

lemma magnitude_inject [simp]: "magnitude M a = magnitude M b \<longleftrightarrow> a = b"
  using magnitude_strict_mono by (metis less_irrefl linorder_neqE_nat)

section \<open>Rounding to nearest, ties to even\<close>

text \<open>
  \<open>c\<close> is the code that IEEE 754 prescribes for the magnitude \<open>v / u\<close>: no code up to infinity, the
  code \<open>cmax\<close>, is nearer, and of two that are equally near it is the even one.
\<close>

definition distance :: "nat \<Rightarrow> nat \<Rightarrow> nat \<Rightarrow> nat \<Rightarrow> int" where
  "distance M u v c = \<bar>int (u * magnitude M c) - int v\<bar>"

definition nearest_even :: "nat \<Rightarrow> nat \<Rightarrow> nat \<Rightarrow> nat \<Rightarrow> nat \<Rightarrow> bool" where
  "nearest_even M cmax u v c \<longleftrightarrow> c \<le> cmax \<and>
     (\<forall>c' \<le> cmax. distance M u v c \<le> distance M u v c' \<and>
       (c' \<noteq> c \<longrightarrow> distance M u v c = distance M u v c' \<longrightarrow> even c))"

lemma nearest_even_unique:
  assumes "nearest_even M cmax u v c" "nearest_even M cmax u v c'" "0 < u"
  shows "c = c'"
proof (rule ccontr)
  assume ne: "c \<noteq> c'"
  have le: "c \<le> cmax" "c' \<le> cmax" using assms(1,2) by (simp_all add: nearest_even_def)
  have eq: "distance M u v c = distance M u v c'"
    using assms(1,2) le unfolding nearest_even_def by (meson order_antisym)
  have ev: "even c" "even c'" using assms(1,2) le eq ne unfolding nearest_even_def by metis+
  define a b where "a = min c c'" and "b = max c c'"
  have ab: "a < b" "even a" "even b" using ne ev by (auto simp: a_def b_def min_def max_def)
  then have m: "a < Suc a" "Suc a < b" by presburger+
  have "u * magnitude M a < u * magnitude M (Suc a)" "u * magnitude M (Suc a) < u * magnitude M b"
    using m assms(3) by (simp_all add: magnitude_strict_mono)
  moreover have "distance M u v a = distance M u v b" "distance M u v a = distance M u v c"
    using eq by (simp_all add: a_def b_def min_def max_def)
  ultimately have "distance M u v (Suc a) < distance M u v c" unfolding distance_def by linarith
  moreover have "Suc a \<le> cmax" using m le by (simp add: b_def max_def split: if_splits)
  ultimately show False using assms(1) unfolding nearest_even_def by (meson not_le)
qed

text \<open>A magnitude between two neighbours: the nearer one, and the even one in the middle.\<close>

lemma nearest_between:
  assumes lo: "u * magnitude M c \<le> v" and hi: "v \<le> u * magnitude M (Suc c)" and cmax: "c < cmax"
    and u: "0 < u" and d: "d = (if 2 * v < u * magnitude M c + u * magnitude M (Suc c) then c
      else if u * magnitude M c + u * magnitude M (Suc c) < 2 * v then Suc c
      else if even c then c else Suc c)"
  shows "nearest_even M cmax u v d"
proof -
  define m where "m c = u * magnitude M c" for c
  note dist = distance_def m_def [symmetric]
  have mono: "m a < m b" if "a < b" for a b using that u by (simp add: m_def magnitude_strict_mono)
  have out: "c' = c \<or> c' = Suc c \<or> m c' < m c \<or> m (Suc c) < m c'" for c'
    using mono [of c' c] mono [of "Suc c" c'] by linarith
  have le: "m c \<le> v" "v \<le> m (Suc c)" and step: "m c < m (Suc c)"
    using lo hi mono [of c "Suc c"] by (simp_all add: m_def)
  have d': "d = (if 2 * v < m c + m (Suc c) then c else if m c + m (Suc c) < 2 * v then Suc c
      else if even c then c else Suc c)"
    using d by (simp add: m_def)
  have "distance M u v d \<le> distance M u v c'" for c'
    using out [of c'] le unfolding dist d' by (elim disjE; simp; linarith)
  moreover have "even d" if "distance M u v d = distance M u v c'" "c' \<noteq> d" for c'
    using out [of c'] le step that unfolding dist d' by (elim disjE; simp split: if_splits; linarith)
  moreover have "d \<le> cmax" using cmax unfolding d' by (simp split: if_splits)
  ultimately show ?thesis by (simp add: nearest_even_def)
qed

text \<open>Beyond the last number the nearest code is that of infinity.\<close>

lemma nearest_above:
  assumes "u * magnitude M cmax \<le> v" "0 < u"
  shows "nearest_even M cmax u v cmax"
proof -
  have "distance M u v cmax < distance M u v c'" if "c' < cmax" for c'
  proof -
    have "u * magnitude M c' < u * magnitude M cmax"
      using that assms(2) by (simp add: magnitude_strict_mono)
    then show ?thesis using assms(1) unfolding distance_def by linarith
  qed
  then have "c' = cmax \<or> distance M u v cmax < distance M u v c'" if "c' \<le> cmax" for c'
    using that by (cases "c' = cmax") simp_all
  then show ?thesis unfolding nearest_even_def by (metis order_refl less_imp_le less_irrefl)
qed

section \<open>Computing the nearest code\<close>

text \<open>The code of the largest number not above \<open>n\<close>.\<close>

definition floor_code :: "nat \<Rightarrow> nat \<Rightarrow> nat" where
  "floor_code M n = (let s = floorlog 2 n - Suc M in s * 2 ^ M + n div 2 ^ s)"

lemma floor_code_bounds: "magnitude M (floor_code M n) \<le> n" "n < magnitude M (Suc (floor_code M n))"
proof -
  define s where "s = floorlog 2 n - Suc M"
  have fc: "floor_code M n = s * 2 ^ M + n div 2 ^ s" by (simp add: floor_code_def s_def Let_def)
  have upper: "n < 2 ^ (floorlog 2 n)" using floorlog_bounds [of n 2] by (cases "n = 0") simp_all
  have mag: "magnitude M (floor_code M n) = n div 2 ^ s * 2 ^ s \<and> gap M (floor_code M n) = 2 ^ s"
  proof (cases "floorlog 2 n \<le> Suc M")
    case True
    then have s: "s = 0" by (simp add: s_def)
    have "n < 2 * 2 ^ M"
      using upper power_increasing [OF True, of "2 :: nat"] by simp
    then have "n div 2 ^ M = 0 \<or> n div 2 ^ M = 1"
      using less_mult_imp_div_less [of n 2 "2 ^ M"] by linarith
    moreover have "magnitude M n = n" if "\<not> n < 2 ^ M"
      using magnitude_split [of 1 "n - 2 ^ M" M] that \<open>n < 2 * 2 ^ M\<close> by simp
    moreover have "magnitude M n = n" if "n < 2 ^ M" using that by (simp add: magnitude_def)
    ultimately show ?thesis using s fc by (cases "n < 2 ^ M") (auto simp: gap_def)
  next
    case False
    then have s: "floorlog 2 n = s + Suc M" by (simp add: s_def)
    then have n: "0 < n" by (cases "n = 0") (simp_all add: floorlog_def)
    have "2 ^ (s + M) \<le> n" using floorlog_bounds [OF n, of 2] s by simp
    then have lo: "2 ^ M \<le> n div 2 ^ s" by (simp add: less_eq_div_iff_mult_less_eq power_add mult.commute)
    have "n < 2 * 2 ^ M * 2 ^ s" using upper s by (simp add: power_add mult_ac)
    then have hi: "n div 2 ^ s < 2 * 2 ^ M" by (rule less_mult_imp_div_less)
    define r where "r = n div 2 ^ s - 2 ^ M"
    have r: "n div 2 ^ s = 2 ^ M + r" "r < 2 ^ M" using lo hi by (simp_all add: r_def)
    have c: "floor_code M n = Suc s * 2 ^ M + r" using fc r by simp
    then have "magnitude M (floor_code M n) = (2 ^ M + r) * 2 ^ s"
      using magnitude_split [of "Suc s" r M] r(2) by simp
    moreover have "gap M (floor_code M n) = 2 ^ s"
      unfolding c gap_def using r(2) by (simp del: mult_Suc)
    ultimately show ?thesis using r by simp
  qed
  show "magnitude M (floor_code M n) \<le> n" using mag by simp
  have "n mod 2 ^ s < 2 ^ s" by simp
  then have "n < n div 2 ^ s * 2 ^ s + 2 ^ s" using div_mult_mod_eq [of n "2 ^ s"] by linarith
  then show "n < magnitude M (Suc (floor_code M n))" using mag by (simp add: magnitude_Suc)
qed

lemma floor_code_magnitude [simp]: "floor_code M (magnitude M c) = c"
proof -
  note b = floor_code_bounds [where M = M and n = "magnitude M c"]
  have "\<not> c < floor_code M (magnitude M c)" using b(1) magnitude_strict_mono [of c _ M] by (meson not_le)
  moreover have "\<not> Suc (floor_code M (magnitude M c)) \<le> c" using b(2) magnitude_mono [of _ c M] by (meson not_le)
  ultimately show ?thesis by linarith
qed

text \<open>The nearest code to \<open>p / q\<close>.\<close>

definition round_ratio :: "nat \<Rightarrow> nat \<Rightarrow> nat \<Rightarrow> nat \<Rightarrow> nat" where
  "round_ratio M cmax p q =
     (let c = floor_code M (p div q);
          middle = q * magnitude M c + q * magnitude M (Suc c)
      in if cmax \<le> c then cmax
         else if 2 * p < middle then c
         else if middle < 2 * p then Suc c
         else if even c then c else Suc c)"

lemma round_ratio_nearest:
  assumes "0 < q"
  shows "nearest_even M cmax q p (round_ratio M cmax p q)"
proof -
  define c where "c = floor_code M (p div q)"
  note b = floor_code_bounds [where M = M and n = "p div q", folded c_def]
  have "q * magnitude M c \<le> q * (p div q)" using b(1) by simp
  then have lo: "q * magnitude M c \<le> p" using times_div_less_eq_dividend order_trans by blast
  have hi: "p \<le> q * magnitude M (Suc c)"
    using b(2) assms by (simp add: div_less_iff_less_mult mult.commute)
  show ?thesis
  proof (cases "cmax \<le> c")
    case True
    then have "q * magnitude M cmax \<le> p" using lo magnitude_mono [OF True, of M]
      by (meson mult_le_mono2 order_trans)
    then show ?thesis using nearest_above [OF _ assms] True
      by (simp add: round_ratio_def c_def [symmetric])
  next
    case False
    then show ?thesis
      using nearest_between [OF lo hi _ assms refl, of cmax]
      by (simp add: round_ratio_def c_def [symmetric] Let_def)
  qed
qed

lemma round_ratio_exact:
  assumes "0 < q" "p = q * magnitude M c" "c \<le> cmax"
  shows "round_ratio M cmax p q = c"
proof -
  have "p div q = magnitude M c" using assms by simp
  then have c: "floor_code M (p div q) = c" by simp
  have "2 * p < q * magnitude M c + q * magnitude M (Suc c)"
    using assms(1,2) by (simp add: magnitude_Suc distrib_left)
  then show ?thesis using assms(3) by (simp add: round_ratio_def c Let_def)
qed

text \<open>Dropping the last \<open>n\<close> bits of a code, rounded in the same way.\<close>

definition round_off :: "nat \<Rightarrow> nat \<Rightarrow> nat" where
  "round_off n d =
     (let c = d div 2 ^ n; r = d mod 2 ^ n
      in if 2 * r < 2 ^ n then c else if 2 ^ n < 2 * r then Suc c else if even c then c else Suc c)"

lemma magnitude_shift:
  assumes "b = 0 \<or> 2 ^ (M + n) \<le> d"
  shows "magnitude (M + n) (b * 2 ^ (M + n) + d) =
    2 ^ b * (2 ^ n * magnitude M (d div 2 ^ n) + d mod 2 ^ n * gap M (d div 2 ^ n))"
proof -
  define c r where "c = d div 2 ^ n" and "r = d mod 2 ^ n"
  have d: "d = c * 2 ^ n + r" "r < 2 ^ n" unfolding c_def r_def by (rule div_mult_mod_eq [symmetric]) simp
  show ?thesis
  proof (cases "d < 2 ^ (M + n)")
    case True
    then have "b = 0" "c < 2 ^ M"
      using assms unfolding c_def by (simp_all add: less_mult_imp_div_less power_add)
    then have "magnitude M c = c" "gap M c = 1" "magnitude (M + n) d = d"
      using True by (simp_all add: magnitude_def gap_def)
    then show ?thesis unfolding c_def [symmetric] r_def [symmetric] using \<open>b = 0\<close> d(1) by simp
  next
    case False
    then have "2 ^ M \<le> c" unfolding c_def by (simp add: less_eq_div_iff_mult_less_eq power_add)
    define q f where "q = c div 2 ^ M" and "f = c mod 2 ^ M"
    have c: "c = q * 2 ^ M + f" "f < 2 ^ M" unfolding q_def f_def by (rule div_mult_mod_eq [symmetric]) simp
    have q: "q \<noteq> 0" using \<open>2 ^ M \<le> c\<close> unfolding q_def by (simp add: div_eq_0_iff)
    have "f * 2 ^ n + r < (f + 1) * 2 ^ n" using d(2) by simp
    also have "\<dots> \<le> 2 ^ M * 2 ^ n" using c(2) by (intro mult_right_mono) simp_all
    finally have fr: "f * 2 ^ n + r < 2 ^ (M + n)" by (simp add: power_add)
    have "b * 2 ^ (M + n) + d = (b + q) * 2 ^ (M + n) + (f * 2 ^ n + r)"
      using c(1) d(1) by (simp add: algebra_simps power_add)
    then have "magnitude (M + n) (b * 2 ^ (M + n) + d) = (2 ^ (M + n) + (f * 2 ^ n + r)) * 2 ^ (b + q - 1)"
      using magnitude_split [of "b + q" _ "M + n"] q fr by simp
    also have "\<dots> = 2 ^ b * (2 ^ n * ((2 ^ M + f) * 2 ^ (q - 1)) + r * 2 ^ (q - 1))"
      using q by (cases q) (simp_all add: algebra_simps power_add)
    also have "(2 ^ M + f) * 2 ^ (q - 1) = magnitude M c" using magnitude_split [OF q c(2)] c(1) by simp
    also have "2 ^ (q - 1) = gap M c" by (simp add: gap_def q_def)
    finally show ?thesis by (simp add: c_def r_def)
  qed
qed

lemma round_off_nearest:
  assumes "b = 0 \<or> 2 ^ (M + n) \<le> d" "d < cmax * 2 ^ n"
  shows "nearest_even M cmax (2 ^ (b + n)) (magnitude (M + n) (b * 2 ^ (M + n) + d)) (round_off n d)"
proof -
  define c r where "c = d div 2 ^ n" and "r = d mod 2 ^ n"
  have r: "r < 2 ^ n" by (simp add: r_def)
  define g where "g = 2 ^ b * gap M c"
  have g: "0 < g" by (simp add: g_def)
  define lo where "lo = 2 ^ (b + n) * magnitude M c"
  have v: "magnitude (M + n) (b * 2 ^ (M + n) + d) = lo + r * g"
    unfolding magnitude_shift [OF assms(1)] c_def [symmetric] r_def [symmetric] lo_def g_def
    by (simp add: algebra_simps power_add)
  have hi: "2 ^ (b + n) * magnitude M (Suc c) = lo + 2 ^ n * g"
    by (simp add: magnitude_Suc lo_def g_def algebra_simps power_add)
  have rg: "lo + r * g \<le> lo + 2 ^ n * g" using r by simp
  have cmp: "2 * (lo + r * g) < lo + (lo + 2 ^ n * g) \<longleftrightarrow> 2 * r < 2 ^ n"
    "lo + (lo + 2 ^ n * g) < 2 * (lo + r * g) \<longleftrightarrow> 2 ^ n < 2 * r"
    using mult_less_cancel2 [of "2 * r" g "2 ^ n"] mult_less_cancel2 [of "2 ^ n" g "2 * r"] g by simp_all
  have "c < cmax" using assms(2) unfolding c_def by (rule less_mult_imp_div_less)
  show ?thesis unfolding v
  proof (rule nearest_between [of "2 ^ (b + n)" M c])
    show "round_off n d = (if 2 * (lo + r * g) < 2 ^ (b + n) * magnitude M c + 2 ^ (b + n) * magnitude M (Suc c)
        then c else if 2 ^ (b + n) * magnitude M c + 2 ^ (b + n) * magnitude M (Suc c) < 2 * (lo + r * g)
        then Suc c else if even c then c else Suc c)"
      unfolding hi lo_def [symmetric] cmp round_off_def c_def [symmetric] r_def [symmetric] Let_def by simp
  qed (use \<open>c < cmax\<close> rg in \<open>simp_all only: hi lo_def [symmetric] le_add1 zero_less_power zero_less_numeral\<close>)
qed

end
