(* ===== verification/Float_Ops.thy ===== *)
theory Float_Ops
  imports Float_Formats
begin

text \<open>
  The type \<open>float\<close> of the kernels as bit patterns, and the operations that the conversions use, as
  IEEE 754 has them: each gives the nearest number, ties to even, or a special value.
\<close>

unbundle bit_operations_syntax

type_synonym u32 = "32 word"
type_synonym u16 = "16 word"
type_synonym u8 = "8 word"

section \<open>Bit patterns\<close>

definition fp_negative :: "u32 \<Rightarrow> bool" where
  "fp_negative x = bit x 31"

definition fp_code :: "u32 \<Rightarrow> nat" where
  "fp_code x = unat (x AND 0x7FFFFFFF)"

definition fp_pack :: "bool \<Rightarrow> nat \<Rightarrow> u32" where
  "fp_pack neg c = (if neg then 0x80000000 else 0) OR word_of_nat c"

abbreviation inf_code :: nat where
  "inf_code \<equiv> 2139095040"

definition fp_nan :: u32 where
  "fp_nan = 0x7FC00000"

definition fp_inf :: u32 where
  "fp_inf = 0x7F800000"

definition is_nan :: "u32 \<Rightarrow> bool" where
  "is_nan x \<longleftrightarrow> inf_code < fp_code x"

definition is_inf :: "u32 \<Rightarrow> bool" where
  "is_inf x \<longleftrightarrow> fp_code x = inf_code"

text \<open>The magnitude of a number, in units of \<open>2^-149\<close>.\<close>

definition fp_mag :: "u32 \<Rightarrow> nat" where
  "fp_mag x = magnitude 23 (fp_code x)"

text \<open>The number nearest to \<open>p / q\<close> units.\<close>

definition fp_nearest :: "bool \<Rightarrow> nat \<Rightarrow> nat \<Rightarrow> u32" where
  "fp_nearest neg p q = fp_pack neg (round_ratio 23 inf_code p q)"

section \<open>Operations\<close>

definition fp_of_uint :: "u32 \<Rightarrow> u32" where
  "fp_of_uint n = fp_nearest False (unat n * 2 ^ 149) 1"

definition fp_neg :: "u32 \<Rightarrow> u32" where
  "fp_neg x = x XOR 0x80000000"

definition fp_add :: "u32 \<Rightarrow> u32 \<Rightarrow> u32" where
  "fp_add x y =
     (if is_nan x \<or> is_nan y \<or> is_inf x \<and> is_inf y \<and> fp_negative x \<noteq> fp_negative y then fp_nan
      else if is_inf x then x
      else if is_inf y then y
      else let t = (if fp_negative x then - 1 else 1) * int (fp_mag x) +
                   (if fp_negative y then - 1 else 1) * int (fp_mag y)
           in if t = 0 then fp_pack (fp_negative x \<and> fp_negative y) 0
              else fp_nearest (t < 0) (nat \<bar>t\<bar>) 1)"

definition fp_mul :: "u32 \<Rightarrow> u32 \<Rightarrow> u32" where
  "fp_mul x y =
     (if is_nan x \<or> is_nan y \<or> is_inf x \<and> fp_mag y = 0 \<or> fp_mag x = 0 \<and> is_inf y then fp_nan
      else if is_inf x \<or> is_inf y then fp_pack (fp_negative x \<noteq> fp_negative y) inf_code
      else fp_nearest (fp_negative x \<noteq> fp_negative y) (fp_mag x * fp_mag y) (2 ^ 149))"

definition fp_div :: "u32 \<Rightarrow> u32 \<Rightarrow> u32" where
  "fp_div x y =
     (if is_nan x \<or> is_nan y \<or> is_inf x \<and> is_inf y \<or> fp_mag x = 0 \<and> fp_mag y = 0 then fp_nan
      else if is_inf x \<or> fp_mag y = 0 then fp_pack (fp_negative x \<noteq> fp_negative y) inf_code
      else if is_inf y then fp_pack (fp_negative x \<noteq> fp_negative y) 0
      else fp_nearest (fp_negative x \<noteq> fp_negative y) (fp_mag x * 2 ^ 149) (fp_mag y))"

definition fp_ldexp :: "u32 \<Rightarrow> int \<Rightarrow> u32" where
  "fp_ldexp x k =
     (if is_nan x \<or> is_inf x then x
      else fp_nearest (fp_negative x) (fp_mag x * 2 ^ nat k) (2 ^ nat (- k)))"

section \<open>Bit patterns and codes\<close>

lemma unat_take_bit: "unat (take_bit n x) = unat x mod 2 ^ n" for x :: "'a :: len word"
  unfolding unsigned_take_bit_eq by (simp only: take_bit_eq_mod)

lemma low_bits: "x AND 0x7FFFFFFF = take_bit 31 (x :: u32)"
  by (simp add: take_bit_eq_mask mask_eq_exp_minus_1)

lemma fp_code_mod: "fp_code x = unat x mod 2 ^ 31"
  by (simp add: fp_code_def low_bits unat_take_bit)

lemma fp_code_less: "fp_code x < 2147483648"
  by (simp add: fp_code_mod)

lemma fp_negative_div: "fp_negative x \<longleftrightarrow> unat x div 2 ^ 31 = 1"
proof -
  have "unat x < 2 * 2 ^ 31" using unsigned_less [of x, where 'a = nat] by simp
  then have "unat x div 2 ^ 31 < 2" by (rule less_mult_imp_div_less)
  then have "unat x div 2 ^ 31 = 1 \<longleftrightarrow> odd (unat x div 2 ^ 31)" by (auto simp: less_2_cases_iff)
  moreover have "bit (unat x) 31 = bit x 31" by (simp add: bit_unsigned_iff)
  ultimately show ?thesis by (simp add: fp_negative_def bit_iff_odd [of "unat x"])
qed

lemma unat_float: "unat x = (if fp_negative x then 2 ^ 31 else 0) + fp_code x"
proof -
  have "unat x < 2 * 2 ^ 31" using unsigned_less [of x, where 'a = nat] by simp
  then have "unat x div 2 ^ 31 < 2" by (rule less_mult_imp_div_less)
  then have "unat x div 2 ^ 31 = (if fp_negative x then 1 else 0)"
    unfolding fp_negative_div by (auto simp: less_2_cases_iff)
  then show ?thesis
    using div_mult_mod_eq [of "unat x" "2 ^ 31"] unfolding fp_code_mod by (simp split: if_splits)
qed

lemma float_eqI: "fp_negative x = fp_negative y \<Longrightarrow> fp_code x = fp_code y \<Longrightarrow> x = y"
  by (simp add: word_unat_eq_iff unat_float)

text \<open>Disjoint bits: \<open>OR\<close> is addition.\<close>

lemma or_add: "b < 2 ^ n \<Longrightarrow> (a * 2 ^ n) OR b = a * 2 ^ n + (b :: nat)"
proof -
  assume b: "b < 2 ^ n"
  have "push_bit n a + b = push_bit n a OR b"
  proof (rule disjunctive_add)
    fix k
    show "\<not> bit (push_bit n a) k \<or> \<not> bit b k"
      using b by (metis bit_push_bit_iff bit_take_bit_iff not_less take_bit_nat_eq_self)
  qed
  then show ?thesis by (simp add: push_bit_eq_mult)
qed

lemma fp_pack_fields:
  assumes "c < 2147483648"
  shows "fp_negative (fp_pack neg c) = neg" "fp_code (fp_pack neg c) = c"
proof -
  have "unat (word_of_nat c :: u32) = c" using assms by (simp add: unsigned_of_nat take_bit_nat_eq_self)
  then have "unat (fp_pack neg c) = (if neg then 1 else 0) * 2 ^ 31 + c"
    using or_add [of c 31 1] assms by (simp add: fp_pack_def unsigned_or_eq)
  then show "fp_negative (fp_pack neg c) = neg" "fp_code (fp_pack neg c) = c"
    using assms unfolding fp_negative_div fp_code_mod by simp_all
qed

lemma fp_pack_self: "fp_pack (fp_negative x) (fp_code x) = x"
  by (rule float_eqI) (simp_all add: fp_pack_fields fp_code_less)

lemma fp_neg_fields: "fp_negative (fp_neg x) = (\<not> fp_negative x)" "fp_code (fp_neg x) = fp_code x"
proof -
  have f: "fp_neg x = flip_bit 31 x" by (simp add: fp_neg_def flip_bit_eq_xor)
  show "fp_negative (fp_neg x) = (\<not> fp_negative x)" by (simp add: f fp_negative_def bit_simps)
  have "take_bit 31 (fp_neg x) = take_bit 31 x"
    unfolding f by (rule bit_word_eqI) (auto simp: bit_simps)
  then show "fp_code (fp_neg x) = fp_code x" by (simp add: fp_code_def low_bits)
qed

section \<open>Exact results\<close>

lemma fp_nearest_exact:
  "0 < q \<Longrightarrow> p = q * magnitude 23 c \<Longrightarrow> c \<le> inf_code \<Longrightarrow> fp_nearest neg p q = fp_pack neg c"
  by (simp add: fp_nearest_def round_ratio_exact)

lemma magnitude_add:
  assumes "2 ^ M \<le> c"
  shows "magnitude M (k * 2 ^ M + c) = 2 ^ k * magnitude M c"
  using magnitude_shift [of k M 0 c] assms by simp

text \<open>Scaling a normal number by a power of two moves its exponent.\<close>

lemma fp_ldexp_normal:
  assumes c: "2 ^ 23 \<le> c" "c < inf_code" and k: "2 ^ 23 \<le> int c + k * 2 ^ 23" "int c + k * 2 ^ 23 < int inf_code"
  shows "fp_ldexp (fp_pack neg c) k = fp_pack neg (nat (int c + k * 2 ^ 23))"
proof -
  define d where "d = nat (int c + k * 2 ^ 23)"
  have d: "2 ^ 23 \<le> d" "d < inf_code" "int d = int c + k * 2 ^ 23" using k by (simp_all add: d_def)
  have "magnitude 23 c * 2 ^ nat k = 2 ^ nat (- k) * magnitude 23 d"
  proof (cases "0 \<le> k")
    case True
    then have "int d = int (nat k * 2 ^ 23 + c)" using d(3) by simp
    then have "d = nat k * 2 ^ 23 + c" by (simp only: of_nat_eq_iff)
    then show ?thesis using magnitude_add [OF c(1), of "nat k"] True by simp
  next
    case False
    then have "int c = int (nat (- k) * 2 ^ 23 + d)" using d(3) by simp
    then have "c = nat (- k) * 2 ^ 23 + d" by (simp only: of_nat_eq_iff)
    then show ?thesis using magnitude_add [OF d(1), of "nat (- k)"] False by simp
  qed
  then show ?thesis
    using c d(2) unfolding d_def [symmetric]
    by (simp add: fp_ldexp_def is_nan_def is_inf_def fp_pack_fields fp_mag_def fp_nearest_exact)
qed

end
