(* ===== verification/Float8.thy ===== *)
theory Float8
  imports Float_Ops
begin

text \<open>
  \<open>metal/float8.metal\<close>: conversions between \<open>float\<close> and two formats of eight bits, E4M3 and E5M2,
  on bit patterns. Also the conversions to \<open>bfloat\<close> of \<open>metal/utils.metal\<close>, for devices without it.
\<close>

section \<open>Decoding\<close>

definition fp8_e4m3_to_float :: "u8 \<Rightarrow> u32" where
  "fp8_e4m3_to_float v =
     (let s = drop_bit 7 v;
          ex = drop_bit 3 v AND 0xF;
          man = v AND 0x7
      in if ex = 0 then
           if man = 0 then (if s \<noteq> 0 then fp_neg 0 else 0)
           else let m = fp_div (fp_of_uint (ucast man)) (fp_of_uint 8);
                    val = fp_ldexp m (1 - 7)
                in if s \<noteq> 0 then fp_neg val else val
         else if ex = 0xF then
           if man \<noteq> 0 then fp_nan
           else if s \<noteq> 0 then fp_neg fp_inf else fp_inf
         else let m = fp_add (fp_of_uint 1) (fp_div (fp_of_uint (ucast man)) (fp_of_uint 8));
                  val = fp_ldexp m (int (unat ex) - 7)
              in if s \<noteq> 0 then fp_neg val else val)"

definition fp8_e5m2_to_float :: "u8 \<Rightarrow> u32" where
  "fp8_e5m2_to_float v =
     (let s = drop_bit 7 v;
          ex = drop_bit 2 v AND 0x1F;
          man = v AND 0x3
      in if ex = 0 then
           if man = 0 then (if s \<noteq> 0 then fp_neg 0 else 0)
           else let m = fp_div (fp_of_uint (ucast man)) (fp_of_uint 4);
                    val = fp_ldexp m (1 - 15)
                in if s \<noteq> 0 then fp_neg val else val
         else if ex = 0x1F then
           if man \<noteq> 0 then fp_nan
           else if s \<noteq> 0 then fp_neg fp_inf else fp_inf
         else let m = fp_add (fp_of_uint 1) (fp_div (fp_of_uint (ucast man)) (fp_of_uint 4));
                  val = fp_ldexp m (int (unat ex) - 15)
              in if s \<noteq> 0 then fp_neg val else val)"

section \<open>Encoding\<close>

text \<open>
  Shifts by an \<open>int\<close>. The language gives a shift by less than 0 or more than 31 no value; whatever
  a device makes of it is the parameter \<open>far\<close>.
\<close>

type_synonym far_shift = "bool \<Rightarrow> u32 \<Rightarrow> int \<Rightarrow> u32"

definition shl :: "far_shift \<Rightarrow> u32 \<Rightarrow> int \<Rightarrow> u32" where
  "shl far x k = (if 0 \<le> k \<and> k < 32 then push_bit (nat k) x else far True x k)"

definition shr :: "far_shift \<Rightarrow> u32 \<Rightarrow> int \<Rightarrow> u32" where
  "shr far x k = (if 0 \<le> k \<and> k < 32 then drop_bit (nat k) x else far False x k)"

text \<open>The normal path of \<open>fp32_to_fp8\<close>.\<close>

definition fp8_normal :: "nat \<Rightarrow> nat \<Rightarrow> u32 \<Rightarrow> int \<Rightarrow> u32 \<Rightarrow> u8" where
  "fp8_normal EXP_BITS MAN_BITS s e_fp8 m =
     (let shift = 23 - MAN_BITS;
          mant = drop_bit shift m;
          lsb = mant AND 1;
          rnd = drop_bit (shift - 1) m AND 1;
          sticky = (if m AND (push_bit (shift - 1) 1 - 1) \<noteq> 0 then 1 else 0);
          mant = mant + (rnd AND (sticky OR lsb))
      in if drop_bit MAN_BITS mant \<noteq> 0 then
           let mant = 0;
               e_fp8 = e_fp8 + 1
           in if e_fp8 > 2 ^ EXP_BITS - 2
              then ucast (push_bit 7 s OR push_bit MAN_BITS (push_bit EXP_BITS 1 - 1))
              else ucast (push_bit 7 s OR push_bit MAN_BITS (word_of_int e_fp8) OR
                     (mant AND (push_bit MAN_BITS 1 - 1)))
         else ucast (push_bit 7 s OR push_bit MAN_BITS (word_of_int e_fp8) OR
                (mant AND (push_bit MAN_BITS 1 - 1))))"

definition fp32_to_fp8 :: "far_shift \<Rightarrow> nat \<Rightarrow> nat \<Rightarrow> int \<Rightarrow> u32 \<Rightarrow> u8" where
  "fp32_to_fp8 far EXP_BITS MAN_BITS BIAS bits =
     (let s = drop_bit 31 bits;
          absf = bits AND 0x7FFFFFFF
      in if absf \<ge> 0x7F800000
         then ucast (push_bit 7 s OR push_bit MAN_BITS (push_bit EXP_BITS 1 - 1) OR
                (if absf \<noteq> 0x7F800000 then 1 else 0))
         else
           let e = int (unat (drop_bit 23 absf AND 0xFF)) - 127;
               m = absf AND 0x7FFFFF;
               e_fp8 = e + BIAS
           in if e_fp8 \<ge> 1 \<and> e_fp8 \<le> 2 ^ EXP_BITS - 2 then fp8_normal EXP_BITS MAN_BITS s e_fp8 m
              else if e_fp8 < 1 - int MAN_BITS then ucast (push_bit 7 s)
              else
                let rshift = (1 - e_fp8) + (23 - int MAN_BITS);
                    mant = 0x800000 OR m;
                    rounded = shr far (mant + shl far 1 (rshift - 1)) rshift
                in if rounded = 0 then ucast (push_bit 7 s)
                   else ucast (push_bit 7 s OR (rounded AND (push_bit MAN_BITS 1 - 1))))"

definition float_to_fp8_e4m3 :: "far_shift \<Rightarrow> u32 \<Rightarrow> u8" where
  "float_to_fp8_e4m3 far f = fp32_to_fp8 far 4 3 7 f"

definition float_to_fp8_e5m2 :: "far_shift \<Rightarrow> u32 \<Rightarrow> u8" where
  "float_to_fp8_e5m2 far f = fp32_to_fp8 far 5 2 15 f"

section \<open>Bfloat\<close>

definition float_to_bfloat_bits :: "u32 \<Rightarrow> u16" where
  "float_to_bfloat_bits x =
     (if x AND NOT 0x80000000 > 0x7F800000 then 0x7FC0
      else let float_bits = x;
               float_bits = float_bits + ((drop_bit 16 float_bits AND 1) + 0x7FFF)
           in ucast (drop_bit 16 float_bits))"

definition bfloat_bits_to_float :: "u16 \<Rightarrow> u32" where
  "bfloat_bits_to_float x = push_bit 16 (ucast x)"

section \<open>Fields of an eight-bit number\<close>

definition fp8_negative :: "u8 \<Rightarrow> bool" where
  "fp8_negative v = bit v 7"

definition fp8_code :: "u8 \<Rightarrow> nat" where
  "fp8_code v = unat (v AND 0x7F)"

lemma unat_drop_bit: "unat (drop_bit n x) = unat x div 2 ^ n" for x :: "'a :: len word"
  unfolding unat_drop_bit_eq by (simp only: drop_bit_eq_div)

lemma and_low_mask: "x AND (push_bit n 1 - 1) = take_bit n (x :: 'a :: len word)"
  by (simp add: take_bit_eq_mask mask_eq_exp_minus_1 push_bit_eq_mult)

lemma fp8_code_mod: "fp8_code v = unat v mod 2 ^ 7"
proof -
  have "v AND 0x7F = take_bit 7 v" by (simp add: take_bit_eq_mask mask_eq_exp_minus_1)
  then show ?thesis by (simp add: fp8_code_def unat_take_bit)
qed

lemma fp8_negative_div: "fp8_negative v \<longleftrightarrow> unat v div 2 ^ 7 = 1"
proof -
  have "unat v < 2 * 2 ^ 7" using unsigned_less [of v, where 'a = nat] by simp
  then have "unat v div 2 ^ 7 < 2" by (rule less_mult_imp_div_less)
  then have "unat v div 2 ^ 7 = 1 \<longleftrightarrow> odd (unat v div 2 ^ 7)" by (auto simp: less_2_cases_iff)
  moreover have "bit (unat v) 7 = bit v 7" by (simp add: bit_unsigned_iff)
  ultimately show ?thesis by (simp add: fp8_negative_def bit_iff_odd [of "unat v"])
qed

lemma fp8_fields:
  assumes "unat v = (if neg then 128 else 0) + c" "c < 128"
  shows "fp8_negative v = neg" "fp8_code v = c"
  using assms unfolding fp8_negative_div fp8_code_mod by simp_all

lemma unat_fp8: "unat v = (if fp8_negative v then 128 else 0) + fp8_code v"
proof -
  have "unat v < 2 * 2 ^ 7" using unsigned_less [of v, where 'a = nat] by simp
  then have "unat v div 2 ^ 7 < 2" by (rule less_mult_imp_div_less)
  then have "unat v div 2 ^ 7 = (if fp8_negative v then 1 else 0)"
    unfolding fp8_negative_div by (auto simp: less_2_cases_iff)
  then show ?thesis
    using div_mult_mod_eq [of "unat v" "2 ^ 7"] unfolding fp8_code_mod by (simp split: if_splits)
qed

text \<open>The bytes that the encoder puts together: \<open>s\<close> is the sign, below it \<open>e\<close> and then \<open>t\<close>.\<close>

lemma fp8_assemble:
  fixes bits :: u32
  assumes "e < 2 ^ (7 - M)" "t < 2 ^ M" "M \<le> 7" "unat e' = e" "unat t' = t"
  defines "v \<equiv> (ucast (push_bit 7 (drop_bit 31 bits) OR push_bit M e' OR t') :: u8)"
  shows "fp8_negative v = fp_negative bits" "fp8_code v = e * 2 ^ M + t"
proof -
  have "unat bits < 2 * 2 ^ 31" using unsigned_less [of bits, where 'a = nat] by simp
  then have "unat bits div 2 ^ 31 < 2" by (rule less_mult_imp_div_less)
  then have s: "unat (drop_bit 31 bits) = (if fp_negative bits then 1 else 0)"
    unfolding unat_drop_bit fp_negative_div by (auto simp: less_2_cases_iff)
  have "(e + 1) * 2 ^ M \<le> 2 ^ (7 - M) * 2 ^ M" using assms(1) by (intro mult_right_mono) simp_all
  also have "\<dots> = 128" using assms(3) by (simp flip: power_add)
  finally have "e * 2 ^ M + 2 ^ M \<le> 128" by simp
  then have et: "e * 2 ^ M + t < 128" "e * 2 ^ M < 128" using assms(2) by linarith+
  have "unat (push_bit M e') = e * 2 ^ M"
    unfolding unsigned_push_bit_eq using et assms(4) by (simp add: push_bit_eq_mult take_bit_nat_eq_self)
  moreover have "unat (push_bit 7 (drop_bit 31 bits)) = (if fp_negative bits then 1 else 0) * 2 ^ 7"
    unfolding unsigned_push_bit_eq using s by (simp add: push_bit_eq_mult take_bit_nat_eq_self)
  ultimately have "unat (push_bit 7 (drop_bit 31 bits) OR push_bit M e' OR t') =
      (if fp_negative bits then 1 else 0) * 2 ^ 7 + (e * 2 ^ M + t)"
    using or_add [OF assms(2), of e] or_add [of "e * 2 ^ M + t" 7] et(1) assms(5)
    by (simp add: unsigned_or_eq)
  then have "unat v = (if fp_negative bits then 128 else 0) + (e * 2 ^ M + t)"
    using et(1) unfolding v_def by (simp add: unsigned_ucast_eq take_bit_nat_eq_self)
  then show "fp8_negative v = fp_negative bits" "fp8_code v = e * 2 ^ M + t"
    using fp8_fields et(1) by blast+
qed

end
