(* ===== verification/Float8_Round.thy ===== *)
theory Float8_Round
  imports Float8
begin

text \<open>
  What the conversions compute, in terms of codes: which branch a number takes, and how it is rounded.
\<close>

section \<open>The fields of a number\<close>

lemma fp_fields:
  "unat (f AND 0x7FFFFFFF) = fp_code f"
  "f AND 0x7FFFFFFF \<ge> 0x7F800000 \<longleftrightarrow> inf_code \<le> fp_code f"
  "f AND 0x7FFFFFFF \<noteq> 0x7F800000 \<longleftrightarrow> fp_code f \<noteq> inf_code"
  "unat (drop_bit 23 (f AND 0x7FFFFFFF) AND 0xFF) = fp_code f div 2 ^ 23"
  "unat ((f AND 0x7FFFFFFF) AND 0x7FFFFF) = fp_code f mod 2 ^ 23"
proof -
  show a: "unat (f AND 0x7FFFFFFF) = fp_code f" by (simp add: fp_code_def)
  show "f AND 0x7FFFFFFF \<ge> 0x7F800000 \<longleftrightarrow> inf_code \<le> fp_code f"
    by (simp add: word_le_nat_alt a)
  show "f AND 0x7FFFFFFF \<noteq> 0x7F800000 \<longleftrightarrow> fp_code f \<noteq> inf_code"
    by (simp add: word_unat_eq_iff a)
  have m: "x AND 0xFF = take_bit 8 x" "x AND 0x7FFFFF = take_bit 23 x" for x :: u32
    by (simp_all add: take_bit_eq_mask mask_eq_exp_minus_1)
  have "fp_code f div 2 ^ 23 < 2 ^ 8"
    by (rule less_mult_imp_div_less) (use fp_code_less [of f] in simp)
  then show "unat (drop_bit 23 (f AND 0x7FFFFFFF) AND 0xFF) = fp_code f div 2 ^ 23"
    unfolding m unat_take_bit unat_drop_bit a by simp
  show "unat ((f AND 0x7FFFFFFF) AND 0x7FFFFF) = fp_code f mod 2 ^ 23"
    unfolding m(2) [of "f AND 0x7FFFFFFF"] unat_take_bit a ..
qed

section \<open>Rounding by the bits that are dropped\<close>

lemma round_off_bits:
  "round_off (Suc k) m = m div 2 ^ Suc k +
     (if odd (m div 2 ^ k) \<and> (m mod 2 ^ k \<noteq> 0 \<or> odd (m div 2 ^ Suc k)) then 1 else 0)"
proof -
  define c r h where "c = m div 2 ^ Suc k" and "r = m mod 2 ^ k" and "h = m div 2 ^ k mod 2"
  have h: "h = 0 \<or> h = 1" "odd (m div 2 ^ k) \<longleftrightarrow> h = 1" by (auto simp: h_def odd_iff_mod_2_eq_one)
  have "m mod 2 ^ Suc k = 2 ^ k * h + r"
    using mod_mult2_eq [of m "2 ^ k" 2] by (simp add: h_def r_def mult.commute)
  moreover have "r < 2 ^ k" by (simp add: r_def)
  ultimately show ?thesis
    using h unfolding round_off_def Let_def c_def [symmetric] r_def [symmetric] by (elim disjE) auto
qed

lemma and_1: "x AND 1 = (if odd x then 1 else 0)" for x :: u32
  by (simp add: and_one_eq mod2_eq_if)

lemma odd_unat: "odd (unat x) \<longleftrightarrow> odd x" for x :: "'a :: len word"
proof -
  have "bit (unat x) 0 = bit x 0" by (simp add: bit_unsigned_iff)
  then show ?thesis by (simp add: bit_0)
qed

text \<open>The rounding of the normal path, on words.\<close>

lemma round_word:
  fixes m :: u32
  assumes "unat m < 2 ^ 23" "n < 23"
  defines "mant \<equiv> drop_bit (Suc n) m"
  shows "unat (mant + ((drop_bit n m AND 1) AND
      ((if m AND (push_bit n 1 - 1) \<noteq> 0 then 1 else 0) OR (mant AND 1)))) = round_off (Suc n) (unat m)"
proof -
  have o: "odd mant \<longleftrightarrow> odd (unat m div 2 ^ Suc n)" "odd (drop_bit n m) \<longleftrightarrow> odd (unat m div 2 ^ n)"
    unfolding odd_unat [symmetric] mant_def unat_drop_bit by simp_all
  have st: "m AND (push_bit n 1 - 1) \<noteq> 0 \<longleftrightarrow> unat m mod 2 ^ n \<noteq> 0"
    unfolding and_low_mask by (metis unat_take_bit unat_eq_zero)
  have "(drop_bit n m AND 1) AND ((if m AND (push_bit n 1 - 1) \<noteq> 0 then 1 else 0) OR (mant AND 1)) =
      (if odd (unat m div 2 ^ n) \<and> (unat m mod 2 ^ n \<noteq> 0 \<or> odd (unat m div 2 ^ Suc n)) then 1 else 0)"
    unfolding and_1 o st by simp
  moreover have "unat mant < 2 ^ 23"
    using assms(1) unfolding mant_def unat_drop_bit by (rule order.strict_trans1 [OF div_le_dividend])
  then have "unat (mant + 1) = unat mant + 1" by (simp add: unat_word_ariths)
  ultimately show ?thesis
    unfolding round_off_bits unat_drop_bit [symmetric] mant_def [symmetric] by simp
qed

lemma round_off_bound: "m < 2 ^ (M + n) \<Longrightarrow> round_off n m \<le> 2 ^ M"
proof -
  assume "m < 2 ^ (M + n)"
  then have "m div 2 ^ n < 2 ^ M" by (intro less_mult_imp_div_less) (simp add: power_add)
  then show ?thesis unfolding round_off_def Let_def by simp
qed

lemma round_off_add:
  assumes "even k"
  shows "round_off n (k * 2 ^ n + m) = k + round_off n m"
  using assms unfolding round_off_def Let_def by simp

section \<open>The formats\<close>

text \<open>The exponent bits, fraction bits and bias of the two instances.\<close>

definition fp8_format :: "nat \<Rightarrow> nat \<Rightarrow> nat \<Rightarrow> bool" where
  "fp8_format E M B \<longleftrightarrow> (E, M, B) = (4, 3, 7) \<or> (E, M, B) = (5, 2, 15)"

lemma fp8_formatD:
  assumes "fp8_format E M B"
  shows "E + M = 7" "2 \<le> M" "M \<le> 3" "B < 127" "(2 :: nat) ^ (7 - M) = 2 ^ E" "Suc (22 - M) = 23 - M"
    "2 \<le> (2 :: nat) ^ E" "int (2 ^ E - 2) = 2 ^ E - 2"
  using assms by (auto simp: fp8_format_def)

text \<open>The code of infinity.\<close>

definition fp8_inf :: "nat \<Rightarrow> nat \<Rightarrow> nat" where
  "fp8_inf E M = (2 ^ E - 1) * 2 ^ M"

lemma unat_ones: "E < 32 \<Longrightarrow> unat (push_bit E 1 - 1 :: u32) = 2 ^ E - 1"
proof -
  assume "E < 32"
  then have "(2 :: nat) ^ E < 2 ^ 32" by (rule power_strict_increasing) simp
  moreover have "(push_bit E 1 - 1 :: u32) = word_of_nat (2 ^ E - 1)" by simp
  ultimately show ?thesis by (simp only: unsigned_of_nat) (simp add: take_bit_nat_eq_self)
qed

lemma fp8_normal_fields:
  fixes f :: u32
  assumes fmt: "fp8_format E M B" and m: "unat m < 2 ^ 23" and e: "1 \<le> e" "e \<le> 2 ^ E - 2"
  defines "v \<equiv> fp8_normal E M (drop_bit 31 f) (int e) m"
  shows "fp8_negative v = fp_negative f" "fp8_code v = e * 2 ^ M + round_off (23 - M) (unat m)"
proof -
  note d = fp8_formatD [OF fmt]
  have n: "23 - M - 1 = 22 - M" "22 - M < 23" by simp_all
  define mant where "mant = drop_bit (23 - M) m + ((drop_bit (22 - M) m AND 1) AND
      ((if m AND (push_bit (22 - M) 1 - 1) \<noteq> 0 then 1 else 0) OR (drop_bit (23 - M) m AND 1)))"
  have mant: "unat mant = round_off (23 - M) (unat m)"
    using round_word [OF m n(2)] unfolding mant_def d(6) .
  have le: "unat mant \<le> 2 ^ M"
    unfolding mant by (rule round_off_bound) (use m d(3) in simp)
  have v: "v = (if drop_bit M mant \<noteq> 0
      then if int e + 1 > 2 ^ E - 2 then ucast (push_bit 7 (drop_bit 31 f) OR push_bit M (push_bit E 1 - 1))
        else ucast (push_bit 7 (drop_bit 31 f) OR push_bit M (word_of_int (int e + 1)) OR (0 AND (push_bit M 1 - 1)))
      else ucast (push_bit 7 (drop_bit 31 f) OR push_bit M (word_of_int (int e)) OR (mant AND (push_bit M 1 - 1))))"
    unfolding v_def fp8_normal_def Let_def n(1) mant_def [symmetric] by simp
  have eb: "Suc e < 2 ^ 7" "Suc e < 2 ^ (7 - M)" using e fmt by (auto simp: fp8_format_def)
  have ew: "unat (word_of_int (int k) :: u32) = k" if "k < 2 ^ 7" for k
    using that by (simp add: unsigned_of_nat take_bit_nat_eq_self)
  have "fp8_negative v = fp_negative f \<and> fp8_code v = e * 2 ^ M + unat mant"
  proof (cases "unat mant = 2 ^ M")
    case True
    then have "drop_bit M mant \<noteq> 0" by (auto simp: word_unat_eq_iff unat_drop_bit)
    have E: "unat (push_bit E 1 - 1 :: u32) = 2 ^ E - 1" using d(1) by (intro unat_ones) simp
    show ?thesis
    proof (cases "e = 2 ^ E - 2")
      case max: True
      then have "2 ^ E - 1 = Suc e" using d(7) by simp
      then have "e * 2 ^ M + 2 ^ M = (2 ^ E - 1) * 2 ^ M" by simp
      then show ?thesis
        using fp8_assemble [OF _ _ _ E unat_0, of M f] v \<open>drop_bit M mant \<noteq> 0\<close> max True d(3,5,7) by simp
    next
      case False
      then have "\<not> int e + 1 > 2 ^ E - 2" using e(2) d(8) by linarith
      then show ?thesis
        using fp8_assemble [OF eb(2) _ _ ew [OF eb(1)] unat_0, of f] v \<open>drop_bit M mant \<noteq> 0\<close> True d(3)
        by (simp add: add.commute)
    qed
  next
    case False
    then have lt: "unat mant < 2 ^ M" using le by simp
    have "drop_bit M mant = 0" by (rule word_unat_eq_iff [THEN iffD2]) (simp only: unat_drop_bit unat_0 div_less lt)
    moreover have "mant AND (push_bit M 1 - 1) = mant"
      unfolding and_low_mask by (rule word_unat_eq_iff [THEN iffD2]) (simp only: unat_take_bit mod_less lt)
    ultimately have v: "v = ucast (push_bit 7 (drop_bit 31 f) OR push_bit M (word_of_int (int e)) OR mant)"
      using v by simp
    then show ?thesis
      using fp8_assemble [OF _ lt _ ew refl, of e f] eb d(3) unfolding v by simp
  qed
  then show "fp8_negative v = fp_negative f" "fp8_code v = e * 2 ^ M + round_off (23 - M) (unat m)"
    by (simp_all add: mant)
qed

section \<open>The branches of the encoder\<close>

text \<open>The exponents of a \<open>float\<close> and of its target differ by \<open>127 - B\<close>; these are the codes at which
  the branches change.\<close>

definition fp8_offset :: "nat \<Rightarrow> nat" where
  "fp8_offset B = 127 - B"

lemmas encode_simps = fp32_to_fp8_def Let_def fp_fields

lemma encode_special:
  fixes far :: far_shift
  assumes fmt: "fp8_format E M B" and c: "inf_code \<le> fp_code f"
  defines "v \<equiv> fp32_to_fp8 far E M (int B) f"
  shows "fp8_negative v = fp_negative f"
    "fp8_code v = fp8_inf E M + (if fp_code f = inf_code then 0 else 1)"
proof -
  note d = fp8_formatD [OF fmt]
  let ?t = "if fp_code f \<noteq> inf_code then 1 else 0 :: u32"
  have v: "v = ucast (push_bit 7 (drop_bit 31 f) OR push_bit M (push_bit E 1 - 1) OR ?t)"
    unfolding v_def using c by (simp add: encode_simps)
  have E: "unat (push_bit E 1 - 1 :: u32) = 2 ^ E - 1" using d(1) by (intro unat_ones) simp
  have t: "unat ?t = (if fp_code f \<noteq> inf_code then 1 else 0)" by simp
  have "(2 :: nat) ^ 1 \<le> 2 ^ M" using d(2) by (intro power_increasing) simp_all
  then have lt: "(if fp_code f \<noteq> inf_code then 1 else 0 :: nat) < 2 ^ M" by simp
  show "fp8_negative v = fp_negative f"
    "fp8_code v = fp8_inf E M + (if fp_code f = inf_code then 0 else 1)"
    using fp8_assemble [OF _ lt _ E t, of f] d(3,5) unfolding v fp8_inf_def by simp_all
qed

text \<open>The exponent field in the target, and the branches in terms of it.\<close>

lemma encode_finite:
  assumes fmt: "fp8_format E M B" and c: "fp_code f < inf_code"
  defines "e \<equiv> int (fp_code f div 2 ^ 23) - int (fp8_offset B)"
  shows "fp32_to_fp8 far E M (int B) f =
    (if e \<ge> 1 \<and> e \<le> 2 ^ E - 2 then fp8_normal E M (drop_bit 31 f) e ((f AND 0x7FFFFFFF) AND 0x7FFFFF)
     else if e < 1 - int M then ucast (push_bit 7 (drop_bit 31 f))
     else let rshift = (1 - e) + (23 - int M);
              rounded = shr far ((0x800000 OR ((f AND 0x7FFFFFFF) AND 0x7FFFFF)) + shl far 1 (rshift - 1)) rshift
          in if rounded = 0 then ucast (push_bit 7 (drop_bit 31 f))
             else ucast (push_bit 7 (drop_bit 31 f) OR (rounded AND (push_bit M 1 - 1))))"
proof -
  have "int (fp_code f div 2 ^ 23) - 127 + int B = e"
    using fp8_formatD(4) [OF fmt] by (simp add: e_def fp8_offset_def)
  then show ?thesis using c unfolding fp32_to_fp8_def Let_def fp_fields by simp
qed

lemma encode_normal:
  fixes far :: far_shift
  assumes fmt: "fp8_format E M B"
    and c: "(fp8_offset B + 1) * 2 ^ 23 \<le> fp_code f" "fp_code f < (fp8_offset B + (2 ^ E - 1)) * 2 ^ 23"
  defines "v \<equiv> fp32_to_fp8 far E M (int B) f"
  shows "fp8_negative v = fp_negative f"
    "fp8_code v = round_off (23 - M) (fp_code f - fp8_offset B * 2 ^ 23)"
proof -
  note d = fp8_formatD [OF fmt]
  define q where "q = fp_code f div 2 ^ 23"
  have q: "fp8_offset B + 1 \<le> q" "q < fp8_offset B + (2 ^ E - 1)"
    using c unfolding q_def by (simp_all add: less_eq_div_iff_mult_less_eq less_mult_imp_div_less)
  define e where "e = q - fp8_offset B"
  have e: "1 \<le> e" "e \<le> 2 ^ E - 2" "q = fp8_offset B + e" using q by (simp_all add: e_def)
  have "fp8_offset B + (2 ^ E - 1) \<le> 255" using fmt by (auto simp: fp8_format_def fp8_offset_def)
  then have "(fp8_offset B + (2 ^ E - 1)) * 2 ^ 23 \<le> 255 * 2 ^ 23" by (rule mult_right_mono) simp
  then have fin: "fp_code f < inf_code" using c(2) by simp
  let ?m = "(f AND 0x7FFFFFFF) AND 0x7FFFFF"
  have m: "unat ?m = fp_code f mod 2 ^ 23" "unat ?m < 2 ^ 23" by (simp_all only: fp_fields(5)) simp
  have ie: "int (fp_code f div 2 ^ 23) - int (fp8_offset B) = int e"
    unfolding q_def [symmetric] e(3) by simp
  have "int e \<ge> 1 \<and> int e \<le> 2 ^ E - 2" using e(1,2) d(8) by linarith
  then have v: "v = fp8_normal E M (drop_bit 31 f) (int e) ?m"
    unfolding v_def encode_finite [OF fmt fin] ie by simp
  note fields = fp8_normal_fields [OF fmt m(2) e(1,2), of f]
  show "fp8_negative v = fp_negative f" unfolding v by (rule fields)
  have "fp_code f = q * 2 ^ 23 + fp_code f mod 2 ^ 23"
    unfolding q_def by (rule div_mult_mod_eq [symmetric])
  then have "fp_code f - fp8_offset B * 2 ^ 23 = e * 2 ^ 23 + unat ?m"
    unfolding m(1) by (simp add: e(3) distrib_right)
  also have "e * 2 ^ 23 = (e * 2 ^ M) * 2 ^ (23 - M)" using d(3) by (simp flip: power_add)
  finally have sum: "fp_code f - fp8_offset B * 2 ^ 23 = (e * 2 ^ M) * 2 ^ (23 - M) + unat ?m" .
  have "round_off (23 - M) (fp_code f - fp8_offset B * 2 ^ 23) = e * 2 ^ M + round_off (23 - M) (unat ?m)"
    unfolding sum by (rule round_off_add) (use d(2) in simp)
  then show "fp8_code v = round_off (23 - M) (fp_code f - fp8_offset B * 2 ^ 23)"
    unfolding v fields(2) by simp
qed

text \<open>Below the smallest normal number: zero, or a subnormal number.\<close>

lemma encode_tiny:
  fixes far :: far_shift
  assumes fmt: "fp8_format E M B" and c: "fp_code f < (fp8_offset B + 1 - M) * 2 ^ 23"
  defines "v \<equiv> fp32_to_fp8 far E M (int B) f"
  shows "fp8_negative v = fp_negative f" "fp8_code v = 0"
proof -
  have off: "fp8_offset B + 1 - M \<le> 255" "M \<le> fp8_offset B"
    using fmt by (auto simp: fp8_format_def fp8_offset_def)
  then have "(fp8_offset B + 1 - M) * 2 ^ 23 \<le> 255 * 2 ^ 23" by (intro mult_right_mono) simp_all
  then have fin: "fp_code f < inf_code" using c by simp
  have "fp_code f div 2 ^ 23 < fp8_offset B + 1 - M" using c by (rule less_mult_imp_div_less)
  then have "int (fp_code f div 2 ^ 23) - int (fp8_offset B) < 1 - int M" using off by linarith
  then have v: "v = ucast (push_bit 7 (drop_bit 31 f) OR push_bit M 0 OR 0)"
    unfolding v_def encode_finite [OF fmt fin] by simp
  show "fp8_negative v = fp_negative f" "fp8_code v = 0"
    using fp8_assemble [of 0 M 0 0 0 f] fp8_formatD(3) [OF fmt] unfolding v by simp_all
qed

lemma subnormal_word:
  fixes m :: u32
  assumes m: "unat m < 2 ^ 23" and k: "0 < k" "k < 32"
  shows "unat (shr far ((0x800000 OR m) + shl far 1 (int k - 1)) (int k)) =
    (2 ^ 23 + unat m + 2 ^ (k - 1)) div 2 ^ k"
proof -
  have "unat (0x800000 OR m) = 1 * 2 ^ 23 + unat m"
    using or_add [OF m, of 1] by (simp add: unsigned_or_eq)
  moreover have "unat (shl far 1 (int k - 1)) = 2 ^ (k - 1)"
  proof -
    have "(2 :: nat) ^ (k - 1) < 2 ^ 32" using k by (intro power_strict_increasing) simp_all
    then have "unat (push_bit (k - 1) 1 :: u32) = 2 ^ (k - 1)"
      unfolding unsigned_push_bit_eq using k by (simp add: take_bit_nat_eq_self)
    moreover have "shl far 1 (int k - 1) = push_bit (k - 1) 1"
      using k by (simp add: shl_def nat_diff_distrib del: push_bit_of_1)
    ultimately show ?thesis by (simp only:)
  qed
  moreover have "(2 :: nat) ^ (k - 1) \<le> 2 ^ 30 * 2" using k power_increasing [of "k - 1" 31 "2 :: nat"] by simp
  ultimately have "unat ((0x800000 OR m) + shl far 1 (int k - 1)) = 2 ^ 23 + unat m + 2 ^ (k - 1)"
    using m by (simp add: unat_word_ariths(1))
  then show ?thesis using k by (simp add: shr_def unat_drop_bit)
qed

lemma masked_fields:
  fixes w f :: u32
  assumes "M \<le> 7"
  defines "v \<equiv> (if w = 0 then ucast (push_bit 7 (drop_bit 31 f))
    else ucast (push_bit 7 (drop_bit 31 f) OR (w AND (push_bit M 1 - 1))) :: u8)"
  shows "fp8_negative v = fp_negative f" "fp8_code v = unat w mod 2 ^ M"
proof -
  have v: "v = ucast (push_bit 7 (drop_bit 31 f) OR push_bit M 0 OR take_bit M w)"
    unfolding v_def and_low_mask by simp
  show "fp8_negative v = fp_negative f" "fp8_code v = unat w mod 2 ^ M"
    using fp8_assemble [of 0 M "unat w mod 2 ^ M" 0 "take_bit M w" f] assms(1) unat_take_bit [of M w]
    unfolding v by simp_all
qed

lemma encode_subnormal:
  fixes far :: far_shift
  assumes fmt: "fp8_format E M B"
    and c: "(fp8_offset B + 1 - M) * 2 ^ 23 \<le> fp_code f" "fp_code f < (fp8_offset B + 1) * 2 ^ 23"
  defines "v \<equiv> fp32_to_fp8 far E M (int B) f" and "u \<equiv> 2 ^ (fp8_offset B + 23 - M)"
  shows "fp8_negative v = fp_negative f" "fp8_code v = (2 * fp_mag f + u) div (2 * u) mod 2 ^ M"
proof -
  note d = fp8_formatD [OF fmt]
  have off: "fp8_offset B + 1 \<le> 255" "M \<le> fp8_offset B"
    using fmt by (auto simp: fp8_format_def fp8_offset_def)
  then have "(fp8_offset B + 1) * 2 ^ 23 \<le> 255 * 2 ^ 23" by (intro mult_right_mono) simp_all
  then have fin: "fp_code f < inf_code" using c(2) by simp
  define q where "q = fp_code f div 2 ^ 23"
  have q: "fp8_offset B + 1 - M \<le> q" "q < fp8_offset B + 1"
    using c unfolding q_def by (simp_all add: less_eq_div_iff_mult_less_eq less_mult_imp_div_less)
  define k where "k = fp8_offset B + 1 - q + (23 - M)"
  have k: "0 < k" "k < 32" "(1 - (int q - int (fp8_offset B))) + (23 - int M) = int k"
    using q d(3) off by (simp_all add: k_def)
  let ?m = "(f AND 0x7FFFFFFF) AND 0x7FFFFF"
  have m: "unat ?m = fp_code f mod 2 ^ 23" "unat ?m < 2 ^ 23" by (simp_all only: fp_fields(5)) simp
  define w where "w = shr far ((0x800000 OR ?m) + shl far 1 (int k - 1)) (int k)"
  have "\<not> int q - int (fp8_offset B) \<ge> 1" "\<not> int q - int (fp8_offset B) < 1 - int M"
    using q off by linarith+
  then have v: "v = (if w = 0 then ucast (push_bit 7 (drop_bit 31 f))
      else ucast (push_bit 7 (drop_bit 31 f) OR (w AND (push_bit M 1 - 1))))"
    unfolding v_def encode_finite [OF fmt fin] q_def [symmetric] k(3) w_def Let_def by simp
  note fields = masked_fields [where w = w and f = f and M = M]
  show "fp8_negative v = fp_negative f" unfolding v by (rule fields) (use d(3) in simp)
  have "unat w = (2 ^ 23 + unat ?m + 2 ^ (k - 1)) div 2 ^ k"
    unfolding w_def by (rule subnormal_word [OF m(2) k(1,2)])
  also have "\<dots> = (2 ^ 23 + unat ?m + 2 ^ (k - 1)) * 2 ^ q div (2 ^ k * 2 ^ q)" by simp
  also have "(2 ^ 23 + unat ?m + 2 ^ (k - 1)) * 2 ^ q = 2 * fp_mag f + u"
  proof -
    have "q \<noteq> 0" using q off by simp
    moreover have "fp_code f = q * 2 ^ 23 + unat ?m"
      unfolding q_def m(1) by (rule div_mult_mod_eq [symmetric])
    ultimately have "fp_mag f = (2 ^ 23 + unat ?m) * 2 ^ (q - 1)"
      using magnitude_split [OF _ m(2), of q] by (simp add: fp_mag_def)
    then have "2 * fp_mag f = (2 ^ 23 + unat ?m) * 2 ^ q" using \<open>q \<noteq> 0\<close> by (cases q) simp_all
    moreover have "2 ^ (k - 1) * 2 ^ q = u"
      unfolding u_def power_add [symmetric] k_def using q d(3) by simp
    ultimately show ?thesis by (simp only: distrib_right)
  qed
  also have "2 ^ k * 2 ^ q = 2 * u"
  proof -
    have "k + q = Suc (fp8_offset B + 23 - M)" using q d(3) by (simp add: k_def)
    then show ?thesis unfolding u_def power_add [symmetric] by simp
  qed
  finally show "fp8_code v = (2 * fp_mag f + u) div (2 * u) mod 2 ^ M"
    unfolding v using fields(2) d(3) by simp
qed

text \<open>Above the largest number: also only the fraction bits of what a shift leaves.\<close>

lemma encode_big:
  fixes far :: far_shift
  assumes fmt: "fp8_format E M B"
    and c: "(fp8_offset B + (2 ^ E - 1)) * 2 ^ 23 \<le> fp_code f" "fp_code f < inf_code"
  defines "v \<equiv> fp32_to_fp8 far E M (int B) f"
  shows "fp8_negative v = fp_negative f" "fp8_code v < 2 ^ M"
proof -
  note d = fp8_formatD [OF fmt]
  have "fp8_offset B + (2 ^ E - 1) \<le> fp_code f div 2 ^ 23"
    using c(1) by (simp add: less_eq_div_iff_mult_less_eq)
  then have "\<not> int (fp_code f div 2 ^ 23) - int (fp8_offset B) \<le> 2 ^ E - 2"
    "\<not> int (fp_code f div 2 ^ 23) - int (fp8_offset B) < 1 - int M"
    using d(7,8) by linarith+
  then have no: "(1 \<le> int (fp_code f div 2 ^ 23) - int (fp8_offset B) \<and>
      int (fp_code f div 2 ^ 23) - int (fp8_offset B) \<le> 2 ^ E - 2) = False"
    "(int (fp_code f div 2 ^ 23) - int (fp8_offset B) < 1 - int M) = False"
    by blast+
  have "\<exists>w. v = (if w = 0 then ucast (push_bit 7 (drop_bit 31 f))
      else ucast (push_bit 7 (drop_bit 31 f) OR (w AND (push_bit M 1 - 1))))"
    unfolding v_def encode_finite [OF fmt c(2)] Let_def no if_False by (rule exI, rule refl)
  then obtain w where v: "v = (if w = 0 then ucast (push_bit 7 (drop_bit 31 f))
      else ucast (push_bit 7 (drop_bit 31 f) OR (w AND (push_bit M 1 - 1))))" ..
  show "fp8_negative v = fp_negative f" "fp8_code v < 2 ^ M"
    using masked_fields [where w = w and f = f and M = M] d(3) unfolding v by simp_all
qed

end
