(* ===== verification/Float8_Decode.thy ===== *)
theory Float8_Decode
  imports Float8_Round
begin

text \<open>
  The decoders are exact: none of their floating-point operations rounds. Also the conversions to
  \<open>bfloat\<close> and back.
\<close>

section \<open>Numbers and what they denote\<close>

definition denotes :: "u32 \<Rightarrow> bool \<Rightarrow> nat \<Rightarrow> bool" where
  "denotes x neg v \<longleftrightarrow> fp_code x < inf_code \<and> fp_negative x = neg \<and> fp_mag x = v"

lemma denotesD:
  assumes "denotes x neg v"
  shows "\<not> is_nan x" "\<not> is_inf x" "fp_negative x = neg" "fp_mag x = v"
  using assms by (simp_all add: denotes_def is_nan_def is_inf_def)

text \<open>A number of few significant bits is a number of the format.\<close>

lemma representable:
  assumes "n < 2 ^ Suc M"
  shows "\<exists>c. magnitude M c = n * 2 ^ j"
  using assms
proof (induction j arbitrary: n)
  case 0
  show ?case
  proof (cases "n < 2 ^ M")
    case True
    then show ?thesis by (auto intro!: exI [of _ n] simp: magnitude_def)
  next
    case False
    then show ?thesis
      using magnitude_split [of 1 "n - 2 ^ M" M] 0 by (auto intro!: exI [of _ n])
  qed
next
  case (Suc j)
  show ?case
  proof (cases "n < 2 ^ M")
    case True
    then show ?thesis using Suc.IH [of "2 * n"] by (simp add: mult_ac)
  next
    case False
    then have "magnitude M (Suc (Suc j) * 2 ^ M + (n - 2 ^ M)) = n * 2 ^ Suc j"
      using magnitude_split [of "Suc (Suc j)" "n - 2 ^ M" M] Suc.prems by simp
    then show ?thesis by blast
  qed
qed

lemma magnitude_less_iff [simp]: "magnitude M a < magnitude M b \<longleftrightarrow> a < b"
  using magnitude_strict_mono magnitude_mono by (meson not_le)

lemma magnitude_inf: "magnitude 23 inf_code = 2 ^ 277"
  using magnitude_split [of 255 0 23] by (simp flip: power_add)

lemma denotes_nearest:
  assumes "0 < q" "p = q * (n * 2 ^ j)" "n < 2 ^ 24" "n * 2 ^ j < 2 ^ 277"
  shows "denotes (fp_nearest neg p q) neg (n * 2 ^ j)"
proof -
  obtain c where c: "magnitude 23 c = n * 2 ^ j" using representable [of n 23 j] assms(3) by auto
  then have "magnitude 23 c < magnitude 23 inf_code" unfolding magnitude_inf using assms(4) by simp
  then have lt: "c < inf_code" by simp
  then have "fp_nearest neg p q = fp_pack neg c" using assms(1,2) c by (simp add: fp_nearest_exact)
  then show ?thesis using lt c by (simp add: denotes_def fp_mag_def fp_pack_fields)
qed

lemma denotes_of_uint: "unat n < 2 ^ 24 \<Longrightarrow> denotes (fp_of_uint n) False (unat n * 2 ^ 149)"
proof -
  assume n: "unat n < 2 ^ 24"
  then have "unat n * 2 ^ 149 < 2 ^ 24 * 2 ^ 149" by simp
  then have "unat n * 2 ^ 149 < 2 ^ 277" by simp
  then show ?thesis using n unfolding fp_of_uint_def by (intro denotes_nearest) simp_all
qed

lemma denotes_ldexp:
  assumes x: "denotes x neg (n * 2 ^ i)" and n: "n < 2 ^ 24" "n * 2 ^ j < 2 ^ 277" and k: "int i + k = int j"
  shows "denotes (fp_ldexp x k) neg (n * 2 ^ j)"
proof -
  have "i + nat k = nat (- k) + j" using k by linarith
  then have e: "2 ^ i * 2 ^ nat k = 2 ^ nat (- k) * (2 :: nat) ^ j" by (simp flip: power_add)
  have "n * 2 ^ i * 2 ^ nat k = n * (2 ^ i * 2 ^ nat k)" by (rule mult.assoc)
  then have "n * 2 ^ i * 2 ^ nat k = 2 ^ nat (- k) * (n * 2 ^ j)" unfolding e by (simp only: mult_ac)
  then show ?thesis
    unfolding fp_ldexp_def using denotesD [OF x] n by (simp del: mult_cancel_left) (intro denotes_nearest, simp_all)
qed

section \<open>The decoders\<close>

text \<open>The fraction over \<open>2 ^ M\<close>.\<close>

lemma denotes_fraction:
  assumes "unat n < 2 ^ M" "unat d = 2 ^ M" "M \<le> 3"
  shows "denotes (fp_div (fp_of_uint n) (fp_of_uint d)) False (unat n * 2 ^ (149 - M))"
proof -
  have "(2 :: nat) ^ M \<le> 2 ^ 3" using assms(3) by (intro power_increasing) simp_all
  then have small: "unat n < 2 ^ 24" "unat d < 2 ^ 24" "unat n \<le> 8" using assms(1,2) by simp_all
  note num = denotesD [OF denotes_of_uint [OF small(1)]] and den = denotesD [OF denotes_of_uint [OF small(2)]]
  have pow: "(2 :: nat) ^ 149 = 2 ^ M * 2 ^ (149 - M)" using assms(3) by (simp flip: power_add)
  have "unat n * 2 ^ (149 - M) \<le> 8 * 2 ^ 149"
    using small(3) by (intro mult_mono power_increasing) simp_all
  then have "unat n * 2 ^ (149 - M) < 2 ^ 277" by simp
  moreover have "unat n * 2 ^ 149 * 2 ^ 149 = 2 ^ M * 2 ^ 149 * (unat n * 2 ^ (149 - M))"
    unfolding pow by (simp only: mult_ac)
  ultimately have "denotes (fp_nearest False (unat n * 2 ^ 149 * 2 ^ 149) (2 ^ M * 2 ^ 149)) False
      (unat n * 2 ^ (149 - M))"
    using small(1) by (intro denotes_nearest) simp_all
  then show ?thesis unfolding fp_div_def using num den assms(2) by simp
qed

lemma fp_add_positive:
  assumes "denotes x False a" "denotes y False b" "0 < a + b"
  shows "fp_add x y = fp_nearest False (a + b) 1"
  using denotesD [OF assms(1)] denotesD [OF assms(2)] assms(3)
  by (auto simp add: fp_add_def Let_def simp flip: of_nat_add)

lemma denotes_one_plus:
  assumes "denotes x False (n * 2 ^ (149 - M))" "n < 2 ^ M" "M \<le> 3"
  shows "denotes (fp_add (fp_of_uint 1) x) False ((2 ^ M + n) * 2 ^ (149 - M))"
proof -
  have one: "denotes (fp_of_uint 1) False (2 ^ 149)" using denotes_of_uint [of 1] by simp
  have "(2 :: nat) ^ M \<le> 2 ^ 3" using assms(3) by (intro power_increasing) simp_all
  then have small: "2 ^ M + n < 2 ^ 24" "2 ^ M + n \<le> 16" using assms(2) by simp_all
  have pow: "(2 :: nat) ^ 149 = 2 ^ M * 2 ^ (149 - M)" using assms(3) by (simp flip: power_add)
  have "(2 ^ M + n) * 2 ^ (149 - M) \<le> 16 * 2 ^ 149"
    using small(2) by (intro mult_mono power_increasing) simp_all
  then have "(2 ^ M + n) * 2 ^ (149 - M) < 2 ^ 277" by simp
  then have "denotes (fp_nearest False ((2 ^ M + n) * 2 ^ (149 - M)) 1) False ((2 ^ M + n) * 2 ^ (149 - M))"
    using small(1) by (intro denotes_nearest) simp_all
  moreover have "2 ^ 149 + n * 2 ^ (149 - M) = (2 ^ M + n) * 2 ^ (149 - M)"
    unfolding pow by (simp only: distrib_right)
  moreover have "fp_add (fp_of_uint 1) x = fp_nearest False (2 ^ 149 + n * 2 ^ (149 - M)) 1"
    by (rule fp_add_positive [OF one assms(1)]) simp
  ultimately show ?thesis by simp
qed

lemma denotes_neg: "denotes x neg v \<Longrightarrow> denotes (fp_neg x) (\<not> neg) v"
  by (simp add: denotes_def fp_mag_def fp_neg_fields)

text \<open>The fields of a byte, for a format with \<open>M\<close> fraction bits.\<close>

lemma byte_fields:
  "drop_bit 7 v \<noteq> 0 \<longleftrightarrow> fp8_negative v"
  "unat (drop_bit 3 v AND 0xF) = fp8_code v div 2 ^ 3" "unat (v AND 0x7) = fp8_code v mod 2 ^ 3"
  "unat (drop_bit 2 v AND 0x1F) = fp8_code v div 2 ^ 2" "unat (v AND 0x3) = fp8_code v mod 2 ^ 2"
proof -
  have m: "x AND 0xF = take_bit 4 x" "x AND 0x7 = take_bit 3 x" "x AND 0x1F = take_bit 5 x"
    "x AND 0x3 = take_bit 2 x" for x :: u8
    by (simp_all add: take_bit_eq_mask mask_eq_exp_minus_1)
  have "unat v < 2 * 2 ^ 7" using unsigned_less [of v, where 'a = nat] by simp
  then have "unat v div 2 ^ 7 < 2" by (rule less_mult_imp_div_less)
  then show "drop_bit 7 v \<noteq> 0 \<longleftrightarrow> fp8_negative v"
    unfolding word_unat_eq_iff unat_drop_bit fp8_negative_div by (auto simp: less_2_cases_iff)
  show "unat (drop_bit 3 v AND 0xF) = fp8_code v div 2 ^ 3" "unat (v AND 0x7) = fp8_code v mod 2 ^ 3"
    "unat (drop_bit 2 v AND 0x1F) = fp8_code v div 2 ^ 2" "unat (v AND 0x3) = fp8_code v mod 2 ^ 2"
    unfolding m unat_take_bit unat_drop_bit fp8_code_mod take_bit_eq_mod [symmetric] drop_bit_eq_div [symmetric]
    by (simp_all add: drop_bit_take_bit)
qed

lemma denotes_sign: "denotes x False a \<Longrightarrow> denotes (if neg then fp_neg x else x) neg a"
  using denotes_neg by (cases neg) fastforce+

text \<open>The value of a byte from its fields, scaled by \<open>ldexp\<close>.\<close>

lemma denotes_subnormal:
  assumes n: "unat n < 2 ^ M" "unat d = 2 ^ M" and fmt: "fp8_format E M B" and k: "k = 1 - int B"
  shows "denotes (fp_ldexp (fp_div (fp_of_uint n) (fp_of_uint d)) k) False
    (unat n * 2 ^ (fp8_offset B + 23 - M))"
proof (rule denotes_ldexp [OF denotes_fraction [OF n]])
  note d = fp8_formatD [OF fmt]
  have M: "(2 :: nat) ^ M \<le> 2 ^ 3" using d(3) by (intro power_increasing) simp_all
  then show "unat n < 2 ^ 24" using n(1) by simp
  have "fp8_offset B + 23 - M \<le> 149" using d(2) by (simp add: fp8_offset_def)
  then have "unat n * 2 ^ (fp8_offset B + 23 - M) \<le> 8 * 2 ^ 149"
    using n(1) M by (intro mult_mono power_increasing) simp_all
  then show "unat n * 2 ^ (fp8_offset B + 23 - M) < 2 ^ 277" by simp
  show "int (149 - M) + k = int (fp8_offset B + 23 - M)"
    using fmt k by (auto simp: fp8_format_def fp8_offset_def)
  show "M \<le> 3" by (rule d(3))
qed

lemma denotes_normal:
  assumes n: "unat n < 2 ^ M" "unat d = 2 ^ M" and fmt: "fp8_format E M B" and k: "k = int ex - int B"
    and ex: "0 < ex" "ex < 2 ^ E"
  shows "denotes (fp_ldexp (fp_add (fp_of_uint 1) (fp_div (fp_of_uint n) (fp_of_uint d))) k) False
    ((2 ^ M + unat n) * 2 ^ (ex - 1 + (fp8_offset B + 23 - M)))"
proof (rule denotes_ldexp [OF denotes_one_plus [OF denotes_fraction [OF n] n(1)]])
  note d = fp8_formatD [OF fmt]
  have M: "(2 :: nat) ^ M \<le> 2 ^ 3" using d(3) by (intro power_increasing) simp_all
  then show "2 ^ M + unat n < 2 ^ 24" using n(1) by simp
  have "ex \<le> 32" using ex(2) fmt by (auto simp: fp8_format_def)
  then have "ex - 1 + (fp8_offset B + 23 - M) \<le> 200" by (simp add: fp8_offset_def)
  then have "(2 ^ M + unat n) * 2 ^ (ex - 1 + (fp8_offset B + 23 - M)) \<le> 16 * 2 ^ 200"
    using n(1) M by (intro mult_mono power_increasing) simp_all
  then show "(2 ^ M + unat n) * 2 ^ (ex - 1 + (fp8_offset B + 23 - M)) < 2 ^ 277" by simp
  show "int (149 - M) + k = int (ex - 1 + (fp8_offset B + 23 - M))"
    using fmt k ex(1) by (auto simp: fp8_format_def fp8_offset_def)
  show "M \<le> 3" "M \<le> 3" by (rule d(3))+
qed

text \<open>The decoders as instances of one scheme.\<close>

definition decodes :: "nat \<Rightarrow> nat \<Rightarrow> nat \<Rightarrow> (u8 \<Rightarrow> u32) \<Rightarrow> bool" where
  "decodes E M B dec \<longleftrightarrow> fp8_format E M B \<and> (\<forall>v.
     (fp8_code v < fp8_inf E M \<longrightarrow>
        denotes (dec v) (fp8_negative v) (magnitude M (fp8_code v) * 2 ^ (fp8_offset B + 23 - M))) \<and>
     (fp8_code v = fp8_inf E M \<longrightarrow> dec v = (if fp8_negative v then fp_neg fp_inf else fp_inf)) \<and>
     (fp8_inf E M < fp8_code v \<longrightarrow> dec v = fp_nan))"

lemma decodesI:
  assumes fmt: "fp8_format E M B" and d: "unat d = 2 ^ M"
    and dec: "\<And>v. \<exists>n. unat n = fp8_code v mod 2 ^ M \<and> dec v =
      (let ex = fp8_code v div 2 ^ M in
       if ex = 0 then
         if n = 0 then (if fp8_negative v then fp_neg 0 else 0)
         else let val = fp_ldexp (fp_div (fp_of_uint n) (fp_of_uint d)) (1 - int B)
              in if fp8_negative v then fp_neg val else val
       else if ex = 2 ^ E - 1 then
         if n \<noteq> 0 then fp_nan else if fp8_negative v then fp_neg fp_inf else fp_inf
       else let val = fp_ldexp (fp_add (fp_of_uint 1) (fp_div (fp_of_uint n) (fp_of_uint d))) (int ex - int B)
            in if fp8_negative v then fp_neg val else val)"
  shows "decodes E M B dec"
  unfolding decodes_def
proof (intro conjI allI impI fmt)
  fix v
  define c where "c = fp8_code v"
  define ex where "ex = c div 2 ^ M"
  obtain n where n: "unat n = c mod 2 ^ M" and v: "dec v =
      (if ex = 0 then
         if n = 0 then (if fp8_negative v then fp_neg 0 else 0)
         else let val = fp_ldexp (fp_div (fp_of_uint n) (fp_of_uint d)) (1 - int B)
              in if fp8_negative v then fp_neg val else val
       else if ex = 2 ^ E - 1 then
         if n \<noteq> 0 then fp_nan else if fp8_negative v then fp_neg fp_inf else fp_inf
       else let val = fp_ldexp (fp_add (fp_of_uint 1) (fp_div (fp_of_uint n) (fp_of_uint d))) (int ex - int B)
            in if fp8_negative v then fp_neg val else val)"
    using dec [of v] unfolding c_def [symmetric] ex_def Let_def by blast
  note f = fp8_formatD [OF fmt]
  have c: "c = ex * 2 ^ M + unat n" unfolding n ex_def by (rule div_mult_mod_eq [symmetric])
  have nlt: "unat n < 2 ^ M" by (simp add: n)
  have n0: "n = 0 \<longleftrightarrow> unat n = 0" by (simp add: unsigned_eq_0_iff)
  have "2 ^ E * 2 ^ M = (128 :: nat)" using f(1) by (simp flip: power_add)
  moreover have "c < 128" by (simp add: c_def fp8_code_mod)
  ultimately have exE: "ex < 2 ^ E" unfolding ex_def by (intro less_mult_imp_div_less) simp
  define K where "K = fp8_offset B + 23 - M"
  show "denotes (dec v) (fp8_negative v) (magnitude M (fp8_code v) * 2 ^ (fp8_offset B + 23 - M))"
    if "fp8_code v < fp8_inf E M"
  proof -
    have "ex * 2 ^ M + unat n < (2 ^ E - 1) * 2 ^ M"
      using that unfolding c_def [symmetric] fp8_inf_def c .
    then have "ex * 2 ^ M < (2 ^ E - 1) * 2 ^ M" by (rule le_less_trans [OF le_add1])
    then have ne: "ex \<noteq> 2 ^ E - 1" by (metis less_irrefl)
    consider (zero) "ex = 0" "n = 0" | (sub) "ex = 0" "n \<noteq> 0" | (norm) "ex \<noteq> 0" by blast
    then show ?thesis
    proof cases
      case zero
      have "denotes 0 False 0" by (simp add: denotes_def fp_code_def fp_mag_def fp_negative_def)
      with denotes_sign [OF this] show ?thesis using zero v c n0 by (simp add: c_def [symmetric])
    next
      case sub
      have "magnitude M c = unat n" using c sub(1) nlt by (simp add: magnitude_def)
      with denotes_sign [OF denotes_subnormal [OF nlt d fmt refl]] show ?thesis
        using sub v by (simp add: c_def [symmetric] Let_def)
    next
      case norm
      have "magnitude M c = (2 ^ M + unat n) * 2 ^ (ex - 1)" unfolding c using norm nlt by (intro magnitude_split)
      then have "(2 ^ M + unat n) * 2 ^ (ex - 1 + (fp8_offset B + 23 - M)) =
          magnitude M c * 2 ^ (fp8_offset B + 23 - M)"
        by (simp only: power_add mult.assoc)
      with denotes_sign [OF denotes_normal [OF nlt d fmt refl _ exE]] show ?thesis
        using norm ne v by (simp only: c_def [symmetric] Let_def if_False neq0_conv) simp
    qed
  qed
  show "dec v = (if fp8_negative v then fp_neg fp_inf else fp_inf)" if "fp8_code v = fp8_inf E M"
  proof -
    have "ex = 2 ^ E - 1" "unat n = 0"
      using that unfolding ex_def n by (simp_all add: c_def [symmetric] fp8_inf_def)
    then show ?thesis using v n0 f(7) by simp
  qed
  show "dec v = fp_nan" if "fp8_inf E M < fp8_code v"
  proof -
    have "2 ^ E - 1 \<le> ex" unfolding ex_def
      using that by (simp add: c_def [symmetric] fp8_inf_def less_eq_div_iff_mult_less_eq)
    then have ex: "ex = 2 ^ E - 1" using exE by simp
    then have "unat n \<noteq> 0" using that c by (simp add: c_def [symmetric] fp8_inf_def)
    then show ?thesis using v n0 ex f(7) by simp
  qed
qed

lemma decodes_e4m3: "decodes 4 3 7 fp8_e4m3_to_float"
proof (rule decodesI [where d = 8])
  fix v
  have ex: "drop_bit 3 v AND 0xF = 0 \<longleftrightarrow> fp8_code v div 2 ^ 3 = 0"
    "drop_bit 3 v AND 0xF = 0xF \<longleftrightarrow> fp8_code v div 2 ^ 3 = 2 ^ 4 - 1"
    unfolding word_unat_eq_iff byte_fields by simp_all
  have n: "unat (ucast (v AND 0x7) :: u32) = fp8_code v mod 2 ^ 3"
    by (simp add: unsigned_ucast_eq take_bit_nat_eq_self byte_fields)
  have n0: "(ucast (v AND 0x7) :: u32) = 0 \<longleftrightarrow> v AND 0x7 = 0"
    unfolding word_unat_eq_iff n byte_fields by simp
  show "\<exists>n. unat n = fp8_code v mod 2 ^ 3 \<and> fp8_e4m3_to_float v =
      (let ex = fp8_code v div 2 ^ 3 in
       if ex = 0 then
         if n = 0 then (if fp8_negative v then fp_neg 0 else 0)
         else let val = fp_ldexp (fp_div (fp_of_uint n) (fp_of_uint 8)) (1 - int 7)
              in if fp8_negative v then fp_neg val else val
       else if ex = 2 ^ 4 - 1 then
         if n \<noteq> 0 then fp_nan else if fp8_negative v then fp_neg fp_inf else fp_inf
       else let val = fp_ldexp (fp_add (fp_of_uint 1) (fp_div (fp_of_uint n) (fp_of_uint 8))) (int ex - int 7)
            in if fp8_negative v then fp_neg val else val)"
    by (rule exI [of _ "ucast (v AND 0x7)"])
      (simp only: n n0 fp8_e4m3_to_float_def Let_def ex byte_fields of_nat_numeral simp_thms)
qed (simp_all add: fp8_format_def)

lemma decodes_e5m2: "decodes 5 2 15 fp8_e5m2_to_float"
proof (rule decodesI [where d = 4])
  fix v
  have ex: "drop_bit 2 v AND 0x1F = 0 \<longleftrightarrow> fp8_code v div 2 ^ 2 = 0"
    "drop_bit 2 v AND 0x1F = 0x1F \<longleftrightarrow> fp8_code v div 2 ^ 2 = 2 ^ 5 - 1"
    unfolding word_unat_eq_iff byte_fields by simp_all
  have n: "unat (ucast (v AND 0x3) :: u32) = fp8_code v mod 2 ^ 2"
    by (simp add: unsigned_ucast_eq take_bit_nat_eq_self byte_fields)
  have n0: "(ucast (v AND 0x3) :: u32) = 0 \<longleftrightarrow> v AND 0x3 = 0"
    unfolding word_unat_eq_iff n byte_fields by simp
  show "\<exists>n. unat n = fp8_code v mod 2 ^ 2 \<and> fp8_e5m2_to_float v =
      (let ex = fp8_code v div 2 ^ 2 in
       if ex = 0 then
         if n = 0 then (if fp8_negative v then fp_neg 0 else 0)
         else let val = fp_ldexp (fp_div (fp_of_uint n) (fp_of_uint 4)) (1 - int 15)
              in if fp8_negative v then fp_neg val else val
       else if ex = 2 ^ 5 - 1 then
         if n \<noteq> 0 then fp_nan else if fp8_negative v then fp_neg fp_inf else fp_inf
       else let val = fp_ldexp (fp_add (fp_of_uint 1) (fp_div (fp_of_uint n) (fp_of_uint 4))) (int ex - int 15)
            in if fp8_negative v then fp_neg val else val)"
    by (rule exI [of _ "ucast (v AND 0x3)"])
      (simp only: n n0 fp8_e5m2_to_float_def Let_def ex byte_fields of_nat_numeral simp_thms)
qed (simp_all add: fp8_format_def)

end
