(* ===== verification/Float_Props.thy ===== *)
theory Float_Props
  imports Float8_Decode
begin

text \<open>
  The properties of the conversions to eight and sixteen bits.
\<close>

section \<open>Round trips\<close>

lemma fp8_eqI: "fp8_negative v = fp8_negative w \<Longrightarrow> fp8_code v = fp8_code w \<Longrightarrow> v = w"
  by (simp add: word_unat_eq_iff unat_fp8)

lemma fp8_inf_less: "fp8_format E M B \<Longrightarrow> fp8_inf E M < 127"
  by (auto simp: fp8_format_def fp8_inf_def)

lemma fp_inf_fields: "fp_negative fp_inf = False" "fp_code fp_inf = inf_code"
  "fp_negative fp_nan = False" "fp_code fp_nan = 2143289344"
  by (simp_all add: fp_inf_def fp_nan_def fp_negative_def fp_code_def)

lemma magnitude_power: "magnitude M (Suc q * 2 ^ M) = 2 ^ (M + q)"
  using magnitude_split [of "Suc q" 0 M] by (simp add: power_add)

text \<open>
  A codec is a decoder with the encoder of its format; the two pairs of functions of the file
  are its instances.
\<close>

locale fp8_codec =
  fixes E M B :: nat and dec :: "u8 \<Rightarrow> u32" and enc :: "far_shift \<Rightarrow> u32 \<Rightarrow> u8"
  assumes dec: "decodes E M B dec"
    and enc: "enc far f = fp32_to_fp8 far E M (int B) f"
begin

lemma format: "fp8_format E M B"
  using dec by (simp add: decodes_def)

lemma roundtrip:
  fixes far :: far_shift
  shows "enc far (dec v) =
    (if fp8_code v \<le> fp8_inf E M then v else word_of_nat (Suc (fp8_inf E M)))"
proof -
  note fmt = format and d = fp8_formatD [OF format]
  have off: "M \<le> fp8_offset B" using fmt by (auto simp: fp8_format_def fp8_offset_def)
  let ?f = "dec v" and ?b = "fp8_offset B" and ?c = "fp8_code v"
  let ?v = "fp32_to_fp8 far E M (int B) (dec v)"
  define u where "u = (2 :: nat) ^ (?b + 23 - M)"
  have u: "0 < u" "2 ^ ?b * 2 ^ (23 - M) = u" using d(3) by (simp_all add: u_def flip: power_add)
  consider (big) "fp8_inf E M < ?c" | (inf) "?c = fp8_inf E M" | (num) "?c < fp8_inf E M" by linarith
  then have "?v = (if fp8_code v \<le> fp8_inf E M then v else word_of_nat (Suc (fp8_inf E M)))"
  proof cases
    case big
    then have f: "?f = fp_nan" using dec by (simp add: decodes_def)
    then have "fp8_negative ?v = False" "fp8_code ?v = Suc (fp8_inf E M)"
      using encode_special [OF fmt, of ?f] by (simp_all add: fp_inf_fields)
    moreover have "unat (word_of_nat (Suc (fp8_inf E M)) :: u8) = Suc (fp8_inf E M)"
      using fp8_inf_less [OF fmt] by (simp add: unsigned_of_nat take_bit_nat_eq_self del: of_nat_Suc)
    ultimately have "?v = word_of_nat (Suc (fp8_inf E M))"
      using fp8_inf_less [OF fmt] fp8_fields [of "word_of_nat (Suc (fp8_inf E M))" False]
      by (intro fp8_eqI) simp_all
    then show ?thesis using big by simp
  next
    case inf
    then have f: "?f = (if fp8_negative v then fp_neg fp_inf else fp_inf)" using dec by (simp add: decodes_def)
    then have "fp_code ?f = inf_code" "fp_negative ?f = fp8_negative v"
      by (simp_all add: fp_neg_fields fp_inf_fields)
    then have "fp8_negative ?v = fp8_negative v" "fp8_code ?v = ?c"
      using encode_special [OF fmt, of ?f] inf by simp_all
    then show ?thesis using inf fp8_eqI by simp
  next
    case num
    then have "denotes ?f (fp8_negative v) (magnitude M ?c * u)" using dec by (simp add: decodes_def u_def)
    then have f: "fp_negative ?f = fp8_negative v" "magnitude 23 (fp_code ?f) = magnitude M ?c * u"
      by (simp_all add: denotes_def fp_mag_def)
    have "fp8_negative ?v = fp8_negative v \<and> fp8_code ?v = ?c"
    proof (cases "?c < 2 ^ M")
      case False
      let ?n = "23 - M"
      have Mn: "M + ?n = 23" using d(3) by simp
      have "2 ^ M * 2 ^ ?n \<le> ?c * 2 ^ ?n" using False by simp
      then have lo: "2 ^ 23 \<le> ?c * 2 ^ ?n" using Mn by (simp flip: power_add)
      have "magnitude 23 (?b * 2 ^ 23 + ?c * 2 ^ ?n) = magnitude M ?c * u"
        using magnitude_shift [of ?b M ?n "?c * 2 ^ ?n"] lo Mn u(2) by simp
      then have code: "fp_code ?f = ?b * 2 ^ 23 + ?c * 2 ^ ?n" using f(2) by (metis magnitude_inject)
      have "?c * 2 ^ ?n < fp8_inf E M * 2 ^ ?n" using num by simp
      also have "\<dots> = (2 ^ E - 1) * 2 ^ 23" unfolding fp8_inf_def using Mn by (simp flip: power_add)
      finally have "fp_code ?f < (?b + (2 ^ E - 1)) * 2 ^ 23" unfolding code by (simp add: distrib_right)
      moreover have "(?b + 1) * 2 ^ 23 \<le> fp_code ?f" unfolding code using lo by simp
      moreover have "round_off ?n (fp_code ?f - ?b * 2 ^ 23) = ?c" unfolding code by (simp add: round_off_def)
      ultimately show ?thesis using encode_normal [OF fmt, of ?f] f(1) by simp
    next
      case True
      then have mag: "magnitude 23 (fp_code ?f) = ?c * u" using f(2) by (simp add: magnitude_def)
      show ?thesis
      proof (cases "?c = 0")
        case zero: True
        then have "magnitude 23 (fp_code ?f) = magnitude 23 0" using mag by simp
        then have "fp_code ?f = 0" by (simp only: magnitude_inject)
        then show ?thesis using encode_tiny [OF fmt, of ?f] f(1) zero off by simp
      next
        case False
        have "magnitude 23 ((?b + 1) * 2 ^ 23) = 2 ^ M * u"
          using magnitude_power [of 23 ?b] d(3) by (simp add: u_def add.commute flip: power_add)
        moreover have "magnitude 23 ((?b + 1 - M) * 2 ^ 23) = u"
          using magnitude_power [of 23 "?b - M"] off by (simp add: u_def Suc_diff_le add.commute)
        moreover have "u \<le> ?c * u" "?c * u < 2 ^ M * u" using False True u(1) by simp_all
        ultimately have "magnitude 23 (fp_code ?f) < magnitude 23 ((?b + 1) * 2 ^ 23)"
          "\<not> magnitude 23 (fp_code ?f) < magnitude 23 ((?b + 1 - M) * 2 ^ 23)"
          unfolding mag by simp_all
        then have range: "(?b + 1 - M) * 2 ^ 23 \<le> fp_code ?f" "fp_code ?f < (?b + 1) * 2 ^ 23"
          unfolding magnitude_less_iff by (simp_all only: not_less)
        have "(2 * (?c * u) + u) div (2 * u) = ?c"
          by (rule div_nat_eqI) (use u(1) in \<open>simp_all add: algebra_simps\<close>)
        then have "(2 * fp_mag ?f + u) div (2 * u) mod 2 ^ M = ?c"
          unfolding fp_mag_def mag using True by simp
        then show ?thesis using encode_subnormal [OF fmt range] f(1) by (simp add: u_def)
      qed
    qed
    then show ?thesis using num fp8_eqI by simp
  qed
  then show ?thesis by (simp only: enc)
qed

end

interpretation e4m3: fp8_codec 4 3 7 fp8_e4m3_to_float float_to_fp8_e4m3
  by unfold_locales (simp_all add: decodes_e4m3 float_to_fp8_e4m3_def)

interpretation e5m2: fp8_codec 5 2 15 fp8_e5m2_to_float float_to_fp8_e5m2
  by unfold_locales (simp_all add: decodes_e5m2 float_to_fp8_e5m2_def)

text \<open>
  C30. Decoding a byte and encoding it again gives the byte back, in both formats; the bytes that are
  no number give the NaN with the smallest code.
\<close>

theorem fp8_roundtrip:
  "float_to_fp8_e4m3 far (fp8_e4m3_to_float v) = (if fp8_code v \<le> fp8_inf 4 3 then v else 0x79) \<and>
   float_to_fp8_e5m2 far (fp8_e5m2_to_float v) = (if fp8_code v \<le> fp8_inf 5 2 then v else 0x7D)"
  using e4m3.roundtrip [of far v] e5m2.roundtrip [of far v] by (simp add: fp8_inf_def)

section \<open>Rounding\<close>

text \<open>From the smallest normal number of the target up to where its exponents end.\<close>

definition normal_range :: "nat \<Rightarrow> nat \<Rightarrow> u32 \<Rightarrow> bool" where
  "normal_range E B f \<longleftrightarrow>
     (fp8_offset B + 1) * 2 ^ 23 \<le> fp_code f \<and> fp_code f < (fp8_offset B + (2 ^ E - 1)) * 2 ^ 23"

text \<open>One unit of the target, in units of \<open>2^-149\<close>.\<close>

definition fp8_unit :: "nat \<Rightarrow> nat \<Rightarrow> nat" where
  "fp8_unit M B = 2 ^ (fp8_offset B + 23 - M)"

text \<open>
  C28. In the normal range the encoder rounds as IEEE 754 prescribes: to the nearest number of the
  target, ties to even, infinity included, and keeps the sign.
\<close>

theorem fp8_rounds_to_nearest:
  assumes "fp8_format E M B" "normal_range E B f"
  shows "fp8_negative (fp32_to_fp8 far E M (int B) f) = fp_negative f \<and>
    nearest_even M (fp8_inf E M) (fp8_unit M B) (fp_mag f) (fp8_code (fp32_to_fp8 far E M (int B) f))"
proof (rule conjI)
  note d = fp8_formatD [OF assms(1)]
  note range = assms(2) [unfolded normal_range_def, THEN conjunct1] assms(2) [unfolded normal_range_def, THEN conjunct2]
  note enc = encode_normal [OF assms(1) range, of far]
  show "fp8_negative (fp32_to_fp8 far E M (int B) f) = fp_negative f" by (rule enc)
  let ?d = "fp_code f - fp8_offset B * 2 ^ 23" and ?n = "23 - M"
  have Mn: "M + ?n = 23" using d(3) by simp
  have "2 ^ 23 \<le> ?d" "?d < (2 ^ E - 1) * 2 ^ 23" "fp8_offset B * 2 ^ 23 + ?d = fp_code f"
    using range by (simp_all add: distrib_right)
  moreover have "(2 ^ E - 1) * 2 ^ 23 = fp8_inf E M * 2 ^ ?n"
    unfolding fp8_inf_def using Mn by (simp flip: power_add)
  moreover have "(2 :: nat) ^ (fp8_offset B + ?n) = fp8_unit M B" using d(3) by (simp add: fp8_unit_def)
  ultimately show "nearest_even M (fp8_inf E M) (fp8_unit M B) (fp_mag f)
      (fp8_code (fp32_to_fp8 far E M (int B) f))"
    using round_off_nearest [of "fp8_offset B" M ?n ?d "fp8_inf E M"]
    unfolding enc(2) fp_mag_def Mn by simp
qed

text \<open>\<open>1.0625\<close> lies between \<open>1\<close> and \<open>1.125\<close> in E4M3, and is rounded to the even \<open>1\<close>.\<close>

theorem fp8_rounds_to_nearest_witness:
  "nearest_even 3 (fp8_inf 4 3) (fp8_unit 3 7) (fp_mag 0x3F880000) 0x38 \<and>
   fp32_to_fp8 (\<lambda>_ _ _. 0) 4 3 7 0x3F880000 = 0x38"
proof -
  have v: "fp32_to_fp8 (\<lambda>_ _ _. 0) 4 3 7 0x3F880000 = 0x38"
    by (simp add: fp32_to_fp8_def fp8_normal_def Let_def)
  have "normal_range 4 7 0x3F880000" by (simp add: normal_range_def fp8_offset_def fp_code_def)
  from fp8_rounds_to_nearest [of 4 3 7, OF _ this, of "\<lambda>_ _ _. 0"] show ?thesis
    using v by (simp add: fp8_format_def fp8_code_def)
qed

text \<open>
  C29. Outside the normal range the encoder does not round to the nearest number. A number above the
  range, whose nearest value is infinity, becomes a subnormal number or zero, whatever a device makes
  of shifts that are too far; a number below it is rounded half up, or dropped if it is less than one
  unit, and then its exponent is lost: what rounds up to the smallest normal number becomes zero.
\<close>

theorem fp8_out_of_range:
  assumes "fp8_format E M B" "fp_code f < inf_code" "\<not> normal_range E B f"
  shows "fp8_negative (fp32_to_fp8 far E M (int B) f) = fp_negative f \<and>
    ((fp8_offset B + 1) * 2 ^ 23 \<le> fp_code f \<longrightarrow>
      nearest_even M (fp8_inf E M) (fp8_unit M B) (fp_mag f) (fp8_inf E M) \<and>
      fp8_code (fp32_to_fp8 far E M (int B) f) < 2 ^ M) \<and>
    (fp_code f < (fp8_offset B + 1) * 2 ^ 23 \<longrightarrow>
      fp8_code (fp32_to_fp8 far E M (int B) f) =
        (if fp_mag f < fp8_unit M B then 0
         else (2 * fp_mag f + fp8_unit M B) div (2 * fp8_unit M B) mod 2 ^ M))"
proof -
  note d = fp8_formatD [OF assms(1)]
  have off: "M \<le> fp8_offset B" using assms(1) by (auto simp: fp8_format_def fp8_offset_def)
  consider (big) "(fp8_offset B + (2 ^ E - 1)) * 2 ^ 23 \<le> fp_code f"
    | (sub) "(fp8_offset B + 1 - M) * 2 ^ 23 \<le> fp_code f" "fp_code f < (fp8_offset B + 1) * 2 ^ 23"
    | (tiny) "fp_code f < (fp8_offset B + 1 - M) * 2 ^ 23"
    using assms(3) unfolding normal_range_def by linarith
  then have sign: "fp8_negative (fp32_to_fp8 far E M (int B) f) = fp_negative f"
    by cases (simp_all only: encode_big [OF assms(1) _ assms(2)] encode_subnormal [OF assms(1)]
      encode_tiny [OF assms(1)])
  have above: "nearest_even M (fp8_inf E M) (fp8_unit M B) (fp_mag f) (fp8_inf E M) \<and>
      fp8_code (fp32_to_fp8 far E M (int B) f) < 2 ^ M"
    if "(fp8_offset B + 1) * 2 ^ 23 \<le> fp_code f"
  proof -
    have big: "(fp8_offset B + (2 ^ E - 1)) * 2 ^ 23 \<le> fp_code f"
      using assms(3) that unfolding normal_range_def by linarith
    obtain k where k: "2 ^ E - 1 = Suc k" using d(7) by (cases "2 ^ E - 1 :: nat") simp_all
    have "fp8_unit M B * magnitude M (fp8_inf E M) = 2 ^ (fp8_offset B + 23 + k)"
      unfolding fp8_unit_def fp8_inf_def k magnitude_power power_add [symmetric]
      using d(3) by simp
    also have "\<dots> = magnitude 23 ((fp8_offset B + (2 ^ E - 1)) * 2 ^ 23)"
      unfolding k add_Suc_right magnitude_power by (simp add: ac_simps)
    also have "\<dots> \<le> fp_mag f" unfolding fp_mag_def by (rule magnitude_mono [OF big])
    finally show ?thesis
      using encode_big(2) [OF assms(1) big assms(2)] nearest_above by (simp add: fp8_unit_def)
  qed
  have "magnitude 23 ((fp8_offset B + 1 - M) * 2 ^ 23) = fp8_unit M B"
    using magnitude_power [of 23 "fp8_offset B - M"] off by (simp add: fp8_unit_def Suc_diff_le add.commute)
  then have unit: "fp_mag f < fp8_unit M B \<longleftrightarrow> fp_code f < (fp8_offset B + 1 - M) * 2 ^ 23"
    unfolding fp_mag_def by (metis magnitude_less_iff)
  have "fp8_code (fp32_to_fp8 far E M (int B) f) = (if fp_mag f < fp8_unit M B then 0
      else (2 * fp_mag f + fp8_unit M B) div (2 * fp8_unit M B) mod 2 ^ M)"
    if "fp_code f < (fp8_offset B + 1) * 2 ^ 23"
    using that unit encode_subnormal(2) [OF assms(1), of f far] encode_tiny(2) [OF assms(1), of f far]
    by (cases "fp_mag f < fp8_unit M B") (simp_all add: fp8_unit_def [symmetric])
  with sign above show ?thesis by blast
qed

text \<open>E4M3: \<open>256\<close> becomes zero, and so does the number just below \<open>2^-6\<close>.\<close>

theorem fp8_out_of_range_witness:
  "fp8_code (float_to_fp8_e4m3 (\<lambda>_ _ _. 0) 0x43800000) < 8 \<and>
   nearest_even 3 120 (fp8_unit 3 7) (fp_mag 0x43800000) 120 \<and>
   fp8_code (float_to_fp8_e4m3 (\<lambda>_ _ _. 0) 0x3C7FFFFF) = 0"
proof -
  have f: "fp8_format 4 3 7" "fp8_inf 4 3 = 120" "fp8_offset 7 = 120"
    by (simp_all add: fp8_format_def fp8_inf_def fp8_offset_def)
  have big: "fp_code 0x43800000 < inf_code" "\<not> normal_range 4 7 0x43800000"
    "(fp8_offset 7 + 1) * 2 ^ 23 \<le> fp_code 0x43800000"
    by (simp_all add: fp_code_def normal_range_def f)
  have small: "fp_code 0x3C7FFFFF < inf_code" "\<not> normal_range 4 7 0x3C7FFFFF"
    "fp_code 0x3C7FFFFF < (fp8_offset 7 + 1) * 2 ^ 23"
    by (simp_all add: fp_code_def normal_range_def f)
  have "fp_mag 0x3C7FFFFF = 0xFFFFFF * 2 ^ 119"
    by (simp add: fp_mag_def fp_code_def magnitude_def)
  then show ?thesis
    using fp8_out_of_range [OF f(1) big(1,2), of "\<lambda>_ _ _. 0"] fp8_out_of_range [OF f(1) small(1,2), of "\<lambda>_ _ _. 0"]
    big(3) small(3) by (simp add: float_to_fp8_e4m3_def f fp8_unit_def)
qed

section \<open>Bfloat\<close>

definition bfloat_negative :: "u16 \<Rightarrow> bool" where
  "bfloat_negative y = bit y 15"

definition bfloat_code :: "u16 \<Rightarrow> nat" where
  "bfloat_code y = unat (y AND 0x7FFF)"

lemma bfloat_code_mod: "bfloat_code y = unat y mod 2 ^ 15"
proof -
  have "y AND 0x7FFF = take_bit 15 y" by (simp add: take_bit_eq_mask mask_eq_exp_minus_1)
  then show ?thesis by (simp add: bfloat_code_def unat_take_bit)
qed

lemma bfloat_fields:
  assumes "unat y = (if neg then 2 ^ 15 else 0) + c" "c < 2 ^ 15"
  shows "bfloat_negative y = neg" "bfloat_code y = c"
proof -
  show "bfloat_code y = c" using assms by (simp add: bfloat_code_mod)
  have "bit y 15 = bit (unat y) 15" by (simp add: bit_unsigned_iff)
  also have "\<dots> = odd (unat y div 2 ^ 15)" by (rule bit_iff_odd)
  also have "\<dots> = neg" using assms by simp
  finally show "bfloat_negative y = neg" by (simp add: bfloat_negative_def)
qed

text \<open>Adding half a unit, and the last bit that is kept, rounds to even.\<close>

lemma add_half: "(c + (c div 65536 mod 2 + 32767)) div 65536 = round_off 16 c"
proof -
  define q r where "q = c div 65536" and "r = c mod 65536"
  have c: "c = q * 65536 + r" "r < 65536" by (simp_all add: q_def r_def)
  have ro: "round_off 16 c = (if 2 * r < 65536 then q else if 65536 < 2 * r then Suc q
      else if even q then q else Suc q)"
    by (simp add: round_off_def q_def r_def Let_def)
  have "q mod 2 = 0 \<and> even q \<or> q mod 2 = 1 \<and> odd q" by presburger
  moreover have "(c + (q mod 2 + 32767)) div 65536 = q + (r + (q mod 2 + 32767)) div 65536"
    by (simp add: c(1))
  moreover have "(r + k) div 65536 = (if r + k < 65536 then 0 else 1)" if "k \<le> 32768" for k
    using c(2) that by (intro div_nat_eqI) (simp_all split: if_splits)
  ultimately show ?thesis unfolding ro q_def [symmetric] by (elim disjE; simp; linarith)
qed

lemma bfloat_bits:
  fixes x :: u32
  shows "float_to_bfloat_bits x = (if is_nan x then 0x7FC0
    else word_of_nat ((if fp_negative x then 2 ^ 15 else 0) + round_off 16 (fp_code x)))"
proof -
  have "NOT 0x80000000 = (0x7FFFFFFF :: u32)" by (subst word_unat_eq_iff) simp
  then have nan: "x AND NOT 0x80000000 > 0x7F800000 \<longleftrightarrow> is_nan x"
    unfolding is_nan_def fp_code_def by (simp only: word_less_nat_alt) simp
  let ?s = "if fp_negative x then 32768 else 0 :: nat" and ?c = "fp_code x"
  have c: "unat x = ?s * 65536 + ?c" by (simp add: unat_float)
  have lsb: "unat (drop_bit 16 x AND 1) = ?c div 65536 mod 2"
  proof -
    have "unat (drop_bit 16 x AND 1) = unat x div 2 ^ 16 mod 2"
      unfolding and_1 odd_unat [symmetric] unat_drop_bit by (simp add: mod2_eq_if)
    also have "\<dots> = (?s + ?c div 65536) mod 2" unfolding c by simp
    also have "\<dots> = ?c div 65536 mod 2" by (simp add: mod2_eq_if)
    finally show ?thesis .
  qed
  have "float_to_bfloat_bits x = word_of_nat (?s + round_off 16 ?c)" if "\<not> is_nan x"
  proof -
    have lt: "?c \<le> inf_code" using that by (simp add: is_nan_def)
    have "?c div 65536 mod 2 \<le> 1" by simp
    then have "unat (x + ((drop_bit 16 x AND 1) + 0x7FFF)) = ?s * 65536 + (?c + (?c div 65536 mod 2 + 32767))"
      using lt lsb c by (simp add: unat_word_ariths(1))
    then have "unat (drop_bit 16 (x + ((drop_bit 16 x AND 1) + 0x7FFF))) = ?s + round_off 16 ?c"
      unfolding unat_drop_bit by (simp add: add_half [symmetric])
    then have "ucast (drop_bit 16 (x + ((drop_bit 16 x AND 1) + 0x7FFF))) =
        (word_of_nat (?s + round_off 16 ?c) :: u16)"
      by (metis of_nat_unat)
    then show ?thesis using that nan unfolding float_to_bfloat_bits_def Let_def by simp
  qed
  then show ?thesis using nan by (simp add: float_to_bfloat_bits_def)
qed

text \<open>
  C31. A \<open>float\<close> that is a number is stored as \<open>bfloat\<close> by rounding to the nearest one, ties to even,
  and keeps its sign; a NaN stays a NaN. Reading a \<open>bfloat\<close> and storing it again gives it back.
\<close>

theorem bfloat_rounds_to_nearest:
  "(if is_nan x then float_to_bfloat_bits x = 0x7FC0
    else nearest_even 7 32640 (2 ^ 16) (fp_mag x) (bfloat_code (float_to_bfloat_bits x)) \<and>
      bfloat_negative (float_to_bfloat_bits x) = fp_negative x) \<and>
   float_to_bfloat_bits (bfloat_bits_to_float y) = (if 32640 < bfloat_code y then 0x7FC0 else y)"
proof (rule conjI)
  have lt: "round_off 16 (fp_code x) < 2 ^ 15" if "\<not> is_nan x" for x
  proof -
    have "fp_code x div 2 ^ 16 < 2 ^ 15 - 1"
      using that by (intro less_mult_imp_div_less) (simp add: is_nan_def)
    then show ?thesis by (simp add: round_off_def Let_def)
  qed
  have num: "bfloat_code (float_to_bfloat_bits x) = round_off 16 (fp_code x) \<and>
      bfloat_negative (float_to_bfloat_bits x) = fp_negative x" if "\<not> is_nan x" for x
  proof -
    have "unat (float_to_bfloat_bits x) = (if fp_negative x then 2 ^ 15 else 0) + round_off 16 (fp_code x)"
      using lt [OF that] that
      by (simp add: bfloat_bits unsigned_of_nat take_bit_nat_eq_self del: of_nat_add)
    with bfloat_fields [OF this lt [OF that]] show ?thesis by simp
  qed
  have "nearest_even 7 32640 (2 ^ 16) (fp_mag x) (round_off 16 (fp_code x))" if "\<not> is_nan x"
  proof (cases "is_inf x")
    case True
    then show ?thesis
      using nearest_above [of "2 ^ 16" 7 32640 "fp_mag x"] magnitude_power [of 7 254]
      by (simp add: is_inf_def fp_mag_def magnitude_inf round_off_def)
  next
    case False
    then have "fp_code x < 32640 * 2 ^ 16" using that by (simp add: is_inf_def is_nan_def)
    then show ?thesis using round_off_nearest [of 0 7 16 "fp_code x" 32640] by (simp add: fp_mag_def)
  qed
  then show "if is_nan x then float_to_bfloat_bits x = 0x7FC0
    else nearest_even 7 32640 (2 ^ 16) (fp_mag x) (bfloat_code (float_to_bfloat_bits x)) \<and>
      bfloat_negative (float_to_bfloat_bits x) = fp_negative x"
    using num by (simp add: bfloat_bits)
  let ?x = "bfloat_bits_to_float y"
  have u: "unat ?x = unat y * 2 ^ 16"
    unfolding bfloat_bits_to_float_def unsigned_push_bit_eq
    using unsigned_less [of y, where 'a = nat]
    by (simp add: push_bit_eq_mult take_bit_nat_eq_self unsigned_ucast_eq)
  have "unat y < 2 * 2 ^ 15" using unsigned_less [of y, where 'a = nat] by simp
  then have "unat y div 2 ^ 15 < 2" by (rule less_mult_imp_div_less)
  moreover have "unat y = unat y div 2 ^ 15 * 2 ^ 15 + bfloat_code y"
    unfolding bfloat_code_mod by (rule div_mult_mod_eq [symmetric])
  ultimately have y: "unat y = (if unat y div 2 ^ 15 = 1 then 2 ^ 15 else 0) + bfloat_code y"
    by (auto simp: less_2_cases_iff)
  have code: "fp_code ?x = bfloat_code y * 2 ^ 16" "fp_negative ?x \<longleftrightarrow> unat y div 2 ^ 15 = 1"
    unfolding fp_code_mod fp_negative_div u bfloat_code_mod by (simp_all add: mult_mod_left)
  then have "is_nan ?x \<longleftrightarrow> 32640 < bfloat_code y" by (simp add: is_nan_def)
  moreover have "round_off 16 (fp_code ?x) = bfloat_code y" unfolding code by (simp add: round_off_def)
  ultimately show "float_to_bfloat_bits ?x = (if 32640 < bfloat_code y then 0x7FC0 else y)"
    using y unfolding bfloat_bits code(2) by (metis of_nat_unat ucast_id)
qed

end
