(* ===== verification/Convert_Fp8.thy ===== *)
theory Convert_Fp8
  imports Kernel_Machine Float_Props
begin

text \<open>
  The kernel \<open>convert_fp8_kernel\<close> of \<open>metal/convert_fp8.metal\<close>, which converts a buffer element by
  element. An element is a pattern of at most 32 bits; the machine is that of Kernel_Machine, so that
  the threads run in any order.
\<close>

section \<open>The types of elements\<close>

datatype fp_type = Uchar | Float | Half | Bfloat16

text \<open>Half precision: five bits of exponent, ten of fraction.\<close>

definition half_to_float :: "u32 \<Rightarrow> u32" where
  "half_to_float h =
     (let neg = bit h 15;
          c = unat (h AND 0x7FFF)
      in if 31744 < c then fp_nan
         else if c = 31744 then fp_pack neg inf_code
         else fp_nearest neg (magnitude 10 c * 2 ^ 125) 1)"

definition float_to_half :: "u32 \<Rightarrow> u32" where
  "float_to_half x =
     (if is_nan x then 0x7E00
      else (if fp_negative x then 0x8000 else 0) OR
        word_of_nat (if is_inf x then 31744 else round_ratio 10 31744 (fp_mag x) (2 ^ 125)))"

text \<open>The casts to \<open>float\<close> and from it. No branch of the kernel casts to or from \<open>uchar\<close>.\<close>

definition cast_to_float :: "fp_type \<Rightarrow> u32 \<Rightarrow> u32" where
  "cast_to_float t x =
     (case t of
        Uchar \<Rightarrow> x
      | Float \<Rightarrow> x
      | Half \<Rightarrow> half_to_float x
      | Bfloat16 \<Rightarrow> bfloat_bits_to_float (ucast x))"

definition cast_from_float :: "fp_type \<Rightarrow> u32 \<Rightarrow> u32" where
  "cast_from_float t x =
     (case t of
        Uchar \<Rightarrow> x
      | Float \<Rightarrow> x
      | Half \<Rightarrow> float_to_half x
      | Bfloat16 \<Rightarrow> ucast (float_to_bfloat_bits x))"

section \<open>The kernel\<close>

text \<open>The value a thread stores, from the value it has read.\<close>

definition convert_fp8 :: "far_shift \<Rightarrow> fp_type \<Rightarrow> fp_type \<Rightarrow> u32 \<Rightarrow> u32 \<Rightarrow> u32" where
  "convert_fp8 far src_t dst_t scale src_val =
     (if src_t = Uchar \<and> dst_t \<noteq> Uchar then
        let fp32_val = fp_mul (fp8_e4m3_to_float (ucast src_val)) scale
        in cast_from_float dst_t fp32_val
      else if src_t \<noteq> Uchar \<and> dst_t = Uchar then
        let fp32_val = fp_div (cast_to_float src_t src_val) scale
        in ucast (float_to_fp8_e4m3 far fp32_val)
      else if src_t = Uchar \<and> dst_t = Uchar then
        let fp32_val = fp_mul (fp8_e4m3_to_float (ucast src_val)) scale
        in ucast (float_to_fp8_e4m3 far fp32_val)
      else
        let fp32_val = fp_mul (cast_to_float src_t src_val) scale
        in cast_from_float dst_t fp32_val)"

definition convert_fp8_thread :: "nat \<Rightarrow> nat \<Rightarrow> u32 \<Rightarrow> u32 \<Rightarrow> ((nat \<times> int) \<times> (nat \<times> int)) list" where
  "convert_fp8_thread src dst num_elements gid =
     (if gid \<ge> num_elements then [] else [((dst, uint gid), (src, uint gid))])"

text \<open>The launch of \<open>n\<close> threads; no host function of the repository launches this kernel.\<close>

definition convert_fp8_kernel :: "far_shift \<Rightarrow> fp_type \<Rightarrow> fp_type \<Rightarrow> u32 \<Rightarrow> u32 \<Rightarrow> nat \<Rightarrow> nat \<Rightarrow> nat \<Rightarrow>
    (nat \<times> int \<Rightarrow> u32) \<Rightarrow> (nat \<times> int \<Rightarrow> u32) \<Rightarrow> bool" where
  "convert_fp8_kernel far src_t dst_t scale num_elements n src dst m m' =
     launch (convert_fp8 far src_t dst_t scale)
       (map (convert_fp8_thread src dst num_elements \<circ> word_of_nat) [0..<n]) m m'"

section \<open>What a launch does\<close>

lemma word_index: "i < n \<Longrightarrow> n \<le> 2 ^ 32 \<Longrightarrow> uint (word_of_nat i :: u32) = int i"
  by (simp add: unsigned_of_nat take_bit_nat_eq_self)

lemma convert_moves:
  assumes "unat k \<le> n" "n \<le> 2 ^ 32"
  shows "set (concat (map (convert_fp8_thread src dst k \<circ> word_of_nat) [0..<n])) =
    (\<lambda>i. ((dst, i), (src, i))) ` {0..<uint k}"
proof -
  have th: "set (convert_fp8_thread src dst k (word_of_nat i)) =
      (if unat k \<le> i then {} else {((dst, int i), (src, int i))})" if "i < n" for i
  proof -
    have "k \<le> word_of_nat i \<longleftrightarrow> unat k \<le> i"
      using that assms(2) by (simp add: word_le_nat_alt unsigned_of_nat take_bit_nat_eq_self)
    then show ?thesis using word_index [OF that assms(2)] by (simp add: convert_fp8_thread_def)
  qed
  have "set (concat (map (convert_fp8_thread src dst k \<circ> word_of_nat) [0..<n])) =
      (\<Union>i \<in> {..<n}. if unat k \<le> i then {} else {((dst, int i), (src, int i))})"
    using th by (simp add: atLeast0LessThan)
  also have "\<dots> = (\<lambda>i. ((dst, int i), (src, int i))) ` {..<unat k}"
    using assms(1) by (auto split: if_splits)
  also have "\<dots> = (\<lambda>i. ((dst, i), (src, i))) ` int ` {..<unat k}" by (simp add: image_image)
  also have "int ` {..<unat k} = {0..<uint k}"
    unfolding lessThan_atLeast0 image_int_atLeastLessThan uint_nat by simp
  finally show ?thesis .
qed

lemma convert_launch:
  assumes "unat k \<le> n" "n \<le> 2 ^ 32" "src \<noteq> dst"
  shows "\<exists>m'. convert_fp8_kernel far s t scale k n src dst m m'"
    and "convert_fp8_kernel far s t scale k n src dst m m' \<Longrightarrow>
      m' (b, i) = (if b = dst \<and> 0 \<le> i \<and> i < uint k then convert_fp8 far s t scale (m (src, i)) else m (b, i))"
proof -
  let ?mss = "map (convert_fp8_thread src dst k \<circ> word_of_nat) [0..<n]"
  note ms = convert_moves [OF assms(1,2), of src dst]
  have rf: "race_free (concat ?mss)" unfolding race_free_def ms using assms(3) by auto
  show "\<exists>m'. convert_fp8_kernel far s t scale k n src dst m m'"
    unfolding convert_fp8_kernel_def by (rule launch_ends)
  assume "convert_fp8_kernel far s t scale k n src dst m m'"
  then have m': "m' = moved (convert_fp8 far s t scale) (concat ?mss) m"
    unfolding convert_fp8_kernel_def race_free_launch [OF rf] .
  show "m' (b, i) = (if b = dst \<and> 0 \<le> i \<and> i < uint k then convert_fp8 far s t scale (m (src, i)) else m (b, i))"
  proof (cases "b = dst \<and> 0 \<le> i \<and> i < uint k")
    case True
    then have "((b, i), (src, i)) \<in> set (concat ?mss)" unfolding ms by auto
    then have "m' (b, i) = convert_fp8 far s t scale (m (src, i))" unfolding m' by (rule moved_in [OF rf])
    then show ?thesis using True by simp
  next
    case False
    then have "(b, i) \<notin> fst ` set (concat ?mss)" unfolding ms by auto
    then have "m' (b, i) = m (b, i)" unfolding m' by (rule moved_out)
    then show ?thesis using False by auto
  qed
qed

section \<open>Scale one\<close>

abbreviation one_point_zero :: u32 where
  "one_point_zero \<equiv> 0x3F800000"

lemma one_denotes: "denotes one_point_zero False (2 ^ 149)"
  using magnitude_power [of 23 126]
  by (simp add: denotes_def fp_code_def fp_negative_def fp_mag_def)

lemma fp_scale_one:
  "fp_mul x one_point_zero = (if is_nan x then fp_nan else x)"
  "fp_div x one_point_zero = (if is_nan x then fp_nan else x)"
proof -
  note one = denotesD [OF one_denotes]
  have self: "fp_nearest (fp_negative x) (fp_mag x * 2 ^ 149) (2 ^ 149) = x"
    if "\<not> is_nan x" "\<not> is_inf x"
    using that fp_nearest_exact [of "2 ^ 149" "fp_mag x * 2 ^ 149" "fp_code x" "fp_negative x"]
    by (simp add: fp_mag_def is_nan_def is_inf_def fp_pack_self mult.commute)
  have inf: "fp_pack (fp_negative x) inf_code = x" if "is_inf x"
    using that fp_pack_self [of x] by (simp add: is_inf_def)
  show "fp_mul x one_point_zero = (if is_nan x then fp_nan else x)"
    unfolding fp_mul_def one using self inf one(1,2) by simp
  show "fp_div x one_point_zero = (if is_nan x then fp_nan else x)"
    unfolding fp_div_def one using self inf one(1,2) by simp
qed

text \<open>
  Dequantising a buffer of bytes into a buffer of floats and quantising that again, both with
  scale 1, gives the bytes back, whatever the order of the threads; what is no number becomes one NaN.
\<close>

theorem convert_fp8_roundtrip:
  assumes "unat k \<le> n" "n \<le> 2 ^ 32" "src \<noteq> mid" "mid \<noteq> dst"
    and "convert_fp8_kernel far Uchar Float one_point_zero k n src mid m m1"
    and "convert_fp8_kernel far Float Uchar one_point_zero k n mid dst m1 m2"
    and "0 \<le> i" "i < uint k" "m (src, i) = ucast v"
  shows "m2 (dst, i) = ucast (if fp8_code v \<le> fp8_inf 4 3 then v else 0x79)"
proof -
  let ?f = "fp8_e4m3_to_float v"
  have v: "ucast (ucast v :: u32) = v"
    using unsigned_less [of v, where 'a = nat]
    by (subst word_unat_eq_iff) (simp add: unsigned_ucast_eq unat_take_bit)
  have "m1 (mid, i) = (if is_nan ?f then fp_nan else ?f)"
    using convert_launch(2) [OF assms(1-3) assms(5), of mid i] assms(7-9)
    by (simp add: convert_fp8_def cast_from_float_def fp_scale_one v)
  moreover have "is_nan ?f \<Longrightarrow> ?f = fp_nan"
    using decodes_e4m3 unfolding decodes_def denotes_def is_nan_def
    by (metis fp_inf_fields(2) fp_neg_fields(2) less_irrefl linorder_neqE_nat less_asym)
  ultimately have m1: "m1 (mid, i) = ?f" by auto
  have nan: "is_nan fp_nan" by (simp add: is_nan_def fp_inf_fields)
  have "m2 (dst, i) = ucast (float_to_fp8_e4m3 far (if is_nan ?f then fp_nan else ?f))"
    using convert_launch(2) [OF assms(1,2,4) assms(6), of dst i] assms(7,8)
    by (simp add: convert_fp8_def cast_to_float_def fp_scale_one m1)
  also have "(if is_nan ?f then fp_nan else ?f) = ?f" using \<open>is_nan ?f \<Longrightarrow> ?f = fp_nan\<close> by auto
  finally show ?thesis
    using e4m3.roundtrip [of far v] by (simp add: fp8_inf_def)
qed

text \<open>Two threads, one element: the byte of the number \<open>-1.5\<close>.\<close>

theorem convert_fp8_roundtrip_witness:
  "\<exists>m1 m2. convert_fp8_kernel (\<lambda>_ _ _. 0) Uchar Float one_point_zero 1 2 0 1 (\<lambda>_. 0xBC) m1 \<and>
    convert_fp8_kernel (\<lambda>_ _ _. 0) Float Uchar one_point_zero 1 2 1 2 m1 m2 \<and> m2 (2, 0) = 0xBC"
proof -
  let ?far = "\<lambda>_ _ _. 0"
  have n: "unat (1 :: u32) \<le> 2" "(2 :: nat) \<le> 2 ^ 32" "(0 :: nat) \<noteq> 1" "(1 :: nat) \<noteq> 2" by simp_all
  obtain m1 where m1: "convert_fp8_kernel ?far Uchar Float one_point_zero 1 2 0 1 (\<lambda>_. 0xBC) m1"
    using convert_launch(1) [OF n(1-3)] by blast
  obtain m2 where m2: "convert_fp8_kernel ?far Float Uchar one_point_zero 1 2 1 2 m1 m2"
    using convert_launch(1) [OF n(1,2,4)] by blast
  have "m2 (2, 0) = ucast (if fp8_code 0xBC \<le> fp8_inf 4 3 then 0xBC else 0x79 :: u8)"
    by (rule convert_fp8_roundtrip [OF n m1 m2]) simp_all
  then have "m2 (2, 0) = 0xBC" by (simp add: fp8_code_def fp8_inf_def)
  with m1 m2 show ?thesis by blast
qed

end
