(* ===== verification/Spec2Isabelle.thy ===== *)
theory Spec2Isabelle
  imports Radix_Props Radix_Main Node_Repr Pool_Props Runner_Slot_Props Runner_Lifetime Attention_Props
    Block_Flash Block_Chain Convert_Fp8
begin

text \<open>
  A model of sglang-mlx, an inference runtime that serves a language model with a paged key/value
  cache and shares the cached data of common prompt prefixes between requests.

  \<^bold>\<open>The program.\<close> \<open>ModelRunner\<close> (\<open>sglang_mlx/model_runner.py\<close>) owns one \<open>MHATokenPool\<close> with
  its \<open>TokenPoolAllocator\<close> (\<open>srt/mem_cache/memory_pool.py\<close>) and one \<open>RadixCache\<close>
  (\<open>srt/mem_cache/radix_cache.py\<close>, an implementation of the abstract class of
  \<open>base_prefix_cache.py\<close>, with the eviction strategies of \<open>evict_policy.py\<close> and the parameters
  of \<open>cache_init_params.py\<close>). A prefill looks the prompt up in the cache, allocates slots for the
  tokens that are not cached, calls the model, which stores keys and values in these slots through
  one \<open>PooledKVCache\<close> per layer, inserts the prompt with its slots in the cache and locks the node.
  A decode step allocates one slot, calls the model on one token and inserts the longer sequence.
  Finishing a request releases the lock. Beside that, \<open>metal_kernels.py\<close> offers operations on
  paged caches in blocks, implemented by the host functions of \<open>paged_attention/*.cpp\<close> and the
  compute kernels of \<open>paged_attention/metal\<close>.

  \<^bold>\<open>The theories.\<close>
  \<^item> Py_Prelude: exceptions and outcomes of Python calls, dictionaries as association lists, loops.
  \<^item> Cache_Types, Evict_Policy, Heapq: the data classes of \<open>base_prefix_cache.py\<close> and
    \<open>cache_init_params.py\<close>, the strategies, and the library module \<open>heapq\<close>, with the locales
    \<open>weak_order\<close> and \<open>priority_queue\<close>.
  \<^item> Token_Allocator: \<open>TokenPoolAllocator\<close>, with the locale \<open>slot_allocator\<close>.
  \<^item> Tree_Node, Radix_Cache: \<open>TreeNode\<close> and every method of \<open>RadixCache\<close>. Nodes are objects in
    an explicit store.
  \<^item> Radix_Tree, Radix_Inv: the shape of the tree and the invariant of the cache (locks, counters,
    evictable leaves). Radix_Match, Radix_Insert, Radix_Lock, Radix_Evict, Radix_Sizes: each method
    on the invariant. Radix_Reach, Radix_Steps: the state machine of the calls.
  \<^item> Prefix_Cache, Radix_Contract: the contract of a prefix cache (locale \<open>prefix_cache\<close>): its
    content is a prefix-closed map from token lists to slot lists; interpreted on \<open>RadixCache\<close>.
  \<^item> Radix_Policy: no method counts a hit, so LFU evicts as LRU. Radix_Stale: locks taken before a
    reset. Radix_Main: the \<open>__main__\<close> demonstration. Node_Repr: \<open>TreeNode.__repr__\<close>. Radix_Demo, Radix_Props: concrete caches and the
    properties of the cache.
  \<^item> Token_Pool, Pool_Props: \<open>MHATokenPool\<close> and \<open>PooledKVCache\<close>, over the array package as a
    parameter, and their properties.
  \<^item> Pooled_Cache, Evict_Slots: a prefix cache over an allocator (locale \<open>pooled_cache\<close>), and the
    slots that eviction frees.
  \<^item> Model_Runner: every function and method of \<open>model_runner.py\<close>. Runner_Inv, Runner_Steps,
    Runner_Forward, Runner_Generate, Runner_Reach: its invariant, its steps, \<open>generate\<close> against
    a reference without a cache, the reachable states. Runner_Demo, Runner_Props, Runner_Slots,
    Runner_Slot_Props: a concrete network and the properties of the runner. Runner_Lifetime: slots
    over the life of a runner, which never evicts.
  \<^item> Kernel_Machine: threads that run in any order over buffers. Block_Kernels: the host functions
    and kernels of the block operations, with 32-bit and 64-bit arithmetic. Block_Copy,
    Block_Reshape: what they move where.
  \<^item> Thread_Groups: programs of threads with barriers and shuffles, and when all their runs agree.
    Attention_Kernel: the kernel \<open>paged_attention\<close> and the same operations in a fixed order.
    Attention_Race, Attention_Run: which thread owns which location in each phase, and what each
    phase leaves. Attention_Real: the kernel on real numbers. Attention_Host: the host function and
    \<open>eval_gpu\<close>. Metal_Kernels: \<open>metal_kernels.py\<close>. Attention_Props: the properties of attention.
  \<^item> Block_Flash: \<open>reshape_and_cache_flash\<close>. Block_Chain: \<open>copy_blocks\<close> with pairs that depend on
    each other.
  \<^item> Float_Formats: floating-point formats by the codes of their numbers, rounding to nearest.
    Float_Ops: \<open>float\<close> as 32-bit patterns and its operations. Float8: \<open>metal/float8.metal\<close> and the
    conversions of \<open>metal/utils.metal\<close>. Float8_Round, Float8_Decode: the branches of the encoder, the
    exact values of the decoders. Float_Props: the locale \<open>fp8_codec\<close> with its two instances, and the
    properties. Convert_Fp8: the kernel of
    \<open>metal/convert_fp8.metal\<close>.

  \<^bold>\<open>State.\<close> The record \<open>radix_cache\<close> extends the world (object store, clock, node counter) by
  the attributes of the cache, \<open>token_allocator\<close> is the allocator, \<open>token_pool\<close> the buffers, and
  \<open>model_runner\<close> holds the cache (with the one allocator object that both share), the pool, the
  request states it has handed out and the dictionary \<open>active_requests\<close>. Every call returns an
  \<open>outcome\<close>: a value or an exception, both with the state reached, or divergence.

  \<^bold>\<open>What the lemmas show.\<close> For the cache: the invariant holds in every reachable state; lookup and
  insertion are lookup and extension of the map; locked prefixes survive every sequence of calls;
  eviction refines a run of single evictions of least unlocked leaves, which ends as soon as the
  target is reached; the walks terminate. For the pool: what is stored is fetched and nothing else
  changes, and two calls for the chunks of a prompt leave the pool as one call does. For the runner: each
  slot is free, in use or lost, cached slots hold the data of their prefix, and so prefix caching is
  transparent: \<open>generate\<close> returns exactly the tokens that sampling from the logits of the whole
  sequence would give. Also how slots are lost, and freed too early. For the kernels: each launch is
  free of races on admissible arguments, so that every interleaving gives the memory stated. For
  attention: for any arithmetic the result is that of one fixed order of the operations, on real
  numbers it is softmax attention over the tokens that were stored, up to the constant \<open>10^-6\<close>.
  For the conversions to 8-bit and 16-bit floats: in the normal range they round as IEEE 754
  prescribes, bytes survive a round trip, and where the 8-bit encoder fails to saturate or to carry.

  \<^bold>\<open>Parameters and what is assumed of them.\<close> The arrays of \<open>mlx.core\<close> are a type parameter with the
  record \<open>mlx\<close> of the operations used; \<open>mlx_laws\<close> is their documented meaning entry by entry, for
  arguments of fitting shape and of the one dtype of the pool, to which an assignment converts. The language model is a record of functions; \<open>model_law\<close> says that it
  implements a \<open>network\<close> through the caches it is given, \<open>model_total\<close> that it does not raise.
  The floating-point operations of the attention kernel are the record \<open>float_ops\<close>, without laws.
  Samplers, the loader of \<open>mlx_lm\<close>, the attention mask and the readings of the clock are arguments.
  The order in which Python lists a set is an argument too, constrained only to be a listing
  (\<open>set_order_ok\<close>). For each there is an instance in the witnesses.

  \<^bold>\<open>Loops and bounds.\<close> Python integers are \<open>int\<close>. Loops over the object graph are
  \<^theory_text>\<open>partial_function (option)\<close>s, and the properties prove that they return in every reachable
  state; there is no fuel. The loops of the kernels (\<open>strided\<close>) run on 32-bit integers and may
  overflow; \<open>sizes_ok\<close> and \<open>dims_ok\<close> are the sizes for which they do not: less than \<open>2^31\<close> blocks,
  slots, and entries of a block. \<open>copy_blocks\<close> doubles the number of a pair in a signed 32-bit integer,
  hence at most \<open>2^30\<close> pairs. The loops of the attention kernel (\<open>loop\<close>) are bounded by the shared
  memory that the host function checks (\<open>attention_loops_bounded\<close>, \<open>loop_strided\<close>), which
  \<open>attention_ready\<close> takes to be below \<open>2^31\<close> bytes.

  \<^bold>\<open>Types of entries.\<close> A kernel accesses a buffer with the types in its name, which the host functions
  take from some of the arrays. The properties require the other arrays to have these types
  (\<open>reshape_args\<close>, \<open>flash_args\<close>, \<open>attention_ready\<close>), which the code does not check. Index arrays that are
  not converted first are read as the 32-bit words of their buffer (\<open>index_words\<close>).

  \<^bold>\<open>Not modelled.\<close> Rounding in the attention kernel (its operations are a parameter), and that a
  compiler may fuse its multiplications and additions; devices that flush subnormal floats to zero
  (the decoders never compute one); the operators that \<open>utils.metal\<close> derives for its \<open>bfloat\<close> type
  from those of \<open>float\<close>; the queries of device attributes and the binding glue, which passes its
  arguments on; logging; the build files, tests and benchmarks.
\<close>

end
